(* ===== verification/Hudp_Prelude.thy ===== *)
theory Hudp_Prelude
  imports Main "HOL-Library.Word" "HOL-Library.Multiset"
begin

unbundle bit_operations_syntax

text \<open>
  Shared vocabulary of the development: names for the machine integers of the C++ sources, the
  object representation of an integer (little endian, as \<open>memcpy\<close> sees it on the supported
  hosts), flag tests, a sorted association list that plays the role of \<open>std::map\<close>, and the
  interfaces (locales) that more than one component provides.

  Result conventions: \<open>None\<close> at the outermost \<open>option\<close> of an operation means that the C++
  behaviour is undefined (an out-of-bounds access, a null or dangling pointer); a \<open>bool\<close> in the
  result is the value the C++ function returns.
\<close>

section \<open>Machine integers\<close>

type_synonym byte = "8 word"
type_synonym u8 = "8 word"
type_synonym u16 = "16 word"
type_synonym u32 = "32 word"
type_synonym u64 = "64 word"
type_synonym handle = string

named_theorems hudp_simps \<open>executable equations of the model, for evaluation\<close>

definition has_flag :: "'a::len word \<Rightarrow> 'a word \<Rightarrow> bool" where
  "has_flag f m \<longleftrightarrow> f AND m \<noteq> 0"

lemma has_flag_0 [simp]: "\<not> has_flag 0 m"
  by (simp add: has_flag_def)

lemma has_flag_or: "has_flag (f OR g) m \<longleftrightarrow> has_flag f m \<or> has_flag g m"
proof -
  have "(f OR g) AND m = (f AND m) OR (g AND m)"
    by (simp add: bit.conj_disj_distrib2)
  then show ?thesis by (simp add: has_flag_def or_eq_0_iff)
qed

lemma has_flag_exp: "has_flag f (2 ^ n) \<longleftrightarrow> bit f n"
  by (simp add: has_flag_def and_exp_eq_0_iff_not_bit)

lemma or_exp_absorb: "bit f n \<Longrightarrow> f OR 2 ^ n = (f :: 'a::len word)"
  by (rule bit_word_eqI) (auto simp: bit_simps)

lemma unat_less_exp: "unat (w :: 'a::len word) < 2 ^ LENGTH('a)"
  by (rule unsigned_less)

lemma unat_u16_less [simp]: "unat (w :: u16) < 65536"
  using unat_less_exp [of w] by simp

lemma unat_u16_le [simp]: "unat (w :: u16) \<le> 65535"
  using unat_u16_less [of w] by linarith

lemma unat_add_small_u16:
  "unat a + unat b < 65536 \<Longrightarrow> unat (a + b :: u16) = unat a + unat b"
  by (simp add: unat_word_ariths)

lemma unat_of_nat_u16: "n < 65536 \<Longrightarrow> unat (of_nat n :: u16) = n"
  by (simp add: unat_of_nat)

lemma unat_of_nat_u32: "n < 4294967296 \<Longrightarrow> unat (of_nat n :: u32) = n"
  by (simp add: unat_of_nat)


section \<open>Object representation of integers\<close>

fun bytes_of_nat :: "nat \<Rightarrow> nat \<Rightarrow> byte list" where
  "bytes_of_nat 0 k = []"
| "bytes_of_nat (Suc n) k = of_nat (k mod 256) # bytes_of_nat n (k div 256)"

fun nat_of_bytes :: "byte list \<Rightarrow> nat" where
  "nat_of_bytes [] = 0"
| "nat_of_bytes (b # bs) = unat b + 256 * nat_of_bytes bs"

lemma length_bytes_of_nat [simp]: "length (bytes_of_nat n k) = n"
  by (induction n arbitrary: k) auto

lemma nat_of_bytes_of_nat: "nat_of_bytes (bytes_of_nat n k) = k mod 256 ^ n"
proof (induction n arbitrary: k)
  case (Suc n)
  have "unat (of_nat (k mod 256) :: byte) = k mod 256"
    by (simp add: unat_of_nat)
  moreover have "k mod 256 + 256 * (k div 256 mod 256 ^ n) = k mod (256 * 256 ^ n)"
    by (metis add.commute mod_mult2_eq)
  ultimately show ?case by (simp add: Suc.IH)
qed simp

definition le_bytes :: "nat \<Rightarrow> 'a::len word \<Rightarrow> byte list" where
  "le_bytes n w = bytes_of_nat n (unat w)"

definition le_word :: "byte list \<Rightarrow> 'a::len word" where
  "le_word bs = of_nat (nat_of_bytes bs)"

lemma length_le_bytes [simp]: "length (le_bytes n w) = n"
  by (simp add: le_bytes_def)

lemma le_bytes_Nil_iff [simp]: "le_bytes n w = [] \<longleftrightarrow> n = 0"
  by (metis length_0_conv length_le_bytes)

lemma le_word_le_bytes:
  fixes w :: "'a::len word"
  assumes "LENGTH('a) \<le> 8 * n"
  shows "le_word (le_bytes n w) = w"
proof -
  have "(2::nat) ^ LENGTH('a) \<le> 2 ^ (8 * n)"
    using assms by (rule power_increasing) simp
  then have "unat w < 256 ^ n"
    using less_le_trans [OF unat_less_exp [of w]] by (simp add: power_mult)
  then show ?thesis
    by (simp add: le_word_def le_bytes_def nat_of_bytes_of_nat)
qed

text \<open>
  A codec of fixed width: what a reader of a byte stream needs to know about the representation
  of one integer type. The three integer types of the wire format provide it.
\<close>

locale byte_codec =
  fixes enc :: "'v \<Rightarrow> byte list"
    and dec :: "byte list \<Rightarrow> 'v"
    and width :: nat
  assumes enc_width: "length (enc v) = width"
    and dec_enc: "dec (enc v) = v"
begin

lemma dec_prefix: "dec (take width (enc v @ rest)) = v"
  by (simp add: enc_width dec_enc)

lemma drop_prefix: "drop width (enc v @ rest) = rest"
  by (simp add: enc_width)

lemma length_concat_enc: "length (concat (map enc vs)) = width * length vs"
  by (induction vs) (simp_all add: enc_width)

lemma enc_inject: "enc v = enc v' \<longleftrightarrow> v = v'"
  by (metis dec_enc)

end

interpretation u16_codec: byte_codec "le_bytes 2 :: u16 \<Rightarrow> byte list" "le_word" 2
  by unfold_locales (simp_all add: le_word_le_bytes)

interpretation u32_codec: byte_codec "le_bytes 4 :: u32 \<Rightarrow> byte list" "le_word" 4
  by unfold_locales (simp_all add: le_word_le_bytes)

interpretation u64_codec: byte_codec "le_bytes 8 :: u64 \<Rightarrow> byte list" "le_word" 8
  by unfold_locales (simp_all add: le_word_le_bytes)

end
