(* ===== verification/Time_Tool.thy ===== *)
theory Time_Tool
  imports Hudp_Prelude
begin

text \<open>
  The clock of \<^verbatim>\<open>base/TimeTool.cpp\<close> (\<open>Now\<close>, \<open>GetMsec\<close>, the comparisons) and the functions of
  \<^verbatim>\<open>common/CommonFunc.cpp\<close>. \<open>clock\<close> is the system clock in milliseconds since the epoch. The
  calendar of the class is the theory \<open>Calendar\<close>.
\<close>

section \<open>CTimeTool\<close>

record time_tool =
  tt_update_time :: bool
  tt_time :: u64

definition tt_Now :: "u64 \<Rightarrow> 'a time_tool_scheme \<Rightarrow> 'a time_tool_scheme" where
  "tt_Now clock t = t\<lparr>tt_time := clock, tt_update_time := True\<rparr>"

definition CTimeTool :: "u64 \<Rightarrow> time_tool" where
  "CTimeTool clock = tt_Now clock \<lparr>tt_update_time = True, tt_time = 0\<rparr>"

definition GetMsec :: "'a time_tool_scheme \<Rightarrow> u64" where
  "GetMsec t = tt_time t"

definition tt_equal :: "'a time_tool_scheme \<Rightarrow> 'a time_tool_scheme \<Rightarrow> bool" where
  "tt_equal t u \<longleftrightarrow> tt_time t = tt_time u"

definition tt_greater :: "'a time_tool_scheme \<Rightarrow> 'a time_tool_scheme \<Rightarrow> bool" where
  "tt_greater t u \<longleftrightarrow> tt_time u <s tt_time t"

definition tt_greater_eq :: "'a time_tool_scheme \<Rightarrow> 'a time_tool_scheme \<Rightarrow> bool" where
  "tt_greater_eq t u \<longleftrightarrow> tt_time u \<le>s tt_time t"

definition tt_less :: "'a time_tool_scheme \<Rightarrow> 'a time_tool_scheme \<Rightarrow> bool" where
  "tt_less t u \<longleftrightarrow> tt_time t <s tt_time u"

definition tt_less_eq :: "'a time_tool_scheme \<Rightarrow> 'a time_tool_scheme \<Rightarrow> bool" where
  "tt_less_eq t u \<longleftrightarrow> tt_time t \<le>s tt_time u"

section \<open>CommonFunc\<close>

text \<open>
  \<open>GetCurTimeStamp\<close>: the function-local static tool is constructed in the first call; \<open>None\<close> is the
  state before that.
\<close>

definition GetCurTimeStamp :: "u64 \<Rightarrow> time_tool option \<Rightarrow> u64 \<times> time_tool option" where
  "GetCurTimeStamp clock s =
     (let t = (case s of None \<Rightarrow> CTimeTool clock | Some t \<Rightarrow> t) in (GetMsec t, Some t))"

text \<open>
  \<open>atoi\<close>: white space, an optional sign, the digits that follow. The value is not bounded here; a
  number that does not fit an \<open>int\<close> is undefined in C.
\<close>

definition is_digit :: "char \<Rightarrow> bool" where
  "is_digit c \<longleftrightarrow> 48 \<le> (of_char c :: nat) \<and> (of_char c :: nat) \<le> 57"

definition is_space :: "char \<Rightarrow> bool" where
  "is_space c \<longleftrightarrow> (of_char c :: nat) = 32 \<or> 9 \<le> (of_char c :: nat) \<and> (of_char c :: nat) \<le> 13"

fun atoi_digits :: "int \<Rightarrow> string \<Rightarrow> int" where
  "atoi_digits acc (c # cs) =
     (if is_digit c then atoi_digits (10 * acc + (int (of_char c) - 48)) cs else acc)"
| "atoi_digits acc [] = acc"

definition atoi :: "string \<Rightarrow> int" where
  "atoi cs = (case dropWhile is_space cs of
     c # ds \<Rightarrow> if c = CHR ''-'' then - atoi_digits 0 ds
               else if c = CHR ''+'' then atoi_digits 0 ds else atoi_digits 0 (c # ds)
   | [] \<Rightarrow> 0)"

definition SplitIpPort :: "string \<Rightarrow> u16 \<times> string" where
  "SplitIpPort ip_port =
     (case dropWhile (\<lambda>c. c \<noteq> CHR '':'') ip_port of
        [] \<Rightarrow> (0, [])
      | _ # port \<Rightarrow> (word_of_int (atoi port), takeWhile (\<lambda>c. c \<noteq> CHR '':'') ip_port))"

text \<open>Decimal notation, for the round trip below.\<close>

fun decimal :: "nat \<Rightarrow> string" where
  "decimal n = (if n < 10 then [char_of (48 + n)] else decimal (n div 10) @ [char_of (48 + n mod 10)])"

declare decimal.simps [simp del]

lemma decimal_digits: "\<forall>c \<in> set (decimal n). is_digit c"
proof (induction n rule: decimal.induct)
  case (1 n)
  then show ?case by (auto simp: decimal.simps [of n] is_digit_def)
qed

lemma decimal_not_Nil [simp]: "decimal n \<noteq> []"
  by (simp add: decimal.simps [of n])

lemma atoi_digits_snoc:
  "\<forall>c \<in> set cs. is_digit c \<Longrightarrow> is_digit d \<Longrightarrow>
   atoi_digits acc (cs @ [d]) = 10 * atoi_digits acc cs + (int (of_char d) - 48)"
  by (induction acc cs rule: atoi_digits.induct) auto

lemma atoi_digits_decimal: "atoi_digits 0 (decimal n) = int n"
proof (induction n rule: decimal.induct)
  case (1 n)
  show ?case
  proof (cases "n < 10")
    case True
    then show ?thesis by (simp add: decimal.simps [of n] is_digit_def)
  next
    case False
    have "is_digit (char_of (48 + n mod 10))" by (simp add: is_digit_def)
    moreover have "10 * int (n div 10) + int (n mod 10) = int n"
      using mult_div_mod_eq [of 10 n] by linarith
    ultimately show ?thesis
      using False 1 decimal_digits [of "n div 10"] by (simp add: decimal.simps [of n] atoi_digits_snoc)
  qed
qed

lemma atoi_decimal: "atoi (decimal n) = int n"
proof (cases "decimal n")
  case (Cons c cs)
  then have "is_digit c" using decimal_digits [of n] by simp
  then have "\<not> is_space c" "c \<noteq> CHR ''-''" "c \<noteq> CHR ''+''"
    by (auto simp: is_digit_def is_space_def)
  then show ?thesis
    using atoi_digits_decimal [of n] Cons by (simp add: atoi_def)
qed simp

section \<open>Properties\<close>

fun time_stamps :: "u64 list \<Rightarrow> time_tool option \<Rightarrow> u64 list" where
  "time_stamps [] s = []"
| "time_stamps (c # cs) s = (let (t, s') = GetCurTimeStamp c s in t # time_stamps cs s')"

lemma time_stamps_Some: "time_stamps cs (Some t) = replicate (length cs) (tt_time t)"
  by (induction cs) (simp_all add: GetCurTimeStamp_def GetMsec_def)

text \<open>
  \<open>GetCurTimeStamp\<close> is frozen: it reads the clock in its first call only, so that every later
  call, whenever it is made, returns the time of the first one. Send times, round-trip times and
  pacing all use it.
\<close>

theorem GetCurTimeStamp_frozen:
  "time_stamps (first # later) None = replicate (Suc (length later)) first"
  by (simp add: GetCurTimeStamp_def GetMsec_def CTimeTool_def tt_Now_def time_stamps_Some)

text \<open>
  \<open>SplitIpPort\<close> takes a handle apart into what it was put together from: an address without a
  colon, and a port in decimal notation.
\<close>

theorem SplitIpPort_handle:
  assumes "CHR '':'' \<notin> set ip" and "port < 65536"
  shows "SplitIpPort (ip @ CHR '':'' # decimal port) = (of_nat port, ip)"
proof -
  have "dropWhile (\<lambda>c. c \<noteq> CHR '':'') (ip @ CHR '':'' # decimal port) = CHR '':'' # decimal port"
    "takeWhile (\<lambda>c. c \<noteq> CHR '':'') (ip @ CHR '':'' # decimal port) = ip"
    using assms(1) by (auto simp: dropWhile_append3, subst takeWhile_append2) auto
  then show ?thesis by (simp add: SplitIpPort_def atoi_decimal)
qed

theorem SplitIpPort_handle_witness: "SplitIpPort ''10.0.0.1:8080'' = (8080, ''10.0.0.1'')"
  using SplitIpPort_handle [of "''10.0.0.1''" 8080] by (simp add: decimal.simps char_of_def bit_0)

end
