(* ===== verification/Calendar.thy ===== *)
theory Calendar
  imports Time_Tool "HOL-Library.Signed_Division"
begin

text \<open>
  The calendar of \<^verbatim>\<open>base/TimeTool.cpp\<close>: \<open>gmtime64\<close>, \<open>mktime64\<close>, the getters and the formatted
  date, which the log uses. \<open>long int\<close> and \<open>time_t\<close> have 64 bits; in the arithmetic here their values
  stay below \<open>2 ^ 63\<close> (the days of a \<open>time_t\<close> are fewer than \<open>2 ^ 47\<close>), so they are integers. \<open>/\<close> and
  \<open>%\<close> of C truncate towards 0 (\<open>sdiv\<close>, \<open>smod\<close>).
\<close>

section \<open>Definitions\<close>

definition SECS_PER_HOUR :: int where "SECS_PER_HOUR = 60 * 60"
definition SECS_PER_DAY :: int where "SECS_PER_DAY = SECS_PER_HOUR * 24"

definition c_DIV :: "int \<Rightarrow> int \<Rightarrow> int" where
  "c_DIV a b = a sdiv b - (if a smod b < 0 then 1 else 0)"

definition LEAPS_THRU_END_OF :: "int \<Rightarrow> int" where
  "LEAPS_THRU_END_OF y = c_DIV y 4 - c_DIV y 100 + c_DIV y 400"

definition isleap :: "int \<Rightarrow> bool" where
  "isleap year \<longleftrightarrow> year smod 4 = 0 \<and> (year smod 100 \<noteq> 0 \<or> year smod 400 = 0)"

record tm =
  tm_sec :: int
  tm_min :: int
  tm_hour :: int
  tm_mday :: int
  tm_mon :: int
  tm_year :: int
  tm_wday :: int
  tm_yday :: int

definition mon_yday :: "int list list" where
  "mon_yday = [[0, 31, 59, 90, 120, 151, 181, 212, 243, 273, 304, 334, 365],
               [0, 31, 60, 91, 121, 152, 182, 213, 244, 274, 305, 335, 366]]"

text \<open>The loops of \<open>gmtime64\<close>.\<close>

function rem_up :: "int \<Rightarrow> int \<Rightarrow> int \<times> int" where
  "rem_up days r = (if r < 0 then rem_up (days - 1) (r + SECS_PER_DAY) else (days, r))"
  by pat_completeness auto
termination
  by (relation "measure (\<lambda>(days, r). nat (- r))") (auto simp: SECS_PER_DAY_def SECS_PER_HOUR_def)

function rem_down :: "int \<Rightarrow> int \<Rightarrow> int \<times> int" where
  "rem_down days r = (if r \<ge> SECS_PER_DAY then rem_down (days + 1) (r - SECS_PER_DAY) else (days, r))"
  by pat_completeness auto
termination
  by (relation "measure (\<lambda>(days, r). nat r)") (auto simp: SECS_PER_DAY_def SECS_PER_HOUR_def)

declare rem_up.simps [simp del] rem_down.simps [simp del]

section \<open>Years\<close>

lemma c_DIV_floor: "0 < b \<Longrightarrow> c_DIV a b = a div b"
proof -
  assume b: "0 < b"
  show ?thesis
  proof (cases "0 \<le> a")
    case True
    then show ?thesis using b pos_mod_sign [of b a]
      by (simp add: c_DIV_def signed_divide_int_def signed_modulo_int_def sgn_if del: pos_mod_sign)
  next
    case False
    then have "a sdiv b = - ((- a) div b)" "a smod b = - ((- a) mod b)"
      using b by (simp_all add: signed_divide_int_def signed_modulo_int_def sgn_if)
    then show ?thesis using False b zdiv_zminus1_eq_if [of b "- a"] le_less [of 0 "- a mod b"] pos_mod_sign [of b "- a"]
      by (simp add: c_DIV_def split: if_splits)
  qed
qed

lemma smod_zero: "a smod b = 0 \<longleftrightarrow> b dvd (a :: int)"
  by (simp add: signed_modulo_int_def sgn_if dvd_eq_mod_eq_0 [symmetric] split: if_splits)

lemma LEAPS_floor: "LEAPS_THRU_END_OF y = y div 4 - y div 100 + y div 400"
  by (simp add: LEAPS_THRU_END_OF_def c_DIV_floor)

lemma isleap_dvd: "isleap y \<longleftrightarrow> 4 dvd y \<and> (\<not> 100 dvd y \<or> 400 dvd y)"
  by (simp add: isleap_def smod_zero)

definition year_length :: "int \<Rightarrow> int" where
  "year_length y = (if isleap y then 366 else 365)"

lemma div_pred: "0 < b \<Longrightarrow> y div b = (y - 1) div b + (if b dvd y then 1 else 0)" for y b :: int
proof -
  assume b: "0 < b"
  have y: "y = b * (y div b) + y mod b" by simp
  show ?thesis
  proof (cases "y mod b = 0")
    case True
    then have "y - 1 = (b - 1) + b * (y div b - 1)" using y by (simp add: algebra_simps)
    then have "(y - 1) div b = (b - 1) div b + (y div b - 1)"
      using b by (metis add.commute div_mult_self2 less_irrefl)
    then show ?thesis using b True by (simp add: div_pos_pos_trivial dvd_eq_mod_eq_0)
  next
    case False
    have "y - 1 = (y mod b - 1) + b * (y div b)" using y by linarith
    then have "(y - 1) div b = (y mod b - 1) div b + y div b"
      using b by (metis add.commute div_mult_self2 less_irrefl)
    moreover have "(y mod b - 1) div b = 0"
      using b False pos_mod_sign [of b y] pos_mod_bound [of b y] by (intro div_pos_pos_trivial) linarith+
    ultimately show ?thesis using False by (simp add: dvd_eq_mod_eq_0)
  qed
qed

lemma LEAPS_step: "LEAPS_THRU_END_OF y = LEAPS_THRU_END_OF (y - 1) + (if isleap y then 1 else 0)"
proof -
  have t: "(100 :: int) dvd 400" "(4 :: int) dvd 100" by simp_all
  have d: "400 dvd y \<Longrightarrow> 100 dvd y" by (rule dvd_trans [OF t(1)])
  have c: "100 dvd y \<Longrightarrow> 4 dvd y" by (rule dvd_trans [OF t(2)])
  have e: "y div 4 = (y - 1) div 4 + (if 4 dvd y then 1 else 0)"
    "y div 100 = (y - 1) div 100 + (if 100 dvd y then 1 else 0)"
    "y div 400 = (y - 1) div 400 + (if 400 dvd y then 1 else 0)"
    by (rule div_pred, simp)+
  have "(if 4 dvd y then 1 else 0) - (if 100 dvd y then 1 else 0) + (if 400 dvd y then 1 else 0 :: int) =
    (if isleap y then 1 else 0)"
    unfolding isleap_dvd by (cases "4 dvd y"; cases "100 dvd y"; cases "400 dvd y") (use c d in simp_all)
  with e show ?thesis unfolding LEAPS_floor by linarith
qed

lemma leap_alone: "isleap y \<Longrightarrow> \<not> isleap (y - 1)"
proof
  assume "isleap y" "isleap (y - 1)"
  then have "4 dvd y" "4 dvd y - 1" by (simp_all add: isleap_dvd)
  then show False by presburger
qed

lemma LEAPS_add_bounds:
  "LEAPS_THRU_END_OF y \<le> LEAPS_THRU_END_OF (y + int k) \<and>
   2 * (LEAPS_THRU_END_OF (y + int k) - LEAPS_THRU_END_OF y) \<le> int k + 1"
proof (induction k rule: nat_induct2)
  case (step k)
  have e: "y + int (k + 2) - 1 = y + int (k + 1)" "y + int (k + 1) - 1 = y + int k" by simp_all
  show ?case
    using step LEAPS_step [of "y + int (k + 2)"] LEAPS_step [of "y + int (k + 1)"] leap_alone [of "y + int (k + 2)"]
    unfolding e by (auto split: if_splits)
qed (use LEAPS_step [of "y + 1"] in auto)

text \<open>The days from 1 January 1970 to 1 January of a year.\<close>

definition year_start :: "int \<Rightarrow> int" where
  "year_start y = (y - 1970) * 365 + LEAPS_THRU_END_OF (y - 1) - LEAPS_THRU_END_OF 1969"

lemma year_start_Suc: "year_start (y + 1) = year_start y + year_length y"
  using LEAPS_step [of y] by (simp add: year_start_def year_length_def)

lemma year_length_pos: "365 \<le> year_length y" "year_length y \<le> 366"
  by (simp_all add: year_length_def)

lemma year_start_1970 [simp]: "year_start 1970 = 0"
  by (simp add: year_start_def)

lemma year_start_add:
  "365 * int k \<le> year_start (y + int k) - year_start y \<and>
   2 * (year_start (y + int k) - year_start y - 365 * int k) \<le> int k + 1"
  using LEAPS_add_bounds [of "y - 1" k] by (simp add: year_start_def algebra_simps)

lemma year_start_mono: "y < z \<Longrightarrow> year_start y + year_length y \<le> year_start z"
  using year_start_add [of "nat (z - y - 1)" "y + 1"] year_start_Suc [of y] by simp

section \<open>gmtime64\<close>

text \<open>
  The correction loop. \<open>year_start\<close> does not occur in it: the step is the code's, on \<open>days\<close> and \<open>y\<close>.
\<close>

definition guess :: "int \<Rightarrow> int \<Rightarrow> int" where
  "guess days y = y + days sdiv 365 - (if days smod 365 < 0 then 1 else 0)"

definition adjust_days :: "int \<Rightarrow> int \<Rightarrow> int" where
  "adjust_days days y =
     days - ((guess days y - y) * 365
             + LEAPS_THRU_END_OF (guess days y - 1)
             - LEAPS_THRU_END_OF (y - 1))"

lemma guess_floor: "guess days y = y + days div 365"
  using c_DIV_floor [of 365 days] by (simp add: guess_def c_DIV_def)

lemma adjust_days_start: "adjust_days days y = days - (year_start (guess days y) - year_start y)"
  by (simp add: adjust_days_def year_start_def)

text \<open>
  Every pass makes the distance smaller or ends the loop, so that it ends from every start.
\<close>

lemma adjust_measure:
  assumes "days < 0 \<or> days \<ge> year_length y"
  shows "0 \<le> adjust_days days y \<and> adjust_days days y < year_length (guess days y) \<or>
    \<bar>adjust_days days y\<bar> < \<bar>days\<bar>"
proof (cases "days < 0")
  case False
  then have d: "year_length y \<le> days" using assms by simp
  define k where "k = nat (days div 365)"
  have k: "int k = days div 365" "1 \<le> k"
    using d year_length_pos(1) [of y] unfolding k_def by (simp_all add: int_one_le_iff_zero_less pos_imp_zdiv_pos_iff le_nat_iff)
  have "365 * int k \<le> days" "days < 365 * int k + 365" unfolding k(1) by presburger+
  then have "\<bar>adjust_days days y\<bar> < \<bar>days\<bar> \<or> 0 \<le> adjust_days days y \<and> adjust_days days y < 365"
    using year_start_add [of k y] k(2) unfolding adjust_days_start guess_floor k(1) [symmetric]
    by (cases "days < year_start (y + int k) - year_start y") auto
  then show ?thesis using year_length_pos(1) [of "guess days y"] by linarith
next
  case True
  define j where "j = nat (- (days div 365))"
  have j: "days div 365 = - int j" "1 \<le> j"
    using True unfolding j_def by (simp_all add: div_neg_pos_less0 le_nat_iff)
  have b: "- 365 * int j \<le> days" "days < - 365 * int j + 365" using j(1) by presburger+
  have g: "guess days y = y - int j" by (simp add: guess_floor j(1))
  have a: "adjust_days days y = days + (year_start (y - int j + int j) - year_start (y - int j))"
    unfolding adjust_days_start g by simp
  show ?thesis
  proof (cases "j = 1")
    case True
    then have "adjust_days days y = days + year_length (guess days y)"
      using year_start_Suc [of "y - 1"] g unfolding a by simp
    then show ?thesis using b True \<open>days < 0\<close> year_length_pos(1) [of "guess days y"] by linarith
  next
    case False
    then have "\<bar>adjust_days days y\<bar> < \<bar>days\<bar>"
      using b j(2) True year_start_add [of j "y - int j"] unfolding a by (simp add: abs_if)
    then show ?thesis ..
  qed
qed

function adjust_year :: "int \<Rightarrow> int \<Rightarrow> int \<times> int" where
  "adjust_year days y =
     (if days < 0 \<or> days \<ge> (if isleap y then 366 else 365)
      then adjust_year (adjust_days days y) (guess days y) else (days, y))"
  by pat_completeness auto
termination
proof (relation "measure (\<lambda>(days, y). if 0 \<le> days \<and> days < year_length y then 0 else nat \<bar>days\<bar>)")
  fix days y :: int
  assume "days < 0 \<or> days \<ge> (if isleap y then 366 else 365)"
  then show "((adjust_days days y, guess days y), days, y) \<in>
    measure (\<lambda>(days, y). if 0 \<le> days \<and> days < year_length y then 0 else nat \<bar>days\<bar>)"
    using adjust_measure [of days y] by (auto simp: year_length_def split: if_splits)
qed simp

declare adjust_year.simps [simp del]

lemma adjust_year_spec:
  "adjust_year days y = (d, z) \<Longrightarrow>
   0 \<le> d \<and> d < year_length z \<and> year_start z + d = year_start y + days"
proof (induction days y rule: adjust_year.induct)
  case (1 days y)
  show ?case
  proof (cases "days < 0 \<or> days \<ge> (if isleap y then 366 else 365)")
    case True
    then show ?thesis
      using 1 by (simp add: adjust_year.simps [of days y] adjust_days_start)
  next
    case False
    then show ?thesis using "1.prems" by (simp add: adjust_year.simps [of days y] year_length_def)
  qed
qed

lemma year_unique:
  assumes "0 \<le> d" "d < year_length y" "0 \<le> e" "e < year_length z" "year_start y + d = year_start z + e"
  shows "y = z \<and> d = e"
proof (cases y z rule: linorder_cases)
  case less
  then show ?thesis using assms year_start_mono [of y z] by linarith
next
  case equal
  then show ?thesis using assms by simp
next
  case greater
  then show ?thesis using assms year_start_mono [of z y] by linarith
qed

lemma adjust_year_unique:
  assumes "0 \<le> d" "d < year_length z" "year_start z + d = year_start y + days"
  shows "adjust_year days y = (d, z)"
proof -
  obtain e x where e: "adjust_year days y = (e, x)" by (cases "adjust_year days y")
  then have "z = x \<and> d = e"
    using adjust_year_spec [OF e] assms by (intro year_unique) simp_all
  then show ?thesis using e by simp
qed

text \<open>\<open>for (y = 11; days < ip[y]; --y)\<close>: \<open>None\<close> if the search would leave the table.\<close>

fun find_mon :: "int list \<Rightarrow> int \<Rightarrow> nat \<Rightarrow> nat option" where
  "find_mon ip days 0 = (if days < ip ! 0 then None else Some 0)"
| "find_mon ip days (Suc y) = (if days < ip ! Suc y then find_mon ip days y else Some (Suc y))"

text \<open>The conversion of a \<open>long\<close> to an \<open>int\<close>.\<close>

definition to_int :: "int \<Rightarrow> int" where
  "to_int x = sint (word_of_int x :: 32 word)"

definition gmtime64 :: "int \<Rightarrow> tm \<Rightarrow> (int \<times> tm) option" where
  "gmtime64 t tp =
     (let (days, r) = rem_up (t sdiv SECS_PER_DAY) (t smod SECS_PER_DAY);
          (days, r) = rem_down days r;
          tp = tp\<lparr>tm_hour := r sdiv SECS_PER_HOUR\<rparr>;
          r = r smod SECS_PER_HOUR;
          tp = tp\<lparr>tm_min := r sdiv 60, tm_sec := r smod 60, tm_wday := (4 + days) smod 7\<rparr>;
          tp = (if tm_wday tp < 0 then tp\<lparr>tm_wday := tm_wday tp + 7\<rparr> else tp);
          (days, y) = adjust_year days 1970;
          tp = tp\<lparr>tm_year := to_int (y - 1900)\<rparr>
      in if tm_year tp \<noteq> y - 1900 then Some (0, tp)
         else let tp = tp\<lparr>tm_yday := days\<rparr>;
                  ip = mon_yday ! (if isleap y then 1 else 0)
              in (case find_mon ip days 11 of
                    None \<Rightarrow> None
                  | Some m \<Rightarrow> Some (1, tp\<lparr>tm_mon := int m, tm_mday := days - ip ! m + 1\<rparr>)))"

lemma rem_up_spec: "- SECS_PER_DAY < r \<Longrightarrow> r < SECS_PER_DAY \<Longrightarrow>
  rem_up days r = (if r < 0 then (days - 1, r + SECS_PER_DAY) else (days, r))"
  by (simp add: rem_up.simps [of days r] rem_up.simps [of "days - 1" "r + SECS_PER_DAY"])

lemma rem_down_spec: "r < SECS_PER_DAY \<Longrightarrow> rem_down days r = (days, r)"
  by (simp add: rem_down.simps [of days r])

lemma secs_per: "SECS_PER_DAY = 86400" "SECS_PER_HOUR = 3600"
  by (simp_all add: SECS_PER_DAY_def SECS_PER_HOUR_def)

lemma day_split: "rem_up (t sdiv 86400) (t smod 86400) = (t div 86400, t mod 86400)"
proof -
  have b: "- 86400 < t smod 86400" "t smod 86400 < 86400"
    using smod_int_compares [of t 86400] smod_int_range [of 86400 t] by auto
  have c: "t sdiv 86400 - (if t smod 86400 < 0 then 1 else 0) = t div 86400"
    using c_DIV_floor [of 86400 t] by (simp add: c_DIV_def)
  have e: "t sdiv 86400 * 86400 + t smod 86400 = t" by (rule sdiv_mult_smod_eq)
  have d: "t div 86400 * 86400 + t mod 86400 = t" by (rule div_mult_mod_eq)
  show ?thesis
  proof (cases "t smod 86400 < 0")
    case True
    then have "t sdiv 86400 = t div 86400 + 1" using c by simp
    then have "t smod 86400 + 86400 = t mod 86400" using d e by linarith
    then show ?thesis using True b c rem_up_spec [of "t smod 86400", unfolded secs_per] by simp
  next
    case False
    then have "t sdiv 86400 = t div 86400" using c by simp
    then have "t smod 86400 = t mod 86400" using d e by linarith
    then show ?thesis using False b c rem_up_spec [of "t smod 86400", unfolded secs_per] by simp
  qed
qed

text \<open>The search of the month.\<close>

definition ydays :: "int \<Rightarrow> int list" where
  "ydays y = mon_yday ! (if isleap y then 1 else 0)"

lemma ydays_sorted: "sorted (ydays y)" "length (ydays y) = 13" "ydays y ! 0 = 0" "ydays y ! 12 = year_length y"
  by (simp_all add: ydays_def mon_yday_def year_length_def)

lemma find_mon_bounds:
  "find_mon ip d n = Some m \<Longrightarrow> d < ip ! Suc n \<Longrightarrow> m \<le> n \<and> ip ! m \<le> d \<and> d < ip ! Suc m"
  by (induction ip d n rule: find_mon.induct) (auto split: if_splits)

lemma find_mon_total: "ip ! 0 \<le> d \<Longrightarrow> \<exists>m. find_mon ip d n = Some m"
  by (induction ip d n rule: find_mon.induct) auto

lemma find_mon_eq:
  "m \<le> n \<Longrightarrow> ip ! m \<le> d \<Longrightarrow> \<forall>k. m < k \<longrightarrow> k \<le> n \<longrightarrow> d < ip ! k \<Longrightarrow> find_mon ip d n = Some m"
proof (induction n)
  case (Suc n)
  then show ?case by (cases "m = Suc n") auto
qed simp

definition month_of :: "int \<Rightarrow> int \<Rightarrow> nat" where
  "month_of y yd = the (find_mon (ydays y) yd 11)"

lemma month_of:
  assumes "0 \<le> yd" "yd < year_length y"
  shows "find_mon (ydays y) yd 11 = Some (month_of y yd)"
    and "month_of y yd \<le> 11" "ydays y ! month_of y yd \<le> yd" "yd < ydays y ! Suc (month_of y yd)"
proof -
  have d: "yd < ydays y ! Suc 11" using assms(2) ydays_sorted(4) [of y] by simp
  obtain m where m: "find_mon (ydays y) yd 11 = Some m"
    using find_mon_total [of "ydays y" yd 11] assms(1) ydays_sorted(3) [of y] by auto
  then show "find_mon (ydays y) yd 11 = Some (month_of y yd)" by (simp add: month_of_def)
  show "month_of y yd \<le> 11" "ydays y ! month_of y yd \<le> yd" "yd < ydays y ! Suc (month_of y yd)"
    using find_mon_bounds [OF m d] m by (simp_all add: month_of_def)
qed

lemma month_of_eq:
  assumes "m \<le> 11" "ydays y ! m \<le> yd" "yd < ydays y ! Suc m"
  shows "month_of y yd = m"
proof -
  have "yd < ydays y ! k" if "m < k" "k \<le> 11" for k
    using assms(3) sorted_nth_mono [OF ydays_sorted(1) [of y], of "Suc m" k] that ydays_sorted(2) [of y] by simp
  then show ?thesis using find_mon_eq [OF assms(1,2)] by (simp add: month_of_def)
qed

text \<open>The broken-down time of a second, in terms of its year and its day in the year.\<close>

definition civil :: "int \<Rightarrow> int \<Rightarrow> int \<Rightarrow> tm" where
  "civil y yd t =
     \<lparr>tm_sec = t mod 60, tm_min = t mod 3600 div 60, tm_hour = t mod 86400 div 3600,
      tm_mday = yd - ydays y ! month_of y yd + 1, tm_mon = int (month_of y yd),
      tm_year = y - 1900, tm_wday = (4 + t div 86400) mod 7, tm_yday = yd\<rparr>"

lemma nonneg_sdiv: "0 \<le> a \<Longrightarrow> 0 < b \<Longrightarrow> a sdiv b = a div b" "0 \<le> a \<Longrightarrow> 0 < b \<Longrightarrow> a smod b = a mod b" for a b :: int
  by (simp_all add: signed_divide_int_def signed_modulo_int_def sgn_if)

lemma week_day: "(if a smod 7 < 0 then a smod 7 + 7 else a smod 7) = a mod 7" for a :: int
proof (cases "0 \<le> a")
  case False
  then have "a smod 7 = - ((- a) mod 7)" by (simp add: signed_modulo_int_def sgn_if)
  then show ?thesis by (simp, presburger)
qed (simp add: nonneg_sdiv)

lemma to_int_small: "- (2 ^ 31) \<le> x \<Longrightarrow> x < 2 ^ 31 \<Longrightarrow> to_int x = x"
  by (simp add: to_int_def int_word_sint mod_pos_pos_trivial)

lemma gmtime64_year:
  assumes "0 \<le> yd" "yd < year_length y" "year_start y + yd = t div 86400"
  shows "to_int (y - 1900) = y - 1900 \<Longrightarrow> gmtime64 t tp = Some (1, civil y yd t)"
    and "to_int (y - 1900) \<noteq> y - 1900 \<Longrightarrow> \<exists>d. gmtime64 t tp = Some (0, d)"
proof -
  have a: "adjust_year (t div 86400) 1970 = (yd, y)" by (rule adjust_year_unique) (use assms in simp_all)
  have r: "rem_up (t sdiv 86400) (t smod 86400) = (t div 86400, t mod 86400)" by (rule day_split)
  have d: "rem_down x (t mod 86400) = (x, t mod 86400)" for x
    by (rule rem_down_spec) (simp add: secs_per)
  have n: "t mod 86400 sdiv 3600 = t mod 86400 div 3600" "t mod 86400 smod 3600 = t mod 3600"
    by (simp_all add: nonneg_sdiv mod_mod_cancel)
  have m: "t mod 3600 sdiv 60 = t mod 3600 div 60" "t mod 3600 smod 60 = t mod 60"
    by (simp_all add: nonneg_sdiv mod_mod_cancel)
  note f = month_of(1) [OF assms(1,2), unfolded ydays_def]
  have w: "(4 + t div 86400) smod 7 < 0 \<Longrightarrow> (4 + t div 86400) smod 7 + 7 = (4 + t div 86400) mod 7"
    "\<not> (4 + t div 86400) smod 7 < 0 \<Longrightarrow> (4 + t div 86400) smod 7 = (4 + t div 86400) mod 7"
    using week_day [of "4 + t div 86400"] by (simp_all split: if_splits)
  show "to_int (y - 1900) = y - 1900 \<Longrightarrow> gmtime64 t tp = Some (1, civil y yd t)"
    unfolding gmtime64_def secs_per r prod.case Let_def d n m a f civil_def ydays_def
    using w by (cases "(4 + t div 86400) smod 7 < 0") simp_all
  show "to_int (y - 1900) \<noteq> y - 1900 \<Longrightarrow> \<exists>d. gmtime64 t tp = Some (0, d)"
    unfolding gmtime64_def secs_per r prod.case Let_def d n m a by simp
qed

text \<open>Every day lies in a year, and the year of a day is near.\<close>

definition year_of :: "int \<Rightarrow> int" where "year_of days = snd (adjust_year days 1970)"
definition yday_of :: "int \<Rightarrow> int" where "yday_of days = fst (adjust_year days 1970)"

lemma year_of:
  "0 \<le> yday_of days" "yday_of days < year_length (year_of days)"
  "year_start (year_of days) + yday_of days = days"
  using adjust_year_spec [of days 1970 "yday_of days" "year_of days"]
  by (simp_all add: year_of_def yday_of_def)

lemma year_of_eq:
  assumes "0 \<le> yd" "yd < year_length y" "year_start y + yd = days"
  shows "year_of days = y \<and> yday_of days = yd"
  using adjust_year_unique [of yd y 1970 days] assms by (simp add: year_of_def yday_of_def)

lemma year_start_bounds: "1970 \<le> y \<Longrightarrow> 365 * (y - 1970) \<le> year_start y"
  "y \<le> 1970 \<Longrightarrow> year_start y \<le> 365 * (y - 1970)"
  using year_start_add [of "nat (y - 1970)" 1970] year_start_add [of "nat (1970 - y)" y] by auto

lemma year_of_bounds:
  "year_of days \<le> 1970 + \<bar>days\<bar> div 365" "1969 - \<bar>days\<bar> div 365 \<le> year_of days"
proof -
  have "365 * (year_of days - 1970) \<le> \<bar>days\<bar>"
    using year_start_bounds(1) [of "year_of days"] year_of(1,3) [of days]
    by (cases "1970 \<le> year_of days") auto
  from zdiv_mono1 [OF this, of 365] show "year_of days \<le> 1970 + \<bar>days\<bar> div 365" by simp
  have "365 * (1969 - year_of days) \<le> \<bar>days\<bar>"
    using year_start_bounds(2) [of "year_of days"] year_of(2,3) [of days] year_length_pos(2) [of "year_of days"]
    by (cases "year_of days \<le> 1970") auto
  from zdiv_mono1 [OF this, of 365] show "1969 - \<bar>days\<bar> div 365 \<le> year_of days" by simp
qed

text \<open>The result for every second that can be the millisecond count of an \<open>int64\<close> divided by 1000.\<close>

definition civil_time :: "int \<Rightarrow> tm" where
  "civil_time t = civil (year_of (t div 86400)) (yday_of (t div 86400)) t"

lemma gmtime64_civil_time:
  assumes "\<bar>t\<bar> \<le> 2 ^ 54"
  shows "gmtime64 t tp = Some (1, civil_time t)"
proof -
  have "\<bar>t div 86400\<bar> \<le> 2 ^ 38"
    using zdiv_mono1 [of t "2 ^ 54" 86400] zdiv_mono1 [of "- (2 ^ 54)" t 86400] assms by simp
  then have "\<bar>t div 86400\<bar> div 365 \<le> 2 ^ 38 div 365" by (rule zdiv_mono1) simp
  then show ?thesis
    unfolding civil_time_def
    using year_of_bounds [of "t div 86400"] by (intro gmtime64_year year_of to_int_small) auto
qed

section \<open>The reference calendar\<close>

text \<open>The calendar day by day: the lengths of the months, the leap years, the days of the week.\<close>

definition leap_year :: "int \<Rightarrow> bool" where
  "leap_year y \<longleftrightarrow> (if y mod 100 = 0 then y mod 400 = 0 else y mod 4 = 0)"

definition month_length :: "int \<Rightarrow> int \<Rightarrow> int" where
  "month_length y mon = (if mon = 1 then (if leap_year y then 29 else 28)
     else if mon \<in> {3, 5, 8, 10} then 30 else 31)"

definition next_day :: "tm \<Rightarrow> tm" where
  "next_day d =
     (let d = d\<lparr>tm_wday := (if tm_wday d = 6 then 0 else tm_wday d + 1)\<rparr>
      in if tm_mday d < month_length (tm_year d + 1900) (tm_mon d)
         then d\<lparr>tm_mday := tm_mday d + 1, tm_yday := tm_yday d + 1\<rparr>
         else if tm_mon d < 11
         then d\<lparr>tm_mon := tm_mon d + 1, tm_mday := 1, tm_yday := tm_yday d + 1\<rparr>
         else d\<lparr>tm_year := tm_year d + 1, tm_mon := 0, tm_mday := 1, tm_yday := 0\<rparr>)"

lemma leap_year_isleap: "leap_year y = isleap y"
  by (simp add: leap_year_def isleap_dvd dvd_eq_mod_eq_0) presburger

lemma month_length_ydays:
  assumes "m \<le> 11"
  shows "month_length y (int m) = ydays y ! Suc m - ydays y ! m"
proof -
  have u: "[0..<12] = [0, 1, 2, 3, 4, 5, 6, 7, 8, 9, 10, 11 :: nat]" by (simp add: upt_conv_Cons)
  have "\<forall>m \<in> set [0..<12]. month_length y (int m) = ydays y ! Suc m - ydays y ! m"
    unfolding u by (simp add: month_length_def ydays_def mon_yday_def leap_year_isleap)
  moreover have "m \<in> set [0..<12]" using assms by auto
  ultimately show ?thesis by blast
qed

lemma next_week_day: "(4 + (d + 1)) mod 7 = (if (4 + d) mod 7 = 6 then 0 else (4 + d) mod 7 + 1)" for d :: int
proof -
  have "(4 + (d + 1)) mod 7 = ((4 + d) mod 7 + 1) mod 7"
    by (simp add: mod_add_left_eq add.assoc)
  moreover have "0 \<le> (4 + d) mod 7" "(4 + d) mod 7 < 7" by simp_all
  ultimately show ?thesis by (auto simp: mod_pos_pos_trivial)
qed

lemma civil_time_next: "civil_time (t + 86400) = next_day (civil_time t)"
proof -
  define d y yd where "d = t div 86400" and "y = year_of d" and "yd = yday_of d"
  have d': "(t + 86400) div 86400 = d + 1" by (simp add: d_def)
  have tod: "(t + 86400) mod 60 = t mod 60" "(t + 86400) mod 3600 = t mod 3600" "(t + 86400) mod 86400 = t mod 86400"
    using mod_mult_self1 [of t 1440 60] mod_mult_self1 [of t 24 3600] mod_mult_self1 [of t 1 86400] by simp_all
  note yd = year_of [of d, folded y_def yd_def]
  note m = month_of [OF yd(1,2)]
  have len: "month_length y (int (month_of y yd)) = ydays y ! Suc (month_of y yd) - ydays y ! month_of y yd"
    by (rule month_length_ydays) (rule m(2))
  show ?thesis
  proof (cases "yd + 1 < year_length y")
    case same_year: True
    then have e: "year_of (d + 1) = y \<and> yday_of (d + 1) = yd + 1"
      using yd by (intro year_of_eq) simp_all
    show ?thesis
    proof (cases "yd + 1 < ydays y ! Suc (month_of y yd)")
      case True
      then have "month_of y (yd + 1) = month_of y yd" using m by (intro month_of_eq) simp_all
      then show ?thesis
        using True e len next_week_day [of d]
        by (simp add: civil_time_def d' d_def [symmetric] y_def [symmetric] yd_def [symmetric] civil_def tod next_day_def)
    next
      case False
      then have n: "yd + 1 = ydays y ! Suc (month_of y yd)" using m(4) by simp
      have lt: "month_of y yd < 11"
        using same_year n ydays_sorted(4) [of y] m(2) by (cases "month_of y yd = 11") simp_all
      have "yd + 1 < ydays y ! Suc (Suc (month_of y yd))"
        using month_length_ydays [of "Suc (month_of y yd)" y] lt n by (simp add: month_length_def split: if_splits)
      then have "month_of y (yd + 1) = Suc (month_of y yd)"
        using lt n by (intro month_of_eq) simp_all
      then show ?thesis
        using False n lt e len next_week_day [of d]
        by (simp add: civil_time_def d' d_def [symmetric] y_def [symmetric] yd_def [symmetric] civil_def tod next_day_def)
    qed
  next
    case False
    then have n: "yd + 1 = year_length y" using yd(2) by simp
    then have e: "year_of (d + 1) = y + 1 \<and> yday_of (d + 1) = 0"
      using yd year_start_Suc [of y] year_length_pos(1) [of "y + 1"] by (intro year_of_eq) simp_all
    have "month_of y yd = 11"
      using n ydays_sorted(4) [of y] month_length_ydays [of 11 y]
      by (intro month_of_eq) (simp_all add: month_length_def)
    moreover have "month_of (y + 1) 0 = 0"
      using ydays_sorted(3) [of "y + 1"] month_length_ydays [of 0 "y + 1"]
      by (intro month_of_eq) (simp_all add: month_length_def)
    ultimately show ?thesis
      using n e len ydays_sorted(3) [of "y + 1"] ydays_sorted(4) [of y] next_week_day [of d]
      by (simp add: civil_time_def d' d_def [symmetric] y_def [symmetric] yd_def [symmetric] civil_def tod next_day_def)
  qed
qed

section \<open>mktime64\<close>

definition mktime64 :: "u32 \<Rightarrow> u32 \<Rightarrow> u32 \<Rightarrow> u32 \<Rightarrow> u32 \<Rightarrow> u32 \<Rightarrow> u64" where
  "mktime64 year mon day hour minute sec =
     (let mon = mon - 2;
          (mon, year) = (if 0 \<ge> sint mon then (mon + 12, year - 1) else (mon, year))
      in (((ucast (year div 4 - year div 100 + year div 400 + 367 * mon div 12 + day) +
            ucast (year * 365) - 719499) * 24 + ucast hour) * 60 + ucast minute) * 60 + ucast sec)"

lemma u32_div:
  "0 \<le> a \<Longrightarrow> a < 2 ^ 32 \<Longrightarrow> 0 \<le> b \<Longrightarrow> b < 2 ^ 32 \<Longrightarrow>
   (word_of_int a :: u32) div word_of_int b = word_of_int (a div b)"
  by (simp add: word_div_def uint_word_of_int mod_pos_pos_trivial)

lemma u32_ucast: "0 \<le> a \<Longrightarrow> a < 2 ^ 32 \<Longrightarrow> (ucast (word_of_int a :: u32) :: u64) = word_of_int a"
  by (simp add: word_uint_eq_iff uint_up_ucast is_up uint_word_of_int mod_pos_pos_trivial)

lemma mktime_days:
  fixes y :: int
  assumes "m \<le> 11"
  defines "Y \<equiv> if m \<le> 1 then y - 1 else y" and "M \<equiv> if m \<le> 1 then int m + 11 else int m - 1"
  shows "Y div 4 - Y div 100 + Y div 400 + 367 * M div 12 + day + Y * 365 - 719499 =
    year_start y + ydays y ! m + day - 1"
proof -
  have u: "[0..<12] = [0, 1, 2, 3, 4, 5, 6, 7, 8, 9, 10, 11 :: nat]" by (simp add: upt_conv_Cons)
  have "\<forall>m \<in> set [0..<12]. 367 * (if m \<le> 1 then int m + 11 else int m - 1) div 12 =
     (if m \<le> 1 then ydays y ! m + 336 else ydays y ! m - 29 - (if isleap y then 1 else 0))"
    unfolding u by (simp add: ydays_def mon_yday_def)
  moreover have "m \<in> set [0..<12]" using assms(1) by auto
  ultimately have k: "367 * M div 12 = (if m \<le> 1 then ydays y ! m + 336 else ydays y ! m - 29 - (if isleap y then 1 else 0))"
    unfolding M_def by blast
  have L: "Y div 4 - Y div 100 + Y div 400 = LEAPS_THRU_END_OF Y" by (simp add: LEAPS_floor)
  have c: "LEAPS_THRU_END_OF 1969 = 477" by (simp add: LEAPS_floor)
  show ?thesis
  proof (cases "m \<le> 1")
    case True
    then have e: "Y = y - 1" "367 * M div 12 = ydays y ! m + 336" "LEAPS_THRU_END_OF Y = LEAPS_THRU_END_OF (y - 1)"
      using k by (simp_all add: Y_def)
    show ?thesis unfolding L e(2,3) c year_start_def unfolding e(1) by simp
  next
    case False
    define b :: int where "b = (if isleap y then 1 else 0)"
    have e: "Y = y" "367 * M div 12 = ydays y ! m - 29 - b" "LEAPS_THRU_END_OF Y = LEAPS_THRU_END_OF (y - 1) + b"
      using False k LEAPS_step [of y] by (simp_all add: Y_def b_def)
    show ?thesis unfolding L e(2,3) c year_start_def unfolding e(1) by simp
  qed
qed

lemma mktime64_value:
  assumes "m \<le> 11" "1 \<le> y" "y \<le> 2 ^ 23" "0 \<le> day" "day \<le> 366"
    and h: "0 \<le> h" "h < 24" and mi: "0 \<le> mi" "mi < 60" and s: "0 \<le> s" "s < 60"
  shows "mktime64 (word_of_int y) (word_of_int (int m + 1)) (word_of_int day)
      (word_of_int h) (word_of_int mi) (word_of_int s) =
    word_of_int ((((year_start y + ydays y ! m + day - 1) * 24 + h) * 60 + mi) * 60 + s)"
proof -
  define Y M where "Y = (if m \<le> 1 then y - 1 else y)" and "M = (if m \<le> 1 then int m + 11 else int m - 1)"
  note days = mktime_days [OF assms(1), of y day, folded Y_def M_def]
  have Y: "0 \<le> Y" "Y \<le> 2 ^ 23" and M: "1 \<le> M" "M \<le> 12"
    using assms by (auto simp: Y_def M_def)
  have q: "0 \<le> Y div 4" "Y div 4 \<le> 2 ^ 23" "0 \<le> Y div 100" "Y div 100 \<le> Y div 4" "0 \<le> Y div 400" "Y div 400 \<le> 2 ^ 23"
    "0 \<le> 367 * M div 12" "367 * M div 12 \<le> 367"
    using zdiv_mono1 [of Y "2 ^ 23" 4] zdiv_mono1 [of Y "2 ^ 23" 400] zdiv_mono2 [of Y 4 100]
      zdiv_mono1 [of "367 * M" "367 * 12" 12] Y M by simp_all
  have mon: "(of_int (int m + 1) :: u32) - 2 = of_int (int m - 1)"
    by simp
  have sg: "sint (of_int (int m - 1) :: u32) = int m - 1"
    using to_int_small [of "int m - 1"] assms(1) by (simp add: to_int_def)
  have ym: "(if 0 \<ge> sint (of_int (int m - 1) :: u32) then (of_int (int m - 1) + 12, of_int y - 1)
     else (of_int (int m - 1), of_int y)) = (of_int M, of_int Y :: u32)"
    unfolding sg by (simp add: M_def Y_def)
  have a: "(of_int Y :: u32) div 4 = of_int (Y div 4)" "(of_int Y :: u32) div 100 = of_int (Y div 100)"
    "(of_int Y :: u32) div 400 = of_int (Y div 400)" "367 * (of_int M :: u32) div 12 = of_int (367 * M div 12)"
    using u32_div [of Y 4] u32_div [of Y 100] u32_div [of Y 400] u32_div [of "367 * M" 12] Y M by simp_all
  have b: "of_int (Y div 4) - of_int (Y div 100) + of_int (Y div 400) + of_int (367 * M div 12) + of_int day =
      (of_int (Y div 4 - Y div 100 + Y div 400 + 367 * M div 12 + day) :: u32)"
    "of_int Y * 365 = (of_int (Y * 365) :: u32)"
    by simp_all
  have A: "0 \<le> x - z + u + v + day" "x - z + u + v + day < 2 ^ 32"
    if "z \<le> x" "0 \<le> z" "x \<le> 2 ^ 23" "0 \<le> u" "u \<le> 2 ^ 23" "0 \<le> v" "v \<le> 367" for x z u v :: int
    using that assms(4,5) by simp_all
  have e: "ucast (of_int (Y div 4 - Y div 100 + Y div 400 + 367 * M div 12 + day) :: u32) =
      (of_int (Y div 4 - Y div 100 + Y div 400 + 367 * M div 12 + day) :: u64)"
    by (rule u32_ucast; rule A; rule q)
  have g: "ucast (of_int (Y * 365) :: u32) = (of_int (Y * 365) :: u64)"
    "ucast (of_int h :: u32) = (of_int h :: u64)" "ucast (of_int mi :: u32) = (of_int mi :: u64)"
    "ucast (of_int s :: u32) = (of_int s :: u64)"
    using Y h mi s by (simp_all add: u32_ucast del: of_int_mult)
  have f: "of_int (Y div 4 - Y div 100 + Y div 400 + 367 * M div 12 + day) + of_int (Y * 365) - 719499 =
     (of_int (year_start y + ydays y ! m + day - 1) :: u64)"
    unfolding days [symmetric] by (simp only: of_int_add of_int_diff of_int_mult of_int_numeral)
  show ?thesis
    unfolding mktime64_def Let_def mon ym prod.case a b e g f
    by (simp only: of_int_add of_int_diff of_int_mult of_int_numeral)
qed

section \<open>The tool\<close>

record cal_tool = time_tool +
  ct_tm :: tm

definition UpdateTm :: "cal_tool \<Rightarrow> cal_tool option" where
  "UpdateTm t =
     (if tt_update_time t
      then (case gmtime64 (sint (tt_time t) sdiv 1000) (ct_tm t) of
              None \<Rightarrow> None
            | Some (_, d) \<Rightarrow> Some (t\<lparr>ct_tm := d, tt_update_time := False\<rparr>))
      else Some t)"

definition with_tm :: "(tm \<Rightarrow> 'a) \<Rightarrow> cal_tool \<Rightarrow> ('a \<times> cal_tool) option" where
  "with_tm f t = (case UpdateTm t of None \<Rightarrow> None | Some t \<Rightarrow> Some (f (ct_tm t), t))"

text \<open>\<open>%0wd\<close> of \<open>printf\<close>.\<close>

definition pad :: "nat \<Rightarrow> int \<Rightarrow> string" where
  "pad w x =
     (let ds = decimal (nat \<bar>x\<bar>); sg = (if x < 0 then ''-'' else [])
      in sg @ replicate (w - length sg - length ds) CHR ''0'' @ ds)"

definition date_str :: "tm \<Rightarrow> string" where
  "date_str d = pad 4 (tm_year d + 1900) @ pad 2 (tm_mon d + 1) @ pad 2 (tm_mday d)"

definition format_str :: "tm \<Rightarrow> string" where
  "format_str d = pad 4 (tm_year d + 1900) @ '' '' @ pad 2 (tm_mon d + 1) @ '' '' @ pad 2 (tm_mday d) @ ''-'' @
     pad 2 (tm_hour d) @ '':'' @ pad 2 (tm_min d) @ '':'' @ pad 2 (tm_sec d)"

definition GetDateStr :: "cal_tool \<Rightarrow> (string \<times> cal_tool) option" where
  "GetDateStr = with_tm date_str"

definition GetDate :: "cal_tool \<Rightarrow> (int \<times> cal_tool) option" where
  "GetDate = with_tm (\<lambda>d. atoi (date_str d))"

definition GetYearDay :: "cal_tool \<Rightarrow> (int \<times> cal_tool) option" where
  "GetYearDay = with_tm tm_yday"

definition GetMonthDay :: "cal_tool \<Rightarrow> (int \<times> cal_tool) option" where
  "GetMonthDay = with_tm tm_mday"

definition GetWeekDay :: "cal_tool \<Rightarrow> (int \<times> cal_tool) option" where
  "GetWeekDay = with_tm tm_wday"

definition GetMonth :: "cal_tool \<Rightarrow> (int \<times> cal_tool) option" where
  "GetMonth = with_tm tm_mon"

definition GetYear :: "cal_tool \<Rightarrow> (int \<times> cal_tool) option" where
  "GetYear = with_tm (\<lambda>d. tm_year d + 1900)"

definition GetHour :: "cal_tool \<Rightarrow> (int \<times> cal_tool) option" where
  "GetHour = with_tm tm_hour"

definition GetMin :: "cal_tool \<Rightarrow> (int \<times> cal_tool) option" where
  "GetMin = with_tm tm_min"

definition GetSec :: "cal_tool \<Rightarrow> (int \<times> cal_tool) option" where
  "GetSec = with_tm tm_sec"

definition GetFormatTime :: "cal_tool \<Rightarrow> (string \<times> cal_tool) option" where
  "GetFormatTime = with_tm format_str"

text \<open>The variant on a buffer: the 32 bytes \<open>snprintf\<close> may fill, the terminating 0 among them.\<close>

definition GetFormatTime_buf :: "string \<Rightarrow> int \<Rightarrow> cal_tool \<Rightarrow> (bool \<times> string \<times> cal_tool) option" where
  "GetFormatTime_buf res len t =
     (if len < 32 then Some (False, res, t)
      else (case with_tm format_str t of
              None \<Rightarrow> None
            | Some (s, t) \<Rightarrow> let w = take 31 s @ [CHR 0x00] in Some (True, w @ drop (length w) res, t)))"

text \<open>The broken-down time is that of the last \<open>Now\<close>, computed by the first getter that follows it.\<close>

definition tool_tm :: "cal_tool \<Rightarrow> tm" where
  "tool_tm t = civil_time (sint (tt_time t) sdiv 1000)"

definition tool_ok :: "cal_tool \<Rightarrow> bool" where
  "tool_ok t \<longleftrightarrow> tt_update_time t \<or> ct_tm t = tool_tm t"

lemma time_bound: "\<bar>sint (x :: u64) sdiv 1000\<bar> \<le> 2 ^ 54"
proof -
  have "\<bar>sint x\<bar> \<le> 2 ^ 63" using sint_range_size [of x] by (simp add: word_size) linarith
  then have "\<bar>sint x\<bar> div 1000 \<le> 2 ^ 63 div 1000" by (rule zdiv_mono1) simp
  then have "\<bar>sint x\<bar> div 1000 \<le> 2 ^ 54" by simp
  moreover have "0 \<le> \<bar>sint x\<bar> div 1000" by simp
  ultimately show ?thesis by (simp add: signed_divide_int_def abs_if sgn_if split: if_splits)
qed

lemma UpdateTm_ok:
  "tool_ok t \<Longrightarrow> UpdateTm t = Some (t\<lparr>ct_tm := tool_tm t, tt_update_time := False\<rparr>)"
  using gmtime64_civil_time [OF time_bound [of "tt_time t"]]
  by (auto simp: UpdateTm_def tool_ok_def tool_tm_def)

lemma with_tm_ok:
  "tool_ok t \<Longrightarrow> with_tm f t = Some (f (tool_tm t), t\<lparr>ct_tm := tool_tm t, tt_update_time := False\<rparr>)"
  by (simp add: with_tm_def UpdateTm_ok)

lemma tool_ok_Now [simp]: "tool_ok (tt_Now clock t)" "tool_tm (tt_Now clock t) = civil_time (sint clock sdiv 1000)"
  by (simp_all add: tool_ok_def tool_tm_def tt_Now_def)

lemma tool_ok_read [simp]: "tool_ok (t\<lparr>ct_tm := tool_tm t, tt_update_time := False\<rparr>)"
  "tool_tm (t\<lparr>ct_tm := d, tt_update_time := b\<rparr>) = tool_tm t"
  by (simp_all add: tool_ok_def tool_tm_def)

lemma digits_append: "\<forall>c \<in> set as. is_digit c \<Longrightarrow> atoi_digits acc (as @ bs) = atoi_digits (atoi_digits acc as) bs"
  by (induction acc as rule: atoi_digits.induct) auto

lemma atoi_digits_acc:
  "\<forall>c \<in> set cs. is_digit c \<Longrightarrow> atoi_digits acc cs = acc * 10 ^ length cs + atoi_digits 0 cs"
proof (induction cs arbitrary: acc)
  case (Cons c cs)
  have d: "is_digit c" "\<forall>c \<in> set cs. is_digit c" using Cons.prems by simp_all
  show ?case
    using d Cons.IH [OF d(2), of "10 * acc + (int (of_char c) - 48)"] Cons.IH [OF d(2), of "int (of_char c) - 48"]
    by (simp add: algebra_simps)
qed simp

lemma decimal_length: "n < 10 ^ Suc w \<Longrightarrow> length (decimal n) \<le> Suc w"
proof (induction w arbitrary: n)
  case 0
  then show ?case by (simp add: decimal.simps [of n])
next
  case (Suc w)
  then have "n div 10 < 10 ^ Suc w" by (simp add: div_less_iff_less_mult mult.commute)
  then show ?case using Suc.IH [of "n div 10"] by (simp add: decimal.simps [of n])
qed

lemma pad_digits: "0 \<le> x \<Longrightarrow> \<forall>c \<in> set (pad w x). is_digit c"
  using decimal_digits [of "nat x"] by (auto simp: pad_def Let_def is_digit_def)

lemma pad_length: "0 \<le> x \<Longrightarrow> x < 10 ^ Suc w \<Longrightarrow> length (pad (Suc w) x) = Suc w"
  using decimal_length [of "nat x" w] by (simp add: pad_def Let_def nat_less_iff)

lemma atoi_zeros: "atoi_digits 0 (replicate k CHR ''0'' @ cs) = atoi_digits 0 cs"
  by (induction k) (simp_all add: is_digit_def)

lemma pad_value: "0 \<le> x \<Longrightarrow> atoi_digits acc (pad w x) = acc * 10 ^ length (pad w x) + x"
  using atoi_digits_acc [OF pad_digits, of x acc w]
  by (simp add: pad_def Let_def atoi_zeros atoi_digits_decimal)

lemma atoi_digit_string: "\<forall>c \<in> set cs. is_digit c \<Longrightarrow> cs \<noteq> [] \<Longrightarrow> atoi cs = atoi_digits 0 cs"
proof (cases cs)
  case (Cons c ds)
  moreover assume "\<forall>c \<in> set cs. is_digit c"
  ultimately have "is_digit c" by simp
  then have "\<not> is_space c" "c \<noteq> CHR ''-''" "c \<noteq> CHR ''+''"
    by (auto simp: is_digit_def is_space_def)
  with Cons show ?thesis by (simp add: atoi_def)
qed simp

lemma date_str_value:
  assumes "0 \<le> y" "0 \<le> m" "m < 100" "0 \<le> d" "d < 100"
  shows "atoi (pad 4 y @ pad 2 m @ pad 2 d) = 10000 * y + 100 * m + d"
proof -
  have l: "length (pad 2 m) = 2" "length (pad 2 d) = 2"
    using pad_length [of m 1] pad_length [of d 1] assms by (simp_all add: numeral_2_eq_2)
  have "pad 2 d \<noteq> []" using l(2) by auto
  then show ?thesis
    using pad_digits [of y 4] pad_digits [of m 2] pad_digits [of d 2] assms
    by (simp add: atoi_digit_string digits_append pad_value l ball_Un)
qed

section \<open>Properties\<close>

lemma civil_ranges:
  assumes "0 \<le> yd" "yd < year_length y"
  shows "0 \<le> tm_mon (civil y yd t) \<and> tm_mon (civil y yd t) \<le> 11 \<and>
    1 \<le> tm_mday (civil y yd t) \<and> tm_mday (civil y yd t) \<le> month_length y (tm_mon (civil y yd t))"
  using month_of [OF assms] month_length_ydays [of "month_of y yd" y] by (simp add: civil_def)

lemma month_length_le: "month_length y m \<le> 31"
  by (simp add: month_length_def)

lemma clock_ranges:
  "0 \<le> t mod 60" "t mod 60 < 60" "0 \<le> t mod 3600 div 60" "t mod 3600 div 60 < 60"
  "0 \<le> t mod 86400 div 3600" "t mod 86400 div 3600 < 24" for t :: int
proof -
  have "0 \<le> t mod 3600" "t mod 3600 \<le> 3599" "0 \<le> t mod 86400" "t mod 86400 \<le> 86399"
    using pos_mod_bound [of 3600 t] pos_mod_bound [of 86400 t] by simp_all
  then show "t mod 3600 div 60 < 60" "t mod 86400 div 3600 < 24"
    using zdiv_mono1 [of "t mod 3600" 3599 60] zdiv_mono1 [of "t mod 86400" 86399 3600] by simp_all
qed (simp_all add: pos_imp_zdiv_nonneg_iff)

lemma civil_clock:
  "tm_sec (civil y yd t) \<in> {0..<60} \<and> tm_min (civil y yd t) \<in> {0..<60} \<and>
   tm_hour (civil y yd t) \<in> {0..<24} \<and> tm_wday (civil y yd t) \<in> {0..<7}"
  using clock_ranges [of t] by (simp add: civil_def)

lemma clock_sum: "((n * 24 + t mod 86400 div 3600) * 60 + t mod 3600 div 60) * 60 + t mod 60 = n * 86400 + t mod 86400"
  for t n :: int
proof -
  have g: "a = h * 3600 + b \<Longrightarrow> b = m * 60 + c \<Longrightarrow> ((n * 24 + h) * 60 + m) * 60 + c = n * 86400 + a"
    for a b c h m :: int by simp
  show ?thesis
  proof (rule g)
    show "t mod 86400 = t mod 86400 div 3600 * 3600 + t mod 3600"
      using div_mult_mod_eq [of "t mod 86400" 3600] by (simp add: mod_mod_cancel)
    show "t mod 3600 = t mod 3600 div 60 * 60 + t mod 60"
      using div_mult_mod_eq [of "t mod 3600" 60] by (simp add: mod_mod_cancel)
  qed
qed

text \<open>
  C30. The loops of \<open>gmtime64\<close> end for every \<open>time_t\<close>, of the past too, and the search of the month stays
  in its table: the call returns, with 0 only when the year does not fit an \<open>int\<close>, and otherwise
  with a time and date whose fields are in their ranges.
\<close>

theorem gmtime64_returns:
  "(\<exists>d. gmtime64 t tp = Some (0, d) \<and> year_of (t div 86400) - 1900 \<notin> {- (2 ^ 31)..<2 ^ 31}) \<or>
   (\<exists>d. gmtime64 t tp = Some (1, d) \<and>
      tm_sec d \<in> {0..<60} \<and> tm_min d \<in> {0..<60} \<and> tm_hour d \<in> {0..<24} \<and> tm_wday d \<in> {0..<7} \<and>
      tm_mon d \<in> {0..<12} \<and> tm_mday d \<in> {1..month_length (tm_year d + 1900) (tm_mon d)} \<and>
      tm_yday d \<in> {0..<(if leap_year (tm_year d + 1900) then 366 else 365)})"
proof (cases "to_int (year_of (t div 86400) - 1900) = year_of (t div 86400) - 1900")
  case True
  note y = year_of [of "t div 86400"]
  define d where "d = civil (year_of (t div 86400)) (yday_of (t div 86400)) t"
  have g: "gmtime64 t tp = Some (1, d)" unfolding d_def by (rule gmtime64_year(1) [OF y True])
  have "tm_year d + 1900 = year_of (t div 86400)" "tm_yday d = yday_of (t div 86400)"
    by (simp_all add: d_def civil_def)
  then show ?thesis
    using g civil_ranges [OF y(1,2), of t, folded d_def] civil_clock [of "year_of (t div 86400)" "yday_of (t div 86400)" t, folded d_def] y(1,2)
    unfolding leap_year_isleap year_length_def [symmetric] by simp
next
  case False
  have "year_of (t div 86400) - 1900 \<notin> {- (2 ^ 31)..<2 ^ 31}"
    using to_int_small [of "year_of (t div 86400) - 1900"] False by auto
  then show ?thesis using gmtime64_year(2) [OF year_of [of "t div 86400"] False] by blast
qed


text \<open>The first day, at a second of it.\<close>

definition epoch_day :: "int \<Rightarrow> tm" where
  "epoch_day s =
     \<lparr>tm_sec = s mod 60, tm_min = s mod 3600 div 60, tm_hour = s div 3600,
      tm_mday = 1, tm_mon = 0, tm_year = 70, tm_wday = 4, tm_yday = 0\<rparr>"

lemma civil_time_days:
  assumes "0 \<le> s" "s < 86400"
  shows "civil_time (86400 * int n + s) = (next_day ^^ n) (epoch_day s)"
proof (induction n)
  case 0
  have y: "year_of 0 = 1970 \<and> yday_of 0 = 0"
    by (rule year_of_eq) (simp_all add: year_length_def)
  have "month_of 1970 0 = 0" by (rule month_of_eq) (simp_all add: ydays_def mon_yday_def)
  moreover have "ydays 1970 ! 0 = 0" by (rule ydays_sorted)
  ultimately show ?case
    using assms y by (simp add: civil_time_def civil_def epoch_day_def mod_pos_pos_trivial div_pos_pos_trivial)
next
  case (Suc n)
  then show ?case using civil_time_next [of "86400 * int n + s"] by (simp add: algebra_simps)
qed

text \<open>
  C28. \<open>gmtime64\<close> computes the calendar: with its estimated years and its tables of days it gives the date
  that counting day by day from Thursday, 1 January 1970 gives, with the lengths of the months, the
  Gregorian leap years and the days of the week; and the time of the day.
\<close>

theorem gmtime64_days:
  assumes "n \<le> 2 ^ 37" "0 \<le> s" "s < 86400"
  shows "gmtime64 (86400 * int n + s) tp = Some (1, (next_day ^^ n) (epoch_day s))"
proof -
  have "\<bar>86400 * int n + s\<bar> \<le> 2 ^ 54" using assms by simp
  then show ?thesis using civil_time_days [OF assms(2,3)] by (simp add: gmtime64_civil_time)
qed

definition blank_tm :: tm where
  "blank_tm = \<lparr>tm_sec = 0, tm_min = 0, tm_hour = 0, tm_mday = 0, tm_mon = 0, tm_year = 0, tm_wday = 0, tm_yday = 0\<rparr>"

theorem gmtime64_days_witness:
  "gmtime64 90123 blank_tm =
     Some (1, \<lparr>tm_sec = 3, tm_min = 2, tm_hour = 1, tm_mday = 2, tm_mon = 0, tm_year = 70, tm_wday = 5, tm_yday = 1\<rparr>)"
  using gmtime64_days [of 1 3723 blank_tm]
  by (simp add: epoch_day_def next_day_def month_length_def)

text \<open>
  C29. \<open>mktime64\<close> takes the fields of \<open>gmtime64\<close> back to the second they came from, from 1970 for more than
  a million years: none of its 32-bit intermediate results wraps around.
\<close>

theorem mktime64_gmtime64:
  assumes "0 \<le> t" "t < 2 ^ 45" "gmtime64 t tp = Some (r, d)"
  shows "mktime64 (of_int (tm_year d + 1900)) (of_int (tm_mon d + 1)) (of_int (tm_mday d))
      (of_int (tm_hour d)) (of_int (tm_min d)) (of_int (tm_sec d)) = of_int t"
proof -
  define y yd where "y = year_of (t div 86400)" and "yd = yday_of (t div 86400)"
  note y = year_of [of "t div 86400", folded y_def yd_def]
  note m = month_of [OF y(1,2)]
  have d: "d = civil y yd t"
    using gmtime64_civil_time [of t tp] assms by (simp add: civil_time_def y_def yd_def)
  have days: "0 \<le> t div 86400" "t div 86400 \<le> 2 ^ 45 div 86400"
    using assms zdiv_mono1 [of t "2 ^ 45" 86400] by (simp_all add: pos_imp_zdiv_nonneg_iff)
  then have "\<bar>t div 86400\<bar> div 365 \<le> 2 ^ 45 div 86400 div 365" by (intro zdiv_mono1) simp_all
  then have yb: "y \<le> 2 ^ 23" using year_of_bounds(1) [of "t div 86400"] by (simp add: y_def)
  have y0: "1970 \<le> y" using year_start_mono [of y 1970] y days(1) by (cases "y < 1970") simp_all
  define D where "D = yd - ydays y ! month_of y yd + 1"
  have D: "0 \<le> D" "D \<le> 366"
    using civil_ranges [OF y(1,2), of t] month_length_le [of y "tm_mon (civil y yd t)"] by (simp_all add: civil_def D_def)
  have v: "mktime64 (of_int y) (of_int (int (month_of y yd) + 1)) (of_int D) (of_int (t mod 86400 div 3600))
      (of_int (t mod 3600 div 60)) (of_int (t mod 60)) =
    of_int ((((year_start y + ydays y ! month_of y yd + D - 1) * 24 + t mod 86400 div 3600) * 60 + t mod 3600 div 60) * 60 + t mod 60)"
    by (rule mktime64_value) (use m(2) y0 yb D clock_ranges [of t] in linarith)+
  have e: "year_start y + ydays y ! month_of y yd + D - 1 = t div 86400"
    using y(3) by (simp add: D_def)
  have "tm_year d + 1900 = y" "tm_mon d + 1 = int (month_of y yd) + 1" "tm_mday d = D"
    "tm_hour d = t mod 86400 div 3600" "tm_min d = t mod 3600 div 60" "tm_sec d = t mod 60"
    by (simp_all add: d civil_def D_def)
  then show ?thesis
    using v [unfolded e clock_sum div_mult_mod_eq] by simp
qed

theorem mktime64_gmtime64_witness:
  "\<exists>d. gmtime64 951825600 blank_tm = Some (1, d) \<and>
     mktime64 (of_int (tm_year d + 1900)) (of_int (tm_mon d + 1)) (of_int (tm_mday d))
       (of_int (tm_hour d)) (of_int (tm_min d)) (of_int (tm_sec d)) = 951825600"
proof -
  have "gmtime64 951825600 blank_tm = Some (1, civil_time 951825600)" by (rule gmtime64_civil_time) simp
  with mktime64_gmtime64 [OF _ _ this] show ?thesis by simp
qed

lemma year_9999:
  assumes "0 \<le> days" "days < 2932897"
  shows "1970 \<le> year_of days" "year_of days \<le> 9999"
proof -
  note y = year_of [of days]
  have k: "year_start 10000 = 2932897" by (simp add: year_start_def LEAPS_floor)
  show "1970 \<le> year_of days"
    using year_start_mono [of "year_of days" 1970] y assms by (cases "year_of days < 1970") simp_all
  show "year_of days \<le> 9999"
  proof (rule ccontr)
    assume "\<not> year_of days \<le> 9999"
    then have "year_start 10000 \<le> year_start (year_of days)"
      using year_start_mono [of 10000 "year_of days"] year_length_pos(1) [of 10000]
      by (cases "year_of days = 10000") simp_all
    then show False using y assms k by simp
  qed
qed

lemma civil_date_fields:
  assumes "0 \<le> sint (clock :: u64)" "sint clock < 253402300800000"
  defines "d \<equiv> civil_time (sint clock sdiv 1000)"
  shows "1970 \<le> tm_year d + 1900" "0 \<le> tm_mon d" "tm_mon d < 12" "1 \<le> tm_mday d" "tm_mday d < 32"
    "atoi (date_str d) = 10000 * (tm_year d + 1900) + 100 * (tm_mon d + 1) + tm_mday d"
proof -
  define s days where "s = sint clock sdiv 1000" and "days = s div 86400"
  have s: "s = sint clock div 1000" using assms(1) by (simp add: s_def nonneg_sdiv)
  have d: "0 \<le> days" "days < 2932897"
    using assms(1,2) zdiv_mono1 [of "sint clock" "253402300799999" 1000] zdiv_mono1 [of s 253402300799 86400]
    unfolding s days_def by (simp_all add: pos_imp_zdiv_nonneg_iff)
  note y = year_of [of days]
  have e: "d = civil (year_of days) (yday_of days) s"
    by (simp add: d_def civil_time_def s_def days_def)
  show f: "1970 \<le> tm_year d + 1900" "0 \<le> tm_mon d" "tm_mon d < 12" "1 \<le> tm_mday d" "tm_mday d < 32"
    using civil_ranges [OF y(1,2), of s] month_length_le [of "year_of days" "tm_mon d"] year_9999(1) [OF d]
    unfolding e by (simp_all add: civil_def)
  show "atoi (date_str d) = 10000 * (tm_year d + 1900) + 100 * (tm_mon d + 1) + tm_mday d"
    using date_str_value [of "tm_year d + 1900" "tm_mon d + 1" "tm_mday d"] f by (simp add: date_str_def)
qed

text \<open>
  After \<open>Now\<close> all getters, in any order, tell the same second: the first one converts it, the others
  use the result. From 1970 to the year 9999 the number of \<open>GetDate\<close>, read back from the string that
  \<open>GetDateStr\<close> gives, is made of what the others give; months count from 0 in \<open>GetMonth\<close>, from 1 in
  the string.
\<close>

theorem GetDate_fields:
  assumes "0 \<le> sint clock" "sint clock < 253402300800000"
  shows "\<exists>t' y m d.
    GetDate (tt_Now clock t) = Some (10000 * y + 100 * (m + 1) + d, t') \<and>
    GetYear t' = Some (y, t') \<and> GetMonth t' = Some (m, t') \<and> GetMonthDay t' = Some (d, t') \<and>
    GetMsec t' = clock"
proof -
  define tm where "tm = civil_time (sint clock sdiv 1000)"
  define t' where "t' = (tt_Now clock t)\<lparr>ct_tm := tm, tt_update_time := False\<rparr>"
  have tm: "tm = tool_tm (tt_Now clock t)" by (simp add: tm_def)
  have ok: "tool_ok t'" "tool_tm t' = tm" "t'\<lparr>ct_tm := tm, tt_update_time := False\<rparr> = t'"
    by (simp_all add: t'_def tm tool_ok_def tool_tm_def tt_Now_def)
  have g: "with_tm h t' = Some (h tm, t')" for h :: "tm \<Rightarrow> int"
    using with_tm_ok [OF ok(1), of h] unfolding ok by simp
  have n: "with_tm h (tt_Now clock t) = Some (h tm, t')" for h :: "tm \<Rightarrow> int"
    using with_tm_ok [OF tool_ok_Now(1), of h clock t] unfolding tm [symmetric] t'_def by simp
  have c: "GetMsec t' = clock" by (simp add: t'_def GetMsec_def tt_Now_def)
  have v: "atoi (date_str tm) = 10000 * (tm_year tm + 1900) + 100 * (tm_mon tm + 1) + tm_mday tm"
    unfolding tm_def by (rule civil_date_fields(6) [OF assms])
  have "GetDate (tt_Now clock t) = Some (10000 * (tm_year tm + 1900) + 100 * (tm_mon tm + 1) + tm_mday tm, t')"
    "GetYear t' = Some (tm_year tm + 1900, t')" "GetMonth t' = Some (tm_mon tm, t')" "GetMonthDay t' = Some (tm_mday tm, t')"
    unfolding GetDate_def GetYear_def GetMonth_def GetMonthDay_def g n v by (rule refl)+
  with c show ?thesis by blast
qed

definition some_tool :: cal_tool where
  "some_tool = \<lparr>tt_update_time = True, tt_time = 0, ct_tm = blank_tm\<rparr>"

theorem GetDate_fields_witness:
  "\<exists>t' y m d.
    GetDate (tt_Now 951825600123 some_tool) = Some (10000 * y + 100 * (m + 1) + d, t') \<and>
    GetYear t' = Some (y, t') \<and> GetMonth t' = Some (m, t') \<and> GetMonthDay t' = Some (d, t') \<and>
    GetMsec t' = 951825600123"
  by (rule GetDate_fields) simp_all

end
