(* ===== verification/Memory_Pool.thy ===== *)
theory Memory_Pool
  imports Hudp_Prelude "HOL-Library.Monad_Syntax" "HOL-Library.Signed_Division"
begin

text \<open>
  The memory pools \<^verbatim>\<open>base/BlockMemoryPool.cpp\<close> and \<^verbatim>\<open>base/MemoryPool.cpp\<close>, which the log allocates
  from. \<open>malloc\<close> is a parameter: \<open>mal n\<close> says whether the \<open>n\<close>th call succeeds; what it returns does not
  overlap what it has returned before. An address is the number of the call and an offset; the list
  \<open>mp_heap\<close> of the sizes asked for is no member of the class, it plays the heap. A free list is the
  list of the nodes that are linked through their first bytes. \<open>None\<close> is undefined behaviour, or the
  call of \<open>abort\<close> when there is no memory.
\<close>

section \<open>CBlockMemoryPool\<close>

text \<open>A block is the number of the call of \<open>malloc\<close> that gave it, or null.\<close>

record block_pool =
  bp_add_nodes :: int
  bp_large_size :: int
  bp_free :: "nat option list"
  bp_mallocs :: nat

definition CBlockMemoryPool :: "int \<Rightarrow> int \<Rightarrow> block_pool" where
  "CBlockMemoryPool large_sz add_num =
     \<lparr>bp_add_nodes = add_num, bp_large_size = large_sz, bp_free = [], bp_mallocs = 0\<rparr>"

fun expand_loop :: "(nat \<Rightarrow> bool) \<Rightarrow> nat \<Rightarrow> block_pool \<Rightarrow> block_pool" where
  "expand_loop mal 0 p = p"
| "expand_loop mal (Suc n) p =
     expand_loop mal n (p\<lparr>bp_free := bp_free p @ [if mal (bp_mallocs p) then Some (bp_mallocs p) else None],
                         bp_mallocs := Suc (bp_mallocs p)\<rparr>)"

definition bp_Expansion :: "(nat \<Rightarrow> bool) \<Rightarrow> int \<Rightarrow> block_pool \<Rightarrow> block_pool" where
  "bp_Expansion mal num p = expand_loop mal (nat (if num = 0 then bp_add_nodes p else num)) p"

definition bp_PoolLargeMalloc :: "(nat \<Rightarrow> bool) \<Rightarrow> block_pool \<Rightarrow> (nat option \<times> block_pool) option" where
  "bp_PoolLargeMalloc mal p =
     (let p = (if bp_free p = [] then bp_Expansion mal 0 p else p)
      in if bp_free p = [] then None
         else Some (last (bp_free p), p\<lparr>bp_free := butlast (bp_free p)\<rparr>))"

definition bp_PoolLargeFree :: "nat option \<Rightarrow> block_pool \<Rightarrow> block_pool" where
  "bp_PoolLargeFree m p = p\<lparr>bp_free := bp_free p @ [m]\<rparr>"

definition bp_GetSize :: "block_pool \<Rightarrow> nat" where
  "bp_GetSize p = length (bp_free p)"

definition bp_GetBlockLength :: "block_pool \<Rightarrow> int" where
  "bp_GetBlockLength p = bp_large_size p"

fun release_loop :: "nat \<Rightarrow> nat \<Rightarrow> nat option list \<Rightarrow> nat option list" where
  "release_loop n hale [] = []"
| "release_loop n hale (m # ms) =
     (let n = n - 1 in if ms = [] \<or> n \<le> hale then ms else release_loop n hale ms)"

definition bp_ReleaseHalf :: "block_pool \<Rightarrow> block_pool" where
  "bp_ReleaseHalf p =
     (let size = length (bp_free p) in p\<lparr>bp_free := release_loop size (size div 2) (bp_free p)\<rparr>)"

section \<open>CMemoryPool\<close>

type_synonym addr = "nat \<times> int"

definition align :: int where "align = 8"
definition max_bytes :: int where "max_bytes = 256"
definition number_of_free_lists :: int where "number_of_free_lists = max_bytes sdiv align"
definition number_add_nodes :: int where "number_add_nodes = 20"

definition RoundUp :: "int \<Rightarrow> int" where
  "RoundUp sz = (sz + align - 1) AND NOT (align - 1)"

definition FreeListIndex :: "int \<Rightarrow> int" where
  "FreeListIndex sz = (sz + align - 1) sdiv align - 1"

record mem_pool =
  mp_free_list :: "addr list list"
  mp_pool_start :: "addr option"
  mp_pool_end :: "addr option"
  mp_malloc_vec :: "nat list"
  mp_block_pool :: block_pool
  mp_heap :: "int list"

definition CMemoryPool :: "int \<Rightarrow> int \<Rightarrow> mem_pool" where
  "CMemoryPool large_sz add_num =
     \<lparr>mp_free_list = replicate (nat number_of_free_lists) [], mp_pool_start = None, mp_pool_end = None,
      mp_malloc_vec = [], mp_block_pool = CBlockMemoryPool (RoundUp large_sz) add_num, mp_heap = []\<rparr>"

definition do_malloc :: "(nat \<Rightarrow> bool) \<Rightarrow> int \<Rightarrow> mem_pool \<Rightarrow> (nat \<times> mem_pool) option" where
  "do_malloc mal n p =
     (if mal (length (mp_heap p)) then Some (length (mp_heap p), p\<lparr>mp_heap := mp_heap p @ [n]\<rparr>) else None)"

definition free_list :: "int \<Rightarrow> mem_pool \<Rightarrow> addr list option" where
  "free_list i p = (if 0 \<le> i \<and> i < number_of_free_lists then Some (mp_free_list p ! nat i) else None)"

definition set_free_list :: "int \<Rightarrow> addr list \<Rightarrow> mem_pool \<Rightarrow> mem_pool option" where
  "set_free_list i xs p =
     (if 0 \<le> i \<and> i < number_of_free_lists then Some (p\<lparr>mp_free_list := (mp_free_list p)[nat i := xs]\<rparr>) else None)"

definition left_bytes :: "mem_pool \<Rightarrow> int" where
  "left_bytes p = (case (mp_pool_start p, mp_pool_end p) of
     (Some (_, s), Some (_, e)) \<Rightarrow> e - s | _ \<Rightarrow> 0)"

definition move_start :: "int \<Rightarrow> mem_pool \<Rightarrow> (addr \<times> mem_pool) option" where
  "move_start n p = (case mp_pool_start p of
     None \<Rightarrow> None | Some (c, s) \<Rightarrow> Some ((c, s), p\<lparr>mp_pool_start := Some (c, s + n)\<rparr>))"

text \<open>
  The rest of the old chunk is put to the head of a list, by a write of a pointer (8 bytes) to its
  start; the list is the one of the size asked for.
\<close>

definition keep_rest :: "int \<Rightarrow> mem_pool \<Rightarrow> mem_pool option" where
  "keep_rest sz p =
     (if left_bytes p > 0 then do {
        my_free \<leftarrow> free_list (FreeListIndex (left_bytes p)) p;
        start \<leftarrow> mp_pool_start p;
        if left_bytes p < 8 then None else set_free_list (FreeListIndex sz) (start # my_free) p }
      else Some p)"

definition fresh_chunk :: "(nat \<Rightarrow> bool) \<Rightarrow> int \<Rightarrow> mem_pool \<Rightarrow> mem_pool option" where
  "fresh_chunk mal bytes p = do {
     (c, p) \<leftarrow> do_malloc mal bytes p;
     Some (p\<lparr>mp_pool_start := Some (c, 0), mp_malloc_vec := mp_malloc_vec p @ [c], mp_pool_end := Some (c, bytes)\<rparr>) }"

lemma fresh_chunk_left: "fresh_chunk mal bytes p = Some q \<Longrightarrow> left_bytes q = bytes"
  by (auto simp: fresh_chunk_def left_bytes_def split: bind_splits)

function ChunkAlloc :: "(nat \<Rightarrow> bool) \<Rightarrow> int \<Rightarrow> int \<Rightarrow> mem_pool \<Rightarrow> (addr \<times> int \<times> mem_pool) option" where
  "ChunkAlloc mal sz nums p =
     (let need_bytes = sz * nums in
      if left_bytes p \<ge> need_bytes then do {
        (res, p) \<leftarrow> move_start need_bytes p;
        Some (res, nums, p) }
      else if left_bytes p \<ge> sz then do {
        let nums = left_bytes p sdiv sz;
        (res, p) \<leftarrow> move_start (sz * nums) p;
        Some (res, nums, p) }
      else
        (case keep_rest sz p of
           None \<Rightarrow> None
         | Some q \<Rightarrow>
           (case fresh_chunk mal (sz * nums) q of
              None \<Rightarrow> None
            | Some q' \<Rightarrow> ChunkAlloc mal sz nums q')))"
  by pat_completeness auto
termination
  by (relation "measure (\<lambda>(mal, sz, nums, p). if left_bytes p \<ge> sz * nums then 0 else 1)")
    (auto dest: fresh_chunk_left)

declare ChunkAlloc.simps [simp del]

text \<open>The nodes of a chunk but the first, in the order they are linked.\<close>

definition link_nodes :: "int \<Rightarrow> int \<Rightarrow> addr \<Rightarrow> addr list" where
  "link_nodes sz nums chunk = map (\<lambda>i. (fst chunk, snd chunk + sz * int i)) [1..<nat nums]"

definition ReFill :: "(nat \<Rightarrow> bool) \<Rightarrow> int \<Rightarrow> int \<Rightarrow> mem_pool \<Rightarrow> (addr \<times> mem_pool) option" where
  "ReFill mal sz num p = do {
     (chunk, nums, p) \<leftarrow> ChunkAlloc mal sz num p;
     if nums = 1 then Some (chunk, p)
     else do {
       p \<leftarrow> set_free_list (FreeListIndex sz) (link_nodes sz nums chunk) p;
       Some (chunk, p) } }"

definition take_node :: "(nat \<Rightarrow> bool) \<Rightarrow> int \<Rightarrow> mem_pool \<Rightarrow> (addr \<times> mem_pool) option" where
  "take_node mal sz p = do {
     my_free \<leftarrow> free_list (FreeListIndex sz) p;
     case my_free of
       [] \<Rightarrow> ReFill mal (RoundUp sz) number_add_nodes p
     | result # rest \<Rightarrow> do { p \<leftarrow> set_free_list (FreeListIndex sz) rest p; Some (result, p) } }"

text \<open>\<open>PoolNew\<close> of an object of \<open>sz\<close> bytes, and \<open>PoolMalloc\<close>; the object is constructed, the bytes are cleared.\<close>

definition PoolNew :: "(nat \<Rightarrow> bool) \<Rightarrow> int \<Rightarrow> mem_pool \<Rightarrow> (addr \<times> mem_pool) option" where
  "PoolNew mal sz p =
     (if sz > max_bytes then do { (c, p) \<leftarrow> do_malloc mal sz p; Some ((c, 0), p) }
      else take_node mal sz p)"

definition PoolMalloc :: "(nat \<Rightarrow> bool) \<Rightarrow> int \<Rightarrow> mem_pool \<Rightarrow> (addr \<times> mem_pool) option" where
  "PoolMalloc mal sz p =
     (if sz > max_bytes then do { (c, p) \<leftarrow> do_malloc mal sz p; Some ((c, 0), p) }
      else take_node mal sz p)"

definition put_node :: "addr \<Rightarrow> int \<Rightarrow> mem_pool \<Rightarrow> mem_pool option" where
  "put_node m len p = do {
     my_free \<leftarrow> free_list (FreeListIndex len) p;
     set_free_list (FreeListIndex len) (m # my_free) p }"

definition PoolDelete :: "addr option \<Rightarrow> int \<Rightarrow> mem_pool \<Rightarrow> mem_pool option" where
  "PoolDelete c sz p = (case c of
     None \<Rightarrow> Some p
   | Some m \<Rightarrow> if sz > max_bytes then Some p else put_node m sz p)"

definition PoolFree :: "addr option \<Rightarrow> int \<Rightarrow> mem_pool \<Rightarrow> mem_pool option" where
  "PoolFree m len p = (case m of
     None \<Rightarrow> Some p
   | Some m \<Rightarrow> if len > max_bytes then Some p else put_node m len p)"

text \<open>The blocks.\<close>

definition PoolLargeMalloc :: "(nat \<Rightarrow> bool) \<Rightarrow> mem_pool \<Rightarrow> (nat option \<times> mem_pool) option" where
  "PoolLargeMalloc mal p = do {
     (b, bp) \<leftarrow> bp_PoolLargeMalloc mal (mp_block_pool p);
     Some (b, p\<lparr>mp_block_pool := bp\<rparr>) }"

definition PoolLargeFree :: "nat option \<Rightarrow> mem_pool \<Rightarrow> mem_pool" where
  "PoolLargeFree m p = (case m of
     None \<Rightarrow> p
   | Some _ \<Rightarrow> p\<lparr>mp_block_pool := bp_PoolLargeFree m (mp_block_pool p)\<rparr>)"

definition GetLargeSize :: "mem_pool \<Rightarrow> nat" where
  "GetLargeSize p = bp_GetSize (mp_block_pool p)"

definition GetLargeBlockLength :: "mem_pool \<Rightarrow> int" where
  "GetLargeBlockLength p = bp_GetBlockLength (mp_block_pool p)"

definition ReleaseLargeHalf :: "mem_pool \<Rightarrow> mem_pool" where
  "ReleaseLargeHalf p = p\<lparr>mp_block_pool := bp_ReleaseHalf (mp_block_pool p)\<rparr>"

definition ExpansionLarge :: "(nat \<Rightarrow> bool) \<Rightarrow> int \<Rightarrow> mem_pool \<Rightarrow> mem_pool" where
  "ExpansionLarge mal num p = p\<lparr>mp_block_pool := bp_Expansion mal num (mp_block_pool p)\<rparr>"

section \<open>Sizes and indices\<close>

lemma and_not_mask: "x AND NOT (mask n) = push_bit n (drop_bit n x)" for x :: int
  by (rule bit_eqI) (auto simp: bit_simps not_le)

lemma RoundUp_eq: "RoundUp sz = 8 * ((sz + 7) div 8)"
proof -
  have m: "align - 1 = mask 3" "sz + align - 1 = sz + 7" by (simp_all add: align_def mask_eq_exp_minus_1)
  show ?thesis unfolding RoundUp_def m and_not_mask by (simp add: push_bit_eq_mult drop_bit_eq_div)
qed

lemma FreeListIndex_eq: "0 < sz \<Longrightarrow> FreeListIndex sz = (sz + 7) div 8 - 1"
  by (simp add: FreeListIndex_def align_def signed_divide_int_def)

lemma lists_number [simp]: "number_of_free_lists = 32"
  by (simp add: number_of_free_lists_def max_bytes_def align_def)

lemma index_bounds: "0 < sz \<Longrightarrow> sz \<le> 256 \<Longrightarrow> 0 \<le> FreeListIndex sz \<and> FreeListIndex sz < 32"
  by (simp add: FreeListIndex_eq) presburger

lemma RoundUp_index: "0 < sz \<Longrightarrow> RoundUp sz = 8 * (FreeListIndex sz + 1)"
  by (simp add: RoundUp_eq FreeListIndex_eq)

lemma RoundUp_bounds: "sz \<le> RoundUp sz \<and> RoundUp sz < sz + 8"
proof -
  have "(sz + 7) div 8 * 8 + (sz + 7) mod 8 = sz + 7" "0 \<le> (sz + 7) mod 8" "(sz + 7) mod 8 < 8" by simp_all
  then show ?thesis unfolding RoundUp_eq by linarith
qed

lemma index_RoundUp: "0 < sz \<Longrightarrow> FreeListIndex (RoundUp sz) = FreeListIndex sz"
  using RoundUp_bounds [of sz] by (simp add: FreeListIndex_eq RoundUp_eq)

section \<open>Who owns a byte\<close>

definition region :: "nat \<Rightarrow> int \<Rightarrow> nat \<Rightarrow> addr multiset" where
  "region c off n = mset (map (\<lambda>k. (c, off + int k)) [0..<n])"

definition nodes_bytes :: "nat \<Rightarrow> addr list \<Rightarrow> addr multiset" where
  "nodes_bytes n xs = sum_list (map (\<lambda>a. region (fst a) (snd a) (8 * n)) xs)"

fun lists_bytes :: "nat \<Rightarrow> addr list list \<Rightarrow> addr multiset" where
  "lists_bytes n [] = {#}"
| "lists_bytes n (xs # ls) = nodes_bytes n xs + lists_bytes (Suc n) ls"

definition rest_bytes :: "mem_pool \<Rightarrow> addr multiset" where
  "rest_bytes p = (case mp_pool_start p of
     None \<Rightarrow> {#} | Some (c, s) \<Rightarrow> region c s (nat (left_bytes p)))"

definition pool_bytes :: "mem_pool \<Rightarrow> addr multiset" where
  "pool_bytes p = lists_bytes 1 (mp_free_list p) + rest_bytes p"

definition obj_size :: "int \<Rightarrow> int" where
  "obj_size sz = (if sz > max_bytes then sz else RoundUp sz)"

definition obj_bytes :: "addr \<Rightarrow> int \<Rightarrow> addr multiset" where
  "obj_bytes a sz = region (fst a) (snd a) (nat (obj_size sz))"

definition apart :: "'a multiset \<Rightarrow> bool" where
  "apart M \<longleftrightarrow> (\<forall>x. count M x \<le> 1)"

definition in_heap :: "int list \<Rightarrow> addr multiset \<Rightarrow> bool" where
  "in_heap h M \<longleftrightarrow> (\<forall>x \<in># M. fst x < length h \<and> 0 \<le> snd x \<and> snd x < h ! fst x)"

definition chunk_ok :: "mem_pool \<Rightarrow> bool" where
  "chunk_ok p \<longleftrightarrow> (case (mp_pool_start p, mp_pool_end p) of
     (None, None) \<Rightarrow> True
   | (Some (c, s), Some (d, e)) \<Rightarrow> c = d \<and> s \<le> e \<and> 8 dvd e - s
   | _ \<Rightarrow> False)"

definition pool_inv :: "mem_pool \<Rightarrow> addr multiset \<Rightarrow> bool" where
  "pool_inv p live \<longleftrightarrow> length (mp_free_list p) = 32 \<and> chunk_ok p \<and>
     apart (pool_bytes p + live) \<and> in_heap (mp_heap p) (pool_bytes p + live)"

lemma chunk_updates [simp]:
  "left_bytes (p\<lparr>mp_free_list := ls\<rparr>) = left_bytes p" "left_bytes (p\<lparr>mp_heap := h\<rparr>) = left_bytes p"
  "rest_bytes (p\<lparr>mp_free_list := ls\<rparr>) = rest_bytes p" "rest_bytes (p\<lparr>mp_heap := h\<rparr>) = rest_bytes p"
  "chunk_ok (p\<lparr>mp_free_list := ls\<rparr>) = chunk_ok p" "chunk_ok (p\<lparr>mp_heap := h\<rparr>) = chunk_ok p"
  by (simp_all add: left_bytes_def rest_bytes_def chunk_ok_def cong: option.case_cong)

lemma region_0 [simp]: "region c off 0 = {#}"
  by (simp add: region_def)

lemma region_add: "region c off (m + n) = region c off m + region c (off + int m) n"
proof -
  have "[0..<m + n] = [0..<m] @ [m..<m + n]" by (rule upt_add_eq_append) simp
  moreover have "[m..<m + n] = map (\<lambda>k. k + m) [0..<n]"
    using map_add_upt [of m n] by (simp only: add.commute [of n])
  ultimately show ?thesis by (simp add: region_def comp_def algebra_simps)
qed

lemma in_region: "x \<in># region c off n \<longleftrightarrow> fst x = c \<and> off \<le> snd x \<and> snd x < off + int n"
proof
  assume r: "fst x = c \<and> off \<le> snd x \<and> snd x < off + int n"
  then have "x = (c, off + int (nat (snd x - off)))" "nat (snd x - off) < n" by (auto simp: prod_eq_iff)
  then show "x \<in># region c off n" unfolding region_def by (metis (no_types, lifting) atLeast0LessThan imageI lessThan_iff list.set_map set_mset_mset set_upt)
qed (auto simp: region_def)

lemma apart_region: "apart (region c off n)"
proof -
  have "distinct (map (\<lambda>k. (c, off + int k)) [0..<n])" by (simp add: distinct_map inj_on_def)
  then show ?thesis unfolding apart_def region_def by (metis distinct_count_atmost_1 le_numeral_extra(3,4) zero_le)
qed

lemma apart_mono: "apart N \<Longrightarrow> M \<subseteq># N \<Longrightarrow> apart M"
  unfolding apart_def by (meson le_trans mset_subset_eq_count)

lemma apart_union:
  assumes "apart M" "apart N" "set_mset M \<inter> set_mset N = {}"
  shows "apart (M + N)"
  unfolding apart_def
proof
  fix x
  have "count M x = 0 \<or> count N x = 0" using assms(3) by (metis disjoint_iff not_in_iff)
  then show "count (M + N) x \<le> 1" using assms(1,2) by (auto simp: apart_def)
qed

lemma apart_disjoint: "apart (M + N) \<Longrightarrow> set_mset M \<inter> set_mset N = {}"
proof (rule ccontr)
  assume a: "apart (M + N)" and "set_mset M \<inter> set_mset N \<noteq> {}"
  then obtain x where "x \<in># M" "x \<in># N" by blast
  then have "0 < count M x" "0 < count N x" by simp_all
  then have "\<not> count (M + N) x \<le> 1" unfolding count_union by linarith
  then show False using a by (simp add: apart_def)
qed

lemma in_heap_mono: "in_heap h N \<Longrightarrow> M \<subseteq># N \<Longrightarrow> in_heap h M"
  unfolding in_heap_def by (meson mset_subset_eqD)

lemma in_heap_union: "in_heap h (M + N) \<longleftrightarrow> in_heap h M \<and> in_heap h N"
  by (auto simp: in_heap_def)

lemma in_heap_append: "in_heap h M \<Longrightarrow> in_heap (h @ [n]) M"
  by (auto simp: in_heap_def nth_append)

lemma in_heap_fresh: "in_heap (h @ [int n]) (region (length h) 0 n)"
  by (auto simp: in_heap_def in_region)

lemma fresh_disjoint: "in_heap h M \<Longrightarrow> set_mset M \<inter> set_mset (region (length h) off n) = {}"
  by (auto simp: in_heap_def in_region)

text \<open>An operation moves bytes between the pool and the live objects, or loses some.\<close>

lemma pool_inv_move:
  assumes "pool_inv p live" "pool_bytes q + live' \<subseteq># pool_bytes p + live"
    and "mp_heap q = mp_heap p" "length (mp_free_list q) = 32" "chunk_ok q"
  shows "pool_inv q live'"
  using assms apart_mono in_heap_mono by (metis pool_inv_def)

lemma pool_inv_fresh:
  assumes "pool_inv p live" "pool_bytes q + live' \<subseteq># pool_bytes p + live + region (length (mp_heap p)) 0 (nat n)"
    and "mp_heap q = mp_heap p @ [n]" "0 \<le> n" "length (mp_free_list q) = 32" "chunk_ok q"
  shows "pool_inv q live'"
proof -
  let ?M = "pool_bytes p + live" and ?R = "region (length (mp_heap p)) 0 (nat n)"
  have "apart (?M + ?R)"
    using assms(1) by (intro apart_union [of ?M] apart_region fresh_disjoint [of "mp_heap p"]) (simp_all add: pool_inv_def)
  moreover have "in_heap (mp_heap q) (?M + ?R)"
    unfolding in_heap_union [of _ ?M] assms(3) using assms(1,4) in_heap_fresh [of "mp_heap p" "nat n"]
    by (simp add: pool_inv_def in_heap_append)
  ultimately show ?thesis
    using assms(2,5,6) apart_mono in_heap_mono by (metis pool_inv_def)
qed

lemma nodes_bytes_simps [simp]:
  "nodes_bytes n [] = {#}" "nodes_bytes n (a # xs) = region (fst a) (snd a) (8 * n) + nodes_bytes n xs"
  "nodes_bytes n (xs @ ys) = nodes_bytes n xs + nodes_bytes n ys"
  by (simp_all add: nodes_bytes_def)

lemma lists_bytes_update:
  "i < length ls \<Longrightarrow>
   lists_bytes n (ls[i := xs]) + nodes_bytes (n + i) (ls ! i) = lists_bytes n ls + nodes_bytes (n + i) xs"
proof (induction ls arbitrary: n i)
  case (Cons y ls)
  then show ?case
  proof (cases i)
    case (Suc k)
    then show ?thesis using Cons.IH [of k "Suc n"] Cons.prems by (simp add: ac_simps)
  qed (simp add: ac_simps)
qed simp

lemma lists_bytes_empty: "lists_bytes n (replicate k []) = {#}"
  by (induction k arbitrary: n) simp_all

lemma link_nodes_bytes:
  assumes "0 < sz" "8 dvd sz" "0 < n"
  shows "region c off (nat sz * n) = region c off (nat sz) + nodes_bytes (nat (sz div 8)) (link_nodes sz (int n) (c, off))"
proof -
  have e: "8 * nat (sz div 8) = nat sz" using assms by (auto elim!: dvdE)
  have "region c off (nat sz * Suc n) = region c off (nat sz) + nodes_bytes (nat (sz div 8)) (link_nodes sz (int (Suc n)) (c, off))" for n
  proof (induction n)
    case (Suc n)
    have "link_nodes sz (int (Suc (Suc n))) (c, off) = link_nodes sz (int (Suc n)) (c, off) @ [(c, off + sz * int (Suc n))]"
      by (simp add: link_nodes_def nat_add_distrib)
    moreover have "region c off (nat sz * Suc (Suc n)) = region c off (nat sz * Suc n) + region c (off + sz * int (Suc n)) (nat sz)"
      using region_add [of c off "nat sz * Suc n" "nat sz"] assms(1) by (simp add: algebra_simps)
    ultimately show ?case using Suc.IH e by (simp add: ac_simps)
  qed (simp add: link_nodes_def)
  then show ?thesis using assms(3) by (cases n) auto
qed

section \<open>The allocator\<close>

text \<open>
  What \<open>ChunkAlloc\<close> does for a size that is a multiple of 8: it cuts nodes from the chunk in use, or
  takes a new chunk of 20 nodes. Only the list of this size changes, which is replaced afterwards.
\<close>

definition cut_from :: "mem_pool \<Rightarrow> int \<Rightarrow> addr \<Rightarrow> nat \<Rightarrow> mem_pool \<Rightarrow> bool" where
  "cut_from p sz a n q \<longleftrightarrow> 1 \<le> n \<and> sz * int n \<le> left_bytes p \<and> mp_pool_start p = Some a \<and>
     q = p\<lparr>mp_pool_start := Some (fst a, snd a + sz * int n)\<rparr>"

definition new_chunk :: "mem_pool \<Rightarrow> int \<Rightarrow> addr \<Rightarrow> nat \<Rightarrow> mem_pool \<Rightarrow> bool" where
  "new_chunk p sz a n q \<longleftrightarrow> n = 20 \<and> a = (length (mp_heap p), 0) \<and>
     (\<exists>xs. mp_free_list q = (mp_free_list p)[nat (FreeListIndex sz) := xs]) \<and>
     mp_heap q = mp_heap p @ [sz * 20] \<and>
     mp_pool_start q = Some (fst a, sz * 20) \<and> mp_pool_end q = Some (fst a, sz * 20)"

lemma chunk_start: "chunk_ok p \<Longrightarrow> 0 < left_bytes p \<Longrightarrow> \<exists>a. mp_pool_start p = Some a"
  by (auto simp: chunk_ok_def left_bytes_def split: option.splits)

lemma ChunkAlloc_cut:
  assumes "chunk_ok p" "0 < sz" "sz \<le> left_bytes p"
  shows "\<exists>a n q. ChunkAlloc mal sz 20 p = Some (a, int n, q) \<and> cut_from p sz a n q"
proof -
  obtain a where a: "mp_pool_start p = Some a" using chunk_start [OF assms(1)] assms(2,3) by auto
  show ?thesis
  proof (cases "left_bytes p \<ge> sz * 20")
    case True
    then show ?thesis
      using a by (intro exI [of _ a] exI [of _ 20]) (simp add: ChunkAlloc.simps [of mal sz 20 p] move_start_def cut_from_def split_beta)
  next
    case False
    define k where "k = left_bytes p div sz"
    have k: "1 \<le> k" "sz * k \<le> left_bytes p" "left_bytes p sdiv sz = k"
      using assms(2,3) by (simp_all add: k_def signed_divide_int_def pos_imp_zdiv_pos_iff int_one_le_iff_zero_less)
        (metis mult.commute div_mult_mod_eq le_add_same_cancel1 pos_mod_sign)
    then show ?thesis
      using a False assms(3)
      by (intro exI [of _ a] exI [of _ "nat k"])
        (simp add: ChunkAlloc.simps [of mal sz 20 p] move_start_def cut_from_def split_beta le_nat_iff)
  qed
qed

lemma ChunkAlloc_new:
  assumes "chunk_ok p" "length (mp_free_list p) = 32" "0 < sz" "sz \<le> 256" "left_bytes p < sz"
  shows "if mal (length (mp_heap p)) then \<exists>a q. ChunkAlloc mal sz 20 p = Some (a, 20, q) \<and> new_chunk p sz a 20 q
    else ChunkAlloc mal sz 20 p = None"
proof -
  let ?i = "FreeListIndex sz"
  have i: "0 \<le> ?i" "?i < 32" using index_bounds [OF assms(3,4)] by simp_all
  have "0 \<le> left_bytes p \<and> 8 dvd left_bytes p"
    using assms(1) by (auto simp: chunk_ok_def left_bytes_def split: option.splits)
  then have l: "left_bytes p = 0 \<or> 8 \<le> left_bytes p" using zdvd_imp_le [of 8 "left_bytes p"] by (cases "left_bytes p = 0") auto
  obtain xs where k: "keep_rest sz p = Some (p\<lparr>mp_free_list := (mp_free_list p)[nat ?i := xs]\<rparr>)"
  proof (cases "0 < left_bytes p")
    case True
    obtain a where a: "mp_pool_start p = Some a" using chunk_start [OF assms(1) True] by auto
    have "0 \<le> FreeListIndex (left_bytes p) \<and> FreeListIndex (left_bytes p) < 32"
      using assms(4,5) True by (intro index_bounds) simp_all
    then show ?thesis
      using that [of "a # mp_free_list p ! nat (FreeListIndex (left_bytes p))"] True l a i
      by (simp add: keep_rest_def free_list_def set_free_list_def)
  next
    case False
    then show ?thesis using that [of "mp_free_list p ! nat ?i"] by (simp add: keep_rest_def)
  qed
  let ?p = "p\<lparr>mp_free_list := (mp_free_list p)[nat ?i := xs]\<rparr>"
  show ?thesis
  proof (cases "mal (length (mp_heap p))")
    case True
    let ?c = "length (mp_heap p)"
    let ?q = "?p\<lparr>mp_heap := mp_heap p @ [sz * 20], mp_pool_start := Some (?c, 0),
      mp_malloc_vec := mp_malloc_vec p @ [?c], mp_pool_end := Some (?c, sz * 20)\<rparr>"
    have f: "fresh_chunk mal (sz * 20) ?p = Some ?q" using True by (simp add: fresh_chunk_def do_malloc_def)
    have "ChunkAlloc mal sz 20 ?q = Some ((?c, 0), 20, ?q\<lparr>mp_pool_start := Some (?c, sz * 20)\<rparr>)"
      by (simp add: ChunkAlloc.simps [of mal sz 20 ?q] left_bytes_def move_start_def Let_def)
    moreover have "ChunkAlloc mal sz 20 p = ChunkAlloc mal sz 20 ?q"
      using assms(3,5) k f by (simp add: ChunkAlloc.simps [of mal sz 20 p] Let_def)
    ultimately show ?thesis using True by (auto simp: new_chunk_def)
  next
    case False
    then have "fresh_chunk mal (sz * 20) ?p = None" by (simp add: fresh_chunk_def do_malloc_def)
    then show ?thesis using False assms(3,5) k by (simp add: ChunkAlloc.simps [of mal sz 20 p])
  qed
qed

lemma carve_lists:
  assumes "length ls = 32" "0 < sz" "sz \<le> 256" "8 dvd sz" "1 \<le> n" "ls ! nat (FreeListIndex sz) = []"
  shows "lists_bytes 1 (ls[nat (FreeListIndex sz) := link_nodes sz (int n) (c, off)]) + region c off (nat sz) =
    lists_bytes 1 ls + region c off (nat sz * n)"
proof -
  let ?i = "nat (FreeListIndex sz)"
  have i: "?i < length ls" using index_bounds [OF assms(2,3)] assms(1) by linarith
  have "(sz + 7) div 8 = sz div 8" using assms(4) by (auto elim!: dvdE)
  then have k: "1 + ?i = nat (sz div 8)" using assms(2,4) index_bounds [OF assms(2,3)] FreeListIndex_eq [OF assms(2)] by simp
  show ?thesis
    using lists_bytes_update [OF i, of 1 "link_nodes sz (int n) (c, off)"] link_nodes_bytes [OF assms(2,4), of n c off] assms(5,6)
    unfolding k by simp
qed

lemma ReFill_ok:
  assumes inv: "pool_inv p live" and sz: "0 < sz" "sz \<le> 256" "8 dvd sz"
    and empty: "mp_free_list p ! nat (FreeListIndex sz) = []"
  shows "case ReFill mal sz 20 p of
      Some (a, q) \<Rightarrow> pool_inv q (live + region (fst a) (snd a) (nat sz))
    | None \<Rightarrow> \<not> mal (length (mp_heap p))"
proof -
  let ?i = "nat (FreeListIndex sz)"
  have ok: "chunk_ok p" "length (mp_free_list p) = 32" using inv by (simp_all add: pool_inv_def)
  have i: "0 \<le> FreeListIndex sz" "FreeListIndex sz < 32" using index_bounds [OF sz(1,2)] by simp_all
  note carve = carve_lists [OF ok(2) sz(1,2,3) _ empty]
  show ?thesis
  proof (cases "sz \<le> left_bytes p")
    case True
    obtain c s n q where r: "ChunkAlloc mal sz 20 p = Some ((c, s), int n, q)" "cut_from p sz (c, s) n q"
      using ChunkAlloc_cut [OF ok(1) sz(1) True, of mal] by (metis surj_pair)
    have n: "1 \<le> n" "sz * int n \<le> left_bytes p" "mp_pool_start p = Some (c, s)"
      and q: "q = p\<lparr>mp_pool_start := Some (c, s + sz * int n)\<rparr>" using r(2) by (auto simp: cut_from_def)
    let ?q = "q\<lparr>mp_free_list := (mp_free_list p)[?i := link_nodes sz (int n) (c, s)]\<rparr>"
    have e: "ReFill mal sz 20 p = Some ((c, s), ?q)"
    proof (cases "n = 1")
      case True
      then have "(mp_free_list p)[?i := link_nodes sz (int n) (c, s)] = mp_free_list p"
        using list_update_id [of "mp_free_list p" ?i] empty by (simp add: link_nodes_def)
      then show ?thesis using r(1) True q by (simp add: ReFill_def)
    next
      case False
      then show ?thesis using r(1) i q by (simp add: ReFill_def set_free_list_def)
    qed
    obtain e' where fin: "mp_pool_end p = Some (c, e')" "s \<le> e'" "8 dvd e' - s"
      using ok(1) n(3) by (auto simp: chunk_ok_def split: option.splits)
    have left: "left_bytes p = e' - s" "left_bytes ?q = e' - s - sz * int n"
      using fin n(3) q by (simp_all add: left_bytes_def)
    have "8 dvd e' - s - sz * int n" by (rule dvd_diff [OF fin(3) dvd_mult2 [OF sz(3)]])
    then have "chunk_ok ?q" using fin n q left(1) by (simp add: chunk_ok_def algebra_simps)
    moreover have "pool_bytes ?q + region c s (nat sz) = pool_bytes p"
    proof -
      have "nat (e' - s) = nat sz * n + nat (e' - s - sz * int n)"
        using n(2) left(1) sz(1) fin(2) by (simp add: nat_eq_iff nat_mult_distrib [symmetric] of_nat_mult)
      then have "region c s (nat (e' - s)) = region c s (nat sz * n) + region c (s + sz * int n) (nat (e' - s - sz * int n))"
        using region_add [of c s "nat sz * n" "nat (e' - s - sz * int n)"] sz(1) by simp
      then show ?thesis using carve [OF n(1), of c s] n(3) left q by (simp add: pool_bytes_def rest_bytes_def ac_simps)
    qed
    ultimately have "pool_inv ?q (live + region c s (nat sz))"
      using ok q by (intro pool_inv_move [OF inv]) (simp_all add: ac_simps)
    then show ?thesis using e by simp
  next
    case False
    then have l: "left_bytes p < sz" by simp
    show ?thesis
    proof (cases "mal (length (mp_heap p))")
      case True
      let ?c = "length (mp_heap p)"
      obtain q where r: "ChunkAlloc mal sz 20 p = Some ((?c, 0), 20, q)" "new_chunk p sz (?c, 0) 20 q"
        using ChunkAlloc_new [OF ok sz(1,2) l, of mal] True by (auto simp: new_chunk_def)
      let ?q = "q\<lparr>mp_free_list := (mp_free_list p)[?i := link_nodes sz (int 20) (?c, 0)]\<rparr>"
      have e: "ReFill mal sz 20 p = Some ((?c, 0), ?q)"
        using r i by (auto simp: ReFill_def set_free_list_def new_chunk_def)
      have "pool_bytes ?q + region ?c 0 (nat sz) = lists_bytes 1 (mp_free_list p) + region ?c 0 (nat (sz * 20))"
        using carve [of 20 ?c 0] r(2) sz(1)
        by (simp add: pool_bytes_def rest_bytes_def left_bytes_def new_chunk_def nat_mult_distrib)
      then have "pool_bytes ?q + (live + region ?c 0 (nat sz)) \<subseteq># pool_bytes p + live + region ?c 0 (nat (sz * 20))"
        by (simp add: pool_bytes_def ac_simps subset_mset.add_left_mono)
      then have "pool_inv ?q (live + region ?c 0 (nat sz))"
        using ok r(2) sz(1) by (intro pool_inv_fresh [OF inv, where n = "sz * 20"]) (simp_all add: new_chunk_def chunk_ok_def)
      then show ?thesis using e by simp
    next
      case False
      then show ?thesis using ChunkAlloc_new [OF ok sz(1,2) l, of mal] by (simp add: ReFill_def)
    qed
  qed
qed

lemma take_node_ok:
  assumes inv: "pool_inv p live" and sz: "0 < sz" "sz \<le> 256"
  shows "case take_node mal sz p of
      Some (a, q) \<Rightarrow> pool_inv q (live + region (fst a) (snd a) (nat (RoundUp sz)))
    | None \<Rightarrow> \<not> mal (length (mp_heap p))"
proof -
  let ?i = "nat (FreeListIndex sz)"
  have i: "0 \<le> FreeListIndex sz" "FreeListIndex sz < 32" using index_bounds [OF sz] by simp_all
  have len: "length (mp_free_list p) = 32" using inv by (simp add: pool_inv_def)
  show ?thesis
  proof (cases "mp_free_list p ! ?i")
    case Nil
    have r: "0 < RoundUp sz" "RoundUp sz \<le> 256" "8 dvd RoundUp sz"
      using RoundUp_bounds [of sz] RoundUp_index [OF sz(1)] sz i by simp_all
    show ?thesis
      using ReFill_ok [OF inv r, of mal] Nil i index_RoundUp [OF sz(1)]
      by (simp add: take_node_def free_list_def number_add_nodes_def)
  next
    case (Cons a rest)
    let ?q = "p\<lparr>mp_free_list := (mp_free_list p)[?i := rest]\<rparr>"
    have t: "take_node mal sz p = Some (a, ?q)" using Cons i by (simp add: take_node_def free_list_def set_free_list_def)
    have "8 * (1 + ?i) = nat (RoundUp sz)" using RoundUp_index [OF sz(1)] i by simp
    then have "pool_bytes ?q + region (fst a) (snd a) (nat (RoundUp sz)) = pool_bytes p"
      using lists_bytes_update [of ?i "mp_free_list p" 1 rest] len i Cons
      by (simp add: pool_bytes_def ac_simps nat_less_iff)
    then have "pool_inv ?q (live + region (fst a) (snd a) (nat (RoundUp sz)))"
      using inv len by (intro pool_inv_move [OF inv]) (simp_all add: ac_simps pool_inv_def)
    then show ?thesis using t by simp
  qed
qed

lemma PoolMalloc_ok:
  assumes inv: "pool_inv p live" and sz: "0 < sz"
  shows "case PoolMalloc mal sz p of
      Some (a, q) \<Rightarrow> pool_inv q (live + obj_bytes a sz)
    | None \<Rightarrow> \<not> mal (length (mp_heap p))"
proof (cases "sz \<le> 256")
  case True
  then show ?thesis using take_node_ok [OF inv sz True, of mal]
    by (auto simp: PoolMalloc_def max_bytes_def obj_bytes_def obj_size_def split: option.splits)
next
  case False
  let ?q = "p\<lparr>mp_heap := mp_heap p @ [sz]\<rparr>"
  have "pool_inv ?q (live + region (length (mp_heap p)) 0 (nat sz))"
    using inv sz
    by (intro pool_inv_fresh [OF inv, where n = sz])
      (simp_all add: pool_inv_def pool_bytes_def ac_simps)
  then show ?thesis
    using False by (simp add: PoolMalloc_def do_malloc_def max_bytes_def obj_bytes_def obj_size_def)
qed

lemma PoolFree_ok:
  assumes inv: "pool_inv p (live + obj_bytes a sz)" and sz: "0 < sz"
  shows "\<exists>q. PoolFree (Some a) sz p = Some q \<and> pool_inv q live"
proof (cases "sz \<le> 256")
  case True
  let ?i = "nat (FreeListIndex sz)"
  have i: "0 \<le> FreeListIndex sz" "FreeListIndex sz < 32" using index_bounds [OF sz True] by simp_all
  have len: "length (mp_free_list p) = 32" using inv by (simp add: pool_inv_def)
  let ?q = "p\<lparr>mp_free_list := (mp_free_list p)[?i := a # mp_free_list p ! ?i]\<rparr>"
  have "8 * (1 + ?i) = nat (RoundUp sz)" using RoundUp_index [OF sz] i by simp
  then have "pool_bytes ?q = pool_bytes p + obj_bytes a sz"
    using lists_bytes_update [of ?i "mp_free_list p" 1 "a # mp_free_list p ! ?i"] len i True
    by (simp add: pool_bytes_def ac_simps nat_less_iff obj_bytes_def obj_size_def max_bytes_def)
  then have "pool_inv ?q live"
    using inv len by (intro pool_inv_move [OF inv]) (simp_all add: ac_simps pool_inv_def)
  then show ?thesis using i True by (simp add: PoolFree_def put_node_def free_list_def set_free_list_def max_bytes_def)
next
  case False
  have "pool_inv p live"
    using inv by (intro pool_inv_move [OF inv]) (simp_all add: pool_inv_def)
  then show ?thesis using False by (simp add: PoolFree_def max_bytes_def)
qed

lemma PoolNew_Malloc: "PoolNew = PoolMalloc" and PoolDelete_Free: "PoolDelete = PoolFree"
  by (simp_all add: fun_eq_iff PoolNew_def PoolMalloc_def PoolDelete_def PoolFree_def)

lemma CMemoryPool_inv: "pool_inv (CMemoryPool large_sz add_num) {#}"
  by (simp add: pool_inv_def CMemoryPool_def pool_bytes_def lists_bytes_empty rest_bytes_def chunk_ok_def apart_def in_heap_def)

section \<open>The interface\<close>

text \<open>
  The contract of an allocator with its client: what is handed out is nobody else's until it is
  given back. \<open>ok s live\<close> holds of a state and the bytes (or blocks) that are out.
\<close>

datatype 'r pool_op = Alloc 'r | Release nat

fun pool_run ::
  "('r \<Rightarrow> 's \<Rightarrow> ('p \<times> 's) option) \<Rightarrow> ('p \<Rightarrow> 'r \<Rightarrow> 's \<Rightarrow> 's option) \<Rightarrow> 'r pool_op list \<Rightarrow>
   's \<times> ('p \<times> 'r) list \<Rightarrow> ('s \<times> ('p \<times> 'r) list) option" where
  "pool_run alloc release [] st = Some st"
| "pool_run alloc release (Alloc r # ops) (s, live) =
     (case alloc r s of
        None \<Rightarrow> None
      | Some (p, s) \<Rightarrow> pool_run alloc release ops (s, live @ [(p, r)]))"
| "pool_run alloc release (Release k # ops) (s, live) =
     (if k < length live then
        (case release (fst (live ! k)) (snd (live ! k)) s of
           None \<Rightarrow> None
         | Some s \<Rightarrow> pool_run alloc release ops (s, take k live @ drop (Suc k) live))
      else pool_run alloc release ops (s, live))"

definition requests :: "'r pool_op list \<Rightarrow> 'r list" where
  "requests ops = concat (map (\<lambda>x. case x of Alloc r \<Rightarrow> [r] | Release _ \<Rightarrow> []) ops)"

locale allocator =
  fixes ok :: "'s \<Rightarrow> 'x multiset \<Rightarrow> bool"
    and valid :: "'r \<Rightarrow> bool"
    and area :: "'p \<Rightarrow> 'r \<Rightarrow> 'x multiset"
    and alloc :: "'r \<Rightarrow> 's \<Rightarrow> ('p \<times> 's) option"
    and release :: "'p \<Rightarrow> 'r \<Rightarrow> 's \<Rightarrow> 's option"
  assumes ok_apart: "ok s live \<Longrightarrow> apart live"
    and alloc_ok: "ok s live \<Longrightarrow> valid r \<Longrightarrow> alloc r s = Some (p, s') \<Longrightarrow> ok s' (live + area p r)"
    and release_ok: "ok s (live + area p r) \<Longrightarrow> valid r \<Longrightarrow> \<exists>s'. release p r s = Some s' \<and> ok s' live"
begin

definition areas :: "('p \<times> 'r) list \<Rightarrow> 'x multiset" where
  "areas live = sum_list (map (\<lambda>(p, r). area p r) live)"

lemma areas_simps [simp]: "areas [] = {#}" "areas (x # xs) = area (fst x) (snd x) + areas xs"
  "areas (xs @ ys) = areas xs + areas ys"
  by (simp_all add: areas_def split_beta)

lemma areas_take: "k < length xs \<Longrightarrow> areas xs = areas (take k xs @ drop (Suc k) xs) + area (fst (xs ! k)) (snd (xs ! k))"
  by (subst id_take_nth_drop [of k xs]) (simp_all add: ac_simps)

lemma release_live:
  assumes "ok s (areas live)" "k < length live" "valid (snd (live ! k))"
  shows "\<exists>s'. release (fst (live ! k)) (snd (live ! k)) s = Some s' \<and> ok s' (areas (take k live @ drop (Suc k) live))"
  using release_ok [OF _ assms(3)] assms(1) areas_take [OF assms(2)] by simp

lemma run_ok:
  "ok s (areas live) \<Longrightarrow> \<forall>x \<in> set live. valid (snd x) \<Longrightarrow> \<forall>r \<in> set (requests ops). valid r \<Longrightarrow>
   pool_run alloc release ops (s, live) = Some (s', live') \<Longrightarrow> ok s' (areas live') \<and> (\<forall>x \<in> set live'. valid (snd x))"
proof (induction ops arbitrary: s live)
  case (Cons x ops)
  show ?case
  proof (cases x)
    case (Alloc r)
    then obtain p t where a: "alloc r s = Some (p, t)" "pool_run alloc release ops (t, live @ [(p, r)]) = Some (s', live')"
      using Cons.prems(4) by (auto split: option.splits)
    have v: "valid r" "\<forall>r \<in> set (requests ops). valid r" using Cons.prems(3) Alloc by (simp_all add: requests_def)
    show ?thesis
      using Cons.IH [of t "live @ [(p, r)]"] alloc_ok [OF Cons.prems(1) v(1) a(1)] v a(2) Cons.prems(2) by simp
  next
    case (Release k)
    have v: "\<forall>r \<in> set (requests ops). valid r" using Cons.prems(3) Release by (simp add: requests_def)
    show ?thesis
    proof (cases "k < length live")
      case True
      then obtain t where t: "release (fst (live ! k)) (snd (live ! k)) s = Some t" "ok t (areas (take k live @ drop (Suc k) live))"
        using release_live [OF Cons.prems(1) True] Cons.prems(2) by auto
      have "\<forall>x \<in> set (take k live @ drop (Suc k) live). valid (snd x)"
        using Cons.prems(2) by (auto dest: in_set_takeD in_set_dropD)
      then show ?thesis using Cons.IH [OF t(2) _ v] t(1) True Cons.prems(4) Release by simp
    next
      case False
      then show ?thesis using Cons.IH [OF Cons.prems(1,2) v] Cons.prems(4) Release by simp
    qed
  qed
qed simp

lemma run_defined:
  assumes some: "\<And>s live r. ok s live \<Longrightarrow> valid r \<Longrightarrow> alloc r s \<noteq> None"
  shows "ok s (areas live) \<Longrightarrow> \<forall>x \<in> set live. valid (snd x) \<Longrightarrow> \<forall>r \<in> set (requests ops). valid r \<Longrightarrow>
    pool_run alloc release ops (s, live) \<noteq> None"
proof (induction ops arbitrary: s live)
  case (Cons x ops)
  show ?case
  proof (cases x)
    case (Alloc r)
    have v: "valid r" "\<forall>r \<in> set (requests ops). valid r" using Cons.prems(3) Alloc by (simp_all add: requests_def)
    obtain p t where a: "alloc r s = Some (p, t)" using some [OF Cons.prems(1) v(1)] by auto
    show ?thesis
      using Cons.IH [of t "live @ [(p, r)]"] alloc_ok [OF Cons.prems(1) v(1) a] v a Cons.prems(2) Alloc by simp
  next
    case (Release k)
    have v: "\<forall>r \<in> set (requests ops). valid r" using Cons.prems(3) Release by (simp add: requests_def)
    show ?thesis
    proof (cases "k < length live")
      case True
      then obtain t where t: "release (fst (live ! k)) (snd (live ! k)) s = Some t" "ok t (areas (take k live @ drop (Suc k) live))"
        using release_live [OF Cons.prems(1) True] Cons.prems(2) by auto
      have "\<forall>x \<in> set (take k live @ drop (Suc k) live). valid (snd x)"
        using Cons.prems(2) by (auto dest: in_set_takeD in_set_dropD)
      then show ?thesis using Cons.IH [OF t(2) _ v] t(1) True Release by simp
    next
      case False
      then show ?thesis using Cons.IH [OF Cons.prems(1,2) v] Release by simp
    qed
  qed
qed simp

lemma live_disjoint:
  assumes "ok s (areas live)" "i < j" "j < length live"
  shows "set_mset (area (fst (live ! i)) (snd (live ! i))) \<inter> set_mset (area (fst (live ! j)) (snd (live ! j))) = {}"
proof -
  have "live ! j \<in> set (drop (Suc i) live)"
    using assms(2,3) nth_mem [of "j - Suc i" "drop (Suc i) live"] by simp
  then obtain ys zs where d: "drop (Suc i) live = ys @ live ! j # zs" by (auto dest: split_list)
  have "areas live = areas (take i live) + (area (fst (live ! i)) (snd (live ! i)) + areas (drop (Suc i) live))"
    by (subst id_take_nth_drop [of i live]) (use assms in simp_all)
  then have "area (fst (live ! i)) (snd (live ! i)) + area (fst (live ! j)) (snd (live ! j)) \<subseteq># areas live"
    by (simp add: d subset_mset.add_increasing subset_mset.add_increasing2 ac_simps)
  then show ?thesis using apart_mono [OF ok_apart [OF assms(1)]] by (intro apart_disjoint) simp
qed

end

interpretation nodes: allocator pool_inv "\<lambda>sz. 0 < sz" obj_bytes "PoolMalloc mal" "\<lambda>a. PoolFree (Some a)"
  for mal :: "nat \<Rightarrow> bool"
proof
  fix p live
  assume "pool_inv p live"
  then show "apart live" by (auto simp: pool_inv_def intro: apart_mono)
next
  fix p live sz a q
  assume "pool_inv p live" "(0 :: int) < sz" "PoolMalloc mal sz p = Some (a, q)"
  then show "pool_inv q (live + obj_bytes a sz)" using PoolMalloc_ok [of p live sz mal] by simp
next
  fix p live a sz
  assume "pool_inv p (live + obj_bytes a sz)" "(0 :: int) < sz"
  then show "\<exists>q. PoolFree (Some a) sz p = Some q \<and> pool_inv q live" by (rule PoolFree_ok)
qed

text \<open>The blocks, which are all of one size.\<close>

definition block_bytes :: "nat option \<Rightarrow> unit \<Rightarrow> nat multiset" where
  "block_bytes m u = (case m of None \<Rightarrow> {#} | Some b \<Rightarrow> {#b#})"

definition block_inv :: "block_pool \<Rightarrow> nat multiset \<Rightarrow> bool" where
  "block_inv p live \<longleftrightarrow>
     apart (sum_list (map (\<lambda>m. block_bytes m ()) (bp_free p)) + live) \<and>
     (\<forall>b \<in># sum_list (map (\<lambda>m. block_bytes m ()) (bp_free p)) + live. b < bp_mallocs p)"

lemma expand_loop_inv: "block_inv p live \<Longrightarrow> block_inv (expand_loop mal n p) live"
proof (induction mal n p rule: expand_loop.induct)
  case (2 mal n p)
  let ?M = "sum_list (map (\<lambda>m. block_bytes m ()) (bp_free p)) + live"
  have m: "apart ?M" "\<forall>b \<in># ?M. b < bp_mallocs p" using "2.prems" by (simp_all add: block_inv_def)
  then have c: "count ?M (bp_mallocs p) = 0" by (metis less_irrefl not_in_iff)
  have "apart (?M + {#bp_mallocs p#})"
    unfolding apart_def using m(1) c by (auto simp: apart_def)
  then have "block_inv (p\<lparr>bp_free := bp_free p @ [if mal (bp_mallocs p) then Some (bp_mallocs p) else None],
      bp_mallocs := Suc (bp_mallocs p)\<rparr>) live"
    using m by (auto simp: block_inv_def block_bytes_def ac_simps less_SucI)
  then show ?case using "2.IH" by simp
qed simp

interpretation blocks: allocator block_inv "\<lambda>_. True" block_bytes "\<lambda>_. bp_PoolLargeMalloc mal"
    "\<lambda>m _ p. Some (bp_PoolLargeFree m p)"
  for mal :: "nat \<Rightarrow> bool"
proof
  fix p live
  assume "block_inv p live"
  then show "apart live" by (auto simp: block_inv_def intro: apart_mono)
next
  fix p live m p' and r :: unit
  assume inv: "block_inv p live" and a: "bp_PoolLargeMalloc mal p = Some (m, p')"
  define q where "q = (if bp_free p = [] then bp_Expansion mal 0 p else p)"
  have "block_inv q live" using inv by (simp add: q_def bp_Expansion_def expand_loop_inv)
  moreover have "bp_free q = bp_free p' @ [m]" "bp_mallocs p' = bp_mallocs q"
    using a by (auto simp: bp_PoolLargeMalloc_def q_def Let_def split: if_splits)
  ultimately show "block_inv p' (live + block_bytes m r)" by (simp add: block_inv_def ac_simps)
next
  fix p live m and r :: unit
  assume "block_inv p (live + block_bytes m r)"
  then show "\<exists>q. Some (bp_PoolLargeFree m p) = Some q \<and> block_inv q live"
    by (simp add: block_inv_def bp_PoolLargeFree_def ac_simps)
qed

lemma release_loop_drop: "n = length ms \<Longrightarrow> h < n \<Longrightarrow> release_loop n h ms = drop (n - h) ms"
proof (induction n h ms rule: release_loop.induct)
  case (2 n h m ms)
  show ?case
  proof (cases "ms = [] \<or> n - 1 \<le> h")
    case True
    then have "n - h = 1" using 2 by auto
    then show ?thesis using True 2 by (auto simp: Let_def)
  next
    case False
    then have "n - h = Suc (n - 1 - h)" using "2.prems"(2) by simp
    then show ?thesis using False 2 by (simp add: Let_def)
  qed
qed simp

section \<open>Properties\<close>

lemma obj_size_ge: "sz \<le> obj_size sz"
  using RoundUp_bounds [of sz] by (simp add: obj_size_def)

lemma obj_in_heap:
  assumes "in_heap h (obj_bytes (c, off) sz)" "0 < sz"
  shows "c < length h \<and> 0 \<le> off \<and> off + sz \<le> h ! c"
proof -
  have "(c, off) \<in># obj_bytes (c, off) sz" "(c, off + sz - 1) \<in># obj_bytes (c, off) sz"
    using assms(2) obj_size_ge [of sz] by (simp_all add: obj_bytes_def in_region)
  then show ?thesis using assms(1) unfolding in_heap_def by fastforce
qed

lemma objs_disjoint:
  assumes "set_mset (obj_bytes (c, off) sz) \<inter> set_mset (obj_bytes (d, off') sz') = {}" "0 < sz" "0 < sz'"
  shows "c \<noteq> d \<or> off + sz \<le> off' \<or> off' + sz' \<le> off"
proof (rule ccontr)
  assume n: "\<not> (c \<noteq> d \<or> off + sz \<le> off' \<or> off' + sz' \<le> off)"
  then have "(c, max off off') \<in># obj_bytes (c, off) sz" "(c, max off off') \<in># obj_bytes (d, off') sz'"
    using assms(2,3) obj_size_ge [of sz] obj_size_ge [of sz'] by (auto simp: obj_bytes_def in_region)
  then show False using assms(1) by blast
qed

text \<open>
  C18. The pool of small objects is memory-safe. Whatever is allocated and given back, in any order and of
  any sizes above 0 (a request of 0 bytes is undefined): every object that is out lies inside of one block of the heap, no two of them share a
  byte, and no operation is undefined; the run ends early only if \<open>malloc\<close> fails, which aborts the
  program. (The rests of chunks that the pool files under the wrong size are never handed out.)
\<close>

theorem memory_pool_safe:
  assumes "\<forall>sz \<in> set (requests ops). 0 < sz"
  shows "case pool_run (PoolMalloc mal) (\<lambda>a. PoolFree (Some a)) ops (CMemoryPool large_sz add_num, []) of
      None \<Rightarrow> \<exists>n. \<not> mal n
    | Some (p, live) \<Rightarrow>
        (\<forall>((c, off), sz) \<in> set live. c < length (mp_heap p) \<and> 0 \<le> off \<and> off + sz \<le> mp_heap p ! c) \<and>
        (\<forall>i j. i < j \<longrightarrow> j < length live \<longrightarrow>
           (case (live ! i, live ! j) of (((c, off), sz), ((d, off'), sz')) \<Rightarrow>
              c \<noteq> d \<or> off + sz \<le> off' \<or> off' + sz' \<le> off))"
proof (cases "pool_run (PoolMalloc mal) (\<lambda>a. PoolFree (Some a)) ops (CMemoryPool large_sz add_num, [])")
  case None
  have "\<exists>n. \<not> mal n"
  proof (rule ccontr)
    assume m: "\<nexists>n. \<not> mal n"
    have "PoolMalloc mal sz p \<noteq> None" if "pool_inv p live" "0 < sz" for p live sz
      using PoolMalloc_ok [OF that, of mal] m by (auto split: option.splits)
    then have "pool_run (PoolMalloc mal) (\<lambda>a. PoolFree (Some a)) ops (CMemoryPool large_sz add_num, []) \<noteq> None"
      using assms CMemoryPool_inv by (intro nodes.run_defined) simp_all
    then show False using None by simp
  qed
  then show ?thesis using None by simp
next
  case (Some r)
  obtain p live where r: "r = (p, live)" by (cases r)
  have ok: "pool_inv p (nodes.areas live)" "\<forall>x \<in> set live. 0 < snd x"
    using nodes.run_ok [of "CMemoryPool large_sz add_num" "[]" ops mal p live] assms Some CMemoryPool_inv
    unfolding r by auto
  have "c < length (mp_heap p) \<and> 0 \<le> off \<and> off + sz \<le> mp_heap p ! c" if "((c, off), sz) \<in> set live" for c off sz
  proof (rule obj_in_heap)
    obtain k where k: "k < length live" "live ! k = ((c, off), sz)" using \<open>((c, off), sz) \<in> set live\<close> by (auto simp: in_set_conv_nth)
    show "in_heap (mp_heap p) (obj_bytes (c, off) sz)"
      using ok(1) nodes.areas_take [OF k(1)] k(2) by (auto simp: pool_inv_def in_heap_union)
    show "0 < sz" using ok(2) that by auto
  qed
  moreover have "case (live ! i, live ! j) of (((c, off), sz), ((d, off'), sz')) \<Rightarrow>
      c \<noteq> d \<or> off + sz \<le> off' \<or> off' + sz' \<le> off" if ij: "i < j" "j < length live" for i j
  proof -
    obtain c off sz d off' sz' where e: "live ! i = ((c, off), sz)" "live ! j = ((d, off'), sz')"
      by (metis prod.collapse)
    have "0 < sz" "0 < sz'" using ok(2) e nth_mem [of i live] nth_mem [of j live] ij by fastforce+
    then show ?thesis
      using nodes.live_disjoint [OF ok(1) ij] objs_disjoint [of c off sz d off' sz'] e by simp
  qed
  ultimately show ?thesis using Some r by auto
qed

theorem memory_pool_safe_witness:
  "case pool_run (PoolMalloc (\<lambda>n. n < 5)) (\<lambda>a. PoolFree (Some a)) [Alloc 5, Alloc 300, Release 0, Alloc 8, Alloc 3]
      (CMemoryPool 1024 10, []) of
      None \<Rightarrow> \<exists>n. 5 \<le> (n :: nat)
    | Some (p, live) \<Rightarrow>
        list_all (\<lambda>((c, off), sz). c < length (mp_heap p) \<and> 0 \<le> off \<and> off + sz \<le> mp_heap p ! c) live \<and>
        sorted_wrt (\<lambda>((c, off), sz) ((d, off'), sz').
          if c = d then off + sz \<le> off' \<or> off' + sz' \<le> off else True) live"
  using memory_pool_safe [of "[Alloc 5, Alloc 300, Release 0, Alloc 8, Alloc 3]" "\<lambda>n. n < 5" 1024 10]
  by (simp add: requests_def not_less list_all_iff sorted_wrt_iff_nth_less case_prod_unfold del: pool_run.simps split: option.splits) (intro allI impI, simp del: pool_run.simps)

text \<open>
  The pool of blocks hands out no block twice, and \<open>ReleaseHalf\<close> gives back half of the free blocks,
  rounded up.
\<close>

theorem block_pool_unique:
  fixes ops :: "unit pool_op list"
  assumes "pool_run (\<lambda>_. bp_PoolLargeMalloc mal) (\<lambda>m _ p. Some (bp_PoolLargeFree m p)) ops (CBlockMemoryPool sz n, []) =
    Some (p, live)" "i < j" "j < length live" "fst (live ! i) = Some b"
  shows "fst (live ! j) \<noteq> Some b \<and> Some b \<notin> set (bp_free p) \<and> b < bp_mallocs p \<and>
    bp_GetSize (bp_ReleaseHalf p) = bp_GetSize p div 2"
proof -
  have "block_inv (CBlockMemoryPool sz n) {#}" by (simp add: block_inv_def CBlockMemoryPool_def apart_def)
  then have ok: "block_inv p (blocks.areas live)"
    using blocks.run_ok [of "CBlockMemoryPool sz n" "[]" ops mal p live] assms(1) by auto
  have b: "block_bytes (fst (live ! i)) (snd (live ! i)) = {#b#}" using assms(4) by (simp add: block_bytes_def)
  have "fst (live ! j) \<noteq> Some b"
    using blocks.live_disjoint [OF ok assms(2,3)] unfolding b by (auto simp: block_bytes_def)
  moreover have in_live: "b \<in># blocks.areas live"
    using blocks.areas_take [of i live] assms(2,3) unfolding b by simp
  then have "b \<notin># sum_list (map (\<lambda>m. block_bytes m ()) (bp_free p))" "b < bp_mallocs p"
    using ok apart_disjoint [of "sum_list (map (\<lambda>m. block_bytes m ()) (bp_free p))" "blocks.areas live"]
    by (auto simp: block_inv_def)
  moreover from this(1) have "Some b \<notin> set (bp_free p)"
  proof (rule contrapos_nn)
    assume "Some b \<in> set (bp_free p)"
    then obtain ys zs where "bp_free p = ys @ Some b # zs" by (meson split_list)
    then show "b \<in># sum_list (map (\<lambda>m. block_bytes m ()) (bp_free p))" by (simp add: block_bytes_def)
  qed
  moreover have "bp_GetSize (bp_ReleaseHalf p) = bp_GetSize p div 2"
    by (cases "bp_free p = []")
      (simp_all add: bp_GetSize_def bp_ReleaseHalf_def Let_def release_loop_drop [OF refl])
  ultimately show ?thesis by simp
qed

theorem block_pool_unique_witness:
  "let p = CBlockMemoryPool 1024 2; run = pool_run (\<lambda>_. bp_PoolLargeMalloc (\<lambda>_. True)) (\<lambda>m _ p. Some (bp_PoolLargeFree m p))
     [Alloc (), Alloc (), Release 0, Alloc (), Alloc ()] (p, [])
   in \<exists>q live. run = Some (q, live) \<and> map fst live = [Some 0, Some 1, Some 3] \<and>
        fst (live ! 2) \<noteq> Some 0 \<and> bp_GetSize (bp_ReleaseHalf q) = bp_GetSize q div 2"
proof -
  have r: "pool_run (\<lambda>_. bp_PoolLargeMalloc (\<lambda>_. True)) (\<lambda>m _ p. Some (bp_PoolLargeFree m p))
     [Alloc (), Alloc (), Release 0, Alloc (), Alloc ()] (CBlockMemoryPool 1024 2, []) =
     Some (\<lparr>bp_add_nodes = 2, bp_large_size = 1024, bp_free = [Some 2], bp_mallocs = 4\<rparr>, [(Some 0, ()), (Some 1, ()), (Some 3, ())])"
    by (simp add: CBlockMemoryPool_def bp_PoolLargeMalloc_def bp_Expansion_def bp_PoolLargeFree_def eval_nat_numeral)
  show ?thesis using block_pool_unique [OF r, of 0 2 0] unfolding Let_def r by auto
qed

text \<open>
  The rest of a chunk that is too small for the size asked for is lost: it is on no list after the
  chunk that follows it has been cut. And a request of 0 bytes reads in front of the array of lists.
\<close>

lemma ReFill_loses_rest:
  assumes "pool_inv p live" "0 < sz" "sz \<le> 256" "left_bytes p < sz" "mal (length (mp_heap p))"
  shows "\<exists>q. ReFill mal sz 20 p = Some ((length (mp_heap p), 0), q) \<and>
    mp_free_list q = (mp_free_list p)[nat (FreeListIndex sz) := link_nodes sz 20 (length (mp_heap p), 0)] \<and>
    mp_pool_start q = Some (length (mp_heap p), sz * 20)"
proof -
  have ok: "chunk_ok p" "length (mp_free_list p) = 32" using assms(1) by (simp_all add: pool_inv_def)
  obtain q where "ChunkAlloc mal sz 20 p = Some ((length (mp_heap p), 0), 20, q)" "new_chunk p sz (length (mp_heap p), 0) 20 q"
    using ChunkAlloc_new [OF ok assms(2,3,4), of mal] assms(5) by (auto simp: new_chunk_def)
  then show ?thesis
    using index_bounds [OF assms(2,3)] by (auto simp: ReFill_def set_free_list_def new_chunk_def)
qed

lemma PoolMalloc_zero: "PoolMalloc mal 0 p = None"
  by (simp add: PoolMalloc_def max_bytes_def take_node_def free_list_def FreeListIndex_def align_def signed_divide_int_def)

end
