(* ===== verification/Task_Queue.thy ===== *)
theory Task_Queue
  imports Hudp_Prelude
begin

text \<open>
  \<^verbatim>\<open>base/TSQueue.h\<close> and \<^verbatim>\<open>base/TaskQueue.h\<close>: the two queues between the threads of the library.
  A call that would block on the condition variable of a \<open>CTaskQueue\<close> is \<open>None\<close>.
\<close>

section \<open>The thread-safe queue\<close>

definition ts_Push :: "'a \<Rightarrow> 'a list \<Rightarrow> 'a list" where
  "ts_Push element q = q @ [element]"

definition ts_Pop :: "'a list \<Rightarrow> ('a \<times> 'a list) option" where
  "ts_Pop q = (case q of [] \<Rightarrow> None | x # xs \<Rightarrow> Some (x, xs))"

definition ts_Clear :: "'a list \<Rightarrow> 'a list" where
  "ts_Clear q = []"

section \<open>The blocking task queue\<close>

record 'a task_queue =
  tq_list_size :: nat
  tq_block_queue :: "'a list"

definition CTaskQueue :: "int \<Rightarrow> 'a task_queue" where
  "CTaskQueue n = \<lparr>tq_list_size = (if n > 0 then nat n else 2147483647), tq_block_queue = []\<rparr>"

definition tq_Push :: "'a \<Rightarrow> 'a task_queue \<Rightarrow> 'a task_queue option" where
  "tq_Push element q =
     (if length (tq_block_queue q) < tq_list_size q
      then Some (q\<lparr>tq_block_queue := tq_block_queue q @ [element]\<rparr>) else None)"

definition tq_PushFront :: "'a \<Rightarrow> 'a task_queue \<Rightarrow> 'a task_queue option" where
  "tq_PushFront element q =
     (if length (tq_block_queue q) < tq_list_size q
      then Some (q\<lparr>tq_block_queue := element # tq_block_queue q\<rparr>) else None)"

definition tq_Pop :: "'a task_queue \<Rightarrow> ('a \<times> 'a task_queue) option" where
  "tq_Pop q =
     (if tq_block_queue q = [] then None
      else Some (last (tq_block_queue q), q\<lparr>tq_block_queue := butlast (tq_block_queue q)\<rparr>))"

definition tq_Clear :: "'a task_queue \<Rightarrow> 'a task_queue" where
  "tq_Clear q = q\<lparr>tq_block_queue := []\<rparr>"

section \<open>First in, first out\<close>

text \<open>
  The contract of a queue between two threads: what is taken is what was put, in the order given
  by the abstraction \<open>contents\<close>.
\<close>

locale fifo =
  fixes put :: "'a \<Rightarrow> 'q \<Rightarrow> 'q option" and take1 :: "'q \<Rightarrow> ('a \<times> 'q) option"
    and contents :: "'q \<Rightarrow> 'a list"
  assumes put_contents: "put x q = Some q' \<Longrightarrow> contents q' = contents q @ [x]"
    and take_contents: "take1 q = Some (x, q') \<Longrightarrow> contents q = x # contents q'"
    and take_None: "take1 q = None \<Longrightarrow> contents q = []"
begin

fun put_all :: "'a list \<Rightarrow> 'q \<Rightarrow> 'q option" where
  "put_all [] q = Some q"
| "put_all (x # xs) q = (case put x q of None \<Rightarrow> None | Some q' \<Rightarrow> put_all xs q')"

fun take_n :: "nat \<Rightarrow> 'q \<Rightarrow> 'a list" where
  "take_n 0 q = []"
| "take_n (Suc n) q = (case take1 q of None \<Rightarrow> [] | Some (x, q') \<Rightarrow> x # take_n n q')"

lemma put_all_contents: "put_all xs q = Some q' \<Longrightarrow> contents q' = contents q @ xs"
proof (induction xs arbitrary: q)
  case (Cons x xs)
  then obtain q1 where "put x q = Some q1" "put_all xs q1 = Some q'"
    by (auto split: option.splits)
  then show ?case using Cons.IH put_contents by simp
qed simp

lemma take_n_contents: "take_n n q = take n (contents q)"
proof (induction n arbitrary: q)
  case (Suc n)
  show ?case
  proof (cases "take1 q")
    case None
    then show ?thesis using take_None by simp
  next
    case (Some p)
    then obtain x q' where "take1 q = Some (x, q')" by (cases p) auto
    then show ?thesis using Suc.IH take_contents by simp
  qed
qed simp

lemma fifo_order: "put_all xs q = Some q' \<Longrightarrow> contents q = [] \<Longrightarrow> take_n (length xs) q' = xs"
  by (simp add: put_all_contents take_n_contents)

end

interpretation ts: fifo "\<lambda>x q. Some (ts_Push x q)" ts_Pop "\<lambda>q. q"
  by unfold_locales (auto simp: ts_Push_def ts_Pop_def split: list.splits)

text \<open>The task queue is a queue when tasks enter at the front; then it reads backwards.\<close>

interpretation tq_front: fifo tq_PushFront tq_Pop "\<lambda>q. rev (tq_block_queue q)"
  by unfold_locales (auto simp: tq_PushFront_def tq_Pop_def rev_eq_Cons_iff split: if_splits
      simp flip: append_butlast_last_id)

section \<open>Properties\<close>

text \<open>
  \<open>Push\<close> and \<open>Pop\<close> of the task queue, which connect the receiving, processing and filter
  threads, work on the same end: of two tasks that wait, the one pushed last is taken first. With
  \<open>PushFront\<close> in place of \<open>Push\<close> they leave in order.
\<close>

theorem task_queue_is_lifo:
  assumes "tq_Push a q = Some q1" and "tq_Push b q1 = Some q2"
  shows "\<exists>q3. tq_Pop q2 = Some (b, q3) \<and> tq_Pop q3 = Some (a, q)"
  using assms by (auto simp: tq_Push_def tq_Pop_def butlast_append split: if_splits)

theorem task_queue_is_lifo_witness:
  "\<exists>q3. tq_Pop \<lparr>tq_list_size = 9, tq_block_queue = [1 :: nat, 2]\<rparr> = Some (2, q3) \<and>
     tq_Pop q3 = Some (1, \<lparr>tq_list_size = 9, tq_block_queue = []\<rparr>)"
  by (rule task_queue_is_lifo [of _ _ "\<lparr>tq_list_size = 9, tq_block_queue = [1]\<rparr>"]) (simp_all add: tq_Push_def)

end
