(* ===== verification/Log.thy ===== *)
theory Log
  imports Calendar Memory_Pool Task_Queue
begin

text \<open>
  The log \<^verbatim>\<open>base/Log.cpp\<close>: it formats a line with the time into a block of its memory pool and pushes
  the block to its thread, which writes it to the console and to the file of the day. Parameters: the
  clock, \<open>malloc\<close> (\<open>mal\<close>), the text of the message after the format of the caller has been applied,
  and which files can be opened. A pointer to a block is its number in the block pool.
\<close>

section \<open>State\<close>

definition LOG_DEBUG_LEVEL :: int where "LOG_DEBUG_LEVEL = 1"
definition LOG_INFO_LEVEL :: int where "LOG_INFO_LEVEL = 2"
definition LOG_WARN_LEVEL :: int where "LOG_WARN_LEVEL = 3"
definition LOG_ERROR_LEVEL :: int where "LOG_ERROR_LEVEL = 4"
definition LOG_FATAL_LEVEL :: int where "LOG_FATAL_LEVEL = 5"

definition log_buf_size :: int where "log_buf_size = 1024"

text \<open>
  \<open>lg_blocks\<close> are the strings in the blocks, \<open>lg_disk\<close> the lines of the files in the order they were
  appended, \<open>lg_open\<close> the file that is open.
\<close>

record clog =
  lg_stop :: bool
  lg_queue :: "nat option task_queue"
  lg_time :: cal_tool
  lg_file_name :: string
  lg_open :: "string option"
  lg_level :: int
  lg_cur_date :: int
  lg_pool :: mem_pool
  lg_blocks :: "nat \<Rightarrow> string"
  lg_console :: "string list"
  lg_disk :: "string \<Rightarrow> string list"

definition CLog :: "u64 \<Rightarrow> tm \<Rightarrow> clog" where
  "CLog clock garbage =
     \<lparr>lg_stop = True, lg_queue = CTaskQueue (- 1),
      lg_time = tt_Now clock \<lparr>tt_update_time = True, tt_time = 0, ct_tm = garbage\<rparr>, lg_file_name = [],
      lg_open = None, lg_level = LOG_ERROR_LEVEL, lg_cur_date = 0, lg_pool = CMemoryPool log_buf_size 10,
      lg_blocks = (\<lambda>_. []), lg_console = [], lg_disk = (\<lambda>_. [])\<rparr>"

text \<open>\<open>CRunnable::Start\<close>; the turns of the thread are below.\<close>

definition log_Start :: "clog \<Rightarrow> clog" where
  "log_Start l = l\<lparr>lg_stop := False\<rparr>"

definition log_Push :: "nat option \<Rightarrow> clog \<Rightarrow> clog option" where
  "log_Push m l = do { q \<leftarrow> tq_Push m (lg_queue l); Some (l\<lparr>lg_queue := q\<rparr>) }"

definition log_Stop :: "clog \<Rightarrow> clog option" where
  "log_Stop l = log_Push None (l\<lparr>lg_stop := True\<rparr>)"

definition SetLogName :: "string \<Rightarrow> clog \<Rightarrow> clog" where
  "SetLogName file_name l = l\<lparr>lg_file_name := file_name\<rparr>"

definition GetLogName :: "clog \<Rightarrow> string" where
  "GetLogName l = lg_file_name l"

definition SetLogLevel :: "int \<Rightarrow> clog \<Rightarrow> clog" where
  "SetLogLevel level l = l\<lparr>lg_level := level\<rparr>"

definition GetLogLevel :: "clog \<Rightarrow> int" where
  "GetLogLevel l = lg_level l"

section \<open>A line\<close>

text \<open>\<open>%d\<close>.\<close>

definition int_str :: "int \<Rightarrow> string" where
  "int_str x = (if x < 0 then ''-'' else []) @ decimal (nat \<bar>x\<bar>)"

definition log_prefix :: "string \<Rightarrow> string \<Rightarrow> string \<Rightarrow> int \<Rightarrow> string" where
  "log_prefix time level file line = ''['' @ time @ '':'' @ level @ ''-'' @ file @ '':'' @ int_str line @ ''] ''"

text \<open>
  The two calls of \<open>snprintf\<close> on the block of 1024 bytes. The second starts where the first would have
  ended with all the room in the world; behind the block its size is negative, that is huge.
\<close>

definition log_line :: "string \<Rightarrow> string \<Rightarrow> string option" where
  "log_line prefix msg =
     (let curlen = int (length prefix) in
      if curlen > log_buf_size then None
      else if curlen = log_buf_size then Some (take (nat (log_buf_size - 1)) prefix)
      else Some (prefix @ take (nat (log_buf_size - curlen - 1)) msg))"

definition PushFormatLog ::
  "(nat \<Rightarrow> bool) \<Rightarrow> u64 \<Rightarrow> string \<Rightarrow> int \<Rightarrow> string \<Rightarrow> string \<Rightarrow> clog \<Rightarrow> clog option" where
  "PushFormatLog mal clock file line level msg l = do {
     let l = l\<lparr>lg_time := tt_Now clock (lg_time l)\<rparr>;
     (time, pool) \<leftarrow> PoolMalloc mal 32 (lg_pool l);
     (_, buf, tool) \<leftarrow> GetFormatTime_buf (replicate 32 (CHR 0x00)) 32 (lg_time l);
     (log_str, pool) \<leftarrow> PoolLargeMalloc mal pool;
     block \<leftarrow> log_str;
     text \<leftarrow> log_line (log_prefix (takeWhile (\<lambda>c. c \<noteq> CHR 0x00) buf) level file line) msg;
     pool \<leftarrow> PoolFree (Some time) 32 pool;
     log_Push (Some block) (l\<lparr>lg_time := tool, lg_pool := pool, lg_blocks := (lg_blocks l)(block := text)\<rparr>) }"

definition log_at :: "int \<Rightarrow> string \<Rightarrow> (nat \<Rightarrow> bool) \<Rightarrow> u64 \<Rightarrow> string \<Rightarrow> int \<Rightarrow> string \<Rightarrow> clog \<Rightarrow> clog option" where
  "log_at lev level mal clock file line msg l =
     (if lg_stop l then Some l
      else if lg_level l \<le> lev then PushFormatLog mal clock file line level msg l
      else Some l)"

definition LogDebug :: "(nat \<Rightarrow> bool) \<Rightarrow> u64 \<Rightarrow> string \<Rightarrow> int \<Rightarrow> string \<Rightarrow> clog \<Rightarrow> clog option" where
  "LogDebug = log_at LOG_DEBUG_LEVEL ''DEBUG''"

definition LogInfo :: "(nat \<Rightarrow> bool) \<Rightarrow> u64 \<Rightarrow> string \<Rightarrow> int \<Rightarrow> string \<Rightarrow> clog \<Rightarrow> clog option" where
  "LogInfo = log_at LOG_INFO_LEVEL ''INFO''"

definition LogWarn :: "(nat \<Rightarrow> bool) \<Rightarrow> u64 \<Rightarrow> string \<Rightarrow> int \<Rightarrow> string \<Rightarrow> clog \<Rightarrow> clog option" where
  "LogWarn = log_at LOG_WARN_LEVEL ''WARN''"

definition LogError :: "(nat \<Rightarrow> bool) \<Rightarrow> u64 \<Rightarrow> string \<Rightarrow> int \<Rightarrow> string \<Rightarrow> clog \<Rightarrow> clog option" where
  "LogError = log_at LOG_ERROR_LEVEL ''ERROR''"

definition LogFatal :: "(nat \<Rightarrow> bool) \<Rightarrow> u64 \<Rightarrow> string \<Rightarrow> int \<Rightarrow> string \<Rightarrow> clog \<Rightarrow> clog option" where
  "LogFatal = log_at LOG_FATAL_LEVEL ''FATAL''"

section \<open>The thread\<close>

text \<open>\<open>append\<close> changes the member: the name grows by a dot with every new file.\<close>

definition CheckDateFile :: "(string \<Rightarrow> bool) \<Rightarrow> clog \<Rightarrow> clog option" where
  "CheckDateFile can_open l = do {
     (date, tool) \<leftarrow> GetDate (lg_time l);
     if lg_cur_date l \<noteq> date then do {
       (date, tool) \<leftarrow> GetDate tool;
       let base = lg_file_name l @ ''.'';
       (ds, tool) \<leftarrow> GetDateStr tool;
       let name = base @ ds @ ''.log'';
       Some (l\<lparr>lg_cur_date := date, lg_time := tool, lg_file_name := base,
               lg_open := (if can_open name then Some name else None)\<rparr>) }
     else Some (l\<lparr>lg_time := tool\<rparr>) }"

definition write_line :: "string \<Rightarrow> clog \<Rightarrow> clog" where
  "write_line s l = (case lg_open l of
     None \<Rightarrow> l
   | Some f \<Rightarrow> l\<lparr>lg_console := lg_console l @ [s], lg_disk := (lg_disk l)(f := lg_disk l f @ [s])\<rparr>)"

text \<open>A pass of the loop of \<open>Run\<close>: whether it goes on.\<close>

definition log_turn :: "(string \<Rightarrow> bool) \<Rightarrow> clog \<Rightarrow> (bool \<times> clog) option" where
  "log_turn can_open l = do {
     (m, q) \<leftarrow> tq_Pop (lg_queue l);
     let l = l\<lparr>lg_queue := q\<rparr>;
     case m of
       None \<Rightarrow> Some (False, l)
     | Some b \<Rightarrow> do {
         l \<leftarrow> CheckDateFile can_open l;
         let l = write_line (lg_blocks l b) l;
         Some (True, l\<lparr>lg_pool := PoolLargeFree (Some b) (lg_pool l)\<rparr>) } }"

lemma CheckDateFile_queue: "CheckDateFile can_open l = Some l' \<Longrightarrow> lg_queue l' = lg_queue l"
  by (auto simp: CheckDateFile_def Let_def split: bind_splits if_splits)

lemma write_line_simps [simp]: "lg_queue (write_line s l) = lg_queue l" "lg_pool (write_line s l) = lg_pool l"
  "lg_time (write_line s l) = lg_time l" "lg_stop (write_line s l) = lg_stop l"
  "lg_blocks (write_line s l) = lg_blocks l" "lg_open (write_line s l) = lg_open l"
  "lg_cur_date (write_line s l) = lg_cur_date l" "lg_level (write_line s l) = lg_level l"
  by (simp_all add: write_line_def split: option.splits)

lemma log_turn_queue:
  "log_turn can_open l = Some (go, l') \<Longrightarrow>
   tq_block_queue (lg_queue l) \<noteq> [] \<and> tq_block_queue (lg_queue l') = butlast (tq_block_queue (lg_queue l))"
  by (auto simp: log_turn_def Let_def tq_Pop_def split: bind_splits option.splits if_splits dest!: CheckDateFile_queue)

text \<open>\<open>Run\<close> until it ends or would wait for the next line.\<close>

function log_Run :: "(string \<Rightarrow> bool) \<Rightarrow> clog \<Rightarrow> clog option" where
  "log_Run can_open l =
     (if lg_stop l \<or> tq_block_queue (lg_queue l) = [] then Some l
      else case log_turn can_open l of
        None \<Rightarrow> None
      | Some (go, l') \<Rightarrow> if go then log_Run can_open l' else Some l')"
  by pat_completeness auto
termination
  by (relation "measure (\<lambda>(can_open, l). length (tq_block_queue (lg_queue l)))") (auto dest!: log_turn_queue)

declare log_Run.simps [simp del]

section \<open>The pool under the log\<close>

lemma move_start_block: "move_start n p = Some (a, q) \<Longrightarrow> mp_block_pool q = mp_block_pool p"
  by (auto simp: move_start_def split: option.splits)

lemma set_free_list_block: "set_free_list i xs p = Some q \<Longrightarrow> mp_block_pool q = mp_block_pool p"
  by (auto simp: set_free_list_def split: if_splits)

lemma keep_rest_block: "keep_rest sz p = Some q \<Longrightarrow> mp_block_pool q = mp_block_pool p"
  by (auto simp: keep_rest_def dest: set_free_list_block split: if_splits bind_splits)

lemma fresh_chunk_block: "fresh_chunk mal n p = Some q \<Longrightarrow> mp_block_pool q = mp_block_pool p"
  by (auto simp: fresh_chunk_def do_malloc_def split: if_splits bind_splits)

lemma ChunkAlloc_block: "ChunkAlloc mal sz nums p = Some (a, n, q) \<Longrightarrow> mp_block_pool q = mp_block_pool p"
proof (induction mal sz nums p rule: ChunkAlloc.induct)
  case (1 mal sz nums p)
  consider (all) "left_bytes p \<ge> sz * nums" | (some) "\<not> left_bytes p \<ge> sz * nums" "left_bytes p \<ge> sz"
    | (new) "\<not> left_bytes p \<ge> sz * nums" "\<not> left_bytes p \<ge> sz" by blast
  then show ?case
  proof cases
    case new
    then obtain r r' where r: "keep_rest sz p = Some r" "fresh_chunk mal (sz * nums) r = Some r'" "ChunkAlloc mal sz nums r' = Some (a, n, q)"
      using "1.prems" by (auto simp: ChunkAlloc.simps [of mal sz nums p] Let_def split: option.splits)
    then show ?thesis
      using "1.IH" [OF refl new r] keep_rest_block [OF r(1)] fresh_chunk_block [OF r(2)] by simp
  qed (use "1.prems" in \<open>auto simp: ChunkAlloc.simps [of mal sz nums p] Let_def dest: move_start_block split: bind_splits\<close>)
qed

lemma ReFill_block: "ReFill mal sz n p = Some (a, q) \<Longrightarrow> mp_block_pool q = mp_block_pool p"
  by (auto simp: ReFill_def dest!: ChunkAlloc_block set_free_list_block split: bind_splits if_splits)

lemma PoolMalloc_block: "PoolMalloc mal sz p = Some (a, q) \<Longrightarrow> mp_block_pool q = mp_block_pool p"
  by (auto simp: PoolMalloc_def do_malloc_def take_node_def dest: set_free_list_block ReFill_block
      split: bind_splits if_splits list.splits)

lemma PoolFree_block: "PoolFree m len p = Some q \<Longrightarrow> mp_block_pool q = mp_block_pool p"
  by (auto simp: PoolFree_def put_node_def dest: set_free_list_block split: bind_splits if_splits option.splits)

lemma pool_inv_block [simp]: "pool_inv (p\<lparr>mp_block_pool := bp\<rparr>) live = pool_inv p live"
  by (simp add: pool_inv_def chunk_ok_def pool_bytes_def rest_bytes_def left_bytes_def cong: option.case_cong)

text \<open>When \<open>malloc\<close> succeeds, a block is always found.\<close>

definition blocks_ok :: "block_pool \<Rightarrow> nat list \<Rightarrow> bool" where
  "blocks_ok p bs \<longleftrightarrow> block_inv p (mset bs) \<and> 0 < bp_add_nodes p \<and> None \<notin> set (bp_free p)"

lemma expand_loop_frame:
  assumes "\<forall>n. mal n"
  shows "bp_add_nodes (expand_loop mal n p) = bp_add_nodes p \<and>
    (None \<in> set (bp_free (expand_loop mal n p)) \<longleftrightarrow> None \<in> set (bp_free p)) \<and>
    (0 < n \<or> bp_free p \<noteq> [] \<longrightarrow> bp_free (expand_loop mal n p) \<noteq> [])"
  using assms by (induction mal n p rule: expand_loop.induct) auto

lemma bp_PoolLargeMalloc_ok:
  assumes mal: "\<forall>n. mal n" and ok: "blocks_ok p bs"
  shows "\<exists>b q. bp_PoolLargeMalloc mal p = Some (Some b, q) \<and> blocks_ok q (bs @ [b]) \<and> b \<notin> set bs"
proof -
  define p' where "p' = (if bp_free p = [] then bp_Expansion mal 0 p else p)"
  have p': "bp_add_nodes p' = bp_add_nodes p" "None \<notin> set (bp_free p')" "bp_free p' \<noteq> []"
    using ok expand_loop_frame [OF mal, of "nat (bp_add_nodes p)" p]
    by (auto simp: p'_def bp_Expansion_def blocks_ok_def)
  then have "last (bp_free p') \<noteq> None" by (metis last_in_set)
  then obtain b where b: "last (bp_free p') = Some b" by auto
  define q where "q = p'\<lparr>bp_free := butlast (bp_free p')\<rparr>"
  have a: "bp_PoolLargeMalloc mal p = Some (Some b, q)"
    using p' b by (simp add: bp_PoolLargeMalloc_def p'_def [symmetric] q_def)
  have i: "block_inv q (mset bs + {#b#})"
    using blocks.alloc_ok [OF _ _ a, of "mset bs"] ok by (simp add: blocks_ok_def block_bytes_def)
  have "b \<notin> set bs"
  proof
    assume "b \<in> set bs"
    then have "1 < count (mset bs + {#b#}) b" by simp
    moreover have "apart (mset bs + {#b#})" using i by (auto simp: block_inv_def intro: apart_mono)
    ultimately show False unfolding apart_def by (meson not_less)
  qed
  moreover have "None \<notin> set (bp_free q)" using p'(2) by (auto simp: q_def dest: in_set_butlastD)
  ultimately show ?thesis using a i p'(1) ok by (auto simp: blocks_ok_def q_def)
qed

lemma bp_PoolLargeFree_ok:
  "blocks_ok p (bs @ [b]) \<Longrightarrow> blocks_ok (bp_PoolLargeFree (Some b) p) bs"
  by (simp add: blocks_ok_def block_inv_def bp_PoolLargeFree_def block_bytes_def ac_simps)

section \<open>What waits and what is written\<close>

definition date_of :: "clog \<Rightarrow> int" where
  "date_of l = atoi (date_str (tool_tm (lg_time l)))"

definition day_file :: "string \<Rightarrow> clog \<Rightarrow> string" where
  "day_file base l = base @ ''.'' @ date_str (tool_tm (lg_time l)) @ ''.log''"

definition pending :: "clog \<Rightarrow> string list" where
  "pending l = map (\<lambda>m. lg_blocks l (the m)) (tq_block_queue (lg_queue l))"

definition log_ok :: "clog \<Rightarrow> bool" where
  "log_ok l \<longleftrightarrow> \<not> lg_stop l \<and> tool_ok (lg_time l) \<and> pool_inv (lg_pool l) {#} \<and>
     tq_list_size (lg_queue l) = 2147483647 \<and>
     (\<exists>bs. tq_block_queue (lg_queue l) = map Some bs \<and> blocks_ok (mp_block_pool (lg_pool l)) bs)"

text \<open>The line of a message.\<close>

definition the_line :: "u64 \<Rightarrow> string \<Rightarrow> string \<Rightarrow> int \<Rightarrow> string \<Rightarrow> string option" where
  "the_line clock level file line msg =
     log_line (log_prefix
       (takeWhile (\<lambda>c. c \<noteq> CHR 0x00) (take 31 (format_str (civil_time (sint clock sdiv 1000))))) level file line) msg"

lemma takeWhile_cut: "takeWhile P (xs @ c # ys) = takeWhile P xs" if "\<not> P c"
  using that by (induction xs) auto

lemma format_buf:
  assumes "tool_ok t"
  shows "\<exists>buf. GetFormatTime_buf res 32 t =
      Some (True, buf, t\<lparr>ct_tm := tool_tm t, tt_update_time := False\<rparr>) \<and>
    takeWhile (\<lambda>c. c \<noteq> CHR 0x00) buf = takeWhile (\<lambda>c. c \<noteq> CHR 0x00) (take 31 (format_str (tool_tm t)))"
  using with_tm_ok [OF assms, of format_str]
  by (simp add: GetFormatTime_buf_def Let_def takeWhile_cut)

lemma PushFormatLog_ok:
  assumes ok: "log_ok l" and mal: "\<forall>n. mal n" and room: "length (pending l) < 2147483647"
    and line: "the_line clock level file line msg = Some text"
  shows "\<exists>l'. PushFormatLog mal clock file line level msg l = Some l' \<and> log_ok l' \<and>
    pending l' = pending l @ [text] \<and> lg_console l' = lg_console l \<and> lg_disk l' = lg_disk l \<and>
    lg_open l' = lg_open l \<and> lg_cur_date l' = lg_cur_date l \<and> lg_file_name l' = lg_file_name l \<and>
    lg_level l' = lg_level l \<and> tool_tm (lg_time l') = civil_time (sint clock sdiv 1000)"
proof -
  obtain bs where bs: "tq_block_queue (lg_queue l) = map Some bs" "blocks_ok (mp_block_pool (lg_pool l)) bs"
    using ok by (auto simp: log_ok_def)
  define t where "t = tt_Now clock (lg_time l)"
  have t: "tool_ok t" "tool_tm t = civil_time (sint clock sdiv 1000)" by (simp_all add: t_def)
  obtain a p1 where p1: "PoolMalloc mal 32 (lg_pool l) = Some (a, p1)" "pool_inv p1 (obj_bytes a 32)"
    using PoolMalloc_ok [of "lg_pool l" "{#}" 32 mal] ok mal by (auto simp: log_ok_def split: option.splits)
  obtain buf where buf: "GetFormatTime_buf (replicate 32 (CHR 0x00)) 32 t =
      Some (True, buf, t\<lparr>ct_tm := tool_tm t, tt_update_time := False\<rparr>)"
    "takeWhile (\<lambda>c. c \<noteq> CHR 0x00) buf = takeWhile (\<lambda>c. c \<noteq> CHR 0x00) (take 31 (format_str (tool_tm t)))"
    using format_buf [OF t(1)] by blast
  have "blocks_ok (mp_block_pool p1) bs" using bs(2) PoolMalloc_block [OF p1(1)] by simp
  then obtain b bp where b: "bp_PoolLargeMalloc mal (mp_block_pool p1) = Some (Some b, bp)" "blocks_ok bp (bs @ [b])" "b \<notin> set bs"
    using bp_PoolLargeMalloc_ok [OF mal] by blast
  let ?p2 = "p1\<lparr>mp_block_pool := bp\<rparr>"
  obtain p3 where p3: "PoolFree (Some a) 32 ?p2 = Some p3" "pool_inv p3 {#}"
    using PoolFree_ok [of ?p2 "{#}" a 32] p1(2) by auto
  let ?q = "(lg_queue l)\<lparr>tq_block_queue := tq_block_queue (lg_queue l) @ [Some b]\<rparr>"
  let ?l = "l\<lparr>lg_time := t\<lparr>ct_tm := tool_tm t, tt_update_time := False\<rparr>, lg_pool := p3,
    lg_blocks := (lg_blocks l)(b := text), lg_queue := ?q\<rparr>"
  have line': "log_line (log_prefix (takeWhile (\<lambda>c. c \<noteq> CHR 0x00) buf) level file line) msg = Some text"
    using line t(2) buf(2) by (simp add: the_line_def)
  have "PushFormatLog mal clock file line level msg l = Some ?l"
    using p1(1) buf(1) b(1) p3(1) line' ok room
    by (simp add: PushFormatLog_def Let_def t_def [symmetric] PoolLargeMalloc_def log_Push_def tq_Push_def pending_def log_ok_def)
  moreover have "log_ok ?l"
    using ok bs(1) b(2) p3(2) PoolFree_block [OF p3(1)] by (auto simp: log_ok_def intro: exI [of _ "bs @ [b]"])
  moreover have "pending ?l = pending l @ [text]"
    using bs(1) b(3) by (auto simp: pending_def)
  ultimately show ?thesis using t(2) by auto
qed

text \<open>The file the next line goes to.\<close>

definition next_file :: "(string \<Rightarrow> bool) \<Rightarrow> clog \<Rightarrow> string option" where
  "next_file can_open l =
     (if lg_cur_date l = date_of l then lg_open l
      else if can_open (day_file (lg_file_name l) l) then Some (day_file (lg_file_name l) l) else None)"

lemma GetDate_ok:
  "tool_ok t \<Longrightarrow> GetDate t = Some (atoi (date_str (tool_tm t)), t\<lparr>ct_tm := tool_tm t, tt_update_time := False\<rparr>)"
  by (simp add: GetDate_def with_tm_ok)

lemma GetDateStr_ok:
  "tool_ok t \<Longrightarrow> GetDateStr t = Some (date_str (tool_tm t), t\<lparr>ct_tm := tool_tm t, tt_update_time := False\<rparr>)"
  by (simp add: GetDateStr_def with_tm_ok)

lemma CheckDateFile_ok:
  assumes "tool_ok (lg_time l)"
  shows "\<exists>name. CheckDateFile can_open l =
    Some (l\<lparr>lg_cur_date := date_of l, lg_time := (lg_time l)\<lparr>ct_tm := tool_tm (lg_time l), tt_update_time := False\<rparr>,
            lg_file_name := name, lg_open := next_file can_open l\<rparr>)"
proof (cases "lg_cur_date l = date_of l")
  case True
  then show ?thesis
    using GetDate_ok [OF assms]
    by (intro exI [of _ "lg_file_name l"]) (simp add: CheckDateFile_def date_of_def next_file_def)
next
  case False
  then show ?thesis
    using GetDate_ok [OF assms] GetDate_ok [OF tool_ok_read(1), of "lg_time l"] GetDateStr_ok [OF tool_ok_read(1), of "lg_time l"]
    by (intro exI [of _ "lg_file_name l @ ''.''"])
      (simp add: CheckDateFile_def date_of_def next_file_def day_file_def Let_def)
qed

text \<open>What \<open>n\<close> lines do to the console and the disk.\<close>

definition writes :: "string option \<Rightarrow> string list \<Rightarrow> clog \<Rightarrow> clog \<Rightarrow> bool" where
  "writes file ts l l' \<longleftrightarrow> (case file of
     None \<Rightarrow> lg_console l' = lg_console l \<and> lg_disk l' = lg_disk l
   | Some f \<Rightarrow> lg_console l' = lg_console l @ ts \<and> lg_disk l' = (lg_disk l)(f := lg_disk l f @ ts))"

lemma writes_trans: "writes f xs l l' \<Longrightarrow> writes f ys l' l'' \<Longrightarrow> writes f (xs @ ys) l l''"
  by (auto simp: writes_def split: option.splits)

lemma writes_refl [simp]: "writes f [] l l"
  by (simp add: writes_def split: option.splits)

lemma log_turn_ok:
  assumes ok: "log_ok l" and some: "pending l \<noteq> []"
  shows "\<exists>l'. log_turn can_open l = Some (True, l') \<and> log_ok l' \<and> pending l' = butlast (pending l) \<and>
    next_file can_open l' = next_file can_open l \<and> writes (next_file can_open l) [last (pending l)] l l'"
proof -
  obtain bs where bs: "tq_block_queue (lg_queue l) = map Some bs" "blocks_ok (mp_block_pool (lg_pool l)) bs"
    using ok by (auto simp: log_ok_def)
  then have ne: "bs \<noteq> []" using some by (auto simp: pending_def)
  then obtain cs b where cs: "bs = cs @ [b]" by (metis append_butlast_last_id)
  let ?q = "(lg_queue l)\<lparr>tq_block_queue := map Some cs\<rparr>"
  let ?l = "l\<lparr>lg_queue := ?q\<rparr>"
  have pop: "tq_Pop (lg_queue l) = Some (Some b, ?q)" using bs(1) cs by (simp add: tq_Pop_def)
  have t: "tool_ok (lg_time ?l)" using ok by (simp add: log_ok_def)
  obtain name where c: "CheckDateFile can_open ?l =
    Some (?l\<lparr>lg_cur_date := date_of ?l, lg_time := (lg_time ?l)\<lparr>ct_tm := tool_tm (lg_time ?l), tt_update_time := False\<rparr>,
            lg_file_name := name, lg_open := next_file can_open ?l\<rparr>)" (is "_ = Some ?l1")
    using CheckDateFile_ok [OF t] by blast
  let ?l2 = "write_line (lg_blocks l b) ?l1"
  let ?l3 = "?l2\<lparr>lg_pool := PoolLargeFree (Some b) (lg_pool ?l2)\<rparr>"
  have f: "next_file can_open ?l = next_file can_open l" by (simp add: next_file_def date_of_def day_file_def)
  have "log_turn can_open l = Some (True, ?l3)" using pop c by (simp add: log_turn_def Let_def)
  moreover have "log_ok ?l3"
    using ok cs bs(2) by (auto simp: log_ok_def PoolLargeFree_def bp_PoolLargeFree_ok intro: exI [of _ cs])
  moreover have "pending ?l3 = butlast (pending l)" "last (pending l) = lg_blocks l b"
    using bs(1) cs by (simp_all add: pending_def)
  moreover have "next_file can_open ?l3 = next_file can_open l"
    using f by (subst next_file_def) (simp add: date_of_def)
  moreover have "writes (next_file can_open l) [lg_blocks l b] l ?l3"
    using f by (simp add: writes_def write_line_def split: option.splits)
  ultimately show ?thesis by metis
qed

lemma log_Run_ok:
  assumes "log_ok l"
  shows "\<exists>l'. log_Run can_open l = Some l' \<and> log_ok l' \<and> pending l' = [] \<and>
    writes (next_file can_open l) (rev (pending l)) l l'"
  using assms
proof (induction "length (pending l)" arbitrary: l)
  case 0
  then show ?case by (simp add: log_Run.simps [of can_open l] pending_def)
next
  case (Suc n)
  then have ne: "pending l \<noteq> []" by auto
  obtain l1 where l1: "log_turn can_open l = Some (True, l1)" "log_ok l1" "pending l1 = butlast (pending l)"
    "next_file can_open l1 = next_file can_open l" "writes (next_file can_open l) [last (pending l)] l l1"
    using log_turn_ok [OF Suc.prems ne] by blast
  have n: "n = length (pending l1)" using l1(3) Suc.hyps(2) by simp
  obtain l2 where l2: "log_Run can_open l1 = Some l2" "log_ok l2" "pending l2 = []"
    "writes (next_file can_open l) (rev (pending l1)) l1 l2"
    using Suc.hyps(1) [OF n l1(2)] l1(4) by auto
  have r: "rev (pending l) = last (pending l) # rev (pending l1)"
    using ne l1(3) by (metis append_butlast_last_id rev_eq_Cons_iff rev_rev_ident)
  have "writes (next_file can_open l) (rev (pending l)) l l2"
    unfolding r using writes_trans [OF l1(5) l2(4)] by simp
  moreover have "log_Run can_open l = Some l2"
    using l1(1) l2(1) Suc.prems ne by (simp add: log_Run.simps [of can_open l] pending_def log_ok_def)
  ultimately show ?case using l2 by blast
qed

section \<open>What the log does with its messages\<close>

datatype severity = Debug | Info | Warn | Error | Fatal

record message =
  ms_severity :: severity
  ms_clock :: u64
  ms_file :: string
  ms_line :: int
  ms_text :: string

fun severity_level :: "severity \<Rightarrow> int" where
  "severity_level Debug = LOG_DEBUG_LEVEL"
| "severity_level Info = LOG_INFO_LEVEL"
| "severity_level Warn = LOG_WARN_LEVEL"
| "severity_level Error = LOG_ERROR_LEVEL"
| "severity_level Fatal = LOG_FATAL_LEVEL"

fun severity_name :: "severity \<Rightarrow> string" where
  "severity_name Debug = ''DEBUG''"
| "severity_name Info = ''INFO''"
| "severity_name Warn = ''WARN''"
| "severity_name Error = ''ERROR''"
| "severity_name Fatal = ''FATAL''"

fun log_message :: "(nat \<Rightarrow> bool) \<Rightarrow> message \<Rightarrow> clog \<Rightarrow> clog option" where
  "log_message mal m = (case ms_severity m of
     Debug \<Rightarrow> LogDebug | Info \<Rightarrow> LogInfo | Warn \<Rightarrow> LogWarn | Error \<Rightarrow> LogError | Fatal \<Rightarrow> LogFatal)
     mal (ms_clock m) (ms_file m) (ms_line m) (ms_text m)"

primrec log_messages :: "(nat \<Rightarrow> bool) \<Rightarrow> message list \<Rightarrow> clog \<Rightarrow> clog option" where
  "log_messages mal [] l = Some l"
| "log_messages mal (m # ms) l = do { l \<leftarrow> log_message mal m l; log_messages mal ms l }"

definition message_line :: "message \<Rightarrow> string option" where
  "message_line m = the_line (ms_clock m) (severity_name (ms_severity m)) (ms_file m) (ms_line m) (ms_text m)"

text \<open>The messages that are severe enough, and their date.\<close>

definition kept :: "int \<Rightarrow> message list \<Rightarrow> message list" where
  "kept level ms = filter (\<lambda>m. level \<le> severity_level (ms_severity m)) ms"

definition message_date :: "message \<Rightarrow> string" where
  "message_date m = date_str (civil_time (sint (ms_clock m) sdiv 1000))"

lemma log_message_at:
  "log_message mal m = log_at (severity_level (ms_severity m)) (severity_name (ms_severity m)) mal
     (ms_clock m) (ms_file m) (ms_line m) (ms_text m)"
  by (cases "ms_severity m") (simp_all add: LogDebug_def LogInfo_def LogWarn_def LogError_def LogFatal_def)

declare log_message.simps [simp del]

text \<open>The date the clock of the log has after the messages.\<close>

definition date_after :: "message list \<Rightarrow> clog \<Rightarrow> string" where
  "date_after ms l = (if ms = [] then date_str (tool_tm (lg_time l)) else message_date (last ms))"

lemma log_messages_ok:
  assumes "log_ok l" "\<forall>n. mal n" "length (pending l) + length ms < 2147483647"
    and "map message_line (kept (lg_level l) ms) = map Some ts"
  shows "\<exists>l'. log_messages mal ms l = Some l' \<and> log_ok l' \<and> pending l' = pending l @ ts \<and>
    lg_console l' = lg_console l \<and> lg_disk l' = lg_disk l \<and> lg_cur_date l' = lg_cur_date l \<and>
    lg_file_name l' = lg_file_name l \<and> date_str (tool_tm (lg_time l')) = date_after (kept (lg_level l) ms) l"
  using assms
proof (induction ms arbitrary: l ts)
  case Nil
  then show ?case by (simp add: kept_def date_after_def)
next
  case (Cons m ms)
  show ?case
  proof (cases "lg_level l \<le> severity_level (ms_severity m)")
    case False
    then have "log_message mal m l = Some l" by (simp add: log_message_at log_at_def)
    moreover have "kept (lg_level l) (m # ms) = kept (lg_level l) ms" using False by (simp add: kept_def)
    ultimately show ?thesis using Cons.IH [OF Cons.prems(1,2), of ts] Cons.prems(3,4) by simp
  next
    case True
    then have k: "kept (lg_level l) (m # ms) = m # kept (lg_level l) ms" by (simp add: kept_def)
    obtain t ts' where ts: "ts = t # ts'" "message_line m = Some t" "map message_line (kept (lg_level l) ms) = map Some ts'"
      using Cons.prems(4) k by (auto simp: Cons_eq_map_conv)
    have room: "length (pending l) < 2147483647" using Cons.prems(3) by simp
    obtain l1 where l1: "PushFormatLog mal (ms_clock m) (ms_file m) (ms_line m) (severity_name (ms_severity m)) (ms_text m) l = Some l1"
      "log_ok l1" "pending l1 = pending l @ [t]" "lg_console l1 = lg_console l" "lg_disk l1 = lg_disk l"
      "lg_cur_date l1 = lg_cur_date l" "lg_file_name l1 = lg_file_name l" "lg_level l1 = lg_level l"
      "tool_tm (lg_time l1) = civil_time (sint (ms_clock m) sdiv 1000)"
      using PushFormatLog_ok [OF Cons.prems(1,2) room ts(2) [unfolded message_line_def]] by blast
    have now: "log_message mal m l = Some l1"
      using l1(1) True Cons.prems(1) by (simp add: log_message_at log_at_def log_ok_def)
    have room1: "length (pending l1) + length ms < 2147483647" using Cons.prems(3) l1(3) by simp
    obtain l2 where l2: "log_messages mal ms l1 = Some l2" "log_ok l2" "pending l2 = pending l1 @ ts'"
      "lg_console l2 = lg_console l1" "lg_disk l2 = lg_disk l1" "lg_cur_date l2 = lg_cur_date l1" "lg_file_name l2 = lg_file_name l1"
      "date_str (tool_tm (lg_time l2)) = date_after (kept (lg_level l) ms) l1"
      using Cons.IH [OF l1(2) Cons.prems(2) room1, of ts'] ts(3) l1(8) by auto
    have "date_after (kept (lg_level l) ms) l1 = date_after (kept (lg_level l) (m # ms)) l"
      using k l1(9) by (simp add: date_after_def message_date_def)
    then show ?thesis using now l1 l2 ts(1) by simp
  qed
qed

lemma log_Start_ok: "log_ok (log_Start (SetLogLevel level (SetLogName name (CLog clock garbage))))"
  using CMemoryPool_inv [of log_buf_size 10]
  by (simp add: log_ok_def log_Start_def SetLogLevel_def SetLogName_def CLog_def CTaskQueue_def blocks_ok_def
      block_inv_def CMemoryPool_def CBlockMemoryPool_def apart_def)

text \<open>
  C22. The messages that are severe enough are all written once, in the reverse order.
\<close>

theorem log_reversed:
  fixes level :: int and name :: string and clock :: u64 and garbage :: tm
  defines "start \<equiv> log_Start (SetLogLevel level (SetLogName name (CLog clock garbage)))"
  assumes "\<forall>n. mal n" "length ms < 2147483647"
    and lines: "map message_line (kept level ms) = map Some ts" and some: "kept level ms \<noteq> []"
    and last: "0 \<le> sint (ms_clock (last (kept level ms)))" "sint (ms_clock (last (kept level ms))) < 253402300800000"
    and path: "path = name @ ''.'' @ message_date (last (kept level ms)) @ ''.log''" "can_open path"
  shows "\<exists>l l'. log_messages mal ms start = Some l \<and> log_Run can_open l = Some l' \<and>
    lg_console l' = rev ts \<and> lg_disk l' = (\<lambda>_. []) (path := rev ts)"
proof -
  have ok: "log_ok start" unfolding start_def by (rule log_Start_ok)
  have init: "pending start = []" "lg_console start = []" "lg_disk start = (\<lambda>_. [])" "lg_cur_date start = 0"
    "lg_file_name start = name" "lg_level start = level"
    by (simp_all add: start_def log_Start_def SetLogLevel_def SetLogName_def CLog_def pending_def CTaskQueue_def)
  obtain l where l: "log_messages mal ms start = Some l" "log_ok l" "pending l = ts" "lg_console l = []" "lg_disk l = (\<lambda>_. [])"
    "lg_cur_date l = 0" "lg_file_name l = name" "date_str (tool_tm (lg_time l)) = message_date (last (kept level ms))"
    using log_messages_ok [OF ok assms(2), of ms ts] assms(3) lines some init by (auto simp: date_after_def)
  have "0 < date_of l"
    using civil_date_fields [OF last] l(8) by (simp add: date_of_def message_date_def)
  then have "next_file can_open l = Some path"
    using l(6,7,8) path by (simp add: next_file_def day_file_def)
  moreover obtain l' where "log_Run can_open l = Some l'" "writes (next_file can_open l) (rev ts) l l'"
    using log_Run_ok [OF l(2)] l(3) by blast
  ultimately show ?thesis using l by (auto simp: writes_def)
qed

definition two_messages :: "message list" where
  "two_messages =
    [\<lparr>ms_severity = Error, ms_clock = 951825600123, ms_file = ''a.c'', ms_line = 7, ms_text = ''one''\<rparr>,
     \<lparr>ms_severity = Info, ms_clock = 951825600124, ms_file = ''a.c'', ms_line = 8, ms_text = ''skipped''\<rparr>,
     \<lparr>ms_severity = Fatal, ms_clock = 951825600125, ms_file = ''b.c'', ms_line = 9, ms_text = ''two''\<rparr>]"

lemma two_lines: "map message_line (kept LOG_ERROR_LEVEL two_messages) = map Some
    [''[2000 02 29-12:00:00:ERROR-a.c:7] one'', ''[2000 02 29-12:00:00:FATAL-b.c:9] two'']"
  by code_simp

lemma two_kept: "kept LOG_ERROR_LEVEL two_messages = [two_messages ! 0, two_messages ! 2]"
  by code_simp

lemma two_date: "message_date (two_messages ! 2) = ''20000229''"
  by code_simp

theorem log_reversed_witness:
  "\<exists>l l'. log_messages (\<lambda>_. True) two_messages
        (log_Start (SetLogLevel LOG_ERROR_LEVEL (SetLogName ''hudp'' (CLog 0 blank_tm)))) = Some l \<and>
      log_Run (\<lambda>_. True) l = Some l' \<and>
      lg_console l' = [''[2000 02 29-12:00:00:FATAL-b.c:9] two'', ''[2000 02 29-12:00:00:ERROR-a.c:7] one''] \<and>
      lg_disk l' = (\<lambda>_. []) (''hudp.20000229.log'' :=
        [''[2000 02 29-12:00:00:FATAL-b.c:9] two'', ''[2000 02 29-12:00:00:ERROR-a.c:7] one''])"
  using log_reversed [OF _ _ two_lines, of "\<lambda>_. True" "''hudp.20000229.log''" "''hudp''" "\<lambda>_. True" 0 blank_tm]
  by (simp add: two_kept two_date) (simp add: two_messages_def)

end
