(* ===== verification/Loop_Buffer.thy ===== *)
theory Loop_Buffer
  imports Hudp_Prelude "HOL-Library.Monad_Syntax"
begin

text \<open>
  The ring buffer \<^verbatim>\<open>base/LoopBuffer.cpp\<close>. The pointers into the block are offsets from
  \<open>_buffer_start\<close>; \<open>None\<close> is an access outside of the block (or of the string handed in) and a
  pointer moved out of it. What is read is the list of the bytes that \<open>memcpy\<close> puts to the start of
  \<open>res\<close>. The abstraction \<open>lb_content\<close> is the sequence of bytes stored.
\<close>

section \<open>Memory\<close>

definition mem_slice :: "byte list \<Rightarrow> int \<Rightarrow> int \<Rightarrow> byte list" where
  "mem_slice m a b = take (nat (b - a)) (drop (nat a) m)"

definition mem_get :: "byte list \<Rightarrow> int \<Rightarrow> int \<Rightarrow> byte list option" where
  "mem_get m off n =
     (if 0 \<le> off \<and> 0 \<le> n \<and> off + n \<le> int (length m) then Some (mem_slice m off (off + n)) else None)"

text \<open>\<open>if (write) memcpy(m + off, str + soff, n)\<close>.\<close>

definition mem_put :: "bool \<Rightarrow> byte list \<Rightarrow> int \<Rightarrow> byte list \<Rightarrow> int \<Rightarrow> int \<Rightarrow> byte list option" where
  "mem_put wr m off str soff n =
     (if wr then do {
        bs \<leftarrow> mem_get str soff n;
        if 0 \<le> off \<and> off + n \<le> int (length m)
        then Some (take (nat off) m @ bs @ drop (nat (off + n)) m) else None }
      else Some m)"

section \<open>CLoopBuffer\<close>

record loop_buf =
  lb_total_size :: int
  lb_read :: int
  lb_write :: int
  lb_mem :: "byte list"
  lb_null :: bool
  lb_can_read :: bool

text \<open>
  The constructor on the block the pool hands out (\<open>None\<close>: the null pointer), whose bytes are not
  initialised.
\<close>

definition CLoopBuffer :: "byte list option \<Rightarrow> int \<Rightarrow> loop_buf" where
  "CLoopBuffer block len =
     \<lparr>lb_total_size = len, lb_read = 0, lb_write = 0, lb_mem = (case block of None \<Rightarrow> [] | Some m \<Rightarrow> m),
      lb_null = (block = None), lb_can_read = False\<rparr>"

definition lb_at :: "loop_buf \<Rightarrow> int \<Rightarrow> int option" where
  "lb_at b p = (if 0 \<le> p \<and> p \<le> lb_total_size b then Some p else None)"

definition lb_reset :: "loop_buf \<Rightarrow> loop_buf" where
  "lb_reset b = b\<lparr>lb_read := 0, lb_write := 0, lb_can_read := False\<rparr>"

definition lb_do_Read :: "int \<Rightarrow> bool \<Rightarrow> loop_buf \<Rightarrow> (int \<times> byte list \<times> loop_buf) option" where
  "lb_do_Read len clear b =
     (if lb_null b then Some (0, [], b)
      else if lb_read b < lb_write b then
        (let size = lb_write b - lb_read b in
         if size \<le> len then do {
           bs \<leftarrow> mem_get (lb_mem b) (lb_read b) size;
           Some (size, bs, if clear then lb_reset b else b) }
         else do {
           bs \<leftarrow> mem_get (lb_mem b) (lb_read b) len;
           Some (len, bs, if clear then b\<lparr>lb_read := lb_read b + len\<rparr> else b) })
      else if \<not> lb_can_read b \<and> lb_read b = lb_write b then Some (0, [], b)
      else
        (let size_start = lb_write b;
             size_end = lb_total_size b - lb_read b;
             size = size_start + size_end in
         if size \<le> len then do {
           bs \<leftarrow> mem_get (lb_mem b) (lb_read b) size_end;
           cs \<leftarrow> mem_get (lb_mem b) 0 size_start;
           Some (size, bs @ cs, if clear then lb_reset b else b) }
         else if len \<le> size_end then do {
           bs \<leftarrow> mem_get (lb_mem b) (lb_read b) len;
           Some (len, bs, if clear then b\<lparr>lb_read := lb_read b + len\<rparr> else b) }
         else do {
           let left = len - size_end;
           bs \<leftarrow> mem_get (lb_mem b) (lb_read b) size_end;
           cs \<leftarrow> mem_get (lb_mem b) 0 left;
           Some (len, bs @ cs, if clear then b\<lparr>lb_read := left\<rparr> else b) }))"

definition lb_do_Write :: "byte list \<Rightarrow> int \<Rightarrow> bool \<Rightarrow> loop_buf \<Rightarrow> (int \<times> loop_buf) option" where
  "lb_do_Write str len wr b =
     (if lb_read b < lb_write b then
        if lb_write b + len \<le> lb_total_size b then do {
          m \<leftarrow> mem_put wr (lb_mem b) (lb_write b) str 0 len;
          w \<leftarrow> lb_at b (lb_write b + len);
          Some (len, b\<lparr>lb_mem := m, lb_write := w\<rparr>) }
        else do {
          let size_end = lb_total_size b - lb_write b;
          let left = len - size_end;
          m \<leftarrow> mem_put wr (lb_mem b) (lb_write b) str 0 size_end;
          if left \<le> lb_read b then do {
            m \<leftarrow> mem_put wr m 0 str size_end left;
            Some (len, b\<lparr>lb_mem := m, lb_write := left,
                         lb_can_read := (if left = lb_read b then True else lb_can_read b)\<rparr>) }
          else do {
            let can_save = lb_read b;
            m \<leftarrow> mem_put (can_save > 0 \<and> wr) m 0 str size_end can_save;
            Some (can_save + size_end, b\<lparr>lb_mem := m, lb_read := lb_write b, lb_can_read := True\<rparr>) } }
      else if lb_read b > lb_write b then
        (let size = lb_read b - lb_write b in
         if len \<le> size then do {
           m \<leftarrow> mem_put wr (lb_mem b) (lb_write b) str 0 len;
           w \<leftarrow> lb_at b (lb_write b + len);
           Some (len, b\<lparr>lb_mem := m, lb_write := w,
                        lb_can_read := (if w = lb_read b then True else lb_can_read b)\<rparr>) }
         else do {
           m \<leftarrow> mem_put wr (lb_mem b) (lb_write b) str 0 size;
           w \<leftarrow> lb_at b (lb_write b + size);
           Some (size, b\<lparr>lb_mem := m, lb_write := w, lb_can_read := True\<rparr>) })
      else if lb_can_read b then Some (0, b)
      else
        (let b = b\<lparr>lb_read := 0, lb_write := 0\<rparr>;
             size = lb_total_size b in
         if size \<le> len then do {
           m \<leftarrow> mem_put wr (lb_mem b) 0 str 0 size;
           Some (size, b\<lparr>lb_mem := m, lb_can_read := True\<rparr>) }
         else do {
           m \<leftarrow> mem_put wr (lb_mem b) 0 str 0 len;
           w \<leftarrow> lb_at b len;
           Some (len, b\<lparr>lb_mem := m, lb_write := w\<rparr>) }))"

text \<open>The public operations; \<open>None\<close> for \<open>res\<close> and \<open>str\<close> is the null pointer.\<close>

definition lb_ReadNotClear :: "int \<Rightarrow> loop_buf \<Rightarrow> (int \<times> byte list \<times> loop_buf) option" where
  "lb_ReadNotClear len b = lb_do_Read len False b"

definition lb_Read :: "bool \<Rightarrow> int \<Rightarrow> loop_buf \<Rightarrow> (int \<times> byte list \<times> loop_buf) option" where
  "lb_Read res_null len b = (if res_null then Some (0, [], b) else lb_do_Read len True b)"

definition lb_Write :: "byte list option \<Rightarrow> int \<Rightarrow> loop_buf \<Rightarrow> (int \<times> loop_buf) option" where
  "lb_Write str len b = (case str of None \<Rightarrow> Some (0, b) | Some s \<Rightarrow> lb_do_Write s len True b)"

definition lb_MoveWritePt :: "int \<Rightarrow> loop_buf \<Rightarrow> (int \<times> loop_buf) option" where
  "lb_MoveWritePt len b = lb_do_Write [] len False b"

definition lb_Clear :: "int \<Rightarrow> loop_buf \<Rightarrow> (int \<times> loop_buf) option" where
  "lb_Clear len b =
     (if len = 0 then Some (0, lb_reset b)
      else if lb_null b then Some (0, b)
      else if lb_read b < lb_write b then
        (let size = lb_write b - lb_read b in
         if size \<le> len then Some (size, lb_reset b)
         else do { r \<leftarrow> lb_at b (lb_read b + len); Some (len, b\<lparr>lb_read := r\<rparr>) })
      else if \<not> lb_can_read b \<and> lb_read b = lb_write b then Some (0, b)
      else
        (let size_start = lb_write b;
             size_end = lb_total_size b - lb_read b;
             size = size_start + size_end in
         if size \<le> len then Some (size, lb_reset b)
         else if len \<le> size_end
         then do { r \<leftarrow> lb_at b (lb_read b + len); Some (len, b\<lparr>lb_read := r\<rparr>) }
         else Some (len, b\<lparr>lb_read := len - size_end\<rparr>)))"

definition lb_GetFreeLength :: "loop_buf \<Rightarrow> int" where
  "lb_GetFreeLength b =
     (if lb_write b > lb_read b then (lb_total_size b - lb_write b) + lb_read b
      else if lb_write b < lb_read b then lb_read b - lb_write b
      else if lb_can_read b then 0 else lb_total_size b)"

definition lb_GetCanReadLength :: "loop_buf \<Rightarrow> int" where
  "lb_GetCanReadLength b =
     (if lb_write b > lb_read b then lb_write b - lb_read b
      else if lb_write b < lb_read b then (lb_total_size b - lb_read b) + lb_write b
      else if lb_can_read b then lb_total_size b else 0)"

text \<open>The blocks: offset (\<open>None\<close>: null) and length.\<close>

type_synonym mem_blocks = "bool \<times> int option \<times> int \<times> int option \<times> int"

definition lb_GetFreeMemoryBlock :: "loop_buf \<Rightarrow> mem_blocks" where
  "lb_GetFreeMemoryBlock b =
     (if lb_write b \<ge> lb_read b then
        if lb_can_read b \<and> lb_write b = lb_read b then (False, None, 0, None, 0)
        else (True, Some (lb_write b), lb_total_size b - lb_write b,
              if lb_read b > 0 then Some 0 else None, lb_read b)
      else (True, Some (lb_write b), lb_read b - lb_write b, None, 0))"

definition lb_GetUseMemoryBlock :: "loop_buf \<Rightarrow> mem_blocks" where
  "lb_GetUseMemoryBlock b =
     (if lb_read b \<ge> lb_write b then
        if \<not> lb_can_read b \<and> lb_write b = lb_read b then (False, None, 0, None, 0)
        else (True, Some (lb_read b), lb_total_size b - lb_read b,
              if lb_write b > 0 then Some 0 else None, lb_write b)
      else (True, Some (lb_read b), lb_write b - lb_read b, None, 0))"

definition lb_ReadUntil :: "bool \<Rightarrow> int \<Rightarrow> loop_buf \<Rightarrow> (int \<times> byte list \<times> loop_buf) option" where
  "lb_ReadUntil res_null len b =
     (if lb_GetCanReadLength b < len then Some (0, [], b) else lb_Read res_null len b)"

text \<open>
  The search. \<open>memcmp\<close> compares \<open>ch_len\<close> bytes from the place found, whatever is left of the part that
  is searched.
\<close>

fun memchr :: "byte \<Rightarrow> byte list \<Rightarrow> nat option" where
  "memchr c [] = None"
| "memchr c (x # xs) = (if x = c then Some 0 else map_option Suc (memchr c xs))"

lemma memchr_less: "memchr c xs = Some i \<Longrightarrow> i < length xs"
  by (induction xs arbitrary: i) (auto split: if_splits)

lemma mem_get_length: "mem_get m off n = Some bs \<Longrightarrow> int (length bs) = n"
  by (auto simp: mem_get_def mem_slice_def split: if_splits)

function find_loop :: "byte list \<Rightarrow> byte list \<Rightarrow> int \<Rightarrow> int \<Rightarrow> int \<Rightarrow> int \<Rightarrow> int option option" where
  "find_loop m ch ch_len buffer_len finded buff =
     (case ch of
        [] \<Rightarrow> None
      | c # _ \<Rightarrow>
        (case mem_get m buff (buffer_len - finded) of
           None \<Rightarrow> None
         | Some part \<Rightarrow>
           (case memchr c part of
              None \<Rightarrow> Some None
            | Some i \<Rightarrow>
              (let f = buff + int i in
               case (mem_get m f ch_len, mem_get ch 0 ch_len) of
                 (Some x, Some y) \<Rightarrow>
                   if x = y then Some (Some f)
                   else (let finded = finded + (f - buff) + 1 in
                         if buffer_len - finded < ch_len then Some None
                         else find_loop m ch ch_len buffer_len finded (f + 1))
               | _ \<Rightarrow> None))))"
  by pat_completeness auto
termination
  by (relation "measure (\<lambda>(m, ch, ch_len, buffer_len, finded, buff). nat (buffer_len - finded))")
    (auto dest!: memchr_less mem_get_length)

declare find_loop.simps [simp del]

definition FindStrInMem :: "loop_buf \<Rightarrow> int \<Rightarrow> byte list \<Rightarrow> int \<Rightarrow> int \<Rightarrow> int option option" where
  "FindStrInMem b buffer ch buffer_len ch_len =
     (if lb_null b then Some None else find_loop (lb_mem b) ch ch_len buffer_len 0 buffer)"

definition find_wrapped :: "byte list \<Rightarrow> int \<Rightarrow> loop_buf \<Rightarrow> int option" where
  "find_wrapped s s_len b = do {
     found \<leftarrow> FindStrInMem b (lb_read b) s (lb_total_size b - lb_read b) s_len;
     case found of
       Some f \<Rightarrow> Some (f - lb_read b + s_len)
     | None \<Rightarrow> do {
         found \<leftarrow> FindStrInMem b 0 s (lb_write b) s_len;
         case found of
           Some f \<Rightarrow> Some (f + s_len + lb_total_size b - lb_read b)
         | None \<Rightarrow> Some 0 } }"

definition lb_FindStr :: "byte list \<Rightarrow> int \<Rightarrow> loop_buf \<Rightarrow> int option" where
  "lb_FindStr s s_len b =
     (if lb_write b > lb_read b then do {
        found \<leftarrow> FindStrInMem b (lb_read b) s (lb_write b - lb_read b) s_len;
        case found of Some f \<Rightarrow> Some (f - lb_read b + s_len) | None \<Rightarrow> Some 0 }
      else if lb_write b < lb_read b then find_wrapped s s_len b
      else if lb_can_read b then find_wrapped s s_len b
      else Some 0)"

text \<open>The variant that reads until a string: with the new value of \<open>need_len\<close>, if it is set.\<close>

definition lb_ReadUntil_str ::
  "bool \<Rightarrow> int \<Rightarrow> byte list \<Rightarrow> int \<Rightarrow> loop_buf \<Rightarrow> (int \<times> byte list \<times> int option \<times> loop_buf) option" where
  "lb_ReadUntil_str res_null len pat find_len b = do {
     size \<leftarrow> lb_FindStr pat find_len b;
     if size \<noteq> 0 then
       if size \<le> len then do { (n, bs, b) \<leftarrow> lb_Read res_null len b; Some (n, bs, None, b) }
       else Some (0, [], Some size, b)
     else Some (0, [], None, b) }"

text \<open>The output operator writes out what \<open>lb_out\<close> gives.\<close>

definition lb_out :: "loop_buf \<Rightarrow> byte list option" where
  "lb_out b =
     (if lb_read b < lb_write b then mem_get (lb_mem b) (lb_read b) (lb_write b - lb_read b)
      else do {
        x \<leftarrow> mem_get (lb_mem b) (lb_read b) (lb_total_size b - lb_read b);
        y \<leftarrow> mem_get (lb_mem b) 0 (lb_write b);
        Some (x @ y) })"

section \<open>Content and invariant\<close>

definition lb_content :: "loop_buf \<Rightarrow> byte list" where
  "lb_content b =
     (if lb_read b < lb_write b then mem_slice (lb_mem b) (lb_read b) (lb_write b)
      else if lb_read b = lb_write b \<and> \<not> lb_can_read b then []
      else mem_slice (lb_mem b) (lb_read b) (lb_total_size b) @ mem_slice (lb_mem b) 0 (lb_write b))"

definition lb_inv :: "loop_buf \<Rightarrow> bool" where
  "lb_inv b \<longleftrightarrow> \<not> lb_null b \<and> lb_total_size b = int (length (lb_mem b)) \<and>
     0 \<le> lb_read b \<and> lb_read b \<le> lb_total_size b \<and> 0 \<le> lb_write b \<and> lb_write b \<le> lb_total_size b"

definition lb_free :: "loop_buf \<Rightarrow> nat" where
  "lb_free b = nat (lb_GetFreeLength b)"

lemma slice_length [simp]: "0 \<le> a \<Longrightarrow> a \<le> b \<Longrightarrow> b \<le> int (length m) \<Longrightarrow> int (length (mem_slice m a b)) = b - a"
  by (auto simp: mem_slice_def)

lemma slice_empty [simp]: "b \<le> a \<Longrightarrow> mem_slice m a b = []"
  by (simp add: mem_slice_def)

lemma slice_all [simp]: "mem_slice m 0 (int (length m)) = m"
  by (simp add: mem_slice_def)

lemma slice_append: "0 \<le> a \<Longrightarrow> a \<le> b \<Longrightarrow> b \<le> c \<Longrightarrow> mem_slice m a b @ mem_slice m b c = mem_slice m a c"
proof -
  assume a: "0 \<le> a" "a \<le> b" "b \<le> c"
  have "nat b = nat (b - a) + nat a" using a by (simp flip: nat_add_distrib)
  then have "drop (nat b) m = drop (nat (b - a)) (drop (nat a) m)" by (simp add: add.commute)
  moreover have "nat (c - a) = nat (b - a) + nat (c - b)"
    using a by (simp flip: nat_add_distrib)
  ultimately show ?thesis unfolding mem_slice_def by (simp add: take_add)
qed

lemma slice_take: "0 \<le> a \<Longrightarrow> 0 \<le> n \<Longrightarrow> a + n \<le> b \<Longrightarrow> mem_slice m a (a + n) = take (nat n) (mem_slice m a b)"
  by (simp add: mem_slice_def min_def)

lemma slice_drop: "0 \<le> a \<Longrightarrow> 0 \<le> n \<Longrightarrow> a + n \<le> b \<Longrightarrow> mem_slice m (a + n) b = drop (nat n) (mem_slice m a b)"
  by (simp add: mem_slice_def drop_take nat_add_distrib nat_diff_distrib add.commute)

lemma content_length: "lb_inv b \<Longrightarrow> int (length (lb_content b)) = lb_GetCanReadLength b"
  by (auto simp: lb_inv_def lb_content_def lb_GetCanReadLength_def)

lemma free_length: "lb_inv b \<Longrightarrow> int (lb_free b) = lb_total_size b - int (length (lb_content b))"
  by (simp only: content_length) (auto simp: lb_inv_def lb_free_def lb_GetFreeLength_def lb_GetCanReadLength_def)

lemma mem_get_ok:
  "0 \<le> off \<Longrightarrow> 0 \<le> n \<Longrightarrow> off + n \<le> int (length m) \<Longrightarrow> mem_get m off n = Some (mem_slice m off (off + n))"
  by (simp add: mem_get_def)

lemma lb_reset_ok: "lb_inv b \<Longrightarrow> lb_inv (lb_reset b) \<and> lb_content (lb_reset b) = []"
  by (simp add: lb_inv_def lb_reset_def lb_content_def)

lemma length_slice: "0 \<le> a \<Longrightarrow> a \<le> b \<Longrightarrow> b \<le> int (length m) \<Longrightarrow> length (mem_slice m a b) = nat (b - a)"
  using slice_length [of a b m] by linarith

lemma Read_spec:
  assumes inv: "lb_inv b" and len: "0 \<le> len"
  shows "\<exists>b'. lb_do_Read len clear b =
      Some (int (length (take (nat len) (lb_content b))), take (nat len) (lb_content b), b') \<and>
    lb_inv b' \<and> lb_content b' = (if clear then drop (nat len) (lb_content b) else lb_content b)"
proof -
  let ?r = "lb_read b" and ?w = "lb_write b" and ?m = "lb_mem b" and ?e = "lb_total_size b"
  have i: "\<not> lb_null b" "?e = int (length ?m)" "0 \<le> ?r" "?r \<le> ?e" "0 \<le> ?w" "?w \<le> ?e"
    using inv by (simp_all add: lb_inv_def)
  note reset = lb_reset_ok [OF inv]
  consider (ahead) "?r < ?w" | (empty) "?r = ?w" "\<not> lb_can_read b" | (wrap) "?w \<le> ?r" "?w < ?r \<or> lb_can_read b"
    by force
  then show ?thesis
  proof cases
    case ahead
    then have c: "lb_content b = mem_slice ?m ?r ?w" by (simp add: lb_content_def)
    show ?thesis
    proof (cases "?w - ?r \<le> len")
      case True
      then show ?thesis
        using ahead i reset inv c by (simp add: lb_do_Read_def mem_get_ok length_slice)
    next
      case False
      then show ?thesis
        using ahead i inv c len
        by (simp add: lb_do_Read_def mem_get_ok length_slice slice_take [of ?r len ?w] slice_drop [of ?r len ?w]
            lb_inv_def lb_content_def)
    qed
  next
    case empty
    then show ?thesis using i inv by (simp add: lb_do_Read_def lb_content_def)
  next
    case wrap
    then have c: "lb_content b = mem_slice ?m ?r ?e @ mem_slice ?m 0 ?w" by (auto simp: lb_content_def)
    have l: "length (mem_slice ?m ?r ?e) = nat (?e - ?r)" "length (mem_slice ?m 0 ?w) = nat ?w"
      using i by (simp_all add: length_slice)
    have n: "(?r < ?w) = False" "(\<not> lb_can_read b \<and> ?r = ?w) = False" "lb_null b = False" using wrap i by auto
    consider (all) "?w + (?e - ?r) \<le> len" | (first) "\<not> ?w + (?e - ?r) \<le> len" "len \<le> ?e - ?r"
      | (second) "\<not> ?w + (?e - ?r) \<le> len" "\<not> len \<le> ?e - ?r" by blast
    then show ?thesis
    proof cases
      case all
      then show ?thesis
        unfolding lb_do_Read_def n using i reset inv c l by (simp add: mem_get_ok Let_def)
    next
      case first
      have "nat len \<le> length (mem_slice ?m ?r ?e)" using first l by simp
      then have t: "take (nat len) (lb_content b) = mem_slice ?m ?r (?r + len)"
        "drop (nat len) (lb_content b) = mem_slice ?m (?r + len) ?e @ mem_slice ?m 0 ?w"
        unfolding c using first i l len slice_take [of ?r len ?e ?m] slice_drop [of ?r len ?e ?m] by simp_all
      have "lb_content (b\<lparr>lb_read := ?r + len\<rparr>) = mem_slice ?m (?r + len) ?e @ mem_slice ?m 0 ?w"
        using wrap len by (auto simp: lb_content_def)
      then show ?thesis
        unfolding lb_do_Read_def n using first i inv t len by (simp add: mem_get_ok lb_inv_def length_slice Let_def)
    next
      case second
      have d: "nat len = nat (?e - ?r) + nat (len - (?e - ?r))" using second i by simp
      have t: "take (nat len) (lb_content b) = mem_slice ?m ?r ?e @ mem_slice ?m 0 (len - (?e - ?r))"
        "drop (nat len) (lb_content b) = mem_slice ?m (len - (?e - ?r)) ?w"
        unfolding c d using second i l slice_take [of 0 "len - (?e - ?r)" ?w] slice_drop [of 0 "len - (?e - ?r)" ?w]
        by simp_all
      have "lb_content (b\<lparr>lb_read := len - (?e - ?r)\<rparr>) = mem_slice ?m (len - (?e - ?r)) ?w"
        using second by (simp add: lb_content_def)
      then show ?thesis
        unfolding lb_do_Read_def n using second i inv t len l by (simp add: mem_get_ok lb_inv_def length_slice Let_def)
    qed
  qed
qed

lemma take_drop_prefix:
  "i + k \<le> p \<Longrightarrow> p \<le> length m \<Longrightarrow> take k (drop i (take p m @ xs)) = take k (drop i m)"
  by (auto simp: drop_take min_def)

lemma mem_put_ok:
  assumes "0 \<le> off" "0 \<le> n" "off + n \<le> int (length m)" "0 \<le> soff" "soff + n \<le> int (length str)"
  shows "\<exists>m'. mem_put True m off str soff n = Some m' \<and> length m' = length m \<and>
    mem_slice m' off (off + n) = mem_slice str soff (soff + n) \<and>
    (\<forall>a b. 0 \<le> a \<longrightarrow> b \<le> off \<longrightarrow> mem_slice m' a b = mem_slice m a b) \<and>
    (\<forall>a b. off + n \<le> a \<longrightarrow> mem_slice m' a b = mem_slice m a b)"
proof -
  let ?bs = "mem_slice str soff (soff + n)"
  let ?m = "take (nat off) m @ ?bs @ drop (nat (off + n)) m"
  have l: "length ?bs = nat n" using assms by (simp add: length_slice)
  have o: "length (take (nat off) m) = nat off" using assms by simp
  have "mem_put True m off str soff n = Some ?m"
    using assms by (simp add: mem_put_def mem_get_ok)
  moreover have "length ?m = length m" using l assms by simp
  moreover have "mem_slice ?m off (off + n) = ?bs"
    unfolding mem_slice_def [of ?m] using l o assms by simp
  moreover have "mem_slice ?m a b = mem_slice m a b" if "0 \<le> a" "b \<le> off" for a b
  proof -
    have "nat a + nat (b - a) \<le> nat off \<or> nat (b - a) = 0" "nat off \<le> length m" using that assms by linarith+
    then show ?thesis unfolding mem_slice_def using take_drop_prefix [of "nat a" "nat (b - a)" "nat off" m] by auto
  qed
  moreover have "mem_slice ?m a b = mem_slice m a b" if "off + n \<le> a" for a b
  proof -
    have "nat a = nat off + (nat n + nat (a - off - n))" using that assms by simp
    then have "drop (nat a) ?m = drop (nat (a - off - n)) (drop (nat (off + n)) m)"
      using l o by (simp add: add.commute [of "nat a"])
    also have "\<dots> = drop (nat a) m" using that assms by (simp flip: nat_add_distrib)
    finally show ?thesis by (simp add: mem_slice_def)
  qed
  ultimately show ?thesis by blast
qed

lemma slice_prefix: "0 \<le> n \<Longrightarrow> mem_slice str 0 n = take (nat n) str"
  by (simp add: mem_slice_def)

text \<open>What a write does: all that fits is stored; where, depends on the state.\<close>

definition written :: "byte list \<Rightarrow> int \<Rightarrow> loop_buf \<Rightarrow> (int \<times> loop_buf) option \<Rightarrow> bool" where
  "written str len b res \<longleftrightarrow>
     (\<exists>b'. res = Some (min len (int (lb_free b)), b') \<and> lb_inv b' \<and>
        lb_content b' =
          (if lb_read b < lb_write b \<and> int (lb_free b) < len
           then take (lb_free b) str @ lb_content b
           else lb_content b @ take (nat (min len (int (lb_free b)))) str))"

lemma Write_ahead_fits:
  assumes inv: "lb_inv b" and len: "0 \<le> len" "len \<le> int (length str)"
    and s: "lb_read b < lb_write b" "lb_write b + len \<le> lb_total_size b"
  shows "written str len b (lb_do_Write str len True b)"
proof -
  let ?r = "lb_read b" and ?w = "lb_write b" and ?e = "lb_total_size b"
  have i: "?e = int (length (lb_mem b))" "0 \<le> ?r" "?r \<le> ?e" "0 \<le> ?w" "?w \<le> ?e"
    using inv by (simp_all add: lb_inv_def)
  have f: "int (lb_free b) = ?e - ?w + ?r" using s i by (simp add: lb_free_def lb_GetFreeLength_def)
  obtain m' where m: "mem_put True (lb_mem b) ?w str 0 len = Some m'" "length m' = length (lb_mem b)"
    "mem_slice m' ?w (?w + len) = mem_slice str 0 len" "mem_slice m' ?r ?w = mem_slice (lb_mem b) ?r ?w"
    using mem_put_ok [of ?w len "lb_mem b" 0 str] i s len by auto
  have "mem_slice m' ?r (?w + len) = mem_slice (lb_mem b) ?r ?w @ take (nat len) str"
    using slice_append [of ?r ?w "?w + len" m'] m i s len by (simp add: slice_prefix)
  then show ?thesis
    using m i s len f inv
    by (simp add: written_def lb_do_Write_def lb_at_def lb_inv_def lb_content_def min_absorb1)
qed

lemma Write_ahead_wraps:
  assumes inv: "lb_inv b" and len: "0 \<le> len" "len \<le> int (length str)"
    and s: "lb_read b < lb_write b" "\<not> lb_write b + len \<le> lb_total_size b"
      "len - (lb_total_size b - lb_write b) \<le> lb_read b"
  shows "written str len b (lb_do_Write str len True b)"
proof -
  let ?r = "lb_read b" and ?w = "lb_write b" and ?e = "lb_total_size b" and ?m = "lb_mem b"
  define se left where "se = ?e - ?w" and "left = len - se"
  have i: "?e = int (length ?m)" "0 \<le> ?r" "?r \<le> ?e" "0 \<le> ?w" "?w \<le> ?e"
    using inv by (simp_all add: lb_inv_def)
  have f: "int (lb_free b) = ?e - ?w + ?r" using s i by (simp add: lb_free_def lb_GetFreeLength_def)
  have se: "0 \<le> se" "?w + se = ?e" "se + left = len" "0 < left" "left \<le> ?r"
    using i s by (simp_all add: se_def left_def)
  obtain m1 where m1: "mem_put True ?m ?w str 0 se = Some m1" "length m1 = length ?m"
    "mem_slice m1 ?w ?e = mem_slice str 0 se" "mem_slice m1 ?r ?w = mem_slice ?m ?r ?w"
    using mem_put_ok [of ?w se ?m 0 str] i se len by (auto simp: se_def)
  obtain m2 where m2: "mem_put True m1 0 str se left = Some m2" "length m2 = length m1"
    "mem_slice m2 0 left = mem_slice str se (se + left)" "mem_slice m2 ?r ?e = mem_slice m1 ?r ?e"
    using mem_put_ok [of 0 left m1 se str] i se len m1(2) by auto
  define b' where "b' = b\<lparr>lb_mem := m2, lb_write := left, lb_can_read := (if left = ?r then True else lb_can_read b)\<rparr>"
  have r: "lb_do_Write str len True b = Some (len, b')"
    using m1(1) m2(1) s by (simp add: lb_do_Write_def b'_def se_def left_def)
  have "lb_content b' = mem_slice m2 ?r ?e @ mem_slice m2 0 left"
    using se by (auto simp: lb_content_def b'_def)
  also have "\<dots> = (mem_slice ?m ?r ?w @ mem_slice str 0 se) @ mem_slice str se (se + left)"
    using slice_append [of ?r ?w ?e m1] m1 m2 i s by simp
  also have "\<dots> = lb_content b @ take (nat len) str"
    using slice_append [of 0 se "se + left" str] se s len by (simp add: lb_content_def slice_prefix)
  finally have "lb_content b' = lb_content b @ take (nat len) str" .
  moreover have "lb_inv b'" using inv m1(2) m2(2) se i by (simp add: lb_inv_def b'_def)
  moreover have "min len (int (lb_free b)) = len" "\<not> int (lb_free b) < len" using f se by (simp_all add: se_def)
  ultimately show ?thesis using r by (simp add: written_def)
qed

lemma Write_ahead_over:
  assumes inv: "lb_inv b" and len: "0 \<le> len" "len \<le> int (length str)"
    and s: "lb_read b < lb_write b" "\<not> lb_write b + len \<le> lb_total_size b"
      "\<not> len - (lb_total_size b - lb_write b) \<le> lb_read b"
  shows "written str len b (lb_do_Write str len True b)"
proof -
  let ?r = "lb_read b" and ?w = "lb_write b" and ?e = "lb_total_size b" and ?m = "lb_mem b"
  define se where "se = ?e - ?w"
  have i: "?e = int (length ?m)" "0 \<le> ?r" "?r \<le> ?e" "0 \<le> ?w" "?w \<le> ?e"
    using inv by (simp_all add: lb_inv_def)
  have f: "int (lb_free b) = se + ?r" "lb_free b = nat (se + ?r)"
    using s i by (simp_all add: lb_free_def lb_GetFreeLength_def se_def)
  have se: "0 \<le> se" "?w + se = ?e" "se + ?r < len" using i s by (simp_all add: se_def)
  obtain m1 where m1: "mem_put True ?m ?w str 0 se = Some m1" "length m1 = length ?m"
    "mem_slice m1 ?w ?e = mem_slice str 0 se" "mem_slice m1 ?r ?w = mem_slice ?m ?r ?w"
    using mem_put_ok [of ?w se ?m 0 str] i se len by (auto simp: se_def)
  obtain m2 where m2: "mem_put (?r > 0 \<and> True) m1 0 str se ?r = Some m2" "length m2 = length m1"
    "mem_slice m2 0 ?r = mem_slice str se (se + ?r)" "mem_slice m2 ?r ?w = mem_slice m1 ?r ?w"
    "mem_slice m2 ?w ?e = mem_slice m1 ?w ?e"
  proof (cases "0 < ?r")
    case True
    then show ?thesis using mem_put_ok [of 0 ?r m1 se str] i se len m1(2) s(1) that by auto
  next
    case False
    then show ?thesis using i that [of m1] by (simp add: mem_put_def)
  qed
  define b' where "b' = b\<lparr>lb_mem := m2, lb_read := ?w, lb_can_read := True\<rparr>"
  have r: "lb_do_Write str len True b = Some (?r + se, b')"
    using m1(1) m2(1) s by (simp add: lb_do_Write_def b'_def se_def)
  have "lb_content b' = mem_slice m2 ?w ?e @ mem_slice m2 0 ?w"
    by (simp add: lb_content_def b'_def)
  also have "\<dots> = mem_slice str 0 se @ mem_slice str se (se + ?r) @ mem_slice ?m ?r ?w"
    using slice_append [of 0 ?r ?w m2] m1 m2 i s(1) by simp
  also have "\<dots> = take (lb_free b) str @ lb_content b"
    using slice_append [of 0 se "se + ?r" str] se s(1) i f(2) by (simp add: lb_content_def slice_prefix)
  finally have "lb_content b' = take (lb_free b) str @ lb_content b" .
  moreover have "lb_inv b'" using inv m1(2) m2(2) i by (simp add: lb_inv_def b'_def)
  ultimately show ?thesis using r f(1) se s(1) by (simp add: written_def add.commute)
qed

lemma Write_behind:
  assumes inv: "lb_inv b" and len: "0 \<le> len" "len \<le> int (length str)" and s: "lb_write b < lb_read b"
  shows "written str len b (lb_do_Write str len True b)"
proof -
  let ?r = "lb_read b" and ?w = "lb_write b" and ?e = "lb_total_size b" and ?m = "lb_mem b"
  define k where "k = min len (?r - ?w)"
  have i: "?e = int (length ?m)" "0 \<le> ?r" "?r \<le> ?e" "0 \<le> ?w" "?w \<le> ?e"
    using inv by (simp_all add: lb_inv_def)
  have f: "int (lb_free b) = ?r - ?w" using s i by (simp add: lb_free_def lb_GetFreeLength_def)
  have k: "0 \<le> k" "?w + k \<le> ?r" "k \<le> len" using s len by (simp_all add: k_def)
  obtain m' where m: "mem_put True ?m ?w str 0 k = Some m'" "length m' = length ?m"
    "mem_slice m' ?w (?w + k) = mem_slice str 0 k" "mem_slice m' 0 ?w = mem_slice ?m 0 ?w"
    "mem_slice m' ?r ?e = mem_slice ?m ?r ?e"
    using mem_put_ok [of ?w k ?m 0 str] i s len k by auto
  define b' where "b' = b\<lparr>lb_mem := m', lb_write := ?w + k, lb_can_read := (if ?w + k = ?r then True else lb_can_read b)\<rparr>"
  have r: "lb_do_Write str len True b = Some (k, b')"
  proof (cases "len \<le> ?r - ?w")
    case True
    then have "k = len" by (simp add: k_def)
    then show ?thesis using m(1) s i k True by (simp add: lb_do_Write_def lb_at_def b'_def)
  next
    case False
    then have "k = ?r - ?w" by (simp add: k_def)
    then show ?thesis using m(1) s i False by (simp add: lb_do_Write_def lb_at_def b'_def)
  qed
  have "lb_content b' = mem_slice m' ?r ?e @ mem_slice m' 0 (?w + k)"
    using k by (auto simp: lb_content_def b'_def)
  also have "\<dots> = mem_slice ?m ?r ?e @ mem_slice ?m 0 ?w @ mem_slice str 0 k"
    using slice_append [of 0 ?w "?w + k" m'] m i k by simp
  also have "\<dots> = lb_content b @ take (nat k) str"
    using s k by (simp add: lb_content_def slice_prefix)
  finally have "lb_content b' = lb_content b @ take (nat k) str" .
  moreover have "lb_inv b'" using inv m(2) k i by (simp add: lb_inv_def b'_def)
  ultimately show ?thesis using r f s by (simp add: written_def k_def)
qed

lemma Write_level:
  assumes inv: "lb_inv b" and len: "0 \<le> len" "len \<le> int (length str)" and s: "lb_write b = lb_read b"
  shows "written str len b (lb_do_Write str len True b)"
proof (cases "lb_can_read b")
  case True
  then show ?thesis using s inv len by (simp add: written_def lb_do_Write_def lb_free_def lb_GetFreeLength_def)
next
  case False
  let ?e = "lb_total_size b" and ?m = "lb_mem b"
  define k where "k = min len ?e"
  have i: "?e = int (length ?m)" using inv by (simp add: lb_inv_def)
  have f: "int (lb_free b) = ?e" "lb_content b = []"
    using s False i by (simp_all add: lb_free_def lb_GetFreeLength_def lb_content_def)
  have k: "0 \<le> k" "k \<le> ?e" "k \<le> len" using len i by (simp_all add: k_def)
  obtain m' where m: "mem_put True ?m 0 str 0 k = Some m'" "length m' = length ?m" "mem_slice m' 0 k = mem_slice str 0 k"
    using mem_put_ok [of 0 k ?m 0 str] i len k by auto
  show ?thesis
  proof (cases "?e \<le> len")
    case True
    then have e: "k = ?e" by (simp add: k_def)
    have r: "lb_do_Write str len True b = Some (k, b\<lparr>lb_read := 0, lb_write := 0, lb_mem := m', lb_can_read := True\<rparr>)"
      using m(1) s \<open>\<not> lb_can_read b\<close> True unfolding e by (simp add: lb_do_Write_def Let_def)
    then show ?thesis
      using f m(2,3) inv i True s unfolding e by (simp add: written_def lb_inv_def lb_content_def slice_prefix min_absorb2)
  next
    case less: False
    then have e: "k = len" by (simp add: k_def)
    have r: "lb_do_Write str len True b = Some (k, b\<lparr>lb_read := 0, lb_write := k, lb_mem := m'\<rparr>)"
      using m(1) s \<open>\<not> lb_can_read b\<close> less k unfolding e by (simp add: lb_do_Write_def Let_def lb_at_def)
    have "lb_content (b\<lparr>lb_read := 0, lb_write := k, lb_mem := m'\<rparr>) = take (nat k) str"
      using m(3) k \<open>\<not> lb_can_read b\<close> by (auto simp: lb_content_def slice_prefix)
    then show ?thesis
      using r f k m(2) inv i less s by (simp add: written_def lb_inv_def e min_absorb1)
  qed
qed

lemma Write_spec:
  assumes "lb_inv b" "0 \<le> len" "len \<le> int (length str)"
  shows "written str len b (lb_do_Write str len True b)"
  using Write_ahead_fits [OF assms] Write_ahead_wraps [OF assms] Write_ahead_over [OF assms]
    Write_behind [OF assms] Write_level [OF assms]
  by (cases "lb_read b" "lb_write b" rule: linorder_cases) auto

lemma Clear_Read:
  assumes "lb_inv b" "0 < len"
  shows "lb_Clear len b = map_option (\<lambda>(n, _, b'). (n, b')) (lb_do_Read len True b)"
  using assms by (auto simp: lb_Clear_def lb_do_Read_def lb_inv_def lb_at_def mem_get_ok Let_def)

lemma Clear_spec:
  assumes "lb_inv b" "0 < len"
  shows "\<exists>b'. lb_Clear len b = Some (int (length (take (nat len) (lb_content b))), b') \<and>
    lb_inv b' \<and> lb_content b' = drop (nat len) (lb_content b)"
  using Read_spec [of b len True] assms by (auto simp: Clear_Read)

lemma used_blocks:
  assumes "lb_inv b" "lb_GetUseMemoryBlock b = (ok, p, n, q, k)"
  shows "lb_content b =
    (case p of None \<Rightarrow> [] | Some a \<Rightarrow> mem_slice (lb_mem b) a (a + n)) @
    (case q of None \<Rightarrow> [] | Some a \<Rightarrow> mem_slice (lb_mem b) a (a + k))"
  using assms by (auto simp: lb_GetUseMemoryBlock_def lb_content_def lb_inv_def split: if_splits)

lemma free_blocks:
  assumes "lb_inv b" "lb_GetFreeMemoryBlock b = (ok, p, n, q, k)"
  shows "0 \<le> n \<and> 0 \<le> k \<and> n + k = lb_GetFreeLength b"
  using assms by (auto simp: lb_GetFreeMemoryBlock_def lb_GetFreeLength_def lb_inv_def split: if_splits)

lemma out_content:
  assumes "lb_inv b" "lb_read b \<noteq> lb_write b \<or> lb_can_read b"
  shows "lb_out b = Some (lb_content b)"
  using assms by (auto simp: lb_out_def lb_content_def lb_inv_def mem_get_ok)

section \<open>The search\<close>

definition occurs :: "byte list \<Rightarrow> int \<Rightarrow> byte list \<Rightarrow> int \<Rightarrow> bool" where
  "occurs m j ch k \<longleftrightarrow> mem_get m j k \<noteq> None \<and> mem_get m j k = mem_get ch 0 k"

lemma occurs_first: "occurs m j (c # cs) k \<Longrightarrow> 0 < k \<Longrightarrow> 0 \<le> j \<and> j + k \<le> int (length m) \<and> m ! nat j = c"
proof -
  assume o: "occurs m j (c # cs) k" and k: "0 < k"
  then have j: "0 \<le> j" "j + k \<le> int (length m)" and e: "mem_slice m j (j + k) = mem_slice (c # cs) 0 k"
    by (auto simp: occurs_def mem_get_def split: if_splits)
  have "mem_slice m j (j + k) ! 0 = m ! nat j" "mem_slice (c # cs) 0 k ! 0 = c"
    using j k by (simp_all add: mem_slice_def)
  with j e show ?thesis by simp
qed

lemma memchr_Some: "memchr c xs = Some i \<Longrightarrow> i < length xs \<and> xs ! i = c \<and> (\<forall>j < i. xs ! j \<noteq> c)"
proof (induction xs arbitrary: i)
  case (Cons x xs)
  then show ?case by (auto split: if_splits simp: nth_Cons split: nat.splits)
qed simp

lemma memchr_None: "memchr c xs = None \<Longrightarrow> c \<notin> set xs"
  by (induction xs) (auto split: if_splits)

lemma mem_get_nth: "mem_get m a n = Some xs \<Longrightarrow> j < length xs \<Longrightarrow> xs ! j = m ! nat (a + int j)"
  by (auto simp: mem_get_def mem_slice_def nat_add_distrib split: if_splits)

lemma find_loop_first:
  assumes "find_loop m ch ch_len buffer_len finded buff = Some res" "0 < ch_len" "0 \<le> buff"
  shows "case res of
      Some f \<Rightarrow> buff \<le> f \<and> f < buff + (buffer_len - finded) \<and> occurs m f ch ch_len \<and>
        (\<forall>j. buff \<le> j \<longrightarrow> j < f \<longrightarrow> \<not> occurs m j ch ch_len)
    | None \<Rightarrow> \<forall>j. buff \<le> j \<longrightarrow> j + ch_len \<le> buff + (buffer_len - finded) \<longrightarrow> \<not> occurs m j ch ch_len"
  using assms
proof (induction m ch ch_len buffer_len finded buff rule: find_loop.induct)
  case (1 m ch ch_len buffer_len finded buff)
  obtain c cs where ch: "ch = c # cs" using "1.prems"(1) by (cases ch) (simp_all add: find_loop.simps)
  obtain part where part: "mem_get m buff (buffer_len - finded) = Some part"
    using "1.prems"(1) ch by (cases "mem_get m buff (buffer_len - finded)") (simp_all add: find_loop.simps [of m "c # cs" ch_len buffer_len finded buff])
  have len: "int (length part) = buffer_len - finded" by (rule mem_get_length [OF part])
  have skip: "\<not> occurs m j ch ch_len" if "buff \<le> j" "nat (j - buff) < length part" "part ! nat (j - buff) \<noteq> c" for j
    using that occurs_first [of m j c cs ch_len] mem_get_nth [OF part that(2)] "1.prems"(2) ch by auto
  show ?case
  proof (cases "memchr c part")
    case None
    then have "res = None" using "1.prems"(1) ch part by (simp add: find_loop.simps [of m "c # cs" ch_len buffer_len finded buff])
    moreover have "\<not> occurs m j ch ch_len" if j: "buff \<le> j" "j + ch_len \<le> buff + (buffer_len - finded)" for j
    proof (rule skip [OF j(1)])
      show "nat (j - buff) < length part" using j len "1.prems"(2) by linarith
      then show "part ! nat (j - buff) \<noteq> c" using memchr_None [OF None] by (metis nth_mem)
    qed
    ultimately show ?thesis by simp
  next
    case (Some i)
    note i = memchr_Some [OF Some]
    define f where "f = buff + int i"
    have before: "\<not> occurs m j ch ch_len" if "buff \<le> j" "j < f" for j
      by (rule skip) (use that i in \<open>auto simp: f_def\<close>)
    obtain x y where xy: "mem_get m f ch_len = Some x" "mem_get ch 0 ch_len = Some y"
      using "1.prems"(1) ch part Some
      by (cases "mem_get m f ch_len"; cases "mem_get ch 0 ch_len") (simp_all add: find_loop.simps [of m "c # cs" ch_len buffer_len finded buff] Let_def f_def)
    show ?thesis
    proof (cases "x = y")
      case True
      then have "res = Some f"
        using "1.prems"(1) ch part Some xy by (simp add: find_loop.simps [of m "c # cs" ch_len buffer_len finded buff] Let_def f_def)
      then show ?thesis using before xy True i len by (simp add: f_def occurs_def)
    next
      case False
      then have at: "\<not> occurs m f ch ch_len" using xy by (simp add: occurs_def)
      define d where "d = finded + (f - buff) + 1"
      show ?thesis
      proof (cases "buffer_len - d < ch_len")
        case True
        then have "res = None"
          using "1.prems"(1) ch part Some xy False by (simp add: find_loop.simps [of m "c # cs" ch_len buffer_len finded buff] Let_def f_def d_def)
        moreover have "\<not> occurs m j ch ch_len" if "buff \<le> j" "j + ch_len \<le> buff + (buffer_len - finded)" for j
          using that True before [of j] at by (cases "j = f") (simp_all add: d_def)
        ultimately show ?thesis by simp
      next
        case go: False
        have r: "find_loop m ch ch_len buffer_len d (f + 1) = Some res"
          using "1.prems"(1) ch part Some xy False go by (simp add: find_loop.simps [of m "c # cs" ch_len buffer_len finded buff] Let_def f_def d_def)
        have e: "f + 1 + (buffer_len - d) = buff + (buffer_len - finded)" by (simp add: d_def)
        have IH: "case res of
            Some g \<Rightarrow> f + 1 \<le> g \<and> g < f + 1 + (buffer_len - d) \<and> occurs m g ch ch_len \<and>
              (\<forall>j. f + 1 \<le> j \<longrightarrow> j < g \<longrightarrow> \<not> occurs m j ch ch_len)
          | None \<Rightarrow> \<forall>j. f + 1 \<le> j \<longrightarrow> j + ch_len \<le> f + 1 + (buffer_len - d) \<longrightarrow> \<not> occurs m j ch ch_len"
          by (rule "1.IH" [OF ch part Some f_def refl xy False d_def go r "1.prems"(2)])
            (use "1.prems"(3) in \<open>simp add: f_def\<close>)
        have upto: "\<not> occurs m j ch ch_len" if "buff \<le> j" "j < f + 1" for j
          using that before [of j] at by (cases "j = f") simp_all
        show ?thesis
        proof (cases res)
          case None
          have "\<not> occurs m j ch ch_len" if "buff \<le> j" "j + ch_len \<le> buff + (buffer_len - finded)" for j
            using that IH upto [of j] unfolding e None by (cases "j < f + 1") simp_all
          then show ?thesis using None by simp
        next
          case (Some g)
          have "\<not> occurs m j ch ch_len" if "buff \<le> j" "j < g" for j
            using that IH upto [of j] unfolding Some by (cases "j < f + 1") simp_all
          moreover have "buff \<le> g" "g < buff + (buffer_len - finded)" "occurs m g ch ch_len"
            using IH unfolding e Some by (simp_all add: f_def)
          ultimately show ?thesis using Some by simp
        qed
      qed
    qed
  qed
qed

section \<open>The interface\<close>

text \<open>
  What a client may rely on: bytes written where there is room come out again in order. The client
  here asks for the room first.
\<close>

datatype stream_op = Put "byte list" | Get nat

fun stream_run ::
  "('b \<Rightarrow> nat) \<Rightarrow> (byte list \<Rightarrow> 'b \<Rightarrow> (int \<times> 'b) option) \<Rightarrow> (nat \<Rightarrow> 'b \<Rightarrow> (int \<times> byte list \<times> 'b) option) \<Rightarrow>
   stream_op list \<Rightarrow> 'b \<Rightarrow> (byte list \<times> byte list \<times> 'b) option" where
  "stream_run room put get [] b = Some ([], [], b)"
| "stream_run room put get (Put s # ops) b =
     (if length s \<le> room b then do {
        (_, b) \<leftarrow> put s b;
        (ins, outs, b) \<leftarrow> stream_run room put get ops b;
        Some (s @ ins, outs, b) }
      else stream_run room put get ops b)"
| "stream_run room put get (Get n # ops) b = do {
     (_, bs, b) \<leftarrow> get n b;
     (ins, outs, b) \<leftarrow> stream_run room put get ops b;
     Some (ins, bs @ outs, b) }"

locale byte_stream =
  fixes content :: "'b \<Rightarrow> byte list"
    and room :: "'b \<Rightarrow> nat"
    and ok :: "'b \<Rightarrow> bool"
    and put :: "byte list \<Rightarrow> 'b \<Rightarrow> (int \<times> 'b) option"
    and get :: "nat \<Rightarrow> 'b \<Rightarrow> (int \<times> byte list \<times> 'b) option"
  assumes put_room: "ok b \<Longrightarrow> length s \<le> room b \<Longrightarrow>
      \<exists>b'. put s b = Some (int (length s), b') \<and> ok b' \<and> content b' = content b @ s"
    and get_all: "ok b \<Longrightarrow>
      \<exists>b'. get n b = Some (int (length (take n (content b))), take n (content b), b') \<and> ok b' \<and>
        content b' = drop n (content b)"
begin

lemma run_fifo:
  "ok b \<Longrightarrow> \<exists>ins outs b'. stream_run room put get ops b = Some (ins, outs, b') \<and> ok b' \<and>
     outs @ content b' = content b @ ins"
proof (induction ops arbitrary: b)
  case (Cons x ops)
  show ?case
  proof (cases x)
    case (Put s)
    show ?thesis
    proof (cases "length s \<le> room b")
      case True
      obtain b1 where b1: "put s b = Some (int (length s), b1)" "ok b1" "content b1 = content b @ s"
        using put_room [OF Cons.prems True] by blast
      then show ?thesis using Cons.IH [OF b1(2)] True Put by auto
    next
      case False
      then show ?thesis using Cons.IH [OF Cons.prems] Put by simp
    qed
  next
    case (Get n)
    obtain b1 where b1: "get n b = Some (int (length (take n (content b))), take n (content b), b1)" "ok b1"
      "content b1 = drop n (content b)"
      using get_all [OF Cons.prems] by blast
    obtain ins outs b' where r: "stream_run room put get ops b1 = Some (ins, outs, b')" "ok b'"
      "outs @ content b' = content b1 @ ins"
      using Cons.IH [OF b1(2)] by blast
    have "(take n (content b) @ outs) @ content b' = content b @ ins"
      using r(3) b1(3) append_take_drop_id [of n "content b"] by (metis append_assoc)
    then show ?thesis using r(1,2) b1(1) Get by simp
  qed
qed simp

lemma put_get:
  assumes "ok b" "content b = []" "length s \<le> room b"
  shows "\<exists>b' b''. put s b = Some (int (length s), b') \<and> get (length s) b' = Some (int (length s), s, b'') \<and>
    content b'' = []"
proof -
  obtain b' where p: "put s b = Some (int (length s), b')" "ok b'" "content b' = s"
    using put_room [OF assms(1,3)] assms(2) by auto
  then show ?thesis using get_all [OF p(2), of "length s"] by auto
qed

end

definition lb_put :: "byte list \<Rightarrow> loop_buf \<Rightarrow> (int \<times> loop_buf) option" where
  "lb_put s = lb_Write (Some s) (int (length s))"

definition lb_get :: "nat \<Rightarrow> loop_buf \<Rightarrow> (int \<times> byte list \<times> loop_buf) option" where
  "lb_get n = lb_Read False (int n)"

interpretation ring: byte_stream lb_content lb_free lb_inv lb_put lb_get
proof
  fix b and s :: "byte list"
  assume "lb_inv b" "length s \<le> lb_free b"
  then show "\<exists>b'. lb_put s b = Some (int (length s), b') \<and> lb_inv b' \<and> lb_content b' = lb_content b @ s"
    using Write_spec [of b "int (length s)" s] by (auto simp: lb_put_def lb_Write_def written_def min_absorb1)
next
  fix b n
  assume "lb_inv b"
  then show "\<exists>b'. lb_get n b = Some (int (length (take n (lb_content b))), take n (lb_content b), b') \<and>
      lb_inv b' \<and> lb_content b' = drop n (lb_content b)"
    using Read_spec [of b "int n" True] by (auto simp: lb_get_def lb_Read_def)
qed

lemma CLoopBuffer_inv: "lb_inv (CLoopBuffer (Some m) (int (length m)))"
  "lb_content (CLoopBuffer (Some m) (int (length m))) = []"
  by (simp_all add: CLoopBuffer_def lb_inv_def lb_content_def)

section \<open>Properties\<close>

text \<open>
  C20. The ring buffer is a FIFO of bytes for a client that asks \<open>GetFreeLength\<close> before it writes: over any
  sequence of writes and reads, however the contents wrap around the end of the block, no access
  leaves the block, and what has been read followed by what is still stored is what was written.
\<close>

theorem loop_buffer_fifo:
  "\<exists>ins outs b. stream_run (nat \<circ> lb_GetFreeLength) lb_put lb_get ops (CLoopBuffer (Some m) (int (length m))) =
      Some (ins, outs, b) \<and> outs @ lb_content b = ins"
proof -
  have "nat \<circ> lb_GetFreeLength = lb_free" by (simp add: fun_eq_iff lb_free_def)
  then show ?thesis using ring.run_fifo [OF CLoopBuffer_inv(1), of ops m] CLoopBuffer_inv(2) [of m] by auto
qed

text \<open>
  A longer write to a buffer whose contents lie in one piece stores what fits, and says so, but in
  front of the bytes that were there: \<open>_read\<close> is set to the old \<open>_write\<close>, so that the new bytes are
  read before the old ones.
\<close>

theorem lb_Write_overflow:
  assumes "lb_inv b" "lb_read b < lb_write b" "lb_GetFreeLength b < int (length s)"
  shows "\<exists>b'. lb_Write (Some s) (int (length s)) b = Some (lb_GetFreeLength b, b') \<and>
    lb_content b' = take (nat (lb_GetFreeLength b)) s @ lb_content b"
proof -
  have "0 \<le> lb_GetFreeLength b" using assms(1,2) by (simp add: lb_inv_def lb_GetFreeLength_def)
  then have f: "int (lb_free b) = lb_GetFreeLength b" by (simp add: lb_free_def)
  then have "lb_free b < length s" using assms(3) by simp
  then show ?thesis
    using Write_spec [OF assms(1), of "int (length s)" s] assms(2) f
    by (auto simp: lb_Write_def written_def lb_free_def)
qed

definition some_ring :: loop_buf where
  "some_ring = \<lparr>lb_total_size = 4, lb_read = 0, lb_write = 2, lb_mem = [1, 2, 9, 9], lb_null = False, lb_can_read = False\<rparr>"

theorem lb_Write_overflow_witness:
  "\<exists>b'. lb_Write (Some [3, 4, 5]) 3 some_ring = Some (2, b') \<and> lb_content b' = [3, 4, 1, 2]"
  using lb_Write_overflow [of some_ring "[3, 4, 5]"]
  by (simp add: some_ring_def lb_inv_def lb_GetFreeLength_def lb_content_def mem_slice_def)

text \<open>
  \<open>FindStr\<close> on contents in one piece gives the end of the first occurrence of the string: nothing
  before it, and with 0 nothing in the contents at all, is an occurrence.
\<close>

theorem lb_FindStr_first:
  assumes "lb_inv b" "lb_read b < lb_write b" "0 < s_len" "lb_FindStr s s_len b = Some k"
  shows "if k = 0 then \<forall>j. lb_read b \<le> j \<longrightarrow> j + s_len \<le> lb_write b \<longrightarrow> \<not> occurs (lb_mem b) j s s_len
    else occurs (lb_mem b) (lb_read b + (k - s_len)) s s_len \<and> s_len \<le> k \<and>
      (\<forall>j. lb_read b \<le> j \<longrightarrow> j < lb_read b + (k - s_len) \<longrightarrow> \<not> occurs (lb_mem b) j s s_len)"
proof -
  have i: "\<not> lb_null b" "0 \<le> lb_read b" using assms(1) by (simp_all add: lb_inv_def)
  obtain res where res: "find_loop (lb_mem b) s s_len (lb_write b - lb_read b) 0 (lb_read b) = Some res"
    "k = (case res of Some f \<Rightarrow> f - lb_read b + s_len | None \<Rightarrow> 0)"
    using assms(2,4) i
    by (cases "find_loop (lb_mem b) s s_len (lb_write b - lb_read b) 0 (lb_read b)")
      (auto simp: lb_FindStr_def FindStrInMem_def split: option.splits)
  show ?thesis
    using find_loop_first [OF res(1) assms(3) i(2)] res(2) assms(3) by (cases res) auto
qed

theorem lb_FindStr_first_witness:
  "lb_FindStr [2, 9] 2 (some_ring\<lparr>lb_write := 4\<rparr>) = Some 3 \<and>
   occurs [1, 2, 9, 9] 1 [2, 9] 2 \<and> \<not> occurs [1, 2, 9, 9] 0 [2, 9] 2"
proof -
  have k: "lb_FindStr [2, 9] 2 (some_ring\<lparr>lb_write := 4\<rparr>) = Some 3"
    by (simp add: some_ring_def lb_FindStr_def FindStrInMem_def find_loop.simps mem_get_def mem_slice_def)
  then show ?thesis
    using lb_FindStr_first [OF _ _ _ k] by (simp add: some_ring_def lb_inv_def)
qed

text \<open>The faults of the search: it compares with bytes behind the contents, and with bytes behind the block.\<close>

lemma FindStr_finds_stale:
  "lb_FindStr [2, 9] 2 some_ring = Some 3 \<and> lb_content some_ring = [1, 2]"
  by (simp add: some_ring_def lb_FindStr_def FindStrInMem_def find_loop.simps mem_get_def mem_slice_def lb_content_def)

lemma FindStr_over_read: "lb_FindStr [9, 9] 2 (some_ring\<lparr>lb_write := 4, lb_mem := [1, 2, 3, 9]\<rparr>) = None"
  by (simp add: some_ring_def lb_FindStr_def FindStrInMem_def find_loop.simps mem_get_def mem_slice_def)

lemma FindStr_misses_wrapped:
  "lb_FindStr [7, 8] 2 (some_ring\<lparr>lb_read := 2, lb_write := 2, lb_mem := [8, 1, 5, 7], lb_can_read := True\<rparr>) = None \<and>
   lb_FindStr [5, 7, 8] 3 (some_ring\<lparr>lb_read := 2, lb_write := 1, lb_mem := [8, 1, 5, 7]\<rparr>) = None"
  by (simp add: some_ring_def lb_FindStr_def find_wrapped_def FindStrInMem_def find_loop.simps mem_get_def mem_slice_def)

text \<open>The output operator prints the whole block, never initialised, for an empty buffer.\<close>

lemma out_of_empty:
  "lb_content (CLoopBuffer (Some m) (int (length m))) = [] \<and> lb_out (CLoopBuffer (Some m) (int (length m))) = Some m"
  by (simp add: CLoopBuffer_def lb_content_def lb_out_def mem_get_ok)

end
