(* ===== verification/Buffer.thy ===== *)
theory Buffer
  imports Loop_Buffer
begin

text \<open>
  The chain of ring buffers \<^verbatim>\<open>base/Buffer.cpp\<close>: nodes on a heap, linked by \<open>_next\<close>, with pointers to the
  node that is read, the one that is written and the last one that may be. Parameters: the address
  and the block the pool gives to a new node (\<open>pool\<close>), and the length of the blocks (\<open>blk\<close>). \<open>None\<close>
  is an access to a node that is gone, undefined behaviour inside of a ring buffer, or a loop that does
  not end; the mutex is not modelled. The buffer of the caller is the list \<open>res\<close>.
\<close>

section \<open>State\<close>

type_synonym node_heap = "nat \<Rightarrow> (loop_buf \<times> nat option) option"

record cbuf =
  cb_count :: int
  cb_read :: "nat option"
  cb_write :: "nat option"
  cb_end :: "nat option"
  cb_heap :: node_heap

type_synonym node_pool = "node_heap \<Rightarrow> nat \<times> byte list option"

definition CBuffer :: "node_heap \<Rightarrow> cbuf" where
  "CBuffer h = \<lparr>cb_count = 0, cb_read = None, cb_write = None, cb_end = None, cb_heap = h\<rparr>"

definition cb_Reset :: "cbuf \<Rightarrow> cbuf" where
  "cb_Reset b = b\<lparr>cb_end := None, cb_read := None, cb_write := None\<rparr>"

definition new_node :: "node_pool \<Rightarrow> int \<Rightarrow> cbuf \<Rightarrow> nat \<times> cbuf" where
  "new_node pool len b =
     (case pool (cb_heap b) of (a, block) \<Rightarrow>
        (a, b\<lparr>cb_heap := (cb_heap b)(a \<mapsto> (CLoopBuffer block len, None)), cb_count := cb_count b + 1\<rparr>))"

definition put_buf :: "nat \<Rightarrow> loop_buf \<Rightarrow> cbuf \<Rightarrow> cbuf" where
  "put_buf a l b = b\<lparr>cb_heap := (cb_heap b)(a := map_option (\<lambda>(_, n). (l, n)) (cb_heap b a))\<rparr>"

definition SetNext :: "nat \<Rightarrow> nat \<Rightarrow> cbuf \<Rightarrow> cbuf option" where
  "SetNext a n b = map_option (\<lambda>(l, _). b\<lparr>cb_heap := (cb_heap b)(a \<mapsto> (l, Some n))\<rparr>) (cb_heap b a)"

definition delete_node :: "nat \<Rightarrow> cbuf \<Rightarrow> cbuf" where
  "delete_node a b = b\<lparr>cb_heap := (cb_heap b)(a := None), cb_count := cb_count b - 1\<rparr>"

text \<open>\<open>memcpy\<close> to the start of the buffer of the caller.\<close>

definition copy_to :: "byte list \<Rightarrow> byte list \<Rightarrow> byte list option" where
  "copy_to bs res = (if length bs \<le> length res then Some (bs @ drop (length bs) res) else None)"

section \<open>Operations\<close>

partial_function (option) free_nodes :: "nat option \<Rightarrow> cbuf \<Rightarrow> cbuf option" where
  "free_nodes temp b = (case temp of
     None \<Rightarrow> Some b
   | Some t \<Rightarrow> Option.bind (cb_heap b t) (\<lambda>(l, nxt). free_nodes nxt (delete_node t b)))"

text \<open>The destructor: the count is not kept, and \<open>_buffer_read\<close> moves along.\<close>

definition destroy_CBuffer :: "cbuf \<Rightarrow> cbuf option" where
  "destroy_CBuffer b = map_option (\<lambda>b'. b'\<lparr>cb_read := None, cb_count := cb_count b\<rparr>) (free_nodes (cb_read b) b)"

partial_function (option) peek_loop ::
  "int \<Rightarrow> nat option \<Rightarrow> int \<Rightarrow> byte list \<Rightarrow> cbuf \<Rightarrow> (int \<times> byte list) option" where
  "peek_loop len temp cur_len res b = (case temp of
     None \<Rightarrow> Some (cur_len, res)
   | Some t \<Rightarrow>
     if cur_len < len then
       Option.bind (cb_heap b t) (\<lambda>(l, nxt).
       Option.bind (lb_ReadNotClear (len - cur_len) l) (\<lambda>(n, bs, _).
       Option.bind (copy_to bs res) (\<lambda>res.
         if temp = cb_write b then Some (cur_len + n, res)
         else peek_loop len nxt (cur_len + n) res b)))
     else Some (cur_len, res))"

definition cb_ReadNotClear :: "byte list \<Rightarrow> int \<Rightarrow> cbuf \<Rightarrow> (int \<times> byte list) option" where
  "cb_ReadNotClear res len b =
     (if cb_read b = None then Some (0, res) else peek_loop len (cb_read b) 0 res b)"

text \<open>The end of a step of \<open>Read\<close> and of \<open>Clear\<close>: the node is used up.\<close>

definition leave_node :: "nat \<Rightarrow> nat option \<Rightarrow> cbuf \<Rightarrow> cbuf" where
  "leave_node t nxt b =
     delete_node t
       (if cb_write b = Some t
        then (case nxt of Some n \<Rightarrow> b\<lparr>cb_write := Some n\<rparr> | None \<Rightarrow> cb_Reset b)
        else b)"

partial_function (option) read_loop ::
  "int \<Rightarrow> nat option \<Rightarrow> int \<Rightarrow> byte list \<Rightarrow> cbuf \<Rightarrow> (int \<times> byte list \<times> cbuf) option" where
  "read_loop len temp cur_len res b = (case temp of
     None \<Rightarrow> Some (cur_len, res, b\<lparr>cb_read := None\<rparr>)
   | Some t \<Rightarrow>
       Option.bind (cb_heap b t) (\<lambda>(l, nxt).
       Option.bind (lb_Read False (len - cur_len) l) (\<lambda>(n, bs, l).
       Option.bind (copy_to bs res) (\<lambda>res.
         if cur_len + n \<ge> len then Some (cur_len + n, res, (put_buf t l b)\<lparr>cb_read := Some t\<rparr>)
         else read_loop len nxt (cur_len + n) res (leave_node t nxt (put_buf t l b))))))"

definition cb_Read :: "byte list \<Rightarrow> int \<Rightarrow> cbuf \<Rightarrow> (int \<times> byte list \<times> cbuf) option" where
  "cb_Read res len b =
     (if cb_read b = None then Some (0, res, b) else read_loop len (cb_read b) 0 res b)"

partial_function (option) write_loop ::
  "node_pool \<Rightarrow> int \<Rightarrow> byte list \<Rightarrow> int \<Rightarrow> nat option \<Rightarrow> nat option \<Rightarrow> int \<Rightarrow> cbuf \<Rightarrow> (int \<times> cbuf) option" where
  "write_loop pool blk str len prv temp cur_len b =
     (let (t, b) = (case temp of
            Some t \<Rightarrow> (t, b)
          | None \<Rightarrow> (case new_node pool blk b of (t, b) \<Rightarrow> (t, b\<lparr>cb_end := Some t\<rparr>))) in
      Option.bind (case prv of None \<Rightarrow> Some b | Some p \<Rightarrow> SetNext p t b) (\<lambda>b.
      Option.bind (cb_heap b t) (\<lambda>(l, nxt).
      Option.bind (lb_Write (Some (drop (nat cur_len) str)) (len - cur_len) l) (\<lambda>(n, l).
        let b = put_buf t l b;
            b = (if cb_read b = None then b\<lparr>cb_read := Some t\<rparr> else b) in
        if cur_len + n \<ge> len then Some (cur_len + n, b\<lparr>cb_write := Some t\<rparr>)
        else write_loop pool blk str len (Some t) nxt (cur_len + n) b))))"

definition cb_Write :: "node_pool \<Rightarrow> int \<Rightarrow> byte list \<Rightarrow> int \<Rightarrow> cbuf \<Rightarrow> (int \<times> cbuf) option" where
  "cb_Write pool blk str len b = write_loop pool blk str len None (cb_write b) 0 b"

partial_function (option) clear_loop :: "int \<Rightarrow> nat option \<Rightarrow> int \<Rightarrow> cbuf \<Rightarrow> cbuf option" where
  "clear_loop len temp cur_len b = (case temp of
     None \<Rightarrow> Some (b\<lparr>cb_read := None\<rparr>)
   | Some t \<Rightarrow>
       Option.bind (cb_heap b t) (\<lambda>(l, nxt).
       Option.bind (lb_Clear (len - cur_len) l) (\<lambda>(n, l).
         if cur_len + n \<ge> len then Some ((put_buf t l b)\<lparr>cb_read := Some t\<rparr>)
         else clear_loop len nxt (cur_len + n) (leave_node t nxt (put_buf t l b)))))"

definition cb_Clear :: "int \<Rightarrow> cbuf \<Rightarrow> cbuf option" where
  "cb_Clear len b =
     (if len = 0 then map_option cb_Reset (free_nodes (cb_read b) b)
      else clear_loop len (cb_read b) 0 b)"

partial_function (option) move_loop :: "int \<Rightarrow> nat option \<Rightarrow> int \<Rightarrow> cbuf \<Rightarrow> (int \<times> cbuf) option" where
  "move_loop len temp cur_len b = (case temp of
     None \<Rightarrow> Some (cur_len, b\<lparr>cb_write := None\<rparr>)
   | Some t \<Rightarrow>
       Option.bind (cb_heap b t) (\<lambda>(l, nxt).
       Option.bind (lb_MoveWritePt (len - cur_len) l) (\<lambda>(n, l).
         if temp = cb_end b \<or> len \<le> cur_len + n then Some (cur_len + n, (put_buf t l b)\<lparr>cb_write := Some t\<rparr>)
         else move_loop len nxt (cur_len + n) (put_buf t l b))))"

definition cb_MoveWritePt :: "int \<Rightarrow> cbuf \<Rightarrow> (int \<times> cbuf) option" where
  "cb_MoveWritePt len b = move_loop len (cb_write b) 0 b"

text \<open>A sum along the chain, up to and with the node \<open>stop\<close>.\<close>

partial_function (option) sum_loop :: "(loop_buf \<Rightarrow> int) \<Rightarrow> nat option \<Rightarrow> nat option \<Rightarrow> int \<Rightarrow> cbuf \<Rightarrow> int option" where
  "sum_loop f stop temp cur_len b = (case temp of
     None \<Rightarrow> Some cur_len
   | Some t \<Rightarrow>
       Option.bind (cb_heap b t) (\<lambda>(l, nxt).
         if temp = stop then Some (cur_len + f l)
         else sum_loop f stop nxt (cur_len + f l) b))"

definition cb_GetFreeLength :: "cbuf \<Rightarrow> int option" where
  "cb_GetFreeLength b =
     (if cb_write b = None then Some 0 else sum_loop lb_GetFreeLength (cb_end b) (cb_write b) 0 b)"

definition cb_GetCanReadLength :: "cbuf \<Rightarrow> int option" where
  "cb_GetCanReadLength b =
     (if cb_read b = None then Some 0 else sum_loop lb_GetCanReadLength (cb_write b) (cb_read b) 0 b)"

definition cb_ReadUntil :: "byte list \<Rightarrow> int \<Rightarrow> cbuf \<Rightarrow> (int \<times> byte list \<times> cbuf) option" where
  "cb_ReadUntil res len b =
     Option.bind (cb_GetCanReadLength b) (\<lambda>n. if n < len then Some (0, res, b) else cb_Read res len b)"

partial_function (option) find_str_loop :: "byte list \<Rightarrow> int \<Rightarrow> nat option \<Rightarrow> int \<Rightarrow> cbuf \<Rightarrow> int option" where
  "find_str_loop s s_len temp cur_len b = (case temp of
     None \<Rightarrow> Some cur_len
   | Some t \<Rightarrow>
       Option.bind (cb_heap b t) (\<lambda>(l, nxt).
       Option.bind (lb_FindStr s s_len l) (\<lambda>n.
         if n > 0 then Some (cur_len + n)
         else if temp = cb_write b then Some cur_len
         else find_str_loop s s_len nxt (cur_len + lb_GetCanReadLength l) b)))"

definition cb_FindStr :: "byte list \<Rightarrow> int \<Rightarrow> cbuf \<Rightarrow> int option" where
  "cb_FindStr s s_len b = (if cb_read b = None then Some 0 else find_str_loop s s_len (cb_read b) 0 b)"

definition cb_ReadUntil_str ::
  "byte list \<Rightarrow> int \<Rightarrow> byte list \<Rightarrow> int \<Rightarrow> cbuf \<Rightarrow> (int \<times> byte list \<times> int option \<times> cbuf) option" where
  "cb_ReadUntil_str res len pat find_len b =
     Option.bind (cb_FindStr pat find_len b) (\<lambda>found.
       if found \<noteq> 0 then
         if found \<le> len then map_option (\<lambda>(n, res, b). (n, res, None, b)) (cb_Read res found b)
         else Some (0, res, Some found, b)
       else Some (0, res, None, b))"

text \<open>The blocks of memory: node, offset and length.\<close>

type_synonym iovec = "nat \<times> int \<times> int"

definition blocks_of :: "nat \<Rightarrow> mem_blocks \<Rightarrow> iovec list" where
  "blocks_of t m = (case m of (_, p, n, q, k) \<Rightarrow>
     (if n > 0 then [(t, the p, n)] else []) @ (if k > 0 then [(t, the q, k)] else []))"

definition blocks_len :: "mem_blocks \<Rightarrow> int" where
  "blocks_len m = (case m of (_, p, n, q, k) \<Rightarrow> (if n > 0 then n else 0) + (if k > 0 then k else 0))"

partial_function (option) reserve_loop ::
  "node_pool \<Rightarrow> int \<Rightarrow> int \<Rightarrow> nat option \<Rightarrow> nat option \<Rightarrow> int \<Rightarrow> iovec list \<Rightarrow> cbuf \<Rightarrow> (int \<times> iovec list \<times> cbuf) option" where
  "reserve_loop pool blk need prv temp cur_len vec b =
     (if cur_len < need then
        (let (t, b) = (case temp of Some t \<Rightarrow> (t, b) | None \<Rightarrow> new_node pool blk b) in
         Option.bind (case prv of None \<Rightarrow> Some b | Some p \<Rightarrow> SetNext p t b) (\<lambda>b.
         Option.bind (cb_heap b t) (\<lambda>(l, nxt).
           let m = lb_GetFreeMemoryBlock l;
               b = (if cb_read b = None then b\<lparr>cb_read := Some t\<rparr> else b);
               b = (if cb_write b = None then b\<lparr>cb_write := Some t\<rparr> else b) in
           reserve_loop pool blk need (Some t) nxt (cur_len + blocks_len m) (vec @ blocks_of t m) b)))
      else Some (cur_len, vec, b\<lparr>cb_end := prv\<rparr>))"

partial_function (option) blocks_loop ::
  "(loop_buf \<Rightarrow> mem_blocks) \<Rightarrow> nat option \<Rightarrow> int option \<Rightarrow> nat option \<Rightarrow> int \<Rightarrow> iovec list \<Rightarrow> cbuf \<Rightarrow> (int \<times> iovec list) option" where
  "blocks_loop f stop max_size temp cur_len vec b = (case temp of
     None \<Rightarrow> Some (cur_len, vec)
   | Some t \<Rightarrow>
       Option.bind (cb_heap b t) (\<lambda>(l, nxt).
         let cur_len = cur_len + blocks_len (f l); vec = vec @ blocks_of t (f l) in
         if temp = stop then Some (cur_len, vec)
         else if (case max_size of None \<Rightarrow> False | Some m \<Rightarrow> cur_len \<ge> m) then Some (cur_len, vec)
         else blocks_loop f stop max_size nxt cur_len vec b))"

definition cb_GetFreeMemoryBlock :: "node_pool \<Rightarrow> int \<Rightarrow> int \<Rightarrow> cbuf \<Rightarrow> (int \<times> iovec list \<times> cbuf) option" where
  "cb_GetFreeMemoryBlock pool blk need b =
     (if need > 0 then reserve_loop pool blk need None (cb_write b) 0 [] b
      else map_option (\<lambda>(n, vec). (n, vec, b)) (blocks_loop lb_GetFreeMemoryBlock (cb_end b) None (cb_write b) 0 [] b))"

definition cb_GetUseMemoryBlock :: "int \<Rightarrow> cbuf \<Rightarrow> (int \<times> iovec list) option" where
  "cb_GetUseMemoryBlock max_size b =
     blocks_loop lb_GetUseMemoryBlock (cb_write b) (Some max_size) (cb_read b) 0 [] b"

partial_function (option) out_loop :: "nat option \<Rightarrow> byte list \<Rightarrow> cbuf \<Rightarrow> byte list option" where
  "out_loop temp acc b = (case temp of
     None \<Rightarrow> Some acc
   | Some t \<Rightarrow>
       Option.bind (cb_heap b t) (\<lambda>(l, nxt).
       Option.bind (lb_out l) (\<lambda>bs.
         if temp = cb_write b then Some (acc @ bs) else out_loop nxt (acc @ bs) b)))"

definition cb_out :: "cbuf \<Rightarrow> byte list option" where
  "cb_out b = (if cb_read b = None then Some [] else out_loop (cb_read b) [] b)"

section \<open>The nodes of a chain\<close>

type_synonym nodes = "(nat \<times> loop_buf) list"

fun seg :: "node_heap \<Rightarrow> nat option \<Rightarrow> nodes \<Rightarrow> nat option \<Rightarrow> bool" where
  "seg h p [] q \<longleftrightarrow> p = q"
| "seg h p ((a, l) # xs) q \<longleftrightarrow> p = Some a \<and> (\<exists>n. h a = Some (l, n) \<and> seg h n xs q)"

definition bytes :: "nodes \<Rightarrow> byte list" where
  "bytes xs = concat (map (lb_content \<circ> snd) xs)"

definition node_ok :: "int \<Rightarrow> nat \<times> loop_buf \<Rightarrow> bool" where
  "node_ok blk x \<longleftrightarrow> lb_inv (snd x) \<and> lb_total_size (snd x) = blk"

text \<open>
  A buffer: the nodes before the one that is written, and those from it on; behind it all are empty.
\<close>

definition cb_nodes :: "int \<Rightarrow> cbuf \<Rightarrow> nodes \<Rightarrow> bool" where
  "cb_nodes blk b xs \<longleftrightarrow> finite (dom (cb_heap b)) \<and> seg (cb_heap b) (cb_read b) xs None \<and>
     distinct (map fst xs) \<and> (\<forall>x \<in> set xs. node_ok blk x)"

definition first_of :: "nodes \<Rightarrow> nat option" where
  "first_of xs = (case xs of [] \<Rightarrow> None | x # _ \<Rightarrow> Some (fst x))"

definition cb_rep :: "int \<Rightarrow> cbuf \<Rightarrow> nodes \<Rightarrow> nodes \<Rightarrow> bool" where
  "cb_rep blk b pre post \<longleftrightarrow> cb_nodes blk b (pre @ post) \<and> cb_write b = first_of post \<and>
     (post = [] \<longrightarrow> pre = []) \<and> bytes (tl post) = []"

definition node_pool_ok :: "node_pool \<Rightarrow> int \<Rightarrow> bool" where
  "node_pool_ok pool blk \<longleftrightarrow> 0 < blk \<and>
     (\<forall>h. finite (dom h) \<longrightarrow> (\<exists>a m. pool h = (a, Some m) \<and> h a = None \<and> int (length m) = blk))"

lemma first_of_simps [simp]: "first_of [] = None" "first_of (x # xs) = Some (fst x)"
  by (simp_all add: first_of_def)

lemma seg_append: "seg h p (xs @ ys) q \<longleftrightarrow> (\<exists>r. seg h p xs r \<and> seg h r ys q)"
  by (induction h p xs q rule: seg.induct) auto

lemma seg_frame: "a \<notin> fst ` set xs \<Longrightarrow> seg (h(a := v)) p xs q = seg h p xs q"
  by (induction h p xs q rule: seg.induct) auto

lemma seg_snoc: "seg h p (xs @ [(a, l)]) q \<longleftrightarrow> seg h p xs (Some a) \<and> h a = Some (l, q)"
  by (auto simp: seg_append)

lemma bytes_simps [simp]: "bytes [] = []" "bytes (x # xs) = lb_content (snd x) @ bytes xs" "bytes (xs @ ys) = bytes xs @ bytes ys"
  by (simp_all add: bytes_def)

lemma Write_size: "lb_do_Write str len wr b = Some (n, b') \<Longrightarrow> lb_total_size b' = lb_total_size b"
  by (auto simp: lb_do_Write_def Let_def lb_at_def split: bind_splits if_splits)

lemma Read_size: "lb_do_Read len clear b = Some (n, bs, b') \<Longrightarrow> lb_total_size b' = lb_total_size b"
  by (auto simp: lb_do_Read_def lb_reset_def Let_def split: bind_splits if_splits)

lemma empty_free: "lb_inv l \<Longrightarrow> lb_content l = [] \<Longrightarrow> int (lb_free l) = lb_total_size l"
  by (simp add: free_length)

lemma empty_not_ahead: "lb_inv l \<Longrightarrow> lb_content l = [] \<Longrightarrow> \<not> lb_read l < lb_write l"
  by (auto simp: lb_content_def lb_inv_def dest!: arg_cong [of _ _ "\<lambda>xs. int (length xs)"])

text \<open>A write to an empty node, and to any node.\<close>

lemma write_node:
  assumes "node_ok blk (a, l)" "0 \<le> n" "n \<le> int (length str)"
  shows "\<exists>l'. lb_Write (Some str) n l = Some (min n (int (lb_free l)), l') \<and> node_ok blk (a, l') \<and>
    lb_content l' = (if lb_read l < lb_write l \<and> int (lb_free l) < n then take (lb_free l) str @ lb_content l
      else lb_content l @ take (nat (min n (int (lb_free l)))) str)"
  using Write_spec [of l n str] assms Write_size [of str n True l] by (auto simp: lb_Write_def written_def node_ok_def)

lemma write_empty_node:
  assumes "node_ok blk (a, l)" "lb_content l = []" "0 \<le> n" "n \<le> int (length str)"
  shows "\<exists>l'. lb_Write (Some str) n l = Some (min n blk, l') \<and> node_ok blk (a, l') \<and> lb_content l' = take (nat (min n blk)) str"
  using write_node [OF assms(1,3,4)] assms(1,2) empty_free [of l] empty_not_ahead [of l] by (auto simp: node_ok_def)

lemma read_node:
  assumes "node_ok blk (a, l)" "0 \<le> n"
  shows "\<exists>l'. lb_Read False n l = Some (int (length (take (nat n) (lb_content l))), take (nat n) (lb_content l), l') \<and>
    node_ok blk (a, l') \<and> lb_content l' = drop (nat n) (lb_content l)"
proof -
  obtain l' where "lb_do_Read n True l = Some (int (length (take (nat n) (lb_content l))), take (nat n) (lb_content l), l')"
    "lb_inv l'" "lb_content l' = drop (nat n) (lb_content l)"
    using Read_spec [of l n True] assms by (auto simp: node_ok_def)
  then show ?thesis using Read_size [of n True l] assms(1) by (simp add: lb_Read_def node_ok_def)
qed

lemma new_node_ok:
  assumes "node_pool_ok pool blk" "finite (dom (cb_heap b))"
  shows "\<exists>a l. new_node pool blk b = (a, b\<lparr>cb_heap := (cb_heap b)(a \<mapsto> (l, None)), cb_count := cb_count b + 1\<rparr>) \<and>
    cb_heap b a = None \<and> node_ok blk (a, l) \<and> lb_content l = []"
proof -
  obtain a m where m: "pool (cb_heap b) = (a, Some m)" "cb_heap b a = None" "int (length m) = blk"
    using assms by (auto simp: node_pool_ok_def)
  then have "node_ok blk (a, CLoopBuffer (Some m) blk)" "lb_content (CLoopBuffer (Some m) blk) = []"
    using CLoopBuffer_inv [of m] by (simp_all add: node_ok_def) (simp add: CLoopBuffer_def)
  then show ?thesis
    using m by (intro exI [of _ a] exI [of _ "CLoopBuffer (Some m) blk"]) (simp add: new_node_def)
qed

lemma seg_live: "seg h p xs q \<Longrightarrow> x \<in> set xs \<Longrightarrow> \<exists>n. h (fst x) = Some (snd x, n)"
  by (induction h p xs q rule: seg.induct) auto

lemma nodes_lookup:
  "cb_nodes blk b (xs @ (a, l) # ys) \<Longrightarrow> cb_heap b a = Some (l, first_of ys)"
  by (cases ys) (auto simp: cb_nodes_def seg_append)

lemma nodes_put:
  assumes "cb_nodes blk b (xs @ (a, l) # ys)" "node_ok blk (a, l')"
  shows "cb_nodes blk (put_buf a l' b) (xs @ (a, l') # ys)"
  using assms nodes_lookup [OF assms(1)] unfolding cb_nodes_def put_buf_def
  by (auto simp: seg_append seg_frame split: option.splits)

lemma put_buf_simps [simp]: "cb_read (put_buf a l b) = cb_read b" "cb_write (put_buf a l b) = cb_write b"
  by (simp_all add: put_buf_def)

lemma nodes_update [simp]:
  "cb_nodes blk (b\<lparr>cb_write := w\<rparr>) xs = cb_nodes blk b xs" "cb_nodes blk (b\<lparr>cb_end := w\<rparr>) xs = cb_nodes blk b xs"
  "cb_nodes blk (b\<lparr>cb_count := c\<rparr>) xs = cb_nodes blk b xs"
  by (simp_all add: cb_nodes_def)

lemma nodes_new:
  assumes "cb_nodes blk b (xs @ [(p, lp)])" "cb_heap b a = None" "node_ok blk (a, l)"
  shows "SetNext p a (b\<lparr>cb_heap := (cb_heap b)(a \<mapsto> (l, None)), cb_count := c\<rparr>) =
      Some (b\<lparr>cb_heap := (cb_heap b)(a \<mapsto> (l, None), p \<mapsto> (lp, Some a)), cb_count := c\<rparr>) \<and>
    cb_nodes blk (b\<lparr>cb_heap := (cb_heap b)(a \<mapsto> (l, None), p \<mapsto> (lp, Some a)), cb_count := c\<rparr>)
      ((xs @ [(p, lp)]) @ [(a, l)])"
proof -
  have p: "cb_heap b p = Some (lp, None)" using nodes_lookup [of blk b xs p lp "[]"] assms(1) by simp
  have a: "a \<notin> fst ` set (xs @ [(p, lp)])"
    using seg_live [of "cb_heap b" "cb_read b" "xs @ [(p, lp)]" None] assms(1,2) by (fastforce simp: cb_nodes_def)
  then show ?thesis
    using assms p unfolding cb_nodes_def SetNext_def by (auto simp: seg_append seg_frame)
qed

text \<open>The node behind \<open>p\<close>: the next one of the chain, or a new one.\<close>

lemma next_node_plain:
  assumes pool: "node_pool_ok pool blk" and n: "cb_nodes blk b ((ds @ [(p, lp)]) @ post)" and e: "bytes post = []"
  shows "\<exists>t b1 l ys b2.
    (case first_of post of Some t \<Rightarrow> (t, b) | None \<Rightarrow> new_node pool blk b) = (t, b1) \<and>
    SetNext p t b1 = Some b2 \<and> cb_nodes blk b2 ((ds @ [(p, lp)]) @ (t, l) # ys) \<and>
    lb_content l = [] \<and> bytes ys = [] \<and> cb_read b2 = cb_read b \<and> cb_write b2 = cb_write b"
proof (cases post)
  case Nil
  obtain a l where a: "new_node pool blk b = (a, b\<lparr>cb_heap := (cb_heap b)(a \<mapsto> (l, None)), cb_count := cb_count b + 1\<rparr>)"
    "cb_heap b a = None" "node_ok blk (a, l)" "lb_content l = []"
    using new_node_ok [OF pool, of b] n by (auto simp: cb_nodes_def)
  let ?b1 = "b\<lparr>cb_heap := (cb_heap b)(a \<mapsto> (l, None)), cb_count := cb_count b + 1\<rparr>"
  let ?b2 = "b\<lparr>cb_heap := (cb_heap b)(a \<mapsto> (l, None), p \<mapsto> (lp, Some a)), cb_count := cb_count b + 1\<rparr>"
  have "SetNext p a ?b1 = Some ?b2 \<and> cb_nodes blk ?b2 ((ds @ [(p, lp)]) @ [(a, l)])"
    using nodes_new [OF _ a(2,3), of ds p lp "cb_count b + 1"] n Nil by simp
  then have *: "((case first_of post of Some t \<Rightarrow> (t, b) | None \<Rightarrow> new_node pool blk b) = (a, ?b1)) \<and>
    SetNext p a ?b1 = Some ?b2 \<and> cb_nodes blk ?b2 ((ds @ [(p, lp)]) @ (a, l) # []) \<and>
    lb_content l = [] \<and> bytes [] = [] \<and> cb_read ?b2 = cb_read b \<and> cb_write ?b2 = cb_write b"
    using a(1,4) Nil by simp
  show ?thesis by (rule exI [of _ a], rule exI [of _ ?b1], rule exI [of _ l], rule exI [of _ "[]"], rule exI [of _ ?b2], rule *)
next
  case (Cons x ys)
  obtain t l where x: "x = (t, l)" by (cases x)
  have "cb_heap b p = Some (lp, Some t)" using nodes_lookup [of blk b ds p lp post] n Cons x by simp
  then have "SetNext p t b = Some b" by (simp add: SetNext_def fun_upd_idem)
  then show ?thesis
    using n e Cons x by (intro exI [of _ t] exI [of _ b] exI [of _ l] exI [of _ ys]) simp
qed

lemma SetNext_end: "SetNext p t (b\<lparr>cb_end := e\<rparr>) = map_option (\<lambda>b. b\<lparr>cb_end := e\<rparr>) (SetNext p t b)"
  by (cases "cb_heap b p") (auto simp: SetNext_def)

lemma next_node:
  assumes pool: "node_pool_ok pool blk" and n: "cb_nodes blk b ((ds @ [(p, lp)]) @ post)" and e: "bytes post = []"
  shows "\<exists>t b1 l ys b2.
    (case first_of post of
       Some t \<Rightarrow> (t, b)
     | None \<Rightarrow> (case new_node pool blk b of (t, b) \<Rightarrow> (t, b\<lparr>cb_end := Some t\<rparr>))) = (t, b1) \<and>
    SetNext p t b1 = Some b2 \<and> cb_nodes blk b2 ((ds @ [(p, lp)]) @ (t, l) # ys) \<and>
    lb_content l = [] \<and> bytes ys = [] \<and> cb_read b2 = cb_read b"
proof -
  obtain t b1 l ys b2 where t: "(case first_of post of Some t \<Rightarrow> (t, b) | None \<Rightarrow> new_node pool blk b) = (t, b1)"
    "SetNext p t b1 = Some b2" "cb_nodes blk b2 ((ds @ [(p, lp)]) @ (t, l) # ys)" "lb_content l = []" "bytes ys = []"
    "cb_read b2 = cb_read b"
    using next_node_plain [OF assms] by blast
  let ?e = "\<lambda>b. case first_of post of None \<Rightarrow> b\<lparr>cb_end := Some t\<rparr> | Some _ \<Rightarrow> b"
  have "(case first_of post of
       Some t \<Rightarrow> (t, b)
     | None \<Rightarrow> (case new_node pool blk b of (t, b) \<Rightarrow> (t, b\<lparr>cb_end := Some t\<rparr>))) = (t, ?e b1) \<and>
    SetNext p t (?e b1) = Some (?e b2) \<and> cb_nodes blk (?e b2) ((ds @ [(p, lp)]) @ (t, l) # ys) \<and>
    lb_content l = [] \<and> bytes ys = [] \<and> cb_read (?e b2) = cb_read b"
    using t by (auto simp: SetNext_end split: option.splits)
  then show ?thesis by blast
qed

text \<open>What is left of a write goes to the empty nodes that follow.\<close>

lemma write_loop_rest:
  assumes pool: "node_pool_ok pool blk"
  shows "cb_nodes blk b ((ds @ [(p, lp)]) @ post) \<Longrightarrow> bytes post = [] \<Longrightarrow> 0 \<le> cur \<Longrightarrow> cur < len \<Longrightarrow> len = int (length str) \<Longrightarrow>
    \<exists>b' mid post'. write_loop pool blk str len (Some p) (first_of post) cur b = Some (len, b') \<and>
      cb_nodes blk b' ((ds @ [(p, lp)]) @ mid @ post') \<and> cb_write b' = first_of post' \<and> post' \<noteq> [] \<and>
      bytes (tl post') = [] \<and> bytes (mid @ post') = drop (nat cur) str"
proof (induction "nat (len - cur)" arbitrary: b ds p lp post cur rule: less_induct)
  case less
  obtain t b1 l ys b2 where t: "(case first_of post of
       Some t \<Rightarrow> (t, b)
     | None \<Rightarrow> (case new_node pool blk b of (t, b) \<Rightarrow> (t, b\<lparr>cb_end := Some t\<rparr>))) = (t, b1)"
    "SetNext p t b1 = Some b2" "cb_nodes blk b2 ((ds @ [(p, lp)]) @ (t, l) # ys)" "lb_content l = []" "bytes ys = []"
    "cb_read b2 = cb_read b"
    using next_node [OF pool less.prems(1,2)] by blast
  have blk: "0 < blk" using pool by (simp add: node_pool_ok_def)
  have ok: "node_ok blk (t, l)" using t(3) by (simp add: cb_nodes_def)
  obtain l' where l': "lb_Write (Some (drop (nat cur) str)) (len - cur) l = Some (min (len - cur) blk, l')" "node_ok blk (t, l')"
    "lb_content l' = take (nat (min (len - cur) blk)) (drop (nat cur) str)"
    using write_empty_node [OF ok t(4), of "len - cur" "drop (nat cur) str"] less.prems(3,4,5) by auto
  let ?b3 = "put_buf t l' b2"
  have n3: "cb_nodes blk ?b3 ((ds @ [(p, lp)]) @ (t, l') # ys)" by (rule nodes_put [OF t(3) l'(2)])
  obtain y where rd: "cb_read b2 = Some y" using t(3) by (cases ds) (auto simp: cb_nodes_def)
  have step: "write_loop pool blk str len (Some p) (first_of post) cur b =
    (if cur + min (len - cur) blk \<ge> len then Some (cur + min (len - cur) blk, ?b3\<lparr>cb_write := Some t\<rparr>)
     else write_loop pool blk str len (Some t) (first_of ys) (cur + min (len - cur) blk) ?b3)"
    using t(1,2) nodes_lookup [OF t(3)] l'(1) rd
    by (subst write_loop.simps) (simp add: Let_def)
  show ?case
  proof (cases "len - cur \<le> blk")
    case True
    then have "write_loop pool blk str len (Some p) (first_of post) cur b = Some (len, ?b3\<lparr>cb_write := Some t\<rparr>)"
      using step by simp
    then show ?thesis
      using n3 l'(3) True t(5) less.prems(3,4,5)
      by (intro exI [of _ "?b3\<lparr>cb_write := Some t\<rparr>"] exI [of _ "[]"] exI [of _ "(t, l') # ys"]) simp
  next
    case False
    then have m: "min (len - cur) blk = blk" by simp
    obtain b' mid post' where r: "write_loop pool blk str len (Some t) (first_of ys) (cur + blk) ?b3 = Some (len, b')"
      "cb_nodes blk b' (((ds @ [(p, lp)]) @ [(t, l')]) @ mid @ post')" "cb_write b' = first_of post'" "post' \<noteq> []"
      "bytes (tl post') = []" "bytes (mid @ post') = drop (nat (cur + blk)) str"
      using less.hyps [of "cur + blk" ?b3 "ds @ [(p, lp)]" t l' ys] n3 t(5) less.prems(3,4,5) False blk by auto
    have "nat (cur + blk) = nat blk + nat cur" using less.prems(3) blk by (simp add: nat_add_distrib)
    then have "lb_content l' @ drop (nat (cur + blk)) str = drop (nat cur) str"
      using l'(3) m by (metis append_take_drop_id drop_drop)
    then show ?thesis
      using step m False r by (intro exI [of _ b'] exI [of _ "(t, l') # mid"] exI [of _ post']) simp
  qed
qed

lemma rep_empty: "cb_rep blk b pre [] \<longleftrightarrow> pre = [] \<and> cb_read b = None \<and> cb_write b = None \<and> finite (dom (cb_heap b))"
  by (auto simp: cb_rep_def cb_nodes_def)

text \<open>
  A write takes all bytes. They are appended, unless the contents of the node that is written lie in one
  piece and there is too little room in it: then what fits is put in front of the contents of that node.
\<close>

definition squeezed :: "byte list \<Rightarrow> nodes \<Rightarrow> byte list" where
  "squeezed str post = (case post of
     [] \<Rightarrow> str
   | (_, l) # _ \<Rightarrow>
     if lb_read l < lb_write l \<and> lb_free l < length str
     then take (lb_free l) str @ lb_content l @ drop (lb_free l) str
     else lb_content l @ str)"

lemma cb_Write_empty:
  assumes pool: "node_pool_ok pool blk" and rep: "cb_rep blk b [] []" and str: "len = int (length str)"
  shows "\<exists>b' pre' post'. cb_Write pool blk str len b = Some (len, b') \<and> cb_rep blk b' pre' post' \<and> bytes (pre' @ post') = str"
proof -
  have b: "cb_read b = None" "cb_write b = None" "finite (dom (cb_heap b))" using rep by (simp_all add: rep_empty)
  obtain a l where a: "new_node pool blk b = (a, b\<lparr>cb_heap := (cb_heap b)(a \<mapsto> (l, None)), cb_count := cb_count b + 1\<rparr>)"
    "cb_heap b a = None" "node_ok blk (a, l)" "lb_content l = []"
    using new_node_ok [OF pool b(3)] by blast
  obtain l' where l': "lb_Write (Some str) len l = Some (min len blk, l')" "node_ok blk (a, l')"
    "lb_content l' = take (nat (min len blk)) str"
    using write_empty_node [OF a(3,4), of len str] str by auto
  let ?b = "put_buf a l' (b\<lparr>cb_heap := (cb_heap b)(a \<mapsto> (l, None)), cb_count := cb_count b + 1, cb_end := Some a\<rparr>)\<lparr>cb_read := Some a\<rparr>"
  have n: "cb_nodes blk ?b [(a, l')]" using b(3) l'(2) by (simp add: cb_nodes_def put_buf_def)
  have step: "cb_Write pool blk str len b =
    (if min len blk \<ge> len then Some (min len blk, ?b\<lparr>cb_write := Some a\<rparr>)
     else write_loop pool blk str len (Some a) None (min len blk) ?b)"
    unfolding cb_Write_def using a(1) b l'(1) by (subst write_loop.simps) (simp add: Let_def)
  show ?thesis
  proof (cases "len \<le> blk")
    case True
    then show ?thesis
      using step n l'(3) str by (intro exI [of _ "?b\<lparr>cb_write := Some a\<rparr>"] exI [of _ "[]"] exI [of _ "[(a, l')]"]) (simp add: cb_rep_def)
  next
    case False
    have blk: "0 < blk" using pool by (simp add: node_pool_ok_def)
    obtain b' mid post' where r: "write_loop pool blk str len (Some a) None blk ?b = Some (len, b')"
      "cb_nodes blk b' ([(a, l')] @ mid @ post')" "cb_write b' = first_of post'" "post' \<noteq> []"
      "bytes (tl post') = []" "bytes (mid @ post') = drop (nat blk) str"
      using write_loop_rest [OF pool, of ?b "[]" a l' "[]" blk len str] n blk False str by auto
    then show ?thesis
      using step False l'(3) by (intro exI [of _ b'] exI [of _ "(a, l') # mid"] exI [of _ post']) (simp add: cb_rep_def)
  qed
qed

lemma cb_Write_ok:
  assumes pool: "node_pool_ok pool blk" and rep: "cb_rep blk b pre post" and str: "len = int (length str)"
  shows "\<exists>b' pre' post'. cb_Write pool blk str len b = Some (len, b') \<and> cb_rep blk b' pre' post' \<and>
    bytes (pre' @ post') = bytes pre @ squeezed str post"
proof (cases post)
  case Nil
  then have "pre = []" using rep by (simp add: cb_rep_def)
  then show ?thesis using cb_Write_empty [OF pool _ str, of b] rep Nil by (auto simp: squeezed_def)
next
  case (Cons x ys)
  obtain t l where x: "x = (t, l)" by (cases x)
  have n: "cb_nodes blk b (pre @ (t, l) # ys)" "cb_write b = Some t" "bytes ys = []"
    using rep by (simp_all add: cb_rep_def Cons x)
  have ok: "node_ok blk (t, l)" using n(1) by (simp add: cb_nodes_def)
  define m where "m = min len (int (lb_free l))"
  obtain l' where l': "lb_Write (Some str) len l = Some (m, l')" "node_ok blk (t, l')"
    "lb_content l' = (if lb_read l < lb_write l \<and> int (lb_free l) < len then take (lb_free l) str @ lb_content l
       else lb_content l @ take (nat m) str)"
    using write_node [OF ok, of len str] str unfolding m_def by auto
  let ?b = "put_buf t l' b"
  obtain y where rd: "cb_read b = Some y" using n(1) by (cases pre) (auto simp: cb_nodes_def)
  have nb: "cb_nodes blk ?b (pre @ (t, l') # ys)" by (rule nodes_put [OF n(1) l'(2)])
  have step: "cb_Write pool blk str len b =
    (if m \<ge> len then Some (m, ?b\<lparr>cb_write := Some t\<rparr>) else write_loop pool blk str len (Some t) (first_of ys) m ?b)"
    unfolding cb_Write_def using n(2) nodes_lookup [OF n(1)] l'(1) rd by (subst write_loop.simps) (simp add: Let_def)
  show ?thesis
  proof (cases "len \<le> int (lb_free l)")
    case True
    then have m: "m = len" by (simp add: m_def)
    have "lb_content l' = squeezed str post"
      using l'(3) True m str by (simp add: squeezed_def Cons x)
    then show ?thesis
      using step m nb n(3) by (intro exI [of _ "?b\<lparr>cb_write := Some t\<rparr>"] exI [of _ pre] exI [of _ "(t, l') # ys"]) (simp add: cb_rep_def)
  next
    case False
    then have m: "m = int (lb_free l)" by (simp add: m_def)
    obtain b' mid post' where r: "write_loop pool blk str len (Some t) (first_of ys) m ?b = Some (len, b')"
      "cb_nodes blk b' ((pre @ [(t, l')]) @ mid @ post')" "cb_write b' = first_of post'" "post' \<noteq> []"
      "bytes (tl post') = []" "bytes (mid @ post') = drop (nat m) str"
      using write_loop_rest [OF pool, of ?b pre t l' ys m len str] nb n(3) False m str by auto
    have "lb_content l' @ drop (nat m) str = squeezed str post"
      using l'(3) m False str by (simp add: squeezed_def Cons x)
    then show ?thesis
      using step False m r by (intro exI [of _ b'] exI [of _ "pre @ (t, l') # mid"] exI [of _ post']) (simp add: cb_rep_def)
  qed
qed

section \<open>Reading\<close>

text \<open>What a read takes from each node, and what is in the buffer of the caller after it.\<close>

fun pieces :: "nat \<Rightarrow> nodes \<Rightarrow> byte list list" where
  "pieces n [] = []"
| "pieces n (x # xs) =
     (if n \<le> length (lb_content (snd x)) then [take n (lb_content (snd x))]
      else lb_content (snd x) # pieces (n - length (lb_content (snd x))) xs)"

fun overlay :: "byte list list \<Rightarrow> byte list \<Rightarrow> byte list" where
  "overlay [] res = res"
| "overlay (p # ps) res = overlay ps (p @ drop (length p) res)"

lemma pieces_concat: "concat (pieces n xs) = take n (bytes xs)"
  by (induction n xs rule: pieces.induct) auto

lemma nodes_delete:
  assumes "cb_nodes blk b ((t, l) # ys)"
  shows "cb_nodes blk ((delete_node t b)\<lparr>cb_read := first_of ys\<rparr>) ys"
proof -
  have h: "cb_heap b t = Some (l, first_of ys)" using nodes_lookup [of blk b "[]" t l ys] assms by simp
  have "t \<notin> fst ` set ys" using assms by (simp add: cb_nodes_def)
  then show ?thesis using assms h by (auto simp: cb_nodes_def delete_node_def seg_frame)
qed

lemma leave_simps:
  "cb_write b \<noteq> Some t \<Longrightarrow> leave_node t nxt b = delete_node t b"
  "cb_write b = Some t \<Longrightarrow> leave_node t nxt b =
     delete_node t (case nxt of Some n \<Rightarrow> b\<lparr>cb_write := Some n\<rparr> | None \<Rightarrow> cb_Reset b)"
  by (simp_all add: leave_node_def)

lemma delete_simps [simp]:
  "cb_write (delete_node t b) = cb_write b" "delete_node t (b\<lparr>cb_write := w\<rparr>) = (delete_node t b)\<lparr>cb_write := w\<rparr>"
  "(delete_node t b)\<lparr>cb_read := r, cb_write := w\<rparr> = (delete_node t (b\<lparr>cb_write := w\<rparr>))\<lparr>cb_read := r\<rparr>"
  by (simp_all add: delete_node_def)

text \<open>Leaving the first node.\<close>

lemma rep_leave:
  assumes "cb_rep blk b pre post" "pre @ post = (t, l) # zs" "cb_read b = Some t"
  shows "\<exists>pre' post'. cb_rep blk ((leave_node t (first_of zs) b)\<lparr>cb_read := first_of zs\<rparr>) pre' post' \<and> pre' @ post' = zs"
proof (cases pre)
  case (Cons x pre2)
  then have x: "x = (t, l)" "zs = pre2 @ post" using assms(2) by simp_all
  have post: "post \<noteq> []" using assms(1) Cons by (auto simp: cb_rep_def)
  have n: "cb_nodes blk b ((t, l) # zs)" using assms(1,2) by (simp add: cb_rep_def)
  have "cb_write b \<noteq> Some t"
    using n post assms(1) x(2) by (cases post) (auto simp: cb_rep_def cb_nodes_def)
  then have "cb_rep blk ((leave_node t (first_of zs) b)\<lparr>cb_read := first_of zs\<rparr>) pre2 post"
    using nodes_delete [OF n] assms(1) x(2) post by (simp add: leave_simps cb_rep_def)
  then show ?thesis using x(2) by blast
next
  case Nil
  then have post: "post = (t, l) # zs" using assms(2) by simp
  have n: "cb_nodes blk b ((t, l) # zs)" "cb_write b = Some t" "bytes zs = []" using assms(1) by (simp_all add: cb_rep_def Nil post)
  have "cb_rep blk ((leave_node t (first_of zs) b)\<lparr>cb_read := first_of zs\<rparr>) [] zs"
  proof (cases zs)
    case Nil
    then show ?thesis
      using nodes_delete [OF n(1)] n(2) by (simp add: leave_simps rep_empty cb_Reset_def delete_node_def cb_nodes_def)
  next
    case (Cons y ys)
    then have "bytes (tl zs) = []" using n(3) by simp
    then show ?thesis
      using nodes_delete [OF n(1)] n(2) Cons by (simp add: leave_simps cb_rep_def cb_nodes_def delete_node_def)
  qed
  then show ?thesis by (metis append_Nil)
qed

lemma rep_put:
  assumes "cb_rep blk b pre post" "pre @ post = (t, l) # zs" "node_ok blk (t, l')"
  shows "\<exists>pre' post'. cb_rep blk (put_buf t l' b) pre' post' \<and> pre' @ post' = (t, l') # zs"
proof (cases pre)
  case (Cons x pre2)
  then have x: "zs = pre2 @ post" using assms(2) by simp
  have "cb_nodes blk b ([] @ (t, l) # zs)" using assms(1,2) by (simp add: cb_rep_def)
  then have "cb_nodes blk (put_buf t l' b) ((t, l') # zs)" using nodes_put [OF _ assms(3)] by (metis append_Nil)
  then have "cb_rep blk (put_buf t l' b) ((t, l') # pre2) post" using assms(1) x Cons by (auto simp: cb_rep_def)
  then show ?thesis using x by (metis append_Cons)
next
  case Nil
  then have post: "post = (t, l) # zs" using assms(2) by simp
  have "cb_nodes blk b ([] @ (t, l) # zs)" using assms(1,2) by (simp add: cb_rep_def)
  then have "cb_nodes blk (put_buf t l' b) ((t, l') # zs)" using nodes_put [OF _ assms(3)] by (metis append_Nil)
  then have "cb_rep blk (put_buf t l' b) [] ((t, l') # zs)" using assms(1) by (simp add: cb_rep_def Nil post)
  then show ?thesis by (metis append_Nil)
qed

lemma read_loop_ok:
  "cb_rep blk (b\<lparr>cb_read := first_of (pre @ post)\<rparr>) pre post \<Longrightarrow> 0 \<le> cur \<Longrightarrow> cur \<le> len \<Longrightarrow> nat (len - cur) \<le> length res \<Longrightarrow>
   \<exists>b' pre' post'. read_loop len (first_of (pre @ post)) cur res b =
       Some (cur + int (length (take (nat (len - cur)) (bytes (pre @ post)))), overlay (pieces (nat (len - cur)) (pre @ post)) res, b') \<and>
     cb_rep blk b' pre' post' \<and> bytes (pre' @ post') = drop (nat (len - cur)) (bytes (pre @ post))"
proof (induction "pre @ post" arbitrary: b pre post cur res)
  case Nil
  then have "cb_rep blk (b\<lparr>cb_read := None\<rparr>) [] []" by simp
  then show ?case
    using Nil.hyps by (subst read_loop.simps) (auto intro!: exI [of _ "[]"])
next
  case (Cons x zs)
  obtain t l where x: "x = (t, l)" by (cases x)
  let ?b = "b\<lparr>cb_read := Some t\<rparr>" and ?n = "nat (len - cur)"
  have rep: "cb_rep blk ?b pre post" and e: "pre @ post = (t, l) # zs"
    using Cons.prems(1) Cons.hyps(2) by (simp_all add: x flip: Cons.hyps(2))
  have nodes: "cb_nodes blk ?b ((t, l) # zs)" using rep e by (simp add: cb_rep_def)
  have h: "cb_heap b t = Some (l, first_of zs)" using nodes_lookup [of blk ?b "[]" t l zs] nodes by simp
  have ok: "node_ok blk (t, l)" using nodes by (simp add: cb_nodes_def)
  let ?c = "lb_content l"
  obtain l' where l': "lb_Read False (len - cur) l = Some (int (length (take ?n ?c)), take ?n ?c, l')" "node_ok blk (t, l')"
    "lb_content l' = drop ?n ?c"
    using read_node [OF ok, of "len - cur"] Cons.prems(3) by auto
  have cp: "copy_to (take ?n ?c) res = Some (take ?n ?c @ drop (length (take ?n ?c)) res)"
    using Cons.prems(4) by (simp add: copy_to_def)
  let ?res = "take ?n ?c @ drop (length (take ?n ?c)) res"
  have step: "read_loop len (Some t) cur res b =
    (if cur + int (length (take ?n ?c)) \<ge> len then Some (cur + int (length (take ?n ?c)), ?res, (put_buf t l' b)\<lparr>cb_read := Some t\<rparr>)
     else read_loop len (first_of zs) (cur + int (length (take ?n ?c))) ?res (leave_node t (first_of zs) (put_buf t l' b)))"
    using h l'(1) cp by (subst read_loop.simps) simp
  obtain pre1 post1 where rep1: "cb_rep blk (put_buf t l' ?b) pre1 post1" "pre1 @ post1 = (t, l') # zs"
    using rep_put [OF rep e l'(2)] by blast
  show ?case
  proof (cases "?n \<le> length ?c")
    case True
    have "(put_buf t l' b)\<lparr>cb_read := Some t\<rparr> = put_buf t l' ?b" by (simp add: put_buf_def)
    then show ?thesis
      using step True rep1 l'(3) Cons.prems(2,3) unfolding e
      by (intro exI [of _ "put_buf t l' ?b"] exI [of _ pre1] exI [of _ post1]) simp
  next
    case False
    let ?cur = "cur + int (length ?c)"
    obtain pre2 post2 where rep2: "cb_rep blk ((leave_node t (first_of zs) (put_buf t l' ?b))\<lparr>cb_read := first_of zs\<rparr>) pre2 post2"
      "pre2 @ post2 = zs"
      using rep_leave [OF rep1(1,2)] by auto
    have b: "(leave_node t (first_of zs) (put_buf t l' ?b))\<lparr>cb_read := first_of zs\<rparr> =
        (leave_node t (first_of zs) (put_buf t l' b))\<lparr>cb_read := first_of zs\<rparr>"
      by (simp add: leave_node_def put_buf_def delete_node_def cb_Reset_def split: option.splits)
    have n: "nat (len - ?cur) = ?n - length ?c" "?cur \<le> len" using False by linarith+
    obtain b' pre' post' where r: "read_loop len (first_of zs) ?cur ?res (leave_node t (first_of zs) (put_buf t l' b)) =
        Some (?cur + int (length (take (?n - length ?c) (bytes zs))), overlay (pieces (?n - length ?c) zs) ?res, b')"
      "cb_rep blk b' pre' post'" "bytes (pre' @ post') = drop (?n - length ?c) (bytes zs)"
    proof -
      have "cb_rep blk ((leave_node t (first_of zs) (put_buf t l' b))\<lparr>cb_read := first_of (pre2 @ post2)\<rparr>) pre2 post2"
        using rep2 b by simp
      moreover have "nat (len - ?cur) \<le> length ?res" using n(1) Cons.prems(4) by simp
      ultimately show ?thesis
        using that Cons.hyps(1) [of pre2 post2 "leave_node t (first_of zs) (put_buf t l' b)" ?cur ?res] Cons.prems(2) n(2)
        unfolding rep2(2) n(1) by fastforce
    qed
    have t: "take ?n ?c = ?c" "\<not> len \<le> cur + int (length ?c)" using False by simp_all
    have "read_loop len (Some t) cur res b =
        Some (cur + int (length (take ?n (bytes ((t, l) # zs)))), overlay (pieces ?n ((t, l) # zs)) res, b')"
      using step r(1) t False by simp
    moreover have "bytes (pre' @ post') = drop ?n (bytes ((t, l) # zs))" using r(3) False by simp
    ultimately show ?thesis using r(2) unfolding e first_of_simps fst_conv by blast
  qed
qed

lemma rep_read: "cb_rep blk b pre post \<Longrightarrow> cb_read b = first_of (pre @ post)"
  by (cases "pre @ post") (auto simp: cb_rep_def cb_nodes_def)

text \<open>
  A read takes what is there, up to \<open>len\<close> bytes; but each node writes its piece to the start of the
  buffer of the caller.
\<close>

lemma cb_Read_ok:
  assumes rep: "cb_rep blk b pre post" and len: "0 \<le> len" "nat len \<le> length res"
  shows "\<exists>b' pre' post'. cb_Read res len b =
      Some (int (length (take (nat len) (bytes (pre @ post)))), overlay (pieces (nat len) (pre @ post)) res, b') \<and>
    cb_rep blk b' pre' post' \<and> bytes (pre' @ post') = drop (nat len) (bytes (pre @ post))"
proof (cases "pre @ post")
  case Nil
  then have "cb_read b = None" "cb_rep blk b [] []" using rep rep_read [OF rep] by simp_all
  then show ?thesis unfolding Nil cb_Read_def by (intro exI [of _ b] exI [of _ "[]"]) simp
next
  case (Cons x zs)
  have "b\<lparr>cb_read := first_of (pre @ post)\<rparr> = b" using rep_read [OF rep] by simp
  then have "cb_rep blk (b\<lparr>cb_read := first_of (pre @ post)\<rparr>) pre post" using rep by simp
  moreover have "cb_Read res len b = read_loop len (first_of (pre @ post)) 0 res b"
    using rep_read [OF rep] Cons by (simp add: cb_Read_def)
  ultimately show ?thesis using read_loop_ok [of blk pre post b 0 len res] len by simp
qed

text \<open>\<open>Clear\<close> of a part is a read that copies nothing.\<close>

lemma clear_loop_read:
  "cb_rep blk (b\<lparr>cb_read := first_of (pre @ post)\<rparr>) pre post \<Longrightarrow> 0 \<le> cur \<Longrightarrow> cur < len \<Longrightarrow> nat (len - cur) \<le> length res \<Longrightarrow>
   clear_loop len (first_of (pre @ post)) cur b = map_option (\<lambda>(_, _, b'). b') (read_loop len (first_of (pre @ post)) cur res b)"
proof (induction "pre @ post" arbitrary: b pre post cur res)
  case Nil
  then show ?case by (subst read_loop.simps, subst clear_loop.simps) auto
next
  case (Cons x zs)
  obtain t l where x: "x = (t, l)" by (cases x)
  let ?b = "b\<lparr>cb_read := Some t\<rparr>" and ?n = "nat (len - cur)"
  have rep: "cb_rep blk ?b pre post" and e: "pre @ post = (t, l) # zs"
    using Cons.prems(1) Cons.hyps(2) by (simp_all add: x flip: Cons.hyps(2))
  have nodes: "cb_nodes blk ?b ((t, l) # zs)" using rep e by (simp add: cb_rep_def)
  have h: "cb_heap b t = Some (l, first_of zs)" using nodes_lookup [of blk ?b "[]" t l zs] nodes by simp
  have ok: "node_ok blk (t, l)" using nodes by (simp add: cb_nodes_def)
  let ?c = "lb_content l"
  obtain l' where l': "lb_Read False (len - cur) l = Some (int (length (take ?n ?c)), take ?n ?c, l')" "node_ok blk (t, l')"
    using read_node [OF ok, of "len - cur"] Cons.prems(3) by auto
  have cl: "lb_Clear (len - cur) l = Some (int (length (take ?n ?c)), l')"
    using l'(1) Clear_Read [of l "len - cur"] ok Cons.prems(3) by (simp add: lb_Read_def node_ok_def)
  have cp: "copy_to (take ?n ?c) res = Some (take ?n ?c @ drop (length (take ?n ?c)) res)"
    using Cons.prems(4) by (simp add: copy_to_def)
  let ?res = "take ?n ?c @ drop (length (take ?n ?c)) res"
  obtain pre1 post1 where rep1: "cb_rep blk (put_buf t l' ?b) pre1 post1" "pre1 @ post1 = (t, l') # zs"
    using rep_put [OF rep e l'(2)] by blast
  obtain pre2 post2 where rep2: "cb_rep blk ((leave_node t (first_of zs) (put_buf t l' ?b))\<lparr>cb_read := first_of zs\<rparr>) pre2 post2"
    "pre2 @ post2 = zs"
    using rep_leave [OF rep1(1,2)] by auto
  have b: "(leave_node t (first_of zs) (put_buf t l' ?b))\<lparr>cb_read := first_of zs\<rparr> =
      (leave_node t (first_of zs) (put_buf t l' b))\<lparr>cb_read := first_of zs\<rparr>"
    by (simp add: leave_node_def put_buf_def delete_node_def cb_Reset_def split: option.splits)
  have IH: "clear_loop len (first_of zs) (cur + int (length ?c)) (leave_node t (first_of zs) (put_buf t l' b)) =
      map_option (\<lambda>(_, _, b'). b') (read_loop len (first_of zs) (cur + int (length ?c)) ?res (leave_node t (first_of zs) (put_buf t l' b)))"
    if "\<not> ?n \<le> length ?c"
  proof -
    have "cb_rep blk ((leave_node t (first_of zs) (put_buf t l' b))\<lparr>cb_read := first_of (pre2 @ post2)\<rparr>) pre2 post2"
      using rep2 b by simp
    moreover have "nat (len - (cur + int (length ?c))) \<le> length ?res" "cur + int (length ?c) < len" using that Cons.prems(4) by auto
    ultimately show ?thesis
      using Cons.hyps(1) [of pre2 post2 "leave_node t (first_of zs) (put_buf t l' b)" "cur + int (length ?c)" ?res] Cons.prems(2)
      unfolding rep2(2) by fastforce
  qed
  show ?case
  proof (cases "?n \<le> length ?c")
    case True
    then show ?thesis
      using h l'(1) cl cp Cons.prems(2,3) unfolding e by (subst read_loop.simps, subst clear_loop.simps) simp
  next
    case False
    then have "take ?n ?c = ?c" "\<not> len \<le> cur + int (length ?c)" by simp_all
    then show ?thesis
      using h l'(1) cl cp IH [OF False] unfolding e by (subst read_loop.simps, subst clear_loop.simps) simp
  qed
qed

lemma free_nodes_ok:
  "cb_nodes blk (b\<lparr>cb_read := first_of xs\<rparr>) xs \<Longrightarrow>
   \<exists>b'. free_nodes (first_of xs) b = Some b' \<and> finite (dom (cb_heap b'))"
proof (induction xs arbitrary: b)
  case Nil
  then show ?case by (subst free_nodes.simps) (simp add: cb_nodes_def)
next
  case (Cons x xs)
  obtain t l where x: "x = (t, l)" by (cases x)
  have n: "cb_nodes blk (b\<lparr>cb_read := Some t\<rparr>) ((t, l) # xs)" using Cons.prems by (simp add: x)
  have "cb_nodes blk ((delete_node t b)\<lparr>cb_read := first_of xs\<rparr>) xs"
    using nodes_delete [OF n] by (simp add: delete_node_def)
  then show ?case
    using Cons.IH nodes_lookup [of blk "b\<lparr>cb_read := Some t\<rparr>" "[]" t l xs] n x by (subst free_nodes.simps) simp
qed

lemma cb_Clear_ok:
  assumes rep: "cb_rep blk b pre post" and len: "0 \<le> len"
  shows "\<exists>b' pre' post'. cb_Clear len b = Some b' \<and> cb_rep blk b' pre' post' \<and>
    bytes (pre' @ post') = (if len = 0 then [] else drop (nat len) (bytes (pre @ post)))"
proof -
  have b: "b\<lparr>cb_read := first_of (pre @ post)\<rparr> = b" using rep_read [OF rep] by simp
  show ?thesis
  proof (cases "len = 0")
    case True
    obtain b' where "free_nodes (first_of (pre @ post)) b = Some b'" "finite (dom (cb_heap b'))"
      using free_nodes_ok [of blk "pre @ post" b] rep b by (auto simp: cb_rep_def)
    then show ?thesis
      using rep_read [OF rep] True
      by (intro exI [of _ "cb_Reset b'"] exI [of _ "[]"]) (simp add: cb_Clear_def rep_empty cb_Reset_def)
  next
    case False
    let ?res = "replicate (nat len) (0 :: byte)"
    have r: "cb_rep blk (b\<lparr>cb_read := first_of (pre @ post)\<rparr>) pre post" using rep b by simp
    have "cb_Clear len b = map_option (\<lambda>(_, _, b'). b') (read_loop len (first_of (pre @ post)) 0 ?res b)"
      using clear_loop_read [OF r, of 0 len ?res] rep_read [OF rep] False len by (simp add: cb_Clear_def)
    moreover obtain b' pre' post' n res where "read_loop len (first_of (pre @ post)) 0 ?res b = Some (n, res, b')"
      "cb_rep blk b' pre' post'" "bytes (pre' @ post') = drop (nat len) (bytes (pre @ post))"
      using read_loop_ok [OF r, of 0 len ?res] len by auto
    ultimately show ?thesis using False by (intro exI [of _ b'] exI [of _ pre'] exI [of _ post']) simp
  qed
qed

lemma sum_loop_stop:
  "cb_nodes blk (b\<lparr>cb_read := temp\<rparr>) (xs @ (t, l) # ys) \<Longrightarrow>
   sum_loop f (Some t) temp cur b = Some (cur + sum_list (map (f \<circ> snd) xs) + f l)"
proof (induction xs arbitrary: temp cur)
  case Nil
  then show ?case using nodes_lookup [OF Nil] by (subst sum_loop.simps) (auto simp: cb_nodes_def)
next
  case (Cons x xs)
  obtain a k where x: "x = (a, k)" by (cases x)
  obtain n where n: "temp = Some a" "cb_heap b a = Some (k, n)" "cb_nodes blk (b\<lparr>cb_read := n\<rparr>) (xs @ (t, l) # ys)" "a \<noteq> t"
    using Cons.prems x by (auto simp: cb_nodes_def)
  then show ?case using Cons.IH [OF n(3)] x by (subst sum_loop.simps) (simp add: o_def)
qed

lemma length_bytes: "\<forall>x \<in> set xs. node_ok blk x \<Longrightarrow> int (length (bytes xs)) = sum_list (map (lb_GetCanReadLength \<circ> snd) xs)"
  by (induction xs) (auto simp: node_ok_def content_length)

lemma cb_GetCanReadLength_ok:
  assumes "cb_rep blk b pre post"
  shows "cb_GetCanReadLength b = Some (int (length (bytes (pre @ post))))"
proof (cases post)
  case Nil
  then show ?thesis using assms rep_read [OF assms] by (simp add: cb_rep_def cb_GetCanReadLength_def)
next
  case (Cons x ys)
  obtain t l where x: "x = (t, l)" by (cases x)
  have n: "cb_nodes blk b (pre @ (t, l) # ys)" "cb_write b = Some t" "bytes ys = []"
    using assms by (simp_all add: cb_rep_def Cons x)
  have "b\<lparr>cb_read := cb_read b\<rparr> = b" by simp
  then have "sum_loop lb_GetCanReadLength (Some t) (cb_read b) 0 b =
      Some (sum_list (map (lb_GetCanReadLength \<circ> snd) pre) + lb_GetCanReadLength l)"
    using sum_loop_stop [where blk = blk and b = b and temp = "cb_read b" and xs = pre and t = t and l = l and ys = ys] n(1) by simp
  moreover have "int (length (bytes (pre @ [(t, l)]))) = sum_list (map (lb_GetCanReadLength \<circ> snd) pre) + lb_GetCanReadLength l"
    using length_bytes [of "pre @ [(t, l)]" blk] n(1) by (simp add: cb_nodes_def)
  moreover obtain r where "cb_read b = Some r" using rep_read [OF assms] Cons by (cases pre) auto
  ultimately show ?thesis using n(2,3) by (simp add: cb_GetCanReadLength_def Cons x)
qed

section \<open>Reserving memory\<close>

lemma blocks_len_free: "lb_inv l \<Longrightarrow> blocks_len (lb_GetFreeMemoryBlock l) = lb_GetFreeLength l"
  using free_blocks [of l] by (cases "lb_GetFreeMemoryBlock l") (auto simp: blocks_len_def)

lemma empty_blocks:
  assumes "node_ok blk (a, l)" "lb_content l = []"
  shows "blocks_len (lb_GetFreeMemoryBlock l) = blk"
proof -
  have "lb_inv l" "lb_total_size l = blk" using assms(1) by (simp_all add: node_ok_def)
  moreover have "0 \<le> blocks_len (lb_GetFreeMemoryBlock l)" by (simp add: blocks_len_def split: prod.split)
  ultimately show ?thesis using blocks_len_free [of l] empty_free [of l] assms(2) by (simp add: lb_free_def)
qed

lemma reserve_loop_ok:
  assumes pool: "node_pool_ok pool blk"
  shows "cb_nodes blk b ((ds @ [(p, lp)]) @ post) \<Longrightarrow> bytes post = [] \<Longrightarrow> cb_write b = Some w \<Longrightarrow>
    \<exists>n vec' b' post'. reserve_loop pool blk need (Some p) (first_of post) cur vec b = Some (n, vec', b') \<and> need \<le> n \<and>
      cb_nodes blk b' ((ds @ [(p, lp)]) @ post') \<and> cb_write b' = Some w \<and> bytes post' = []"
proof (induction "nat (need - cur)" arbitrary: b ds p lp post cur vec rule: less_induct)
  case less
  show ?case
  proof (cases "cur < need")
    case False
    then show ?thesis
      using less.prems by (subst reserve_loop.simps) (auto intro!: exI [of _ post])
  next
    case True
    obtain t b1 l ys b2 where t: "(case first_of post of Some t \<Rightarrow> (t, b) | None \<Rightarrow> new_node pool blk b) = (t, b1)"
      "SetNext p t b1 = Some b2" "cb_nodes blk b2 ((ds @ [(p, lp)]) @ (t, l) # ys)" "lb_content l = []" "bytes ys = []"
      "cb_read b2 = cb_read b" "cb_write b2 = cb_write b"
      using next_node_plain [OF pool less.prems(1,2)] by blast
    have blk: "0 < blk" using pool by (simp add: node_pool_ok_def)
    have len: "blocks_len (lb_GetFreeMemoryBlock l) = blk"
      using empty_blocks [of blk t l] t(3,4) by (simp add: cb_nodes_def)
    obtain y where rd: "cb_read b2 = Some y" using t(3) by (cases ds) (auto simp: cb_nodes_def)
    have step: "reserve_loop pool blk need (Some p) (first_of post) cur vec b =
        reserve_loop pool blk need (Some t) (first_of ys) (cur + blk) (vec @ blocks_of t (lb_GetFreeMemoryBlock l)) b2"
      using t(1,2,7) nodes_lookup [OF t(3)] rd True len less.prems(3) by (subst reserve_loop.simps) (simp add: Let_def)
    obtain n vec' b' post' where "reserve_loop pool blk need (Some t) (first_of ys) (cur + blk)
        (vec @ blocks_of t (lb_GetFreeMemoryBlock l)) b2 = Some (n, vec', b')" "need \<le> n"
      "cb_nodes blk b' (((ds @ [(p, lp)]) @ [(t, l)]) @ post')" "cb_write b' = Some w" "bytes post' = []"
      using less.hyps [of "cur + blk" b2 "ds @ [(p, lp)]" t l ys "vec @ blocks_of t (lb_GetFreeMemoryBlock l)"]
        t(3,5,7) less.prems(3) True blk by fastforce
    then show ?thesis using step t(4) by (auto intro!: exI [of _ "(t, l) # post'"])
  qed
qed

lemma cb_reserve_ok:
  assumes pool: "node_pool_ok pool blk" and rep: "cb_rep blk b pre post" and need: "0 < need"
  shows "\<exists>n vec b' pre' post'. cb_GetFreeMemoryBlock pool blk need b = Some (n, vec, b') \<and> need \<le> n \<and>
    cb_rep blk b' pre' post' \<and> bytes (pre' @ post') = bytes (pre @ post)"
proof (cases post)
  case Nil
  then have b: "pre = []" "cb_read b = None" "cb_write b = None" "finite (dom (cb_heap b))"
    using rep rep_empty [of blk b pre] by auto
  obtain a l where a: "new_node pool blk b = (a, b\<lparr>cb_heap := (cb_heap b)(a \<mapsto> (l, None)), cb_count := cb_count b + 1\<rparr>)"
    "cb_heap b a = None" "node_ok blk (a, l)" "lb_content l = []"
    using new_node_ok [OF pool b(4)] by blast
  let ?b = "b\<lparr>cb_heap := (cb_heap b)(a \<mapsto> (l, None)), cb_count := cb_count b + 1, cb_read := Some a, cb_write := Some a\<rparr>"
  have n: "cb_nodes blk ?b (([] @ [(a, l)]) @ [])" "bytes [] = []" "cb_write ?b = Some a"
    using b(4) a(3) by (simp_all add: cb_nodes_def)
  have "cb_GetFreeMemoryBlock pool blk need b =
      reserve_loop pool blk need (Some a) None (blocks_len (lb_GetFreeMemoryBlock l)) (blocks_of a (lb_GetFreeMemoryBlock l)) ?b"
    using a(1) b need by (simp add: cb_GetFreeMemoryBlock_def) (subst reserve_loop.simps, simp add: Let_def)
  moreover obtain k vec b' post' where "reserve_loop pool blk need (Some a) None (blocks_len (lb_GetFreeMemoryBlock l))
      (blocks_of a (lb_GetFreeMemoryBlock l)) ?b = Some (k, vec, b')" "need \<le> k"
    "cb_nodes blk b' (([] @ [(a, l)]) @ post')" "cb_write b' = Some a" "bytes post' = []"
    using reserve_loop_ok [OF pool n] by fastforce
  moreover from this have "cb_rep blk b' [] ((a, l) # post')" by (simp add: cb_rep_def)
  ultimately have "cb_GetFreeMemoryBlock pool blk need b = Some (k, vec, b') \<and> need \<le> k \<and> cb_rep blk b' [] ((a, l) # post') \<and>
    bytes ([] @ (a, l) # post') = bytes (pre @ post)"
    using b(1) Nil a(4) by simp
  then show ?thesis by blast
next
  case (Cons x ys)
  obtain t l where x: "x = (t, l)" by (cases x)
  have n: "cb_nodes blk b ((pre @ [(t, l)]) @ ys)" "bytes ys = []" "cb_write b = Some t"
    using rep by (simp_all add: cb_rep_def Cons x)
  obtain r where rd: "cb_read b = Some r" using rep_read [OF rep] Cons by (cases pre) auto
  have "cb_GetFreeMemoryBlock pool blk need b =
      reserve_loop pool blk need (Some t) (first_of ys) (blocks_len (lb_GetFreeMemoryBlock l)) (blocks_of t (lb_GetFreeMemoryBlock l)) b"
    using n(3) nodes_lookup [of blk b pre t l ys] n(1) rd need
    by (simp add: cb_GetFreeMemoryBlock_def) (subst reserve_loop.simps, simp add: Let_def)
  moreover obtain k vec b' post' where "reserve_loop pool blk need (Some t) (first_of ys) (blocks_len (lb_GetFreeMemoryBlock l))
      (blocks_of t (lb_GetFreeMemoryBlock l)) b = Some (k, vec, b')" "need \<le> k"
    "cb_nodes blk b' ((pre @ [(t, l)]) @ post')" "cb_write b' = Some t" "bytes post' = []"
    using reserve_loop_ok [OF pool n] by blast
  moreover from this have "cb_rep blk b' pre ((t, l) # post')" by (simp add: cb_rep_def)
  ultimately have "cb_GetFreeMemoryBlock pool blk need b = Some (k, vec, b') \<and> need \<le> k \<and> cb_rep blk b' pre ((t, l) # post') \<and>
    bytes (pre @ (t, l) # post') = bytes (pre @ post)"
    using Cons x n(2) by simp
  then show ?thesis by blast
qed

section \<open>Any use of a buffer\<close>

datatype chain_op = CPut "byte list" | CGet nat | CSkip nat | CReserve int

text \<open>
  Writes of strings, reads into large enough buffers (of zeros), calls of \<open>Clear\<close> and reservations of
  memory. The result is the list of the bytes left after each call, as \<open>GetCanReadLength\<close> reports them.
\<close>

fun chain_step :: "node_pool \<Rightarrow> int \<Rightarrow> chain_op \<Rightarrow> cbuf \<Rightarrow> cbuf option" where
  "chain_step pool blk (CPut s) b =
     Option.bind (cb_Write pool blk s (int (length s)) b) (\<lambda>(n, b'). if n = int (length s) then Some b' else None)"
| "chain_step pool blk (CGet k) b =
     Option.bind (cb_GetCanReadLength b) (\<lambda>m.
     Option.bind (cb_Read (replicate k 0) (int k) b) (\<lambda>(n, _, b'). if n = min (int k) m then Some b' else None))"
| "chain_step pool blk (CSkip k) b = cb_Clear (int k) b"
| "chain_step pool blk (CReserve k) b =
     (if 0 < k then Option.bind (cb_GetFreeMemoryBlock pool blk k b) (\<lambda>(n, _, b'). if k \<le> n then Some b' else None)
      else None)"

fun chain_run :: "node_pool \<Rightarrow> int \<Rightarrow> chain_op list \<Rightarrow> cbuf \<Rightarrow> int list option" where
  "chain_run pool blk [] b = Some []"
| "chain_run pool blk (x # ops) b =
     Option.bind (chain_step pool blk x b) (\<lambda>b'.
     Option.bind (cb_GetCanReadLength b') (\<lambda>n. map_option (Cons n) (chain_run pool blk ops b')))"

text \<open>The specification: one number.\<close>

fun count_step :: "chain_op \<Rightarrow> int \<Rightarrow> int" where
  "count_step (CPut s) n = n + int (length s)"
| "count_step (CGet k) n = n - min (int k) n"
| "count_step (CSkip k) n = (if k = 0 then 0 else n - min (int k) n)"
| "count_step (CReserve k) n = n"

fun count_run :: "chain_op list \<Rightarrow> int \<Rightarrow> int list" where
  "count_run [] n = []"
| "count_run (x # ops) n = count_step x n # count_run ops (count_step x n)"

definition reserves :: "chain_op \<Rightarrow> bool" where
  "reserves x \<longleftrightarrow> (case x of CReserve k \<Rightarrow> 0 < k | _ \<Rightarrow> True)"

lemma length_squeezed: "length (squeezed str post) = length str + (case post of [] \<Rightarrow> 0 | x # _ \<Rightarrow> length (lb_content (snd x)))"
  by (auto simp: squeezed_def split: list.splits)

lemma squeezed_bytes:
  assumes "cb_rep blk b pre post"
  shows "length (bytes pre @ squeezed s post) = length (bytes (pre @ post)) + length s"
  using assms by (cases post) (simp_all add: length_squeezed cb_rep_def)

lemma chain_step_ok:
  assumes pool: "node_pool_ok pool blk" and rep: "cb_rep blk b pre post" and x: "reserves x"
  shows "\<exists>b' pre' post'. chain_step pool blk x b = Some b' \<and> cb_rep blk b' pre' post' \<and>
    int (length (bytes (pre' @ post'))) = count_step x (int (length (bytes (pre @ post))))"
proof (cases x)
  case (CPut s)
  obtain b1 pre1 post1 where w: "cb_Write pool blk s (int (length s)) b = Some (int (length s), b1)" "cb_rep blk b1 pre1 post1"
    "bytes (pre1 @ post1) = bytes pre @ squeezed s post"
    using cb_Write_ok [OF pool rep refl] by blast
  then have "int (length (bytes (pre1 @ post1))) = count_step x (int (length (bytes (pre @ post))))"
    using squeezed_bytes [OF rep, of s] CPut by simp
  then show ?thesis using w(1,2) CPut by auto
next
  case (CGet k)
  obtain b1 pre1 post1 where r: "cb_Read (replicate k 0) (int k) b =
      Some (int (length (take k (bytes (pre @ post)))), overlay (pieces k (pre @ post)) (replicate k 0), b1)"
    "cb_rep blk b1 pre1 post1" "bytes (pre1 @ post1) = drop k (bytes (pre @ post))"
    using cb_Read_ok [OF rep, of "int k" "replicate k 0"] by auto
  have k: "int (length (drop k (bytes (pre @ post)))) = count_step x (int (length (bytes (pre @ post))))"
    "int (length (take k (bytes (pre @ post)))) = min (int k) (int (length (bytes (pre @ post))))"
    using CGet by auto
  then have "chain_step pool blk x b = Some b1" using r(1) CGet cb_GetCanReadLength_ok [OF rep] by simp
  then show ?thesis using r(2,3) k(1) by metis
next
  case (CSkip k)
  obtain b1 pre1 post1 where r: "cb_Clear (int k) b = Some b1" "cb_rep blk b1 pre1 post1"
    "bytes (pre1 @ post1) = (if int k = 0 then [] else drop (nat (int k)) (bytes (pre @ post)))"
    using cb_Clear_ok [OF rep, of "int k"] by auto
  then have "int (length (bytes (pre1 @ post1))) = count_step x (int (length (bytes (pre @ post))))"
    using CSkip by auto
  moreover have "chain_step pool blk x b = Some b1" using r(1) CSkip by simp
  ultimately show ?thesis using r(2) by blast
next
  case (CReserve k)
  then show ?thesis using cb_reserve_ok [OF pool rep, of k] x by (fastforce simp: reserves_def)
qed

lemma chain_run_ok:
  assumes pool: "node_pool_ok pool blk"
  shows "cb_rep blk b pre post \<Longrightarrow> list_all reserves ops \<Longrightarrow>
    chain_run pool blk ops b = Some (count_run ops (int (length (bytes (pre @ post)))))"
proof (induction ops arbitrary: b pre post)
  case Nil
  show ?case by simp
next
  case (Cons x ops)
  obtain b1 pre1 post1 where x: "chain_step pool blk x b = Some b1" "cb_rep blk b1 pre1 post1"
    "int (length (bytes (pre1 @ post1))) = count_step x (int (length (bytes (pre @ post))))"
    using chain_step_ok [OF pool Cons.prems(1), of x] Cons.prems(2) unfolding list.pred_inject by blast
  then show ?case using Cons.IH [OF x(2)] Cons.prems(2) cb_GetCanReadLength_ok [OF x(2)] by simp
qed

lemma CBuffer_rep: "finite (dom h) \<Longrightarrow> cb_rep blk (CBuffer h) [] []"
  by (simp add: rep_empty CBuffer_def)

text \<open>
  C21. Over any writes, reads, skips and reservations of memory a chain of ring buffers keeps the number of
  bytes: every call returns, a write takes all of its string, a read gives what is there up to its limit,
  \<open>Clear\<close> of 0 empties the buffer, and a reservation gives at least the memory asked for and no content.
\<close>

theorem chain_count:
  assumes "node_pool_ok pool blk" "finite (dom h)" "list_all reserves ops"
  shows "chain_run pool blk ops (CBuffer h) = Some (count_run ops 0)"
  using chain_run_ok [OF assms(1) CBuffer_rep [OF assms(2)] assms(3)] by simp

text \<open>A pool that gives the lowest free address and a block of four bytes.\<close>

definition small_pool :: node_pool where
  "small_pool h = (LEAST a. h a = None, Some [0, 0, 0, 0])"

lemma small_pool_ok: "node_pool_ok small_pool 4"
proof -
  have "h (LEAST a. h a = None) = None" if "finite (dom h)" for h :: node_heap
    using LeastI_ex [of "\<lambda>a. h a = None"] ex_new_if_finite [OF infinite_UNIV_nat that] by (metis domIff)
  then show ?thesis by (simp add: node_pool_ok_def small_pool_def)
qed

theorem chain_count_witness:
  "chain_run small_pool 4 [CPut [1, 2, 3], CPut [4, 5, 6], CGet 2, CReserve 9, CSkip 3, CGet 4] (CBuffer (\<lambda>_. None)) =
   Some [3, 6, 4, 4, 1, 0]"
  using chain_count [OF small_pool_ok, of "\<lambda>_. None" "[CPut [1, 2, 3], CPut [4, 5, 6], CGet 2, CReserve 9, CSkip 3, CGet 4]"]
  by (simp add: reserves_def)

subsection \<open>Over the border of a node\<close>

text \<open>
  Two strings written over the border of a node and read in one call: the first byte of the second
  string comes before the first string, and the piece of the second node is copied over that of the
  first one.
\<close>

lemma small_pool_simps:
  "small_pool (\<lambda>_. None) = (0, Some [0, 0, 0, 0])" "small_pool [0 \<mapsto> x] = (1, Some [0, 0, 0, 0])"
  by (auto simp: small_pool_def intro!: Least_equality split: if_splits)

definition ring4 :: "int \<Rightarrow> int \<Rightarrow> byte list \<Rightarrow> bool \<Rightarrow> loop_buf" where
  "ring4 r w m c = \<lparr>lb_total_size = 4, lb_read = r, lb_write = w, lb_mem = m, lb_null = False, lb_can_read = c\<rparr>"

lemma ring4_new: "CLoopBuffer (Some [0, 0, 0, 0]) 4 = ring4 0 0 [0, 0, 0, 0] False"
  by (simp add: CLoopBuffer_def ring4_def)

lemma ring4_calls:
  "lb_Write (Some [1, 2, 3]) 3 (ring4 0 0 [0, 0, 0, 0] False) = Some (3, ring4 0 3 [1, 2, 3, 0] False)"
  "lb_Write (Some [4, 5, 6]) 3 (ring4 0 3 [1, 2, 3, 0] False) = Some (1, ring4 3 3 [1, 2, 3, 4] True)"
  "lb_Write (Some [5, 6]) 2 (ring4 0 0 [0, 0, 0, 0] False) = Some (2, ring4 0 2 [5, 6, 0, 0] False)"
  "lb_Read False 6 (ring4 3 3 [1, 2, 3, 4] True) = Some (4, [4, 1, 2, 3], ring4 0 0 [1, 2, 3, 4] False)"
  "lb_Read False 2 (ring4 0 2 [5, 6, 0, 0] False) = Some (2, [5, 6], ring4 0 0 [5, 6, 0, 0] False)"
  by (simp_all add: ring4_def lb_Write_def lb_do_Write_def lb_Read_def lb_do_Read_def lb_reset_def lb_at_def mem_put_def mem_get_def mem_slice_def)

lemma first_string:
  "cb_Write small_pool 4 [1, 2, 3] 3 (CBuffer (\<lambda>_. None)) = Some (3, \<lparr>cb_count = 1, cb_read = Some 0, cb_write = Some 0, cb_end = Some 0,
     cb_heap = [0 \<mapsto> (ring4 0 3 [1, 2, 3, 0] False, None)]\<rparr>)"
  unfolding cb_Write_def
  by (subst write_loop.simps) (simp add: CBuffer_def new_node_def small_pool_simps put_buf_def ring4_new ring4_calls)

lemma second_string:
  "cb_Write small_pool 4 [4, 5, 6] 3 \<lparr>cb_count = 1, cb_read = Some 0, cb_write = Some 0, cb_end = Some 0,
     cb_heap = [0 \<mapsto> (ring4 0 3 [1, 2, 3, 0] False, None)]\<rparr> =
   Some (3, \<lparr>cb_count = 2, cb_read = Some 0, cb_write = Some 1, cb_end = Some 1,
     cb_heap = [0 \<mapsto> (ring4 3 3 [1, 2, 3, 4] True, Some 1), 1 \<mapsto> (ring4 0 2 [5, 6, 0, 0] False, None)]\<rparr>)"
  unfolding cb_Write_def
  by (subst write_loop.simps, simp add: put_buf_def ring4_calls, subst write_loop.simps)
    (simp add: new_node_def small_pool_simps SetNext_def put_buf_def ring4_new ring4_calls fun_upd_twist)

lemma strings_read:
  "map_option (\<lambda>(n, res, _). (n, res)) (cb_Read (replicate 6 0) 6 \<lparr>cb_count = 2, cb_read = Some 0, cb_write = Some 1, cb_end = Some 1,
     cb_heap = [0 \<mapsto> (ring4 3 3 [1, 2, 3, 4] True, Some 1), 1 \<mapsto> (ring4 0 2 [5, 6, 0, 0] False, None)]\<rparr>) =
   Some (6, [5, 6, 2, 3, 0, 0])"
  unfolding cb_Read_def
  by (subst read_loop.simps,
      simp add: ring4_calls copy_to_def numeral_eq_Suc leave_node_def delete_node_def put_buf_def,
      subst read_loop.simps)
    (simp add: ring4_calls copy_to_def)

theorem chain_scrambled:
  "Option.bind (cb_Write small_pool 4 [1, 2, 3] 3 (CBuffer (\<lambda>_. None))) (\<lambda>(_, b1).
   Option.bind (cb_Write small_pool 4 [4, 5, 6] 3 b1) (\<lambda>(_, b2).
   map_option (\<lambda>(n, res, _). (n, res)) (cb_Read (replicate 6 0) 6 b2))) = Some (6, [5, 6, 2, 3, 0, 0])"
  by (simp only: first_string second_string strings_read Option.bind.simps prod.case)

end
