(* ===== verification/Pool_Shared_Ptr.thy ===== *)
theory Pool_Shared_Ptr
  imports Memory_Pool
begin

text \<open>
  The shared and weak pointers \<^verbatim>\<open>base/PoolSharedPtr.h\<close> on the memory pool. A reference count lives at
  an address of the pool; \<open>None\<close> is an access to a count that is not there (any more), to a member
  that was never set, or a failure of the pool. The class \<open>T\<close> of the objects is a parameter: its size
  and whether it derives from \<open>CEnableSharedFromThis\<close>; its destructor does nothing else than destroy
  that base. The mutexes and the order of the atomic operations are not modelled.
\<close>

section \<open>State\<close>

datatype memory_type = TYPE_NEW | TYPE_MALLOC

record t_class =
  tc_size :: int
  tc_shared :: bool

text \<open>\<open>CBasePtr\<close>; there is one pool, and \<open>None\<close> for the last two members is: not initialised.\<close>

record base_ptr =
  bp_ptr :: "addr option"
  bp_ref_count :: "addr option"
  bp_pool :: bool
  bp_malloc_size :: "int option"
  bp_memory_type :: "memory_type option"

text \<open>
  The pool, the reference counts (uses and weak uses), and the weak pointers inside of the objects
  whose class derives from \<open>CEnableSharedFromThis\<close>, with the number of bytes that were asked for at the
  address. The weak pointer is a part of an object of \<open>T\<close>, so memory for fewer bytes than the size of
  \<open>T\<close> does not hold it.
\<close>

record shp_heap =
  sh_mem :: mem_pool
  sh_refs :: "addr \<Rightarrow> (int \<times> int) option"
  sh_self :: "addr \<Rightarrow> base_ptr"
  sh_room :: "addr \<Rightarrow> int"

section \<open>CRefCount\<close>

definition ref_count_size :: int where "ref_count_size = 24"

definition IncrefUse :: "addr \<Rightarrow> shp_heap \<Rightarrow> shp_heap option" where
  "IncrefUse r h = (case sh_refs h r of
     None \<Rightarrow> None | Some (u, w) \<Rightarrow> Some (h\<lparr>sh_refs := (sh_refs h)(r \<mapsto> (u + 1, w))\<rparr>))"

definition IncrefWeak :: "addr \<Rightarrow> shp_heap \<Rightarrow> shp_heap option" where
  "IncrefWeak r h = (case sh_refs h r of
     None \<Rightarrow> None | Some (u, w) \<Rightarrow> Some (h\<lparr>sh_refs := (sh_refs h)(r \<mapsto> (u, w + 1))\<rparr>))"

definition rc_DecrefUse :: "addr \<Rightarrow> shp_heap \<Rightarrow> (bool \<times> shp_heap) option" where
  "rc_DecrefUse r h = (case sh_refs h r of
     None \<Rightarrow> None | Some (u, w) \<Rightarrow> Some (u - 1 = 0, h\<lparr>sh_refs := (sh_refs h)(r \<mapsto> (u - 1, w))\<rparr>))"

definition rc_DecrefWeak :: "addr \<Rightarrow> shp_heap \<Rightarrow> (bool \<times> shp_heap) option" where
  "rc_DecrefWeak r h = (case sh_refs h r of
     None \<Rightarrow> None | Some (u, w) \<Rightarrow> Some (w - 1 = 0, h\<lparr>sh_refs := (sh_refs h)(r \<mapsto> (u, w - 1))\<rparr>))"

definition GetUseCount :: "addr \<Rightarrow> shp_heap \<Rightarrow> int option" where
  "GetUseCount r h = map_option fst (sh_refs h r)"

definition GetWeakCount :: "addr \<Rightarrow> shp_heap \<Rightarrow> int option" where
  "GetWeakCount r h = map_option snd (sh_refs h r)"

definition rc_Expired :: "addr \<Rightarrow> shp_heap \<Rightarrow> bool option" where
  "rc_Expired r h = map_option (\<lambda>(u, w). u = 0) (sh_refs h r)"

section \<open>CBasePtr\<close>

definition IncrefUse_if :: "addr option \<Rightarrow> shp_heap \<Rightarrow> shp_heap option" where
  "IncrefUse_if rep h = (case rep of None \<Rightarrow> Some h | Some r \<Rightarrow> IncrefUse r h)"

definition bp_DecrefWeak :: "base_ptr \<Rightarrow> shp_heap \<Rightarrow> shp_heap option" where
  "bp_DecrefWeak p h = (case bp_ref_count p of
     None \<Rightarrow> Some h | Some r \<Rightarrow> map_option snd (rc_DecrefWeak r h))"

text \<open>The first half of \<open>_Resetw0\<close>, the same in its three variants, and the variants.\<close>

definition swap_weak :: "addr option \<Rightarrow> base_ptr \<Rightarrow> shp_heap \<Rightarrow> shp_heap option" where
  "swap_weak other_rep p h = do {
     h \<leftarrow> (case other_rep of None \<Rightarrow> Some h | Some r \<Rightarrow> IncrefWeak r h);
     case bp_ref_count p of
       None \<Rightarrow> Some h
     | Some r \<Rightarrow> do { w \<leftarrow> GetWeakCount r h; if w > 0 then bp_DecrefWeak p h else Some h } }"

definition Resetw0 :: "addr option \<Rightarrow> addr option \<Rightarrow> base_ptr \<Rightarrow> shp_heap \<Rightarrow> (base_ptr \<times> shp_heap) option" where
  "Resetw0 other_ptr other_rep p h = do {
     h \<leftarrow> swap_weak other_rep p h;
     Some (p\<lparr>bp_ref_count := other_rep, bp_ptr := other_ptr, bp_pool := False\<rparr>, h) }"

definition Resetw0_pool ::
  "addr option \<Rightarrow> addr option \<Rightarrow> bool \<Rightarrow> base_ptr \<Rightarrow> shp_heap \<Rightarrow> (base_ptr \<times> shp_heap) option" where
  "Resetw0_pool other_ptr other_rep pool p h = do {
     h \<leftarrow> swap_weak other_rep p h;
     Some (p\<lparr>bp_ref_count := other_rep, bp_ptr := other_ptr, bp_pool := pool\<rparr>, h) }"

definition Resetw0_full ::
  "addr option \<Rightarrow> addr option \<Rightarrow> bool \<Rightarrow> memory_type option \<Rightarrow> int option \<Rightarrow> base_ptr \<Rightarrow> shp_heap \<Rightarrow>
   (base_ptr \<times> shp_heap) option" where
  "Resetw0_full other_ptr other_rep pool type sz p h = do {
     h \<leftarrow> swap_weak other_rep p h;
     Some (p\<lparr>bp_ref_count := other_rep, bp_ptr := other_ptr, bp_pool := pool,
             bp_memory_type := type, bp_malloc_size := sz\<rparr>, h) }"

text \<open>The weak pointer inside of an object, \<open>None\<close> if it would lie (in part) outside of its memory.\<close>

definition self_ptr :: "t_class \<Rightarrow> addr \<Rightarrow> shp_heap \<Rightarrow> base_ptr option" where
  "self_ptr T a h = (if sh_room h a < tc_size T then None else Some (sh_self h a))"

text \<open>\<open>EnableShared\<close> with \<open>DoEnable\<close>, which sets that pointer.\<close>

definition EnableShared :: "t_class \<Rightarrow> base_ptr \<Rightarrow> shp_heap \<Rightarrow> shp_heap option" where
  "EnableShared T p h =
     (case bp_ptr p of
        None \<Rightarrow> Some h
      | Some a \<Rightarrow>
        if tc_shared T then do {
          self \<leftarrow> self_ptr T a h;
          (self, h) \<leftarrow> Resetw0_full (bp_ptr p) (bp_ref_count p) (bp_pool p) (bp_memory_type p) (bp_malloc_size p)
             self h;
          Some (h\<lparr>sh_self := (sh_self h)(a := self)\<rparr>) }
        else Some h)"

text \<open>The constructors.\<close>

definition CBasePtr :: base_ptr where
  "CBasePtr = \<lparr>bp_ptr = None, bp_ref_count = None, bp_pool = False, bp_malloc_size = None, bp_memory_type = None\<rparr>"

definition CBasePtr_new ::
  "t_class \<Rightarrow> addr option \<Rightarrow> addr option \<Rightarrow> bool \<Rightarrow> memory_type \<Rightarrow> int \<Rightarrow> shp_heap \<Rightarrow> (base_ptr \<times> shp_heap) option" where
  "CBasePtr_new T ptr ref pool type large_size h = do {
     let p = \<lparr>bp_ptr = ptr, bp_ref_count = ref, bp_pool = pool, bp_malloc_size = Some large_size,
              bp_memory_type = Some type\<rparr>;
     h \<leftarrow> EnableShared T p h;
     Some (p, h) }"

definition CBasePtr_copy :: "t_class \<Rightarrow> base_ptr \<Rightarrow> shp_heap \<Rightarrow> (base_ptr \<times> shp_heap) option" where
  "CBasePtr_copy T r h = do {
     h \<leftarrow> IncrefUse_if (bp_ref_count r) h;
     h \<leftarrow> EnableShared T r h;
     Some (r, h) }"

text \<open>The new pointer and what is left of \<open>r\<close>.\<close>

definition CBasePtr_move :: "t_class \<Rightarrow> base_ptr \<Rightarrow> shp_heap \<Rightarrow> (base_ptr \<times> base_ptr \<times> shp_heap) option" where
  "CBasePtr_move T r h = do {
     let p = r\<lparr>bp_malloc_size := Some 0\<rparr>;
     h \<leftarrow> EnableShared T p h;
     Some (p, r\<lparr>bp_ptr := None, bp_ref_count := None, bp_pool := False\<rparr>, h) }"

text \<open>The assignments.\<close>

definition only_DecrefUse :: "base_ptr \<Rightarrow> shp_heap \<Rightarrow> shp_heap option" where
  "only_DecrefUse p h = (case bp_ref_count p of
     None \<Rightarrow> Some h | Some r \<Rightarrow> map_option snd (rc_DecrefUse r h))"

definition assign_move :: "base_ptr \<Rightarrow> base_ptr \<Rightarrow> shp_heap \<Rightarrow> (base_ptr \<times> base_ptr \<times> shp_heap) option" where
  "assign_move p r h = do {
     h \<leftarrow> only_DecrefUse p h;
     Some (r, r\<lparr>bp_ptr := None, bp_ref_count := None, bp_pool := False, bp_malloc_size := Some 0\<rparr>, h) }"

definition assign_copy :: "base_ptr \<Rightarrow> base_ptr \<Rightarrow> shp_heap \<Rightarrow> (base_ptr \<times> shp_heap) option" where
  "assign_copy p r h = do {
     h \<leftarrow> only_DecrefUse p h;
     h \<leftarrow> IncrefUse_if (bp_ref_count r) h;
     Some (r, h) }"

definition UseCount :: "base_ptr \<Rightarrow> shp_heap \<Rightarrow> int option" where
  "UseCount p h = (case bp_ref_count p of None \<Rightarrow> Some 0 | Some r \<Rightarrow> GetUseCount r h)"

definition bp_Expired :: "base_ptr \<Rightarrow> shp_heap \<Rightarrow> bool option" where
  "bp_Expired p h = (case bp_ref_count p of None \<Rightarrow> Some True | Some r \<Rightarrow> rc_Expired r h)"

text \<open>
  The end of an object: its destructor, its memory, and the reference count, whoever else may still
  point to it.
\<close>

definition on_pool :: "(mem_pool \<Rightarrow> mem_pool option) \<Rightarrow> shp_heap \<Rightarrow> shp_heap option" where
  "on_pool f h = map_option (\<lambda>m. h\<lparr>sh_mem := m\<rparr>) (f (sh_mem h))"

definition delete_object :: "t_class \<Rightarrow> addr option \<Rightarrow> shp_heap \<Rightarrow> shp_heap option" where
  "delete_object T ptr h = (case ptr of
     None \<Rightarrow> Some h
   | Some a \<Rightarrow> do {
       h \<leftarrow> (if tc_shared T then do { self \<leftarrow> self_ptr T a h; bp_DecrefWeak self h } else Some h);
       on_pool (PoolDelete (Some a) (tc_size T)) h })"

definition delete_ref :: "addr option \<Rightarrow> shp_heap \<Rightarrow> shp_heap option" where
  "delete_ref ref h = (case ref of
     None \<Rightarrow> Some h
   | Some r \<Rightarrow> on_pool (PoolDelete (Some r) ref_count_size) (h\<lparr>sh_refs := (sh_refs h)(r := None)\<rparr>))"

definition do_Destroy :: "t_class \<Rightarrow> base_ptr \<Rightarrow> shp_heap \<Rightarrow> (base_ptr \<times> shp_heap) option" where
  "do_Destroy T p h =
     (if bp_pool p then do {
        type \<leftarrow> bp_memory_type p;
        h \<leftarrow> (case type of
          TYPE_MALLOC \<Rightarrow> do { n \<leftarrow> bp_malloc_size p; on_pool (PoolFree (bp_ptr p) n) h }
        | TYPE_NEW \<Rightarrow> delete_object T (bp_ptr p) h);
        h \<leftarrow> delete_ref (bp_ref_count p) h;
        Some (p\<lparr>bp_ptr := None, bp_ref_count := None\<rparr>, h) }
      else Some (p, h))"

definition bp_DecrefUse :: "t_class \<Rightarrow> base_ptr \<Rightarrow> shp_heap \<Rightarrow> (base_ptr \<times> shp_heap) option" where
  "bp_DecrefUse T p h = (case bp_ref_count p of
     None \<Rightarrow> Some (p, h)
   | Some r \<Rightarrow> do { (zero, h) \<leftarrow> rc_DecrefUse r h; if zero then do_Destroy T p h else Some (p, h) })"

text \<open>The first half of \<open>_Reset0\<close> and its two variants.\<close>

definition swap_use :: "t_class \<Rightarrow> addr option \<Rightarrow> base_ptr \<Rightarrow> shp_heap \<Rightarrow> (base_ptr \<times> shp_heap) option" where
  "swap_use T other_rep p h = do {
     h \<leftarrow> IncrefUse_if other_rep h;
     case bp_ref_count p of
       None \<Rightarrow> Some (p, h)
     | Some r \<Rightarrow> do { u \<leftarrow> GetUseCount r h; if u > 0 then bp_DecrefUse T p h else Some (p, h) } }"

definition Reset0 :: "t_class \<Rightarrow> addr option \<Rightarrow> addr option \<Rightarrow> base_ptr \<Rightarrow> shp_heap \<Rightarrow> (base_ptr \<times> shp_heap) option" where
  "Reset0 T other_ptr other_rep p h = do {
     (p, h) \<leftarrow> swap_use T other_rep p h;
     Some (p\<lparr>bp_ref_count := other_rep, bp_ptr := other_ptr, bp_pool := False\<rparr>, h) }"

definition Reset0_pool ::
  "t_class \<Rightarrow> addr option \<Rightarrow> addr option \<Rightarrow> bool \<Rightarrow> int \<Rightarrow> memory_type \<Rightarrow> base_ptr \<Rightarrow> shp_heap \<Rightarrow>
   (base_ptr \<times> shp_heap) option" where
  "Reset0_pool T other_ptr other_rep pool sz type p h = do {
     (p, h) \<leftarrow> swap_use T other_rep p h;
     Some (p\<lparr>bp_ref_count := other_rep, bp_ptr := other_ptr, bp_pool := pool,
             bp_malloc_size := Some sz, bp_memory_type := Some type\<rparr>, h) }"

definition bp_Reset :: "t_class \<Rightarrow> base_ptr \<Rightarrow> shp_heap \<Rightarrow> (base_ptr \<times> shp_heap) option" where
  "bp_Reset T = Reset0 T None None"

text \<open>\<open>Reset\<close> to another pointer passes neither its size nor its type: the defaults are taken.\<close>

definition bp_Reset_to :: "t_class \<Rightarrow> base_ptr \<Rightarrow> base_ptr \<Rightarrow> shp_heap \<Rightarrow> (base_ptr \<times> shp_heap) option" where
  "bp_Reset_to T other = Reset0_pool T (bp_ptr other) (bp_ref_count other) (bp_pool other) 0 TYPE_NEW"

definition bp_Resetw :: "base_ptr \<Rightarrow> shp_heap \<Rightarrow> (base_ptr \<times> shp_heap) option" where
  "bp_Resetw = Resetw0 None None"

definition bp_Resetw_to :: "base_ptr \<Rightarrow> base_ptr \<Rightarrow> shp_heap \<Rightarrow> (base_ptr \<times> shp_heap) option" where
  "bp_Resetw_to other = Resetw0_pool (bp_ptr other) (bp_ref_count other) (bp_pool other)"

section \<open>CMemSharePtr and CMemWeakPtr\<close>

definition share_destroy :: "t_class \<Rightarrow> base_ptr \<Rightarrow> shp_heap \<Rightarrow> shp_heap option" where
  "share_destroy T p h = map_option snd (bp_DecrefUse T p h)"

definition shp_unique :: "base_ptr \<Rightarrow> shp_heap \<Rightarrow> bool option" where
  "shp_unique p h = map_option (\<lambda>n. n = 1) (UseCount p h)"

definition CMemWeakPtr :: "shp_heap \<Rightarrow> (base_ptr \<times> shp_heap) option" where
  "CMemWeakPtr h = bp_Resetw CBasePtr h"

definition CMemWeakPtr_of :: "base_ptr \<Rightarrow> shp_heap \<Rightarrow> (base_ptr \<times> shp_heap) option" where
  "CMemWeakPtr_of r h = bp_Resetw_to r CBasePtr h"

definition weak_assign :: "base_ptr \<Rightarrow> base_ptr \<Rightarrow> shp_heap \<Rightarrow> (base_ptr \<times> shp_heap) option" where
  "weak_assign q r h = bp_Resetw_to r q h"

definition weak_destroy :: "base_ptr \<Rightarrow> shp_heap \<Rightarrow> shp_heap option" where
  "weak_destroy q h = bp_DecrefWeak q h"

definition weak_Lock :: "t_class \<Rightarrow> base_ptr \<Rightarrow> shp_heap \<Rightarrow> (base_ptr \<times> shp_heap) option" where
  "weak_Lock T q h = do {
     e \<leftarrow> bp_Expired q h;
     if e then do {
       (n, h) \<leftarrow> CMemWeakPtr h;
       (p, h) \<leftarrow> CBasePtr_copy T n h;
       h \<leftarrow> weak_destroy n h;
       Some (p, h) }
     else CBasePtr_copy T q h }"

definition memshared_from_this :: "t_class \<Rightarrow> addr \<Rightarrow> shp_heap \<Rightarrow> (base_ptr \<times> shp_heap) option" where
  "memshared_from_this T a h = do { self \<leftarrow> self_ptr T a h; weak_Lock T self h }"

text \<open>
  A new object: the members of its weak pointer are null after its constructor, and after \<open>memset\<close>.
\<close>

definition alloc_with :: "(mem_pool \<Rightarrow> (addr \<times> mem_pool) option) \<Rightarrow> shp_heap \<Rightarrow> (addr \<times> shp_heap) option" where
  "alloc_with f h = map_option (\<lambda>(a, m). (a, h\<lparr>sh_mem := m\<rparr>)) (f (sh_mem h))"

definition new_ref :: "(nat \<Rightarrow> bool) \<Rightarrow> shp_heap \<Rightarrow> (addr \<times> shp_heap) option" where
  "new_ref mal h = do {
     (r, h) \<leftarrow> alloc_with (PoolNew mal ref_count_size) h;
     Some (r, h\<lparr>sh_refs := (sh_refs h)(r \<mapsto> (1, 0))\<rparr>) }"

definition MakeNewSharedPtr :: "(nat \<Rightarrow> bool) \<Rightarrow> t_class \<Rightarrow> shp_heap \<Rightarrow> (base_ptr \<times> shp_heap) option" where
  "MakeNewSharedPtr mal T h = do {
     (a, h) \<leftarrow> alloc_with (PoolNew mal (tc_size T)) h;
     let h = h\<lparr>sh_self := (sh_self h)(a := CBasePtr), sh_room := (sh_room h)(a := tc_size T)\<rparr>;
     (r, h) \<leftarrow> new_ref mal h;
     CBasePtr_new T (Some a) (Some r) True TYPE_NEW 0 h }"

definition MakeMallocSharedPtr :: "(nat \<Rightarrow> bool) \<Rightarrow> t_class \<Rightarrow> int \<Rightarrow> shp_heap \<Rightarrow> (base_ptr \<times> shp_heap) option" where
  "MakeMallocSharedPtr mal T sz h = do {
     (a, h) \<leftarrow> alloc_with (PoolMalloc mal sz) h;
     let h = h\<lparr>sh_self := (sh_self h)(a := CBasePtr\<lparr>bp_malloc_size := Some 0, bp_memory_type := Some TYPE_NEW\<rparr>),
               sh_room := (sh_room h)(a := sz)\<rparr>;
     (r, h) \<leftarrow> new_ref mal h;
     CBasePtr_new T (Some a) (Some r) True TYPE_MALLOC sz h }"

section \<open>Who points to an object\<close>

text \<open>An object: its reference count, its address, how it was made and how large it is.\<close>

record sobj =
  ob_ref :: addr
  ob_ptr :: addr
  ob_type :: memory_type
  ob_size :: int

definition ob_area :: "sobj \<Rightarrow> addr multiset" where
  "ob_area ob = obj_bytes (ob_ref ob) ref_count_size + obj_bytes (ob_ptr ob) (ob_size ob)"

definition points :: "sobj \<Rightarrow> base_ptr \<Rightarrow> bool" where
  "points ob p \<longleftrightarrow> bp_ref_count p = Some (ob_ref ob) \<and> bp_ptr p = Some (ob_ptr ob) \<and> bp_pool p \<and>
     (bp_memory_type p = None \<or>
      bp_memory_type p = Some (ob_type ob) \<and> (ob_type ob = TYPE_MALLOC \<longrightarrow> bp_malloc_size p = Some (ob_size ob)))"

definition is_null :: "base_ptr \<Rightarrow> bool" where
  "is_null p \<longleftrightarrow> bp_ref_count p = None \<and> bp_ptr p = None"

definition ptr_ok :: "sobj list \<Rightarrow> base_ptr \<Rightarrow> bool" where
  "ptr_ok obs p \<longleftrightarrow> is_null p \<or> (\<exists>ob \<in> set obs. points ob p)"

definition ob_ok :: "t_class \<Rightarrow> sobj \<Rightarrow> bool" where
  "ob_ok T ob \<longleftrightarrow> 0 < ob_size ob \<and> (ob_type ob = TYPE_NEW \<longrightarrow> ob_size ob = tc_size T) \<and>
     (tc_shared T \<longrightarrow> tc_size T \<le> ob_size ob)"

text \<open>The heap holds the objects \<open>obs\<close>, and their counts are \<open>U\<close> and \<open>W\<close>.\<close>

definition shp_core :: "t_class \<Rightarrow> sobj list \<Rightarrow> (addr \<Rightarrow> int) \<Rightarrow> (addr \<Rightarrow> int) \<Rightarrow> shp_heap \<Rightarrow> bool" where
  "shp_core T obs U W h \<longleftrightarrow>
     pool_inv (sh_mem h) (sum_list (map ob_area obs)) \<and> (\<forall>ob \<in> set obs. ob_ok T ob) \<and>
     (\<forall>r. sh_refs h r = (if r \<in> ob_ref ` set obs then Some (U r, W r) else None)) \<and>
     (tc_shared T \<longrightarrow> (\<forall>ob \<in> set obs. points ob (sh_self h (ob_ptr ob)) \<and> sh_room h (ob_ptr ob) = ob_size ob))"

definition bump :: "addr option \<Rightarrow> int \<Rightarrow> (addr \<Rightarrow> int) \<Rightarrow> addr \<Rightarrow> int" where
  "bump ref d U = (case ref of None \<Rightarrow> U | Some r \<Rightarrow> U(r := U r + d))"

lemma bump_simps [simp]: "bump None d U = U" "bump (Some r) d U = U(r := U r + d)"
  by (simp_all add: bump_def)

lemma points_ref: "points ob p \<Longrightarrow> bp_ref_count p = Some (ob_ref ob)"
  and points_ptr: "points ob p \<Longrightarrow> bp_ptr p = Some (ob_ptr ob)"
  by (simp_all add: points_def)

lemma core_refs: "shp_core T obs U W h \<Longrightarrow> ob \<in> set obs \<Longrightarrow> sh_refs h (ob_ref ob) = Some (U (ob_ref ob), W (ob_ref ob))"
  unfolding shp_core_def by (metis imageI)

lemma core_gone: "shp_core T obs U W h \<Longrightarrow> r \<notin> ob_ref ` set obs \<Longrightarrow> sh_refs h r = None"
  unfolding shp_core_def by metis

lemma obj_bytes_self: "0 < sz \<Longrightarrow> a \<in># obj_bytes a sz"
  using obj_size_ge [of sz] by (cases a) (simp add: obj_bytes_def in_region)

lemma apart_objects:
  "apart (sum_list (map ob_area obs)) \<Longrightarrow> \<forall>ob \<in> set obs. 0 < ob_size ob \<Longrightarrow>
   distinct (map ob_ref obs) \<and> distinct (map ob_ptr obs)"
proof (induction obs)
  case (Cons ob obs)
  have ap: "apart (ob_area ob + sum_list (map ob_area obs))" using Cons.prems(1) by simp
  have rest: "apart (sum_list (map ob_area obs))" using ap by (rule apart_mono) simp
  have dis: "set_mset (ob_area ob) \<inter> set_mset (sum_list (map ob_area obs)) = {}" using apart_disjoint [OF ap] .
  have sub: "set_mset (ob_area x) \<subseteq> set_mset (sum_list (map ob_area obs))" if "x \<in> set obs" for x
    using split_list [OF that] by auto
  have mem: "ob_ref x \<in># ob_area x" "ob_ptr x \<in># ob_area x" if "x \<in> set (ob # obs)" for x
    using that Cons.prems(2) obj_bytes_self [of ref_count_size "ob_ref x"] obj_bytes_self [of "ob_size x" "ob_ptr x"]
    by (auto simp: ob_area_def ref_count_size_def)
  have "ob_ref x \<noteq> ob_ref ob \<and> ob_ptr x \<noteq> ob_ptr ob" if "x \<in> set obs" for x
    using dis sub [OF that] mem [of x] mem [of ob] that by (metis disjoint_iff list.set_intros subsetD)
  then show ?case using Cons.IH [OF rest] Cons.prems(2) by fastforce
qed simp

lemma core_distinct:
  assumes "shp_core T obs U W h"
  shows "distinct (map ob_ref obs)" "distinct (map ob_ptr obs)"
proof -
  have "apart (sum_list (map ob_area obs))"
    using assms by (auto simp: shp_core_def pool_inv_def intro: apart_mono)
  then show "distinct (map ob_ref obs)" "distinct (map ob_ptr obs)"
    using apart_objects [of obs] assms by (simp_all add: shp_core_def ob_ok_def)
qed

lemma core_inj:
  "shp_core T obs U W h \<Longrightarrow> ob \<in> set obs \<Longrightarrow> ob' \<in> set obs \<Longrightarrow> ob_ref ob = ob_ref ob' \<or> ob_ptr ob = ob_ptr ob' \<Longrightarrow> ob = ob'"
  using core_distinct [of T obs U W h] by (auto simp: distinct_map dest: inj_onD)

lemma core_self_ptr:
  "shp_core T obs U W h \<Longrightarrow> tc_shared T \<Longrightarrow> ob \<in> set obs \<Longrightarrow>
   self_ptr T (ob_ptr ob) h = Some (sh_self h (ob_ptr ob)) \<and> points ob (sh_self h (ob_ptr ob))"
  by (auto simp: shp_core_def ob_ok_def self_ptr_def)

section \<open>What the operations do to the counts\<close>

lemma core_set_refs:
  "shp_core T obs U W h \<Longrightarrow> ob \<in> set obs \<Longrightarrow>
   shp_core T obs (U(ob_ref ob := u)) (W(ob_ref ob := w)) (h\<lparr>sh_refs := (sh_refs h)(ob_ref ob \<mapsto> (u, w))\<rparr>)"
  by (auto simp: shp_core_def)

lemma core_IncrefUse:
  assumes "shp_core T obs U W h" "ob \<in> set obs"
  shows "\<exists>h'. IncrefUse (ob_ref ob) h = Some h' \<and> shp_core T obs (bump (Some (ob_ref ob)) 1 U) W h' \<and> sh_self h' = sh_self h"
  using core_set_refs [OF assms, of "U (ob_ref ob) + 1" "W (ob_ref ob)"] core_refs [OF assms]
  by (simp add: IncrefUse_def)

lemma core_IncrefWeak:
  assumes "shp_core T obs U W h" "ob \<in> set obs"
  shows "\<exists>h'. IncrefWeak (ob_ref ob) h = Some h' \<and> shp_core T obs U (bump (Some (ob_ref ob)) 1 W) h' \<and> sh_self h' = sh_self h"
  using core_set_refs [OF assms, of "U (ob_ref ob)" "W (ob_ref ob) + 1"] core_refs [OF assms]
  by (simp add: IncrefWeak_def)

lemma core_rc_DecrefUse:
  assumes "shp_core T obs U W h" "ob \<in> set obs"
  shows "\<exists>h'. rc_DecrefUse (ob_ref ob) h = Some (U (ob_ref ob) = 1, h') \<and>
    shp_core T obs (bump (Some (ob_ref ob)) (- 1) U) W h' \<and> sh_self h' = sh_self h"
  using core_set_refs [OF assms, of "U (ob_ref ob) - 1" "W (ob_ref ob)"] core_refs [OF assms]
  by (simp add: rc_DecrefUse_def)

lemma core_bp_DecrefWeak:
  assumes "shp_core T obs U W h" "ptr_ok obs p"
  shows "\<exists>h'. bp_DecrefWeak p h = Some h' \<and> shp_core T obs U (bump (bp_ref_count p) (- 1) W) h' \<and> sh_self h' = sh_self h"
proof (cases "is_null p")
  case False
  then obtain ob where ob: "ob \<in> set obs" "points ob p" using assms(2) by (auto simp: ptr_ok_def)
  then show ?thesis
    using core_set_refs [OF assms(1) ob(1), of "U (ob_ref ob)" "W (ob_ref ob) - 1"] core_refs [OF assms(1) ob(1)] points_ref [OF ob(2)]
    by (simp add: bp_DecrefWeak_def rc_DecrefWeak_def)
qed (use assms in \<open>simp add: is_null_def bp_DecrefWeak_def\<close>)

lemma core_IncrefUse_if:
  assumes "shp_core T obs U W h" "ptr_ok obs p"
  shows "\<exists>h'. IncrefUse_if (bp_ref_count p) h = Some h' \<and> shp_core T obs (bump (bp_ref_count p) 1 U) W h' \<and> sh_self h' = sh_self h"
proof (cases "is_null p")
  case False
  then obtain ob where ob: "ob \<in> set obs" "points ob p" using assms(2) by (auto simp: ptr_ok_def)
  then show ?thesis using core_IncrefUse [OF assms(1) ob(1)] points_ref [OF ob(2)] by (simp add: IncrefUse_if_def)
qed (use assms in \<open>simp add: is_null_def IncrefUse_if_def\<close>)

lemma core_only_DecrefUse:
  assumes "shp_core T obs U W h" "ptr_ok obs p"
  shows "\<exists>h'. only_DecrefUse p h = Some h' \<and> shp_core T obs (bump (bp_ref_count p) (- 1) U) W h'"
proof (cases "is_null p")
  case False
  then obtain ob where ob: "ob \<in> set obs" "points ob p" using assms(2) by (auto simp: ptr_ok_def)
  then show ?thesis using core_rc_DecrefUse [OF assms(1) ob(1)] points_ref [OF ob(2)] by (auto simp: only_DecrefUse_def)
qed (use assms in \<open>simp add: is_null_def only_DecrefUse_def\<close>)

lemma core_swap_weak:
  assumes "shp_core T obs U W h" "ptr_ok obs other" "ptr_ok obs p"
    and "case bp_ref_count p of None \<Rightarrow> True | Some r \<Rightarrow> 0 < bump (bp_ref_count other) 1 W r"
  shows "\<exists>h'. swap_weak (bp_ref_count other) p h = Some h' \<and>
    shp_core T obs U (bump (bp_ref_count p) (- 1) (bump (bp_ref_count other) 1 W)) h' \<and> sh_self h' = sh_self h"
proof -
  obtain h1 where h1: "(case bp_ref_count other of None \<Rightarrow> Some h | Some r \<Rightarrow> IncrefWeak r h) = Some h1"
    "shp_core T obs U (bump (bp_ref_count other) 1 W) h1" "sh_self h1 = sh_self h"
  proof (cases "is_null other")
    case False
    then obtain ob where ob: "ob \<in> set obs" "points ob other" using assms(2) by (auto simp: ptr_ok_def)
    then show ?thesis using that core_IncrefWeak [OF assms(1) ob(1)] points_ref [OF ob(2)] by auto
  qed (use assms(1) that in \<open>simp add: is_null_def\<close>)
  show ?thesis
  proof (cases "is_null p")
    case True
    then show ?thesis using h1 by (simp add: swap_weak_def is_null_def)
  next
    case False
    then obtain ob where ob: "ob \<in> set obs" "points ob p" using assms(3) by (auto simp: ptr_ok_def)
    have "GetWeakCount (ob_ref ob) h1 = Some (bump (bp_ref_count other) 1 W (ob_ref ob))"
      using core_refs [OF h1(2) ob(1)] by (simp add: GetWeakCount_def)
    then show ?thesis
      using h1 core_bp_DecrefWeak [OF h1(2) assms(3)] points_ref [OF ob(2)] assms(4) by (simp add: swap_weak_def)
  qed
qed

lemma core_self:
  assumes "shp_core T obs U W h" "tc_shared T" "ob \<in> set obs" "points ob self"
  shows "shp_core T obs U W (h\<lparr>sh_self := (sh_self h)(ob_ptr ob := self)\<rparr>)"
proof -
  have "points x (((sh_self h)(ob_ptr ob := self)) (ob_ptr x)) \<and> sh_room h (ob_ptr x) = ob_size x" if "x \<in> set obs" for x
    using core_inj [OF assms(1,3) that] assms that by (cases "ob_ptr x = ob_ptr ob") (simp_all add: shp_core_def)
  then show ?thesis using assms(1,2) by (simp add: shp_core_def)
qed

lemma core_EnableShared:
  assumes "shp_core T obs U W h" "ptr_ok obs p" "\<forall>r. 0 \<le> W r"
  shows "\<exists>h'. EnableShared T p h = Some h' \<and> shp_core T obs U W h'"
proof (cases "is_null p \<or> \<not> tc_shared T")
  case True
  then show ?thesis using assms(1) by (auto simp: EnableShared_def is_null_def split: option.splits)
next
  case False
  then obtain ob where ob: "ob \<in> set obs" "points ob p" using assms(2) by (auto simp: ptr_ok_def)
  let ?s = "sh_self h (ob_ptr ob)"
  have self: "points ob ?s" "self_ptr T (ob_ptr ob) h = Some ?s" using core_self_ptr [OF assms(1) _ ob(1)] False by simp_all
  then have s: "ptr_ok obs ?s" "bp_ref_count ?s = bp_ref_count p"
    using ob points_ref [OF ob(2)] points_ref [OF self(1)] by (auto simp: ptr_ok_def)
  obtain h1 where h1: "swap_weak (bp_ref_count p) ?s h = Some h1"
    "shp_core T obs U (bump (bp_ref_count p) (- 1) (bump (bp_ref_count p) 1 W)) h1"
    using core_swap_weak [OF assms(1,2) s(1)] s(2) assms(3) points_ref [OF ob(2)] by (auto simp: add_pos_nonneg add_nonneg_pos)
  have "bump (bp_ref_count p) (- 1) (bump (bp_ref_count p) 1 W) = W"
    using points_ref [OF ob(2)] by simp
  then have c: "shp_core T obs U W h1" using h1(2) by simp
  let ?n = "?s\<lparr>bp_ref_count := bp_ref_count p, bp_ptr := bp_ptr p, bp_pool := bp_pool p,
    bp_memory_type := bp_memory_type p, bp_malloc_size := bp_malloc_size p\<rparr>"
  have "points ob ?n" using ob(2) by (simp add: points_def)
  then have "shp_core T obs U W (h1\<lparr>sh_self := (sh_self h1)(ob_ptr ob := ?n)\<rparr>)"
    using core_self [OF c _ ob(1)] False by blast
  then show ?thesis
    using h1(1) self(2) points_ptr [OF ob(2)] False by (simp add: EnableShared_def Resetw0_full_def)
qed

lemma core_copy:
  assumes "shp_core T obs U W h" "ptr_ok obs p" "\<forall>r. 0 \<le> W r"
  shows "\<exists>h'. CBasePtr_copy T p h = Some (p, h') \<and> shp_core T obs (bump (bp_ref_count p) 1 U) W h'"
proof -
  obtain h1 where h1: "IncrefUse_if (bp_ref_count p) h = Some h1" "shp_core T obs (bump (bp_ref_count p) 1 U) W h1"
    using core_IncrefUse_if [OF assms(1,2)] by blast
  then show ?thesis using core_EnableShared [OF h1(2) assms(2,3)] by (auto simp: CBasePtr_copy_def)
qed

text \<open>The end of an object.\<close>

lemma distinct_others: "distinct (map f (xs @ x # ys)) \<Longrightarrow> f x \<notin> f ` set (xs @ ys)"
  by (simp add: image_Un)


lemma pool_drop:
  assumes "pool_inv m (live + obj_bytes a n)" "0 < n"
  shows "\<exists>m'. PoolFree (Some a) n m = Some m' \<and> PoolDelete (Some a) n m = Some m' \<and> pool_inv m' live"
  using nodes.release_ok [OF assms] by (simp add: PoolDelete_Free)

lemma core_drop_memory:
  assumes c: "shp_core T (xs @ ob # ys) U W h" and p: "points ob p" "bp_memory_type p \<noteq> None"
  shows "\<exists>p' h'. do_Destroy T p h = Some (p', h') \<and> is_null p' \<and> shp_core T (xs @ ys) U W h'"
proof -
  let ?r = "ob_ref ob" and ?a = "ob_ptr ob" and ?n = "ob_size ob"
  have pp: "bp_pool p" "bp_ptr p = Some ?a" "bp_ref_count p = Some ?r" "bp_memory_type p = Some (ob_type ob)"
    "ob_type ob = TYPE_MALLOC \<Longrightarrow> bp_malloc_size p = Some ?n" using p by (auto simp: points_def)
  have n: "0 < ?n" "ob_type ob = TYPE_NEW \<Longrightarrow> ?n = tc_size T" using c by (simp_all add: shp_core_def ob_ok_def)
  obtain h1 W' where h1: "(if tc_shared T \<and> ob_type ob = TYPE_NEW then do { self \<leftarrow> self_ptr T ?a h; bp_DecrefWeak self h } else Some h) = Some h1"
    "shp_core T (xs @ ob # ys) U W' h1" "\<forall>x. x \<noteq> ?r \<longrightarrow> W' x = W x"
  proof (cases "tc_shared T \<and> ob_type ob = TYPE_NEW")
    case True
    then have s: "points ob (sh_self h ?a)" "self_ptr T ?a h = Some (sh_self h ?a)"
      using core_self_ptr [OF c, of ob] by simp_all
    then have o: "ptr_ok (xs @ ob # ys) (sh_self h ?a)" by (auto simp: ptr_ok_def)
    then obtain h0 where "bp_DecrefWeak (sh_self h ?a) h = Some h0"
      "shp_core T (xs @ ob # ys) U (W(?r := W ?r + - 1)) h0"
      using core_bp_DecrefWeak [OF c o] points_ref [OF s(1)] by auto
    then show ?thesis using that [of h0 "W(?r := W ?r + - 1)"] True s(2) by simp
  next
    case False
    then show ?thesis using that [of h W] c by auto
  qed
  let ?live = "sum_list (map ob_area (xs @ ys))"
  have inv: "pool_inv (sh_mem h1) (?live + obj_bytes ?r ref_count_size + obj_bytes ?a ?n)"
    using h1(2) by (simp add: shp_core_def ob_area_def ac_simps)
  obtain m1 where m1: "PoolFree (Some ?a) ?n (sh_mem h1) = Some m1" "PoolDelete (Some ?a) ?n (sh_mem h1) = Some m1"
    "pool_inv m1 (?live + obj_bytes ?r ref_count_size)"
    using pool_drop [OF inv n(1)] by blast
  obtain m2 where m2: "PoolDelete (Some ?r) ref_count_size m1 = Some m2" "pool_inv m2 ?live"
    using pool_drop [OF m1(3)] by (auto simp: ref_count_size_def)
  let ?h = "h1\<lparr>sh_mem := m2, sh_refs := (sh_refs h1)(?r := None)\<rparr>"
  have d: "?r \<notin> ob_ref ` set (xs @ ys)" using distinct_others [OF core_distinct(1) [OF c]] .
  have "shp_core T (xs @ ys) U W ?h"
    using h1(2,3) m2(2) d unfolding shp_core_def by auto
  moreover have "do_Destroy T p h = Some (p\<lparr>bp_ptr := None, bp_ref_count := None\<rparr>, ?h)"
    using h1(1) m1 m2(1) pp n(2)
    by (cases "ob_type ob") (auto simp: do_Destroy_def delete_object_def delete_ref_def on_pool_def split: if_splits)
  ultimately show ?thesis by (auto simp: is_null_def)
qed

lemma core_bp_DecrefUse:
  assumes c: "shp_core T obs U W h" and ok: "ptr_ok obs p"
    and drop: "\<And>ob. ob \<in> set obs \<Longrightarrow> points ob p \<Longrightarrow> U (ob_ref ob) = 1 \<Longrightarrow> bp_memory_type p \<noteq> None"
  shows "\<exists>p' h' obs'. bp_DecrefUse T p h = Some (p', h') \<and> shp_core T obs' (bump (bp_ref_count p) (- 1) U) W h' \<and>
    (case bp_ref_count p of None \<Rightarrow> obs' = obs | Some r \<Rightarrow> obs' = filter (\<lambda>ob. ob_ref ob \<noteq> r \<or> U r \<noteq> 1) obs)"
proof (cases "is_null p")
  case True
  then show ?thesis using c by (auto simp: is_null_def bp_DecrefUse_def)
next
  case False
  then obtain ob where ob: "ob \<in> set obs" "points ob p" using ok by (auto simp: ptr_ok_def)
  let ?r = "ob_ref ob"
  obtain h1 where h1: "rc_DecrefUse ?r h = Some (U ?r = 1, h1)" "shp_core T obs (bump (Some ?r) (- 1) U) W h1"
    using core_rc_DecrefUse [OF c ob(1)] by blast
  note r = points_ref [OF ob(2)]
  show ?thesis
  proof (cases "U ?r = 1")
    case False
    then show ?thesis using h1 r by (auto simp: bp_DecrefUse_def)
  next
    case True
    obtain xs ys where obs: "obs = xs @ ob # ys" using split_list [OF ob(1)] by blast
    have "ob_ref x \<noteq> ?r" if "x \<in> set (xs @ ys)" for x
      using distinct_others [OF core_distinct(1) [OF c, unfolded obs]] imageI [OF that, of ob_ref] by metis
    then have "filter (\<lambda>x. ob_ref x \<noteq> ?r) obs = xs @ ys" by (simp add: obs filter_True)
    moreover obtain p' h' where "do_Destroy T p h1 = Some (p', h')" "shp_core T (xs @ ys) (bump (Some ?r) (- 1) U) W h'"
      using core_drop_memory [OF h1(2) [unfolded obs] ob(2)] drop [OF ob True] by blast
    ultimately show ?thesis using h1(1) r True by (auto simp: bp_DecrefUse_def)
  qed
qed

text \<open>A new object.\<close>

lemma PoolMalloc_some:
  assumes "pool_inv m live" "0 < n" "\<forall>k. mal k"
  shows "\<exists>a m'. PoolMalloc mal n m = Some (a, m') \<and> pool_inv m' (live + obj_bytes a n)"
  using PoolMalloc_ok [OF assms(1,2), of mal] assms(3) by (auto split: option.splits)

lemma core_new_object:
  assumes c: "shp_core T obs U W h" and mal: "\<forall>k. mal k" and n: "0 < n" "ty = TYPE_NEW \<longrightarrow> n = tc_size T" "tc_shared T \<longrightarrow> tc_size T \<le> n"
    and m: "pool_inv m (sum_list (map ob_area obs) + obj_bytes a n)"
    and self: "bp_ref_count self = None" and sz: "ty = TYPE_MALLOC \<longrightarrow> sz = n"
  defines "h0 \<equiv> h\<lparr>sh_mem := m, sh_self := (sh_self h)(a := self), sh_room := (sh_room h)(a := n)\<rparr>"
  shows "\<exists>r p h1 h2. new_ref mal h0 = Some (r, h1) \<and> CBasePtr_new T (Some a) (Some r) True ty sz h1 = Some (p, h2) \<and>
    bp_memory_type p \<noteq> None \<and> r \<notin> ob_ref ` set obs \<and>
    (let ob = \<lparr>ob_ref = r, ob_ptr = a, ob_type = ty, ob_size = n\<rparr> in
      points ob p \<and> shp_core T (obs @ [ob]) (U(r := 1)) (W(r := if tc_shared T then 1 else 0)) h2)"
proof -
  obtain r m' where r: "PoolMalloc mal ref_count_size m = Some (r, m')"
    "pool_inv m' (sum_list (map ob_area obs) + obj_bytes a n + obj_bytes r ref_count_size)"
    using PoolMalloc_some [OF m _ mal, of ref_count_size] by (auto simp: ref_count_size_def)
  let ?ob = "\<lparr>ob_ref = r, ob_ptr = a, ob_type = ty, ob_size = n\<rparr>"
  let ?p = "\<lparr>bp_ptr = Some a, bp_ref_count = Some r, bp_pool = True, bp_malloc_size = Some sz, bp_memory_type = Some ty\<rparr>"
  have inv: "pool_inv m' (sum_list (map ob_area (obs @ [?ob])))" using r(2) by (simp add: ob_area_def ac_simps)
  have ok: "\<forall>ob \<in> set (obs @ [?ob]). ob_ok T ob" using c n by (simp add: shp_core_def ob_ok_def)
  have "apart (sum_list (map ob_area (obs @ [?ob])))" using inv by (auto simp: pool_inv_def intro: apart_mono)
  then have "distinct (map ob_ref (obs @ [?ob])) \<and> distinct (map ob_ptr (obs @ [?ob]))"
    using ok by (intro apart_objects) (auto simp: ob_ok_def)
  then have d: "r \<notin> ob_ref ` set obs" "a \<notin> ob_ptr ` set obs" by simp_all
  let ?h1 = "h0\<lparr>sh_mem := m', sh_refs := (sh_refs h)(r \<mapsto> (1, 0))\<rparr>"
  have h1: "new_ref mal h0 = Some (r, ?h1)"
    using r(1) by (simp add: new_ref_def alloc_with_def h0_def PoolNew_Malloc)
  have p: "points ?ob ?p" using sz by (simp add: points_def)
  show ?thesis
  proof (cases "tc_shared T")
    case False
    have "shp_core T (obs @ [?ob]) (U(r := 1)) (W(r := 0)) ?h1"
      using c inv ok d False by (auto simp: shp_core_def h0_def)
    then show ?thesis using h1 p d False by (auto simp: CBasePtr_new_def EnableShared_def)
  next
    case True
    let ?self = "self\<lparr>bp_ref_count := Some r, bp_ptr := Some a, bp_pool := True, bp_memory_type := Some ty, bp_malloc_size := Some sz\<rparr>"
    let ?h2 = "?h1\<lparr>sh_refs := (sh_refs h)(r \<mapsto> (1, 1)), sh_self := (sh_self h)(a := ?self)\<rparr>"
    have "EnableShared T ?p ?h1 = Some ?h2"
      using True self n(3) by (simp add: EnableShared_def self_ptr_def Resetw0_full_def swap_weak_def IncrefWeak_def h0_def)
    moreover have "shp_core T (obs @ [?ob]) (U(r := 1)) (W(r := 1)) ?h2"
      using c inv ok d sz by (auto simp: shp_core_def h0_def points_def image_iff)
    ultimately show ?thesis using h1 p d True by (auto simp: CBasePtr_new_def)
  qed
qed

section \<open>A program with pointers\<close>

text \<open>
  The shared pointers and the weak pointers of a program, as lists, and what it does with them:
  construct, copy, assign, reset, leave their scope.
\<close>

datatype shp_op =
    NewPtr | MallocPtr int | CopyPtr nat | AssignPtr nat nat | ResetPtr nat | ResetToPtr nat nat | DropPtr nat
  | NewWeak nat | AssignWeak nat nat | AssignWeakWeak nat nat | DropWeak nat | LockPtr nat | ThisPtr nat

type_synonym shp_world = "base_ptr list \<times> base_ptr list \<times> shp_heap"

definition drop_nth :: "nat \<Rightarrow> 'a list \<Rightarrow> 'a list" where
  "drop_nth k xs = take k xs @ drop (Suc k) xs"

fun shp_step :: "(nat \<Rightarrow> bool) \<Rightarrow> t_class \<Rightarrow> shp_op \<Rightarrow> shp_world \<Rightarrow> shp_world option" where
  "shp_step mal T NewPtr (ps, qs, h) = do { (p, h) \<leftarrow> MakeNewSharedPtr mal T h; Some (ps @ [p], qs, h) }"
| "shp_step mal T (MallocPtr n) (ps, qs, h) = do { (p, h) \<leftarrow> MakeMallocSharedPtr mal T n h; Some (ps @ [p], qs, h) }"
| "shp_step mal T (CopyPtr k) (ps, qs, h) =
     (if k < length ps then do { (p, h) \<leftarrow> CBasePtr_copy T (ps ! k) h; Some (ps @ [p], qs, h) }
      else Some (ps, qs, h))"
| "shp_step mal T (AssignPtr k j) (ps, qs, h) =
     (if k < length ps \<and> j < length ps
      then do { (p, h) \<leftarrow> assign_copy (ps ! k) (ps ! j) h; Some (ps[k := p], qs, h) }
      else Some (ps, qs, h))"
| "shp_step mal T (ResetPtr k) (ps, qs, h) =
     (if k < length ps then do { (p, h) \<leftarrow> bp_Reset T (ps ! k) h; Some (ps[k := p], qs, h) }
      else Some (ps, qs, h))"
| "shp_step mal T (ResetToPtr k j) (ps, qs, h) =
     (if k < length ps \<and> j < length ps
      then do { (p, h) \<leftarrow> bp_Reset_to T (ps ! j) (ps ! k) h; Some (ps[k := p], qs, h) }
      else Some (ps, qs, h))"
| "shp_step mal T (DropPtr k) (ps, qs, h) =
     (if k < length ps then do { h \<leftarrow> share_destroy T (ps ! k) h; Some (drop_nth k ps, qs, h) }
      else Some (ps, qs, h))"
| "shp_step mal T (NewWeak k) (ps, qs, h) =
     (if k < length ps then do { (q, h) \<leftarrow> CMemWeakPtr_of (ps ! k) h; Some (ps, qs @ [q], h) }
      else Some (ps, qs, h))"
| "shp_step mal T (AssignWeak w k) (ps, qs, h) =
     (if w < length qs \<and> k < length ps
      then do { (q, h) \<leftarrow> weak_assign (qs ! w) (ps ! k) h; Some (ps, qs[w := q], h) }
      else Some (ps, qs, h))"
| "shp_step mal T (AssignWeakWeak w v) (ps, qs, h) =
     (if w < length qs \<and> v < length qs
      then do { (q, h) \<leftarrow> weak_assign (qs ! w) (qs ! v) h; Some (ps, qs[w := q], h) }
      else Some (ps, qs, h))"
| "shp_step mal T (DropWeak w) (ps, qs, h) =
     (if w < length qs then do { h \<leftarrow> weak_destroy (qs ! w) h; Some (ps, drop_nth w qs, h) }
      else Some (ps, qs, h))"
| "shp_step mal T (LockPtr w) (ps, qs, h) =
     (if w < length qs then do { (p, h) \<leftarrow> weak_Lock T (qs ! w) h; Some (ps @ [p], qs, h) }
      else Some (ps, qs, h))"
| "shp_step mal T (ThisPtr k) (ps, qs, h) =
     (case if k < length ps \<and> tc_shared T then bp_ptr (ps ! k) else None of
        None \<Rightarrow> Some (ps, qs, h)
      | Some a \<Rightarrow> do { (p, h) \<leftarrow> memshared_from_this T a h; Some (ps @ [p], qs, h) })"

primrec shp_run :: "(nat \<Rightarrow> bool) \<Rightarrow> t_class \<Rightarrow> shp_op list \<Rightarrow> shp_world \<Rightarrow> shp_world option" where
  "shp_run mal T [] w = Some w"
| "shp_run mal T (x # ops) w = do { w \<leftarrow> shp_step mal T x w; shp_run mal T ops w }"

definition uses :: "base_ptr list \<Rightarrow> addr \<Rightarrow> int" where
  "uses ps r = int (length (filter (\<lambda>p. bp_ref_count p = Some r) ps))"

text \<open>
  What a program has to avoid: to ask for memory of no bytes, or of fewer bytes than the class has that
  has a weak pointer inside; to let the last shared pointer go while a weak pointer is left, or
  while its type is not known (that of a pointer got by \<open>Lock\<close>), and to reset a pointer to one whose
  memory is not of type \<open>TYPE_NEW\<close>.
\<close>

definition may_drop :: "base_ptr list \<Rightarrow> base_ptr list \<Rightarrow> base_ptr \<Rightarrow> bool" where
  "may_drop ps qs p \<longleftrightarrow> (case bp_ref_count p of
     None \<Rightarrow> True
   | Some r \<Rightarrow> uses ps r = 1 \<longrightarrow> uses qs r = 0 \<and> bp_memory_type p \<noteq> None)"

fun careful :: "t_class \<Rightarrow> shp_op \<Rightarrow> shp_world \<Rightarrow> bool" where
  "careful T (MallocPtr n) (ps, qs, h) \<longleftrightarrow> 0 < n \<and> (tc_shared T \<longrightarrow> tc_size T \<le> n)"
| "careful T (ResetPtr k) (ps, qs, h) \<longleftrightarrow> (k < length ps \<longrightarrow> may_drop ps qs (ps ! k))"
| "careful T (ResetToPtr k j) (ps, qs, h) \<longleftrightarrow>
     (k < length ps \<and> j < length ps \<longrightarrow> bp_ref_count (ps ! k) \<noteq> bp_ref_count (ps ! j) \<longrightarrow> may_drop ps qs (ps ! k)) \<and>
     (j < length ps \<longrightarrow> bp_ref_count (ps ! j) = None \<or> bp_memory_type (ps ! j) = Some TYPE_NEW)"
| "careful T (DropPtr k) (ps, qs, h) \<longleftrightarrow> (k < length ps \<longrightarrow> may_drop ps qs (ps ! k))"
| "careful _ _ _ \<longleftrightarrow> True"

primrec careful_run :: "(nat \<Rightarrow> bool) \<Rightarrow> t_class \<Rightarrow> shp_op list \<Rightarrow> shp_world \<Rightarrow> bool" where
  "careful_run mal T [] w \<longleftrightarrow> True"
| "careful_run mal T (x # ops) w \<longleftrightarrow> careful T x w \<and>
     (case shp_step mal T x w of None \<Rightarrow> True | Some w \<Rightarrow> careful_run mal T ops w)"

definition shp_inv :: "t_class \<Rightarrow> sobj list \<Rightarrow> shp_world \<Rightarrow> bool" where
  "shp_inv T obs w \<longleftrightarrow> (case w of (ps, qs, h) \<Rightarrow>
     shp_core T obs (uses ps) (\<lambda>r. uses qs r + (if tc_shared T then 1 else 0)) h \<and>
     (\<forall>p \<in> set ps \<union> set qs. ptr_ok obs p) \<and> (\<forall>q \<in> set qs. bp_memory_type q = None))"

text \<open>No object without a shared pointer to it.\<close>

definition owned :: "sobj list \<Rightarrow> base_ptr list \<Rightarrow> bool" where
  "owned obs ps \<longleftrightarrow> (\<forall>ob \<in> set obs. 0 < uses ps (ob_ref ob))"

lemma uses_simps [simp]: "uses [] r = 0" "uses (p # ps) r = (if bp_ref_count p = Some r then 1 else 0) + uses ps r"
  "uses (ps @ ps') r = uses ps r + uses ps' r"
  by (simp_all add: uses_def)

lemma uses_append: "uses (ps @ [p]) = bump (bp_ref_count p) 1 (uses ps)"
  by (auto simp: fun_eq_iff bump_def split: option.splits)

lemma uses_nth: "k < length ps \<Longrightarrow> uses ps = bump (bp_ref_count (ps ! k)) 1 (uses (drop_nth k ps))"
  by (subst id_take_nth_drop [of k ps]) (auto simp: fun_eq_iff bump_def drop_nth_def split: option.splits)

lemma bump_bump: "bump a d (bump b e U) = bump b e (bump a d U)"
  "bump a d (bump a e U) = bump a (d + e) U" "bump a 0 U = U"
  by (auto simp: bump_def fun_eq_iff split: option.splits)

lemma uses_drop: "k < length ps \<Longrightarrow> uses (drop_nth k ps) = bump (bp_ref_count (ps ! k)) (- 1) (uses ps)"
  by (subst uses_nth [of k ps]) (simp_all add: bump_bump)

lemma uses_update:
  "k < length ps \<Longrightarrow> uses (ps[k := p]) = bump (bp_ref_count p) 1 (bump (bp_ref_count (ps ! k)) (- 1) (uses ps))"
  by (subst uses_drop [symmetric], assumption)
    (auto simp: upd_conv_take_nth_drop drop_nth_def fun_eq_iff bump_def split: option.splits)

lemma uses_nonneg [simp]: "0 \<le> uses ps r"
  by (simp add: uses_def)

lemma uses_pos: "p \<in> set ps \<Longrightarrow> bp_ref_count p = Some r \<Longrightarrow> 0 < uses ps r"
  by (auto simp: uses_def filter_empty_conv)

lemma uses_zero: "uses ps r = 0 \<longleftrightarrow> (\<forall>p \<in> set ps. bp_ref_count p \<noteq> Some r)"
  by (auto simp: uses_def filter_empty_conv)

abbreviation weaks :: "t_class \<Rightarrow> base_ptr list \<Rightarrow> addr \<Rightarrow> int" where
  "weaks T qs \<equiv> (\<lambda>r. uses qs r + (if tc_shared T then 1 else 0))"

lemma shp_invD:
  assumes "shp_inv T obs (ps, qs, h)"
  shows "shp_core T obs (uses ps) (weaks T qs) h"
    "k < length ps \<Longrightarrow> ptr_ok obs (ps ! k)" "w < length qs \<Longrightarrow> ptr_ok obs (qs ! w)"
    "\<forall>r. 0 \<le> weaks T qs r" "w < length qs \<Longrightarrow> bp_memory_type (qs ! w) = None"
  using assms by (simp_all add: shp_inv_def)

lemma inv_points:
  assumes "shp_inv T obs (ps, qs, h)" "p \<in> set ps" "bp_ref_count p \<noteq> None \<or> bp_ptr p \<noteq> None"
  shows "\<exists>ob \<in> set obs. points ob p"
proof -
  have "ptr_ok obs p" using assms(1,2) by (simp add: shp_inv_def)
  then show ?thesis using assms(3) by (auto simp: ptr_ok_def is_null_def)
qed

lemma drop_nth_subset: "set (drop_nth k xs) \<subseteq> set xs"
  by (auto simp: drop_nth_def dest: in_set_takeD in_set_dropD)

lemma set_update_drop: "set (xs[k := x]) \<subseteq> insert x (set (drop_nth k xs))"
proof (cases "k < length xs")
  case True
  then show ?thesis by (simp add: upd_conv_take_nth_drop drop_nth_def)
next
  case False
  then show ?thesis by (simp add: drop_nth_def subset_insertI list_update_beyond not_less)
qed

text \<open>The shared pointer \<open>k\<close> gives up what it points to, for \<open>other\<close>.\<close>

lemma swap_use_ok:
  assumes inv: "shp_inv T obs (ps, qs, h)" and k: "k < length ps" and other: "ptr_ok obs other"
    and may: "bp_ref_count (ps ! k) \<noteq> bp_ref_count other \<Longrightarrow> may_drop ps qs (ps ! k)"
  defines "U \<equiv> bump (bp_ref_count other) 1 (uses (drop_nth k ps))"
  shows "\<exists>p' h' obs'. swap_use T (bp_ref_count other) (ps ! k) h = Some (p', h') \<and> shp_core T obs' U (weaks T qs) h' \<and>
    (\<forall>p \<in> set (drop_nth k ps) \<union> set qs \<union> {other}. ptr_ok obs' p) \<and>
    (owned obs ps \<longrightarrow> (\<forall>ob \<in> set obs'. 0 < U (ob_ref ob)))"
proof -
  let ?U1 = "bump (bp_ref_count other) 1 (uses ps)"
  note c = shp_invD [OF inv]
  obtain h1 where h1: "IncrefUse_if (bp_ref_count other) h = Some h1" "shp_core T obs ?U1 (weaks T qs) h1"
    using core_IncrefUse_if [OF c(1) other] by blast
  have ok: "\<forall>p \<in> set (drop_nth k ps) \<union> set qs \<union> {other}. ptr_ok obs p"
    using inv other drop_nth_subset [of k ps] by (auto simp: shp_inv_def)
  have ge: "uses ps r \<le> ?U1 r" for r by (auto simp: bump_def split: option.splits)
  show ?thesis
  proof (cases "bp_ref_count (ps ! k)")
    case None
    then have "swap_use T (bp_ref_count other) (ps ! k) h = Some (ps ! k, h1)" using h1(1) by (simp add: swap_use_def)
    moreover have U: "U = ?U1" using uses_drop [OF k] None by (simp add: U_def)
    moreover have "0 < U (ob_ref ob)" if "owned obs ps" "ob \<in> set obs" for ob
      using that ge [of "ob_ref ob"] unfolding U owned_def by fastforce
    ultimately show ?thesis using h1(2) ok by blast
  next
    case (Some r)
    have pos: "0 < ?U1 r" using uses_pos [OF nth_mem [OF k] Some] ge [of r] by simp
    have one: "bp_ref_count other \<noteq> Some r \<and> uses ps r = 1 \<and> uses qs r = 0 \<and> bp_memory_type (ps ! k) \<noteq> None"
      if "?U1 r = 1"
    proof -
      have "bp_ref_count other \<noteq> Some r" using that uses_pos [OF nth_mem [OF k] Some] by auto
      moreover from this have "uses ps r = 1" using that by (auto simp: bump_def split: option.splits)
      ultimately show ?thesis using may Some by (auto simp: may_drop_def)
    qed
    have U: "bump (Some r) (- 1) ?U1 = U" by (simp only: U_def uses_drop [OF k] Some bump_bump(1))
    obtain p' h' obs' where d: "bp_DecrefUse T (ps ! k) h1 = Some (p', h')" "shp_core T obs' U (weaks T qs) h'"
      "obs' = filter (\<lambda>ob. ob_ref ob \<noteq> r \<or> ?U1 r \<noteq> 1) obs"
    proof -
      have "bp_memory_type (ps ! k) \<noteq> None" if "points ob (ps ! k)" "?U1 (ob_ref ob) = 1" for ob
        using one points_ref [OF that(1)] that(2) Some by simp
      then show ?thesis using core_bp_DecrefUse [OF h1(2) c(2) [OF k]] that U Some by (auto simp: Some)
    qed
    have "GetUseCount r h1 = Some (?U1 r)"
    proof -
      have "\<not> is_null (ps ! k)" using Some by (simp add: is_null_def)
      then obtain ob where "ob \<in> set obs" "points ob (ps ! k)" using c(2) [OF k] by (auto simp: ptr_ok_def)
      then show ?thesis using core_refs [OF h1(2)] points_ref [of ob "ps ! k"] Some by (auto simp: GetUseCount_def)
    qed
    then have s: "swap_use T (bp_ref_count other) (ps ! k) h = Some (p', h')"
      using h1(1) d(1) Some pos by (simp add: swap_use_def)
    have keep: "ob \<in> set obs'" if "ob \<in> set obs" "points ob p" and mem: "p \<in> set (drop_nth k ps) \<union> set qs \<union> {other}" for ob p
    proof -
      have "?U1 r \<noteq> 1" if r: "ob_ref ob = r"
      proof
        assume u: "?U1 r = 1"
        have "bp_ref_count p = Some r" using points_ref [OF \<open>points ob p\<close>] r by simp
        moreover have "uses (drop_nth k ps) r = 0" using uses_drop [OF k] Some one [OF u] by simp
        ultimately show False using mem one [OF u] by (auto simp: uses_zero)
      qed
      then show ?thesis using that(1) by (auto simp: d(3))
    qed
    have "\<forall>p \<in> set (drop_nth k ps) \<union> set qs \<union> {other}. ptr_ok obs' p"
      using ok keep unfolding ptr_ok_def by blast
    moreover have "0 < U (ob_ref ob)" if "owned obs ps" "ob \<in> set obs'" for ob
    proof (cases "ob_ref ob = r")
      case True
      then have "?U1 r \<noteq> 1" using that(2) by (simp add: d(3))
      then show ?thesis using pos True unfolding U [symmetric] by simp
    next
      case False
      have "0 < uses ps (ob_ref ob)" using that by (simp add: owned_def d(3))
      then show ?thesis using ge [of "ob_ref ob"] False unfolding U [symmetric] by simp
    qed
    ultimately show ?thesis using s d(2) by blast
  qed
qed

lemma swap_use_none:
  assumes "shp_inv T obs (ps, qs, h)" "k < length ps"
  shows "bp_DecrefUse T (ps ! k) h = swap_use T None (ps ! k) h"
proof (cases "bp_ref_count (ps ! k)")
  case None
  then show ?thesis by (simp add: swap_use_def bp_DecrefUse_def IncrefUse_if_def)
next
  case (Some r)
  then have "\<not> is_null (ps ! k)" by (simp add: is_null_def)
  then obtain ob where ob: "ob \<in> set obs" "points ob (ps ! k)" using shp_invD(2) [OF assms] by (auto simp: ptr_ok_def)
  then have "r = ob_ref ob" using points_ref [OF ob(2)] Some by simp
  then have "GetUseCount r h = Some (uses ps r)"
    using core_refs [OF shp_invD(1) [OF assms(1)] ob(1)] by (simp add: GetUseCount_def)
  then show ?thesis using Some uses_pos [OF nth_mem [OF assms(2)] Some] by (simp add: swap_use_def IncrefUse_if_def)
qed

lemma null_ok: "ptr_ok obs CBasePtr" "is_null CBasePtr" "bp_ref_count CBasePtr = None"
  by (simp_all add: ptr_ok_def is_null_def CBasePtr_def)

lemma swap_use_null:
  assumes inv: "shp_inv T obs (ps, qs, h)" and k: "k < length ps" and "may_drop ps qs (ps ! k)"
  shows "\<exists>p' h' obs'. swap_use T None (ps ! k) h = Some (p', h') \<and> shp_core T obs' (uses (drop_nth k ps)) (weaks T qs) h' \<and>
    (\<forall>p \<in> set (drop_nth k ps) \<union> set qs. ptr_ok obs' p) \<and> (owned obs ps \<longrightarrow> owned obs' (drop_nth k ps))"
  using swap_use_ok [OF inv k null_ok(1)] assms(3) unfolding null_ok(3) bump_simps(1) owned_def by blast

lemma drop_ok:
  assumes inv: "shp_inv T obs (ps, qs, h)" and k: "k < length ps" and "may_drop ps qs (ps ! k)"
  shows "\<exists>h' obs'. share_destroy T (ps ! k) h = Some h' \<and> shp_inv T obs' (drop_nth k ps, qs, h') \<and>
    (owned obs ps \<longrightarrow> owned obs' (drop_nth k ps))"
proof -
  obtain q h' obs' where "swap_use T None (ps ! k) h = Some (q, h')" "shp_core T obs' (uses (drop_nth k ps)) (weaks T qs) h'"
    "\<forall>p \<in> set (drop_nth k ps) \<union> set qs. ptr_ok obs' p" "owned obs ps \<longrightarrow> owned obs' (drop_nth k ps)"
    using swap_use_null [OF assms] by blast
  then show ?thesis
    using inv by (intro exI [of _ h'] exI [of _ obs']) (simp add: share_destroy_def swap_use_none [OF inv k] shp_inv_def)
qed

lemma replace_ok:
  assumes "k < length ps" "ptr_ok obs p" "shp_core T obs (bump (bp_ref_count p) 1 (uses (drop_nth k ps))) (weaks T qs) h"
    and "\<forall>p \<in> set (drop_nth k ps) \<union> set qs. ptr_ok obs p" "\<forall>q \<in> set qs. bp_memory_type q = None"
  shows "shp_inv T obs (ps[k := p], qs, h)"
proof -
  have "uses (ps[k := p]) = bump (bp_ref_count p) 1 (uses (drop_nth k ps))"
    using assms(1) by (simp add: uses_update uses_drop)
  then show ?thesis using assms set_update_drop [of ps k p] by (auto simp: shp_inv_def)
qed

lemma reset_ok:
  assumes inv: "shp_inv T obs (ps, qs, h)" and k: "k < length ps" and "may_drop ps qs (ps ! k)"
  shows "\<exists>p' h' obs'. bp_Reset T (ps ! k) h = Some (p', h') \<and> shp_inv T obs' (ps[k := p'], qs, h') \<and>
    (owned obs ps \<longrightarrow> owned obs' (ps[k := p']))"
proof -
  obtain q h' obs' where s: "swap_use T None (ps ! k) h = Some (q, h')" "shp_core T obs' (uses (drop_nth k ps)) (weaks T qs) h'"
    "\<forall>p \<in> set (drop_nth k ps) \<union> set qs. ptr_ok obs' p" "owned obs ps \<longrightarrow> owned obs' (drop_nth k ps)"
    using swap_use_null [OF assms] by blast
  let ?p = "q\<lparr>bp_ref_count := None, bp_ptr := None, bp_pool := False\<rparr>"
  have "ptr_ok obs' ?p" by (simp add: ptr_ok_def is_null_def)
  then have "shp_inv T obs' (ps[k := ?p], qs, h')" using s(2,3) k inv by (intro replace_ok) (simp_all add: shp_inv_def)
  moreover have "uses (ps[k := ?p]) = uses (drop_nth k ps)" using k by (simp add: uses_update uses_drop)
  ultimately show ?thesis using s(1,4) by (auto simp: bp_Reset_def Reset0_def owned_def)
qed

lemma reset_to_ok:
  assumes inv: "shp_inv T obs (ps, qs, h)" and k: "k < length ps" and j: "j < length ps"
    and may: "bp_ref_count (ps ! k) \<noteq> bp_ref_count (ps ! j) \<Longrightarrow> may_drop ps qs (ps ! k)"
    and type: "bp_ref_count (ps ! j) = None \<or> bp_memory_type (ps ! j) = Some TYPE_NEW"
  shows "\<exists>p' h' obs'. bp_Reset_to T (ps ! j) (ps ! k) h = Some (p', h') \<and> shp_inv T obs' (ps[k := p'], qs, h') \<and>
    (owned obs ps \<longrightarrow> owned obs' (ps[k := p']))"
proof -
  obtain q h' obs' where s: "swap_use T (bp_ref_count (ps ! j)) (ps ! k) h = Some (q, h')"
    "shp_core T obs' (bump (bp_ref_count (ps ! j)) 1 (uses (drop_nth k ps))) (weaks T qs) h'"
    "\<forall>p \<in> set (drop_nth k ps) \<union> set qs \<union> {ps ! j}. ptr_ok obs' p"
    "owned obs ps \<longrightarrow> (\<forall>ob \<in> set obs'. 0 < bump (bp_ref_count (ps ! j)) 1 (uses (drop_nth k ps)) (ob_ref ob))"
    using swap_use_ok [OF inv k shp_invD(2) [OF inv j] may] by blast
  let ?p = "q\<lparr>bp_ref_count := bp_ref_count (ps ! j), bp_ptr := bp_ptr (ps ! j), bp_pool := bp_pool (ps ! j),
    bp_malloc_size := Some 0, bp_memory_type := Some TYPE_NEW\<rparr>"
  have "ptr_ok obs' (ps ! j)" using s(3) by simp
  then have "ptr_ok obs' ?p" using type by (auto simp: ptr_ok_def is_null_def points_def)
  then have "shp_inv T obs' (ps[k := ?p], qs, h')" using s(2,3) k inv by (intro replace_ok) (simp_all add: shp_inv_def)
  moreover have "uses (ps[k := ?p]) = bump (bp_ref_count (ps ! j)) 1 (uses (drop_nth k ps))" using k by (simp add: uses_update uses_drop)
  ultimately show ?thesis using s(1,4) by (auto simp: bp_Reset_to_def Reset0_pool_def owned_def)
qed

lemma assign_ok:
  assumes inv: "shp_inv T obs (ps, qs, h)" and k: "k < length ps" and j: "j < length ps"
  shows "\<exists>h'. assign_copy (ps ! k) (ps ! j) h = Some (ps ! j, h') \<and> shp_inv T obs (ps[k := ps ! j], qs, h')"
proof -
  note c = shp_invD [OF inv]
  obtain h1 where h1: "only_DecrefUse (ps ! k) h = Some h1" "shp_core T obs (uses (drop_nth k ps)) (weaks T qs) h1"
    using core_only_DecrefUse [OF c(1) c(2) [OF k]] uses_drop [OF k] by auto
  obtain h2 where h2: "IncrefUse_if (bp_ref_count (ps ! j)) h1 = Some h2"
    "shp_core T obs (bump (bp_ref_count (ps ! j)) 1 (uses (drop_nth k ps))) (weaks T qs) h2"
    using core_IncrefUse_if [OF h1(2) c(2) [OF j]] by blast
  have "shp_inv T obs (ps[k := ps ! j], qs, h2)"
    using h2(2) k c(2) [OF j] inv drop_nth_subset [of k ps] by (intro replace_ok) (auto simp: shp_inv_def)
  then show ?thesis using h1 h2 by (simp add: assign_copy_def)
qed

lemma append_ok:
  assumes "shp_inv T obs (ps, qs, h)" "ptr_ok obs p" "shp_core T obs (bump (bp_ref_count p) 1 (uses ps)) (weaks T qs) h'"
  shows "shp_inv T obs (ps @ [p], qs, h')"
  using assms by (auto simp: shp_inv_def uses_append simp del: uses_simps(3))

lemma copy_ok:
  assumes "shp_inv T obs (ps, qs, h)" "ptr_ok obs p"
  shows "\<exists>h'. CBasePtr_copy T p h = Some (p, h') \<and> shp_inv T obs (ps @ [p], qs, h')"
  using core_copy [OF shp_invD(1) [OF assms(1)] assms(2) shp_invD(4) [OF assms(1)]] append_ok [OF assms] by blast

lemma owned_append: "owned obs ps \<Longrightarrow> owned obs (ps @ [p])"
  by (fastforce simp: owned_def)

lemma new_ok:
  assumes inv: "shp_inv T obs (ps, qs, h)" and r: "r \<notin> ob_ref ` set obs" and ob: "points ob p" "ob_ref ob = r"
    and c: "shp_core T (obs @ [ob]) ((uses ps)(r := 1)) ((weaks T qs)(r := if tc_shared T then 1 else 0)) h'"
  shows "shp_inv T (obs @ [ob]) (ps @ [p], qs, h')" "owned obs ps \<Longrightarrow> owned (obs @ [ob]) (ps @ [p])"
proof -
  have p: "bp_ref_count p = Some r" using points_ref [OF ob(1)] ob(2) by simp
  have "bp_ref_count x \<noteq> Some r" if "x \<in> set ps \<union> set qs" for x
  proof -
    have "ptr_ok obs x" using inv that by (auto simp: shp_inv_def)
    then show ?thesis using r points_ref by (fastforce simp: ptr_ok_def is_null_def)
  qed
  then have z: "uses ps r = 0" "uses qs r = 0" by (simp_all add: uses_zero)
  have "(uses ps)(r := 1) = uses (ps @ [p])" "(weaks T qs)(r := if tc_shared T then 1 else 0) = weaks T qs"
    using z p by (auto simp: fun_eq_iff)
  then have "shp_core T (obs @ [ob]) (uses (ps @ [p])) (weaks T qs) h'" using c by simp
  moreover have "ptr_ok (obs @ [ob]) x" if "ptr_ok obs x" for x using that by (auto simp: ptr_ok_def)
  moreover have "ptr_ok (obs @ [ob]) p" using ob(1) by (auto simp: ptr_ok_def)
  ultimately show "shp_inv T (obs @ [ob]) (ps @ [p], qs, h')"
    using inv by (auto simp: shp_inv_def simp del: uses_simps(3))
  show "owned (obs @ [ob]) (ps @ [p])" if "owned obs ps"
    using owned_append [OF that, of p] p ob(2) z by (auto simp: owned_def)
qed

lemma core_pool: "shp_core T obs U W h \<Longrightarrow> pool_inv (sh_mem h) (sum_list (map ob_area obs))"
  by (simp add: shp_core_def)

lemma make_new_ok:
  assumes inv: "shp_inv T obs (ps, qs, h)" and mal: "\<forall>k. mal k" and T: "0 < tc_size T"
  shows "\<exists>p h' obs'. MakeNewSharedPtr mal T h = Some (p, h') \<and> shp_inv T obs' (ps @ [p], qs, h') \<and>
    (owned obs ps \<longrightarrow> owned obs' (ps @ [p]))"
proof -
  note c = shp_invD(1) [OF inv]
  obtain a m where a: "PoolMalloc mal (tc_size T) (sh_mem h) = Some (a, m)"
    "pool_inv m (sum_list (map ob_area obs) + obj_bytes a (tc_size T))"
    using PoolMalloc_some [OF core_pool [OF c] T mal] by blast
  obtain r p h1 h2 where r: "new_ref mal (h\<lparr>sh_mem := m, sh_self := (sh_self h)(a := CBasePtr), sh_room := (sh_room h)(a := tc_size T)\<rparr>) = Some (r, h1)"
    "CBasePtr_new T (Some a) (Some r) True TYPE_NEW 0 h1 = Some (p, h2)" "r \<notin> ob_ref ` set obs"
    "let ob = \<lparr>ob_ref = r, ob_ptr = a, ob_type = TYPE_NEW, ob_size = tc_size T\<rparr> in
      points ob p \<and> shp_core T (obs @ [ob]) ((uses ps)(r := 1)) ((weaks T qs)(r := if tc_shared T then 1 else 0)) h2"
    using core_new_object [OF c mal T _ _ a(2), of TYPE_NEW CBasePtr 0] by (auto simp: null_ok)
  have "MakeNewSharedPtr mal T h = Some (p, h2)"
    using a(1) r(1,2) by (simp add: MakeNewSharedPtr_def alloc_with_def PoolNew_Malloc Let_def)
  then show ?thesis
    using new_ok [OF inv r(3)] r(4) by (metis sobj.select_convs(1))
qed

lemma make_malloc_ok:
  assumes inv: "shp_inv T obs (ps, qs, h)" and mal: "\<forall>k. mal k" and n: "0 < n" "tc_shared T \<longrightarrow> tc_size T \<le> n"
  shows "\<exists>p h' obs'. MakeMallocSharedPtr mal T n h = Some (p, h') \<and> shp_inv T obs' (ps @ [p], qs, h') \<and>
    (owned obs ps \<longrightarrow> owned obs' (ps @ [p]))"
proof -
  note c = shp_invD(1) [OF inv]
  let ?s = "CBasePtr\<lparr>bp_malloc_size := Some 0, bp_memory_type := Some TYPE_NEW\<rparr>"
  obtain a m where a: "PoolMalloc mal n (sh_mem h) = Some (a, m)"
    "pool_inv m (sum_list (map ob_area obs) + obj_bytes a n)"
    using PoolMalloc_some [OF core_pool [OF c] n(1) mal] by blast
  obtain r p h1 h2 where r: "new_ref mal (h\<lparr>sh_mem := m, sh_self := (sh_self h)(a := ?s), sh_room := (sh_room h)(a := n)\<rparr>) = Some (r, h1)"
    "CBasePtr_new T (Some a) (Some r) True TYPE_MALLOC n h1 = Some (p, h2)" "r \<notin> ob_ref ` set obs"
    "let ob = \<lparr>ob_ref = r, ob_ptr = a, ob_type = TYPE_MALLOC, ob_size = n\<rparr> in
      points ob p \<and> shp_core T (obs @ [ob]) ((uses ps)(r := 1)) ((weaks T qs)(r := if tc_shared T then 1 else 0)) h2"
    using core_new_object [OF c mal n(1) _ n(2) a(2), of TYPE_MALLOC ?s n] by (auto simp: null_ok)
  have "MakeMallocSharedPtr mal T n h = Some (p, h2)"
    using a(1) r(1,2) by (simp add: MakeMallocSharedPtr_def alloc_with_def Let_def)
  then show ?thesis
    using new_ok [OF inv r(3)] r(4) by (metis sobj.select_convs(1))
qed

text \<open>The weak pointers.\<close>

lemma weak_new_ok:
  assumes inv: "shp_inv T obs (ps, qs, h)" and k: "k < length ps"
  shows "\<exists>q h'. CMemWeakPtr_of (ps ! k) h = Some (q, h') \<and> shp_inv T obs (ps, qs @ [q], h')"
proof -
  note c = shp_invD [OF inv]
  obtain h' where h': "swap_weak (bp_ref_count (ps ! k)) CBasePtr h = Some h'"
    "shp_core T obs (uses ps) (bump (bp_ref_count (ps ! k)) 1 (weaks T qs)) h'"
    using core_swap_weak [OF c(1) c(2) [OF k] null_ok(1)] by (auto simp: null_ok)
  let ?q = "CBasePtr\<lparr>bp_ref_count := bp_ref_count (ps ! k), bp_ptr := bp_ptr (ps ! k), bp_pool := bp_pool (ps ! k)\<rparr>"
  have "ptr_ok obs ?q" using c(2) [OF k] by (auto simp: ptr_ok_def is_null_def points_def CBasePtr_def)
  moreover have "bp_memory_type ?q = None" by (simp add: CBasePtr_def)
  moreover have "bump (bp_ref_count (ps ! k)) 1 (weaks T qs) = weaks T (qs @ [?q])"
    by (auto simp: fun_eq_iff bump_def split: option.splits)
  ultimately have "shp_inv T obs (ps, qs @ [?q], h')" using h'(2) inv by (auto simp: shp_inv_def simp del: uses_simps(3))
  then show ?thesis using h'(1) by (auto simp: CMemWeakPtr_of_def bp_Resetw_to_def Resetw0_pool_def)
qed

lemma weak_assign_ok:
  assumes inv: "shp_inv T obs (ps, qs, h)" and w: "w < length qs" and p: "ptr_ok obs p"
  shows "\<exists>q h'. weak_assign (qs ! w) p h = Some (q, h') \<and> shp_inv T obs (ps, qs[w := q], h')"
proof -
  note c = shp_invD [OF inv]
  let ?q = "(qs ! w)\<lparr>bp_ref_count := bp_ref_count p, bp_ptr := bp_ptr p, bp_pool := bp_pool p\<rparr>"
  have "case bp_ref_count (qs ! w) of None \<Rightarrow> True | Some r \<Rightarrow> 0 < bump (bp_ref_count p) 1 (weaks T qs) r"
    using uses_pos [OF nth_mem [OF w]] by (fastforce simp: bump_def split: option.splits)
  then obtain h' where h': "swap_weak (bp_ref_count p) (qs ! w) h = Some h'"
    "shp_core T obs (uses ps) (bump (bp_ref_count (qs ! w)) (- 1) (bump (bp_ref_count p) 1 (weaks T qs))) h'"
    using core_swap_weak [OF c(1) p c(3) [OF w]] by blast
  have "bump (bp_ref_count (qs ! w)) (- 1) (bump (bp_ref_count p) 1 (weaks T qs)) = weaks T (qs[w := ?q])"
    using w by (auto simp: fun_eq_iff uses_update bump_def split: option.splits)
  moreover have "ptr_ok obs ?q" "bp_memory_type ?q = None"
    using p c(5) [OF w] by (auto simp: ptr_ok_def is_null_def points_def)
  moreover have "set (qs[w := ?q]) \<subseteq> insert ?q (set qs)" by (rule set_update_subset_insert)
  ultimately have "shp_inv T obs (ps, qs[w := ?q], h')" using h'(2) inv by (auto simp: shp_inv_def)
  then show ?thesis using h'(1) by (auto simp: weak_assign_def bp_Resetw_to_def Resetw0_pool_def)
qed

lemma weak_drop_ok:
  assumes inv: "shp_inv T obs (ps, qs, h)" and w: "w < length qs"
  shows "\<exists>h'. weak_destroy (qs ! w) h = Some h' \<and> shp_inv T obs (ps, drop_nth w qs, h')"
proof -
  note c = shp_invD [OF inv]
  obtain h' where h': "weak_destroy (qs ! w) h = Some h'"
    "shp_core T obs (uses ps) (bump (bp_ref_count (qs ! w)) (- 1) (weaks T qs)) h'"
    using core_bp_DecrefWeak [OF c(1) c(3) [OF w]] by (auto simp: weak_destroy_def)
  have "bump (bp_ref_count (qs ! w)) (- 1) (weaks T qs) = weaks T (drop_nth w qs)"
    using w by (auto simp: fun_eq_iff uses_drop bump_def split: option.splits)
  then show ?thesis using h' inv drop_nth_subset [of w qs] by (auto simp: shp_inv_def)
qed

lemma lock_ok:
  assumes inv: "shp_inv T obs (ps, qs, h)" and q: "ptr_ok obs q"
  shows "\<exists>p h'. weak_Lock T q h = Some (p, h') \<and> shp_inv T obs (ps @ [p], qs, h')"
proof -
  have null: "weak_Lock T q h = Some (CBasePtr, h)" if "bp_Expired q h = Some True"
    using that by (simp add: weak_Lock_def CMemWeakPtr_def bp_Resetw_def Resetw0_def swap_weak_def CBasePtr_copy_def
        IncrefUse_if_def EnableShared_def weak_destroy_def bp_DecrefWeak_def CBasePtr_def)
  have n: "shp_inv T obs (ps @ [CBasePtr], qs, h)"
    using append_ok [OF inv null_ok(1)] shp_invD(1) [OF inv] by (simp add: null_ok)
  show ?thesis
  proof (cases "is_null q")
    case True
    then show ?thesis using null n by (auto simp: is_null_def bp_Expired_def)
  next
    case False
    then obtain ob where ob: "ob \<in> set obs" "points ob q" using q by (auto simp: ptr_ok_def)
    have e: "bp_Expired q h = Some (uses ps (ob_ref ob) = 0)"
      using core_refs [OF shp_invD(1) [OF inv] ob(1)] points_ref [OF ob(2)] by (simp add: bp_Expired_def rc_Expired_def)
    show ?thesis
    proof (cases "uses ps (ob_ref ob) = 0")
      case True
      then show ?thesis using null n e by auto
    next
      case False
      then show ?thesis using copy_ok [OF inv q] e by (auto simp: weak_Lock_def)
    qed
  qed
qed

lemma shp_step_ok:
  assumes inv: "shp_inv T obs (ps, qs, h)" and care: "careful T x (ps, qs, h)" and mal: "\<forall>k. mal k" and T: "0 < tc_size T"
  shows "\<exists>ps' qs' h' obs'. shp_step mal T x (ps, qs, h) = Some (ps', qs', h') \<and> shp_inv T obs' (ps', qs', h') \<and>
    (owned obs ps \<and> (\<forall>k j. x \<noteq> AssignPtr k j) \<longrightarrow> owned obs' ps')"
proof (cases x)
  case NewPtr
  then show ?thesis using make_new_ok [OF inv mal T] by auto
next
  case (MallocPtr n)
  then show ?thesis using make_malloc_ok [OF inv mal, of n] care by auto
next
  case (CopyPtr k)
  then show ?thesis using inv copy_ok [OF inv shp_invD(2) [OF inv, of k]] owned_append [of obs ps "ps ! k"] by fastforce
next
  case (AssignPtr k j)
  then show ?thesis using inv assign_ok [OF inv, of k j] by (cases "k < length ps \<and> j < length ps") auto
next
  case (ResetPtr k)
  then show ?thesis using inv reset_ok [OF inv, of k] care by (cases "k < length ps") auto
next
  case (ResetToPtr k j)
  then show ?thesis using inv reset_to_ok [OF inv, of k j] care by (cases "k < length ps \<and> j < length ps") auto
next
  case (DropPtr k)
  then show ?thesis using inv drop_ok [OF inv, of k] care by (cases "k < length ps") auto
next
  case (NewWeak k)
  then show ?thesis using inv weak_new_ok [OF inv, of k] by (cases "k < length ps") auto
next
  case (AssignWeak w k)
  then show ?thesis using inv weak_assign_ok [OF inv, of w "ps ! k"] shp_invD(2) [OF inv, of k]
    by (cases "w < length qs \<and> k < length ps") auto
next
  case (AssignWeakWeak w v)
  then show ?thesis using inv weak_assign_ok [OF inv, of w "qs ! v"] shp_invD(3) [OF inv, of v]
    by (cases "w < length qs \<and> v < length qs") auto
next
  case (DropWeak w)
  then show ?thesis using inv weak_drop_ok [OF inv, of w] by (cases "w < length qs") auto
next
  case (LockPtr w)
  then show ?thesis using inv lock_ok [OF inv shp_invD(3) [OF inv, of w]] owned_append [of obs ps]
    by (cases "w < length qs") fastforce+
next
  case (ThisPtr k)
  show ?thesis
  proof (cases "k < length ps \<and> tc_shared T \<and> bp_ptr (ps ! k) \<noteq> None")
    case False
    then show ?thesis using inv ThisPtr by (auto split: option.splits)
  next
    case True
    then obtain ob where ob: "ob \<in> set obs" "points ob (ps ! k)"
      using shp_invD(2) [OF inv, of k] by (auto simp: ptr_ok_def is_null_def)
    then have self: "points ob (sh_self h (ob_ptr ob))" "self_ptr T (ob_ptr ob) h = Some (sh_self h (ob_ptr ob))"
      using core_self_ptr [OF shp_invD(1) [OF inv]] True by simp_all
    then have "ptr_ok obs (sh_self h (ob_ptr ob))" using ob(1) by (auto simp: ptr_ok_def)
    then obtain p h' where "weak_Lock T (sh_self h (ob_ptr ob)) h = Some (p, h')" "shp_inv T obs (ps @ [p], qs, h')"
      using lock_ok [OF inv] by blast
    then show ?thesis
      using ThisPtr True self(2) points_ptr [OF ob(2)] owned_append [of obs ps p]
      by (intro exI [of _ "ps @ [p]"] exI [of _ qs] exI [of _ h'] exI [of _ obs]) (simp add: memshared_from_this_def)
  qed
qed

lemma shp_run_ok:
  assumes "\<forall>k. mal k" "0 < tc_size T"
  shows "shp_inv T obs w \<Longrightarrow> careful_run mal T ops w \<Longrightarrow>
    \<exists>ps qs h obs'. shp_run mal T ops w = Some (ps, qs, h) \<and> shp_inv T obs' (ps, qs, h) \<and>
      (owned obs (fst w) \<and> (\<forall>k j. AssignPtr k j \<notin> set ops) \<longrightarrow> owned obs' ps)"
proof (induction ops arbitrary: w obs)
  case Nil
  then show ?case by (cases w) auto
next
  case (Cons x ops)
  obtain ps qs h where w: "w = (ps, qs, h)" by (cases w)
  obtain ps' qs' h' obs1 where s: "shp_step mal T x w = Some (ps', qs', h')" "shp_inv T obs1 (ps', qs', h')"
    "owned obs ps \<and> (\<forall>k j. x \<noteq> AssignPtr k j) \<longrightarrow> owned obs1 ps'"
    using shp_step_ok [of T obs ps qs h x mal] Cons.prems assms unfolding w by (metis careful_run.simps(2))
  obtain ps'' qs'' h'' obs2 where "shp_run mal T ops (ps', qs', h') = Some (ps'', qs'', h'')" "shp_inv T obs2 (ps'', qs'', h'')"
    "owned obs1 ps' \<and> (\<forall>k j. AssignPtr k j \<notin> set ops) \<longrightarrow> owned obs2 ps''"
    using Cons.IH [OF s(2)] Cons.prems(2) s(1) unfolding fst_conv by (metis careful_run.simps(2) option.simps(5))
  then show ?case using s
    by (intro exI [of _ ps''] exI [of _ qs''] exI [of _ h''] exI [of _ obs2]) (auto simp: w)
qed

section \<open>Properties\<close>

definition shp_start :: "int \<Rightarrow> int \<Rightarrow> (addr \<Rightarrow> base_ptr) \<Rightarrow> shp_heap" where
  "shp_start large_sz add_num garbage = \<lparr>sh_mem = CMemoryPool large_sz add_num, sh_refs = (\<lambda>_. None), sh_self = garbage, sh_room = (\<lambda>_. 0)\<rparr>"

lemma shp_start_inv: "shp_inv T [] ([], [], shp_start large_sz add_num garbage)"
  using CMemoryPool_inv by (simp add: shp_inv_def shp_core_def shp_start_def)

text \<open>
  C19. While \<open>malloc\<close> does not fail, a careful program with shared and weak pointers never does anything
  undefined: one that asks for at least one byte and for enough bytes for the class if that holds a
  weak pointer to itself, that keeps no weak pointer when the last shared pointer to an object goes,
  whose last pointer to an object is not one made by \<open>Lock\<close> of a weak pointer, and that resets pointers
  only to ones of type \<open>TYPE_NEW\<close>. At every moment \<open>UseCount\<close> is the number of shared pointers to the
  object, the object a pointer leads to has not been given back and shares no byte with another one; and
  if no pointer is assigned to, every object that has not been given back has a pointer to it.
\<close>

theorem shared_ptr_safe:
  assumes "\<forall>k. mal k" "0 < tc_size T" "careful_run mal T ops ([], [], shp_start large_sz add_num garbage)"
  shows "\<exists>ps qs h obs. shp_run mal T ops ([], [], shp_start large_sz add_num garbage) = Some (ps, qs, h) \<and>
    (\<forall>p \<in> set ps. UseCount p h = Some (case bp_ref_count p of None \<Rightarrow> 0 | Some r \<Rightarrow> uses ps r)) \<and>
    (\<forall>p \<in> set ps. \<forall>a. bp_ptr p = Some a \<longrightarrow> (\<exists>ob \<in> set obs. ob_ptr ob = a \<and> bp_ref_count p = Some (ob_ref ob))) \<and>
    pool_inv (sh_mem h) (sum_list (map ob_area obs)) \<and>
    ((\<forall>k j. AssignPtr k j \<notin> set ops) \<longrightarrow> (\<forall>ob \<in> set obs. \<exists>p \<in> set ps. bp_ptr p = Some (ob_ptr ob)))"
proof -
  obtain ps qs h obs where r: "shp_run mal T ops ([], [], shp_start large_sz add_num garbage) = Some (ps, qs, h)"
    "shp_inv T obs (ps, qs, h)" "(\<forall>k j. AssignPtr k j \<notin> set ops) \<longrightarrow> owned obs ps"
  proof -
    have "owned [] (fst ([], [], shp_start large_sz add_num garbage))" by (simp add: owned_def)
    then show ?thesis using shp_run_ok [OF assms(1,2) shp_start_inv assms(3)] that by blast
  qed
  note c = shp_invD(1) [OF r(2)]
  have points: "is_null p \<or> (\<exists>ob \<in> set obs. points ob p)" if "p \<in> set ps" for p
    using r(2) that by (auto simp: shp_inv_def ptr_ok_def)
  have "UseCount p h = Some (case bp_ref_count p of None \<Rightarrow> 0 | Some r \<Rightarrow> uses ps r)" if "p \<in> set ps" for p
    using points [OF that] core_refs [OF c] points_ref [of _ p] by (auto simp: UseCount_def GetUseCount_def is_null_def)
  moreover have "\<exists>ob \<in> set obs. ob_ptr ob = a \<and> bp_ref_count p = Some (ob_ref ob)" if "p \<in> set ps" "bp_ptr p = Some a" for p a
    using points [OF that(1)] that(2) points_ref [of _ p] points_ptr [of _ p] by (force simp: is_null_def)
  moreover have "\<exists>p \<in> set ps. bp_ptr p = Some (ob_ptr ob)" if "owned obs ps" "ob \<in> set obs" for ob
  proof -
    have "uses ps (ob_ref ob) \<noteq> 0" using that by (force simp: owned_def)
    then obtain p where p: "p \<in> set ps" "bp_ref_count p = Some (ob_ref ob)" by (auto simp: uses_zero)
    then obtain ob' where "ob' \<in> set obs" "points ob' p" using points [OF p(1)] by (auto simp: is_null_def)
    moreover from this have "ob = ob'" using core_inj [OF c that(2)] p points_ref [of ob' p] by simp
    ultimately show ?thesis using p(1) points_ptr [of ob' p] by auto
  qed
  ultimately show ?thesis using r(1,3) core_pool [OF c] by blast
qed

text \<open>A class with a weak pointer inside (80 bytes on a 64-bit machine), and a plain one.\<close>

definition small_class :: t_class where
  "small_class = \<lparr>tc_size = 96, tc_shared = True\<rparr>"

definition plain_class :: t_class where
  "plain_class = \<lparr>tc_size = 40, tc_shared = False\<rparr>"

definition some_ops :: "shp_op list" where
  "some_ops = [NewPtr, CopyPtr 0, NewWeak 0, MallocPtr 300, DropPtr 0, LockPtr 0, ThisPtr 0, DropWeak 0, ResetToPtr 1 0, ResetPtr 2]"

lemma some_ops_careful: "careful_run (\<lambda>_. True) small_class some_ops ([], [], shp_start 1024 10 (\<lambda>_. CBasePtr))"
  by code_simp

lemma some_ops_run:
  "map_option (\<lambda>(ps, qs, h). (map (\<lambda>p. UseCount p h) ps, length qs))
     (shp_run (\<lambda>_. True) small_class some_ops ([], [], shp_start 1024 10 (\<lambda>_. CBasePtr))) =
   Some ([Some 3, Some 3, Some 0, Some 3], 0)"
  by code_simp

theorem shared_ptr_safe_witness:
  "\<exists>ps qs h obs.
    shp_run (\<lambda>_. True) small_class some_ops ([], [], shp_start 1024 10 (\<lambda>_. CBasePtr)) = Some (ps, qs, h) \<and>
    map (\<lambda>p. UseCount p h) ps = [Some 3, Some 3, Some 0, Some 3] \<and>
    pool_inv (sh_mem h) (sum_list (map ob_area obs)) \<and>
    list_all (\<lambda>ob. list_ex (\<lambda>p. bp_ptr p = Some (ob_ptr ob)) ps) obs"
proof -
  have T: "0 < tc_size small_class" by (simp add: small_class_def)
  have a: "\<forall>k j. AssignPtr k j \<notin> set some_ops" by (simp add: some_ops_def)
  obtain ps qs h obs where r: "shp_run (\<lambda>_. True) small_class some_ops ([], [], shp_start 1024 10 (\<lambda>_. CBasePtr)) = Some (ps, qs, h)"
    "pool_inv (sh_mem h) (sum_list (map ob_area obs))" "\<forall>ob \<in> set obs. \<exists>p \<in> set ps. bp_ptr p = Some (ob_ptr ob)"
    using shared_ptr_safe [OF _ T some_ops_careful] a by blast
  have "list_all (\<lambda>ob. list_ex (\<lambda>p. bp_ptr p = Some (ob_ptr ob)) ps) obs" using r(3) by (simp add: list_all_iff list_ex_iff)
  then show ?thesis using r(1,2) some_ops_run by auto
qed

text \<open>
  C37. A weak pointer that outlives the last shared pointer is broken: the reference count goes with the
  object, and whatever is done with the weak pointer, even its destruction, uses the count that is
  gone.
\<close>

theorem weak_outlives_object:
  assumes inv: "shp_inv T obs (ps, qs, h)" and k: "k < length ps" and w: "w < length qs"
    and r: "bp_ref_count (ps ! k) = Some r" "bp_ref_count (qs ! w) = Some r"
    and last: "uses ps r = 1" "bp_memory_type (ps ! k) \<noteq> None"
  shows "\<exists>h'. share_destroy T (ps ! k) h = Some h' \<and> weak_Lock T (qs ! w) h' = None \<and>
    weak_destroy (qs ! w) h' = None \<and> weak_assign (qs ! w) p h' = None"
proof -
  note c = shp_invD [OF inv]
  obtain p' h' where d: "bp_DecrefUse T (ps ! k) h = Some (p', h')"
    "shp_core T (filter (\<lambda>ob. ob_ref ob \<noteq> r) obs) (bump (Some r) (- 1) (uses ps)) (weaks T qs) h'"
    using core_bp_DecrefUse [OF c(1) c(2) [OF k]] last r(1) by fastforce
  then have gone: "sh_refs h' r = None" by (intro core_gone [OF d(2)]) auto
  have none: "GetWeakCount r h' = None" "rc_DecrefWeak r h' = None" "rc_Expired r h' = None" "IncrefWeak r h' = None"
    by (simp_all add: gone GetWeakCount_def rc_DecrefWeak_def rc_Expired_def IncrefWeak_def)
  have "swap_weak (bp_ref_count p) (qs ! w) h' = None"
  proof (cases "bp_ref_count p")
    case (Some r')
    show ?thesis
    proof (cases "IncrefWeak r' h'")
      case (Some h2)
      then have "r' \<noteq> r" using none(4) by auto
      then have "GetWeakCount r h2 = None" using Some gone
        by (auto simp: IncrefWeak_def GetWeakCount_def split: option.splits)
      then show ?thesis using Some \<open>bp_ref_count p = Some r'\<close> r(2) by (simp add: swap_weak_def)
    qed (simp add: swap_weak_def \<open>bp_ref_count p = Some r'\<close>)
  qed (simp add: swap_weak_def r(2) none(1))
  then show ?thesis
    using d(1) none r(2)
    by (auto simp: share_destroy_def weak_Lock_def bp_Expired_def weak_destroy_def bp_DecrefWeak_def weak_assign_def
        bp_Resetw_to_def Resetw0_pool_def)
qed

definition weak_world :: "base_ptr list \<times> base_ptr list \<times> shp_heap" where
  "weak_world = the (shp_run (\<lambda>_. True) small_class [NewPtr, NewWeak 0] ([], [], shp_start 1024 10 (\<lambda>_. CBasePtr)))"

lemma weak_world_inv:
  "\<exists>obs ps qs h. weak_world = (ps, qs, h) \<and> shp_inv small_class obs (ps, qs, h)"
proof -
  have c: "careful_run (\<lambda>_. True) small_class [NewPtr, NewWeak 0] ([], [], shp_start 1024 10 (\<lambda>_. CBasePtr))" by code_simp
  obtain ps qs h obs where "shp_run (\<lambda>_. True) small_class [NewPtr, NewWeak 0] ([], [], shp_start 1024 10 (\<lambda>_. CBasePtr)) = Some (ps, qs, h)"
    "shp_inv small_class obs (ps, qs, h)"
    using shp_run_ok [OF _ _ shp_start_inv c] by (auto simp: small_class_def)
  then show ?thesis unfolding weak_world_def by (metis option.sel)
qed

lemma weak_world_ptrs:
  "map bp_ref_count (fst weak_world) = [Some (1, 0)] \<and> map bp_ref_count (fst (snd weak_world)) = [Some (1, 0)] \<and>
   map bp_memory_type (fst weak_world) = [Some TYPE_NEW]"
  by code_simp

theorem weak_outlives_object_witness:
  "\<exists>h'. share_destroy small_class (hd (fst weak_world)) (snd (snd weak_world)) = Some h' \<and>
    weak_Lock small_class (hd (fst (snd weak_world))) h' = None \<and>
    weak_destroy (hd (fst (snd weak_world))) h' = None"
proof -
  obtain obs ps qs h where w: "weak_world = (ps, qs, h)" "shp_inv small_class obs (ps, qs, h)"
    using weak_world_inv by blast
  obtain p q where l: "ps = [p]" "qs = [q]" "bp_ref_count p = Some (1, 0)" "bp_ref_count q = Some (1, 0)" "bp_memory_type p = Some TYPE_NEW"
    using weak_world_ptrs unfolding w(1) by (auto simp: map_eq_Cons_conv)
  show ?thesis
    using weak_outlives_object [OF w(2), of 0 0 "(1, 0)"] l by (auto simp: w(1))
qed

text \<open>
  \<open>Lock\<close> copies the members of a weak pointer, which was never told how the object was made: if the
  pointer it gives is the last one to go, it reads a member that was not initialised.
\<close>

theorem locked_ptr_last:
  assumes "shp_inv T obs (ps, qs, h)" "w < length qs" "weak_Lock T (qs ! w) h = Some (p, h')" "bp_ref_count p \<noteq> None"
    and "shp_inv T obs' (ps', qs', h'')" "p \<in> set ps'" "uses ps' (the (bp_ref_count p)) = 1"
  shows "share_destroy T p h'' = None"
proof -
  note c = shp_invD [OF assms(1)]
  have p: "p = qs ! w"
    using assms(3,4) by (auto simp: weak_Lock_def CBasePtr_copy_def CMemWeakPtr_def bp_Resetw_def Resetw0_def CBasePtr_def
        split: bind_splits if_splits)
  have t: "bp_memory_type p = None" using c(5) [OF assms(2)] p by simp
  obtain ob where ob: "ob \<in> set obs'" "points ob p"
    using inv_points [OF assms(5,6)] assms(4) by blast
  then have "rc_DecrefUse (ob_ref ob) h'' \<noteq> None" "bp_pool p" "bp_ref_count p = Some (ob_ref ob)"
    using core_refs [OF shp_invD(1) [OF assms(5)] ob(1)] by (simp_all add: rc_DecrefUse_def points_def)
  then show ?thesis
    using core_rc_DecrefUse [OF shp_invD(1) [OF assms(5)] ob(1)] assms(7) t
    by (auto simp: share_destroy_def bp_DecrefUse_def do_Destroy_def)
qed

text \<open>
  Assigning to the last pointer to an object leaks the object: nothing is given back, the count is 0
  and no pointer leads to it any more.
\<close>

theorem assign_leaks:
  assumes inv: "shp_inv T obs (ps, qs, h)" and k: "k < length ps" and j: "j < length ps"
    and r: "bp_ref_count (ps ! k) = Some r" "uses ps r = 1" "bp_ref_count (ps ! j) \<noteq> Some r"
  shows "\<exists>h' ob. assign_copy (ps ! k) (ps ! j) h = Some (ps ! j, h') \<and> shp_inv T obs (ps[k := ps ! j], qs, h') \<and>
    ob \<in> set obs \<and> ob_ref ob = r \<and> sh_mem h' = sh_mem h \<and> GetUseCount r h' = Some 0 \<and>
    (\<forall>p \<in> set (ps[k := ps ! j]). bp_ptr p \<noteq> Some (ob_ptr ob))"
proof -
  note c = shp_invD [OF inv]
  obtain h' where h': "assign_copy (ps ! k) (ps ! j) h = Some (ps ! j, h')" "shp_inv T obs (ps[k := ps ! j], qs, h')"
    using assign_ok [OF inv k j] by blast
  obtain ob where ob: "ob \<in> set obs" "points ob (ps ! k)" using c(2) [OF k] r(1) by (auto simp: ptr_ok_def is_null_def)
  then have o: "ob_ref ob = r" using points_ref [OF ob(2)] r(1) by simp
  have z: "uses (ps[k := ps ! j]) r = 0"
    using k r by (auto simp: uses_update bump_def split: option.splits)
  have "sh_mem h' = sh_mem h"
    using h'(1) by (auto simp: assign_copy_def only_DecrefUse_def rc_DecrefUse_def IncrefUse_if_def IncrefUse_def split: option.splits bind_splits)
  moreover have "GetUseCount r h' = Some 0"
    using core_refs [OF shp_invD(1) [OF h'(2)] ob(1)] o z by (simp add: GetUseCount_def)
  moreover have "bp_ptr p \<noteq> Some (ob_ptr ob)" if p: "p \<in> set (ps[k := ps ! j])" for p
  proof
    assume a: "bp_ptr p = Some (ob_ptr ob)"
    obtain ob' where ob': "ob' \<in> set obs" "points ob' p" using inv_points [OF h'(2) p] a by blast
    then have "ob = ob'" using core_inj [OF c(1) ob(1)] points_ptr [OF ob'(2)] a by simp
    then show False using z p points_ref [OF ob'(2)] o by (auto simp: uses_zero)
  qed
  ultimately show ?thesis using h' ob(1) o by blast
qed

text \<open>
  Concrete runs: \<open>Reset\<close> to a pointer forgets that the memory is of type \<open>TYPE_MALLOC\<close>, and 8 bytes are
  given back as an object of 40, so that the next object overlaps what is in use; a weak pointer left
  behind finds the count of another object at the same address; the moving constructor forgets the
  size.
\<close>

lemma Reset_to_overlaps:
  "map_option (\<lambda>(ps, qs, h). map bp_ptr ps)
     (shp_run (\<lambda>_. True) plain_class
        [MallocPtr 8, MallocPtr 8, NewPtr, CopyPtr 0, ResetToPtr 3 0, DropPtr 0, DropPtr 2, NewPtr]
        ([], [], shp_start 1024 10 (\<lambda>_. CBasePtr))) =
   Some [Some (0, 8), Some (2, 0), Some (0, 0)]"
  by code_simp

lemma Lock_finds_other_object:
  "map_option (\<lambda>(ps, qs, h). (map bp_ptr ps, map bp_ptr qs))
     (shp_run (\<lambda>_. True) plain_class [NewPtr, NewWeak 0, DropPtr 0, MallocPtr 100, LockPtr 0]
        ([], [], shp_start 1024 10 (\<lambda>_. CBasePtr))) =
   Some ([Some (2, 0), Some (0, 0)], [Some (0, 0)])"
  by code_simp

lemma move_forgets_size:
  "do { (p, h) \<leftarrow> MakeMallocSharedPtr (\<lambda>_. True) plain_class 100 (shp_start 1024 10 (\<lambda>_. CBasePtr));
        (p, r, h) \<leftarrow> CBasePtr_move plain_class p h;
        share_destroy plain_class p h } = None"
  by code_simp

end
