(* ===== verification/Config_File.thy ===== *)
theory Config_File
  imports Time_Tool
begin

text \<open>
  The configuration file \<^verbatim>\<open>base/Config.cpp\<close>. The files are a parameter (\<open>None\<close>: the file cannot be
  opened), and so is the conversion of \<open>GetDoubleValue\<close>, \<open>atof\<close>, whose results are not looked at. \<open>None\<close>
  as the result of a load is a loop that does not end, as that of \<open>GetIntValue\<close> a number that does not fit
  into an \<open>int\<close>. The mutex and the log lines are not modelled; nothing in the functions throws.
\<close>

section \<open>State and streams\<close>

record config =
  cf_file :: string
  cf_map :: "string \<rightharpoonup> string"

definition SetFilePath :: "string \<Rightarrow> config \<Rightarrow> config" where
  "SetFilePath path c = c\<lparr>cf_file := path\<rparr>"

text \<open>\<open>std::fstream\<close> for reading: what is left, and the bits \<open>eofbit\<close> and \<open>failbit\<close>.\<close>

record in_stream =
  is_rest :: string
  is_eof :: bool
  is_fail :: bool

text \<open>
  The characters \<open>getline\<close> takes when there is room for \<open>n\<close> of them: what is stored, what is left, and
  whether it stopped at the end or for want of room. It looks for the end and for the end of the line
  before it looks for room.
\<close>

fun get_chars :: "nat \<Rightarrow> string \<Rightarrow> string \<times> string \<times> bool \<times> bool" where
  "get_chars n [] = ([], [], True, False)"
| "get_chars n (c # cs) =
     (if c = CHR 0x0A then ([], cs, False, False)
      else case n of
        0 \<Rightarrow> ([], c # cs, False, True)
      | Suc n \<Rightarrow> (case get_chars n cs of (buf, rest, eof, full) \<Rightarrow> (c # buf, rest, eof, full)))"

text \<open>A stream that is not good takes nothing, and only the fail bit is set.\<close>

definition getline :: "nat \<Rightarrow> in_stream \<Rightarrow> string \<times> in_stream" where
  "getline n s =
     (if is_eof s \<or> is_fail s then ([], s\<lparr>is_fail := True\<rparr>)
      else case get_chars (n - 1) (is_rest s) of (buf, rest, eof, full) \<Rightarrow>
        (buf, \<lparr>is_rest = rest, is_eof = eof, is_fail = full \<or> is_rest s = []\<rparr>))"

section \<open>Operations\<close>

definition Trim :: "string \<Rightarrow> string" where
  "Trim line = (if line = [] then []
     else rev (dropWhile (\<lambda>c. c = CHR '' '') (rev (dropWhile (\<lambda>c. c = CHR '' '') line))))"

text \<open>\<open>strlen\<close>, and the string of a buffer: up to the first null character.\<close>

definition c_str :: "string \<Rightarrow> string" where
  "c_str buf = takeWhile (\<lambda>c. c \<noteq> CHR 0x00) buf"

text \<open>
  \<open>line.substr(0, pos)\<close> and \<open>line.substr(pos + 1)\<close> for the first \<open>=\<close>; without one the position is \<open>npos\<close>,
  and both are the whole line.
\<close>

definition before_sign :: "string \<Rightarrow> string" where
  "before_sign line = takeWhile (\<lambda>c. c \<noteq> CHR ''='') line"

definition after_sign :: "string \<Rightarrow> string" where
  "after_sign line = (if CHR ''='' \<in> set line then tl (dropWhile (\<lambda>c. c \<noteq> CHR ''='') line) else line)"

definition config_line :: "string \<Rightarrow> (string \<rightharpoonup> string) \<Rightarrow> (string \<rightharpoonup> string)" where
  "config_line buf m =
     (if length (c_str buf) < 3 then m
      else let line = Trim (c_str buf) in
        if line \<noteq> [] \<and> hd line = CHR ''#'' then m
        else m(Trim (before_sign line) \<mapsto> Trim (after_sign line)))"

partial_function (option) load_loop :: "in_stream \<Rightarrow> (string \<rightharpoonup> string) \<Rightarrow> (string \<rightharpoonup> string) option" where
  "load_loop s m =
     (if is_eof s then Some m
      else case getline 1024 s of (buf, s') \<Rightarrow> load_loop s' (config_line buf m))"

definition open_stream :: "string \<Rightarrow> in_stream" where
  "open_stream txt = \<lparr>is_rest = txt, is_eof = False, is_fail = False\<rparr>"

definition LoadFile :: "(string \<Rightarrow> string option) \<Rightarrow> string \<Rightarrow> config \<Rightarrow> (bool \<times> config) option" where
  "LoadFile files path c =
     (let c = SetFilePath path c in
      case files path of
        None \<Rightarrow> Some (False, c)
      | Some txt \<Rightarrow> map_option (\<lambda>m. (True, c\<lparr>cf_map := m\<rparr>)) (load_loop (open_stream txt) Map.empty))"

definition ReLoadFile :: "(string \<Rightarrow> string option) \<Rightarrow> config \<Rightarrow> (bool \<times> config) option" where
  "ReLoadFile files c = LoadFile files (cf_file c) c"

definition GetIntValue :: "string \<Rightarrow> config \<Rightarrow> int option" where
  "GetIntValue key c = (case cf_map c key of
     Some v \<Rightarrow> (if - 2147483648 \<le> atoi v \<and> atoi v < 2147483648 then Some (atoi v) else None)
   | None \<Rightarrow> Some (- 1))"

definition GetStringValue :: "string \<Rightarrow> config \<Rightarrow> string" where
  "GetStringValue key c = (case cf_map c key of Some v \<Rightarrow> v | None \<Rightarrow> [])"

definition GetDoubleValue :: "(string \<Rightarrow> 'd::{one, uminus}) \<Rightarrow> string \<Rightarrow> config \<Rightarrow> 'd" where
  "GetDoubleValue atof key c = (case cf_map c key of Some v \<Rightarrow> atof v | None \<Rightarrow> - 1)"

definition GetBoolValue :: "string \<Rightarrow> config \<Rightarrow> bool" where
  "GetBoolValue key c = (case cf_map c key of Some v \<Rightarrow> v = ''true'' \<or> v = ''1'' | None \<Rightarrow> False)"

section \<open>What a load does\<close>

text \<open>The lines of a file; behind the last end of line there is one more.\<close>

fun lines_of :: "string \<Rightarrow> string list" where
  "lines_of [] = [[]]"
| "lines_of (c # cs) =
     (if c = CHR 0x0A then [] # lines_of cs else (c # hd (lines_of cs)) # tl (lines_of cs))"

lemma lines_not_Nil [simp]: "lines_of cs \<noteq> []"
  by (cases cs) simp_all

definition line_fits :: "string \<Rightarrow> bool" where
  "line_fits l \<longleftrightarrow> length l \<le> 1023"

text \<open>A line that fits is taken whole, a longer one sets the fail bit.\<close>

lemma get_chars_fits:
  "length (hd (lines_of cs)) \<le> n \<Longrightarrow> \<exists>rest eof. get_chars n cs = (hd (lines_of cs), rest, eof, False) \<and>
    (if eof then rest = [] \<and> tl (lines_of cs) = [] else lines_of rest = tl (lines_of cs) \<and> length rest < length cs)"
proof (induction n cs rule: get_chars.induct)
  case (2 n c cs)
  show ?case
  proof (cases n)
    case 0
    then show ?thesis using "2.prems" by (cases "c = CHR 0x0A") auto
  next
    case (Suc k)
    show ?thesis
    proof (cases "c = CHR 0x0A")
      case False
      then obtain rest eof where "get_chars k cs = (hd (lines_of cs), rest, eof, False)"
        "if eof then rest = [] \<and> tl (lines_of cs) = [] else lines_of rest = tl (lines_of cs) \<and> length rest < length cs"
        using "2.IH" [OF False Suc] "2.prems" Suc by auto
      then show ?thesis using False Suc by (auto split: if_splits)
    qed auto
  qed
qed auto

lemma get_chars_full:
  "n < length (hd (lines_of cs)) \<Longrightarrow> \<exists>buf rest. get_chars n cs = (buf, rest, False, True)"
proof (induction n cs rule: get_chars.induct)
  case (2 n c cs)
  show ?case
  proof (cases n)
    case 0
    then show ?thesis using "2.prems" by (cases "c = CHR 0x0A") simp_all
  next
    case (Suc k)
    then show ?thesis using "2.prems" "2.IH" [OF _ Suc] by (cases "c = CHR 0x0A") fastforce+
  qed
qed simp

text \<open>A stream with the fail bit never reaches the end.\<close>

lemma load_failed:
  assumes "load_loop s m = Some r" "is_fail s"
  shows "is_eof s"
proof -
  have "is_fail s \<longrightarrow> is_eof s" if "load_loop s m = Some r" for s m r
    by (rule load_loop.raw_induct [OF _ that]) (fastforce simp: getline_def split: if_splits prod.splits)
  with assms show ?thesis by blast
qed

lemma load_loop_lines:
  "\<not> is_eof s \<Longrightarrow> \<not> is_fail s \<Longrightarrow> load_loop s m =
    (if list_all line_fits (lines_of (is_rest s)) then Some (fold config_line (lines_of (is_rest s)) m) else None)"
proof (induction "length (is_rest s)" arbitrary: s m rule: less_induct)
  case less
  show ?case
  proof (cases "line_fits (hd (lines_of (is_rest s)))")
    case False
    then obtain buf rest where "get_chars 1023 (is_rest s) = (buf, rest, False, True)"
      using get_chars_full [of 1023 "is_rest s"] by (auto simp: line_fits_def)
    then have "load_loop s m = load_loop \<lparr>is_rest = rest, is_eof = False, is_fail = True\<rparr> (config_line buf m)"
      using less.prems by (subst load_loop.simps) (simp add: getline_def)
    then have "load_loop s m = None"
      using load_failed [of "\<lparr>is_rest = rest, is_eof = False, is_fail = True\<rparr>" "config_line buf m"]
      by (metis in_stream.select_convs(2,3) not_Some_eq)
    then show ?thesis using False by (cases "lines_of (is_rest s)") auto
  next
    case True
    then obtain rest eof where g: "get_chars 1023 (is_rest s) = (hd (lines_of (is_rest s)), rest, eof, False)"
      "if eof then rest = [] \<and> tl (lines_of (is_rest s)) = []
       else lines_of rest = tl (lines_of (is_rest s)) \<and> length rest < length (is_rest s)"
      using get_chars_fits [of "is_rest s" 1023] by (auto simp: line_fits_def)
    let ?s = "\<lparr>is_rest = rest, is_eof = eof, is_fail = is_rest s = []\<rparr>"
    have l: "lines_of (is_rest s) = hd (lines_of (is_rest s)) # tl (lines_of (is_rest s))" by simp
    have step: "load_loop s m = load_loop ?s (config_line (hd (lines_of (is_rest s))) m)"
      using less.prems g(1) by (subst load_loop.simps) (simp add: getline_def)
    show ?thesis
    proof (cases eof)
      case True
      then have "load_loop ?s (config_line (hd (lines_of (is_rest s))) m) = Some (config_line (hd (lines_of (is_rest s))) m)"
        by (subst load_loop.simps) simp
      then show ?thesis
        using step g(2) \<open>line_fits _\<close> True by (cases "lines_of (is_rest s)") simp_all
    next
      case False
      then have "is_rest s \<noteq> []" using g(2) by auto
      then show ?thesis
        using step g(2) l \<open>line_fits _\<close> False less.hyps [of ?s "config_line (hd (lines_of (is_rest s))) m"]
        by (cases "lines_of (is_rest s)") simp_all
    qed
  qed
qed

text \<open>
  A load ends exactly when no line is longer than the buffer; then the map is what the lines say,
  one after the other.
\<close>

theorem LoadFile_lines:
  "LoadFile files path c = (case files path of
     None \<Rightarrow> Some (False, c\<lparr>cf_file := path\<rparr>)
   | Some txt \<Rightarrow>
       if list_all line_fits (lines_of txt)
       then Some (True, c\<lparr>cf_file := path, cf_map := fold config_line (lines_of txt) Map.empty\<rparr>)
       else None)"
  by (simp add: LoadFile_def SetFilePath_def load_loop_lines open_stream_def split: option.split)

section \<open>What is written is read\<close>

definition entry_text :: "string \<times> string \<Rightarrow> string" where
  "entry_text e = fst e @ ''='' @ snd e"

definition config_text :: "(string \<times> string) list \<Rightarrow> string" where
  "config_text es = concat (map (\<lambda>e. entry_text e @ [CHR 0x0A]) es)"

definition plain_text :: "string \<Rightarrow> bool" where
  "plain_text cs \<longleftrightarrow> Trim cs = cs \<and> CHR 0x0A \<notin> set cs \<and> CHR 0x00 \<notin> set cs"

definition entry_ok :: "string \<times> string \<Rightarrow> bool" where
  "entry_ok e \<longleftrightarrow> plain_text (fst e) \<and> plain_text (snd e) \<and> CHR ''='' \<notin> set (fst e) \<and>
     (case fst e of c # _ \<Rightarrow> c \<noteq> CHR ''#'' | [] \<Rightarrow> True) \<and>
     3 \<le> length (entry_text e) \<and> length (entry_text e) \<le> 1023"

lemma lines_append:
  "CHR 0x0A \<notin> set l \<Longrightarrow> lines_of (l @ CHR 0x0A # cs) = l # lines_of cs"
  by (induction l) auto

lemma lines_config: "list_all entry_ok es \<Longrightarrow> lines_of (config_text es) = map entry_text es @ [[]]"
  by (induction es) (auto simp: config_text_def entry_ok_def plain_text_def entry_text_def lines_append [of "_ @ _ # _", simplified])

lemma Trim_ends:
  "Trim cs = cs \<longleftrightarrow> cs = [] \<or> hd cs \<noteq> CHR '' '' \<and> last cs \<noteq> CHR '' ''"
proof (cases "cs = []")
  case False
  then obtain x xs where x: "cs = x # xs" by (cases cs) auto
  obtain ys y where y: "cs = ys @ [y]" using False by (cases cs rule: rev_cases) auto
  show ?thesis
  proof (cases "x = CHR '' ''")
    case True
    have "length (Trim cs) < length cs"
      using True x by (simp add: Trim_def) (metis length_dropWhile_le length_rev le_imp_less_Suc le_trans)
    then show ?thesis using True x by auto
  next
    case x': False
    have "Trim cs = rev (dropWhile (\<lambda>c. c = CHR '' '') (rev cs))" using x x' by (simp add: Trim_def)
    also have "\<dots> = cs \<longleftrightarrow> y \<noteq> CHR '' ''"
    proof (cases "y = CHR '' ''")
      case True
      have "length (dropWhile (\<lambda>c. c = CHR '' '') (rev ys)) < length cs"
        using y by (simp add: le_imp_less_Suc length_dropWhile_le [of _ "rev ys", simplified])
      then show ?thesis using True y by (auto dest: arg_cong [of _ _ length])
    next
      case False
      then show ?thesis using y by simp
    qed
    finally show ?thesis using x x' y by (metis last_snoc list.sel(1) list.distinct(1))
  qed
qed (simp add: Trim_def)

lemma c_str_plain: "CHR 0x00 \<notin> set cs \<Longrightarrow> c_str cs = cs"
  by (auto simp: c_str_def takeWhile_eq_all_conv)

lemma entry_line:
  assumes "entry_ok e"
  shows "config_line (entry_text e) m = m(fst e \<mapsto> snd e)"
proof -
  obtain k v where e: "e = (k, v)" by (cases e)
  have p: "Trim k = k" "Trim v = v" "CHR 0x00 \<notin> set k" "CHR 0x00 \<notin> set v" "CHR ''='' \<notin> set k" "3 \<le> length (entry_text e)"
    "case k of c # _ \<Rightarrow> c \<noteq> CHR ''#'' | [] \<Rightarrow> True"
    using assms by (simp_all add: e entry_ok_def plain_text_def)
  have c: "c_str (entry_text e) = entry_text e" using p(3,4) by (intro c_str_plain) (simp add: entry_text_def e)
  have t: "Trim (entry_text e) = entry_text e"
    using p(1,2) unfolding Trim_ends by (auto simp: entry_text_def e hd_append)
  have b: "before_sign (entry_text e) = k" "after_sign (entry_text e) = v"
  proof -
    have "\<And>c. c \<in> set k \<Longrightarrow> c \<noteq> CHR ''=''" using p(5) by auto
    then show "before_sign (entry_text e) = k" "after_sign (entry_text e) = v"
      by (simp_all add: before_sign_def after_sign_def entry_text_def e takeWhile_append2 dropWhile_append2)
  qed
  have h: "entry_text e \<noteq> []" "hd (entry_text e) \<noteq> CHR ''#''"
    using p(7) by (auto simp: entry_text_def e split: list.splits)
  show ?thesis using c t b h p(1,2,6) by (simp add: config_line_def e)
qed

lemma fold_entries:
  "list_all entry_ok es \<Longrightarrow> fold config_line (map entry_text es) m = fold (\<lambda>e m. m(fst e \<mapsto> snd e)) es m"
  by (induction es arbitrary: m) (simp_all add: entry_line)

lemma fold_upd: "fold (\<lambda>e m. m(fst e \<mapsto> snd e)) es m = m ++ map_of (rev es)"
  by (induction es arbitrary: m) (auto simp: map_add_def fun_eq_iff split: option.splits)

theorem config_round_trip:
  assumes "list_all entry_ok es" "files path = Some (config_text es)"
  shows "LoadFile files path c = Some (True, c\<lparr>cf_file := path, cf_map := map_of (rev es)\<rparr>)"
proof -
  have "list_all line_fits (lines_of (config_text es))"
    using assms(1) by (auto simp: lines_config list_all_iff line_fits_def entry_ok_def)
  moreover have "fold config_line (lines_of (config_text es)) Map.empty = map_of (rev es)"
    using assms(1) by (simp add: lines_config fold_entries fold_upd config_line_def c_str_def)
  ultimately show ?thesis using assms(2) by (simp add: LoadFile_lines)
qed

text \<open>Three settings, the last one twice.\<close>

definition some_settings :: "(string \<times> string) list" where
  "some_settings = [(''port'', ''20''), (''name'', ''a b''), (''port'', ''8800'')]"

lemma some_settings_ok: "list_all entry_ok some_settings"
  by (simp add: some_settings_def entry_ok_def plain_text_def Trim_ends entry_text_def)

theorem config_round_trip_witness:
  "LoadFile (\<lambda>_. Some (config_text some_settings)) ''a'' \<lparr>cf_file = [], cf_map = Map.empty\<rparr> =
   Some (True, \<lparr>cf_file = ''a'', cf_map = map_of (rev some_settings)\<rparr>)"
  using config_round_trip [of some_settings "\<lambda>_. Some (config_text some_settings)" "''a''"] some_settings_ok by simp

text \<open>A number written in decimal notation is read as that number.\<close>

lemma GetIntValue_decimal:
  assumes "cf_map c k = Some (decimal n)" "int n < 2147483648"
  shows "GetIntValue k c = Some (int n)"
  using assms by (simp add: GetIntValue_def atoi_decimal)

text \<open>A line without a sign is a setting whose value is its name.\<close>

lemma line_without_sign:
  assumes "CHR ''='' \<notin> set l" "plain_text l" "3 \<le> length l" "hd l \<noteq> CHR ''#''"
  shows "config_line l m = m(l \<mapsto> l)"
proof -
  have "takeWhile (\<lambda>c. c \<noteq> CHR ''='') l = l" using assms(1) by (auto simp: takeWhile_eq_all_conv)
  then have b: "before_sign l = l" "after_sign l = l" using assms(1) by (simp_all add: before_sign_def after_sign_def)
  have c: "c_str l = l" "Trim l = l" using assms(2) by (simp_all add: plain_text_def c_str_plain)
  show ?thesis using assms(3,4) by (simp add: config_line_def b c)
qed

end
