(* ===== verification/Any_Value.thy ===== *)
theory Any_Value
  imports Main "HOL-Library.Monad_Syntax"
begin

text \<open>
  The class \<^verbatim>\<open>CAny\<close> of \<^verbatim>\<open>base/Any.h\<close>, which holds a value of any type. An object is the pointer
  \<open>_content\<close> to a holder on the heap; a holder is a type with a value of it. Where \<open>new\<close> puts a holder
  is the parameter \<open>alloc\<close>; \<open>None\<close> is undefined behaviour. Temporaries are made and destroyed as in the
  code.
\<close>

section \<open>Holders and objects\<close>

type_synonym ('t, 'v) holders = "nat \<Rightarrow> ('t \<times> 'v) option"

type_synonym content = "nat option"

definition CAny :: content where
  "CAny = None"

definition CAny_value :: "(('t, 'v) holders \<Rightarrow> nat) \<Rightarrow> 't \<Rightarrow> 'v \<Rightarrow> ('t, 'v) holders \<Rightarrow> content \<times> ('t, 'v) holders" where
  "CAny_value alloc t v h = (Some (alloc h), h(alloc h \<mapsto> (t, v)))"

text \<open>The copy clones the holder.\<close>

definition CAny_copy :: "(('t, 'v) holders \<Rightarrow> nat) \<Rightarrow> content \<Rightarrow> ('t, 'v) holders \<Rightarrow> (content \<times> ('t, 'v) holders) option" where
  "CAny_copy alloc other h = (case other of
     None \<Rightarrow> Some (None, h)
   | Some a \<Rightarrow> do { (t, v) \<leftarrow> h a; Some (CAny_value alloc t v h) })"

text \<open>The object made and what is left of the other one.\<close>

definition CAny_move :: "content \<Rightarrow> content \<times> content" where
  "CAny_move other = (other, None)"

definition destroy_CAny :: "content \<Rightarrow> ('t, 'v) holders \<Rightarrow> ('t, 'v) holders option" where
  "destroy_CAny c h = (case c of
     None \<Rightarrow> Some h
   | Some a \<Rightarrow> if h a = None then None else Some (h(a := None)))"

definition any_Swap :: "content \<times> content \<Rightarrow> content \<times> content" where
  "any_Swap p = (snd p, fst p)"

text \<open>Assignments: a temporary is swapped with \<open>this\<close> and destroyed.\<close>

definition assign_temp :: "content \<Rightarrow> content \<Rightarrow> ('t, 'v) holders \<Rightarrow> (content \<times> ('t, 'v) holders) option" where
  "assign_temp temp this h =
     (case any_Swap (temp, this) of (temp, this) \<Rightarrow> do { h \<leftarrow> destroy_CAny temp h; Some (this, h) })"

definition assign_value ::
  "(('t, 'v) holders \<Rightarrow> nat) \<Rightarrow> 't \<Rightarrow> 'v \<Rightarrow> content \<Rightarrow> ('t, 'v) holders \<Rightarrow> (content \<times> ('t, 'v) holders) option" where
  "assign_value alloc t v this h = (case CAny_value alloc t v h of (temp, h) \<Rightarrow> assign_temp temp this h)"

definition any_assign_copy ::
  "(('t, 'v) holders \<Rightarrow> nat) \<Rightarrow> content \<Rightarrow> content \<Rightarrow> ('t, 'v) holders \<Rightarrow> (content \<times> ('t, 'v) holders) option" where
  "any_assign_copy alloc rhs this h = do { (temp, h) \<leftarrow> CAny_copy alloc rhs h; assign_temp temp this h }"

text \<open>The assignment that takes its argument by value: the argument is a copy, too.\<close>

definition assign_by_value ::
  "(('t, 'v) holders \<Rightarrow> nat) \<Rightarrow> content \<Rightarrow> content \<Rightarrow> ('t, 'v) holders \<Rightarrow> (content \<times> ('t, 'v) holders) option" where
  "assign_by_value alloc arg this h =
     do { (rhs, h) \<leftarrow> CAny_copy alloc arg h;
          (this, h) \<leftarrow> any_assign_copy alloc rhs this h;
          h \<leftarrow> destroy_CAny rhs h;
          Some (this, h) }"

definition any_Clear :: "content \<Rightarrow> ('t, 'v) holders \<Rightarrow> (content \<times> ('t, 'v) holders) option" where
  "any_Clear this h = assign_temp CAny this h"

definition any_Empty :: "content \<Rightarrow> bool" where
  "any_Empty this \<longleftrightarrow> this = None"

text \<open>\<open>Type\<close>: \<open>None\<close> is \<open>typeid(void)\<close>.\<close>

definition any_Type :: "content \<Rightarrow> ('t, 'v) holders \<Rightarrow> 't option option" where
  "any_Type this h = (case this of None \<Rightarrow> Some None | Some a \<Rightarrow> map_option (\<lambda>x. Some (fst x)) (h a))"

text \<open>
  \<open>any_cast\<close> of a pointer (null, or to an object) and of a reference. The latter makes an exception but
  does not throw it, and then reads through the null pointer.
\<close>

definition any_cast :: "'t \<Rightarrow> content option \<Rightarrow> ('t, 'v) holders \<Rightarrow> 'v option option" where
  "any_cast t operand h = (case operand of
     None \<Rightarrow> Some None
   | Some c \<Rightarrow> do {
       u \<leftarrow> any_Type c h;
       if u = Some t then (case c of Some a \<Rightarrow> map_option (\<lambda>x. Some (snd x)) (h a) | None \<Rightarrow> None)
       else Some None })"

definition any_cast_ref :: "'t \<Rightarrow> content \<Rightarrow> ('t, 'v) holders \<Rightarrow> 'v option" where
  "any_cast_ref t operand h = do { result \<leftarrow> any_cast t (Some operand) h; result }"

section \<open>Programs with objects\<close>

record ('t, 'v) any_state =
  an_vars :: "nat \<Rightarrow> content option"
  an_heap :: "('t, 'v) holders"

datatype ('t, 'v) any_op =
    AEmpty nat | AValue nat 't 'v | ACopy nat nat | AMove nat nat | ADestroy nat
  | ASwap nat nat | ASetValue nat 't 'v | ASetCopy nat nat | ASetByValue nat nat | ASetMove nat nat | AClear nat

definition any_put :: "nat \<Rightarrow> content \<times> ('t, 'v) holders \<Rightarrow> ('t, 'v) any_state \<Rightarrow> ('t, 'v) any_state" where
  "any_put x r s = s\<lparr>an_vars := (an_vars s)(x \<mapsto> fst r), an_heap := snd r\<rparr>"

definition any_new :: "nat \<Rightarrow> ('t, 'v) any_state \<Rightarrow> unit option" where
  "any_new x s = (if an_vars s x = None then Some () else None)"

definition any_swap_vars :: "nat \<Rightarrow> nat \<Rightarrow> ('t, 'v) any_state \<Rightarrow> ('t, 'v) any_state option" where
  "any_swap_vars x y s =
     do { c \<leftarrow> an_vars s x; d \<leftarrow> an_vars s y;
          Some (s\<lparr>an_vars := (an_vars s)(x \<mapsto> fst (any_Swap (c, d)), y \<mapsto> snd (any_Swap (c, d)))\<rparr>) }"

definition any_clear_var :: "nat \<Rightarrow> ('t, 'v) any_state \<Rightarrow> ('t, 'v) any_state option" where
  "any_clear_var x s = do { c \<leftarrow> an_vars s x; r \<leftarrow> any_Clear c (an_heap s); Some (any_put x r s) }"

text \<open>
  One step of a program: an object is made where there is none, the others are done with objects that
  exist. The moving assignment swaps, and destroys what the other one holds then.
\<close>

fun any_step :: "(('t, 'v) holders \<Rightarrow> nat) \<Rightarrow> ('t, 'v) any_op \<Rightarrow> ('t, 'v) any_state \<Rightarrow> ('t, 'v) any_state option" where
  "any_step alloc (AEmpty x) s = do { any_new x s; Some (any_put x (CAny, an_heap s) s) }"
| "any_step alloc (AValue x t v) s = do { any_new x s; Some (any_put x (CAny_value alloc t v (an_heap s)) s) }"
| "any_step alloc (ACopy x y) s =
     do { any_new x s; c \<leftarrow> an_vars s y; r \<leftarrow> CAny_copy alloc c (an_heap s); Some (any_put x r s) }"
| "any_step alloc (AMove x y) s =
     do { any_new x s; c \<leftarrow> an_vars s y;
          Some (s\<lparr>an_vars := (an_vars s)(y \<mapsto> snd (CAny_move c), x \<mapsto> fst (CAny_move c))\<rparr>) }"
| "any_step alloc (ADestroy x) s =
     do { c \<leftarrow> an_vars s x; h \<leftarrow> destroy_CAny c (an_heap s);
          Some (s\<lparr>an_vars := (an_vars s)(x := None), an_heap := h\<rparr>) }"
| "any_step alloc (ASwap x y) s = any_swap_vars x y s"
| "any_step alloc (ASetValue x t v) s =
     do { c \<leftarrow> an_vars s x; r \<leftarrow> assign_value alloc t v c (an_heap s); Some (any_put x r s) }"
| "any_step alloc (ASetCopy x y) s =
     do { c \<leftarrow> an_vars s x; d \<leftarrow> an_vars s y; r \<leftarrow> any_assign_copy alloc d c (an_heap s); Some (any_put x r s) }"
| "any_step alloc (ASetByValue x y) s =
     do { c \<leftarrow> an_vars s x; d \<leftarrow> an_vars s y; r \<leftarrow> assign_by_value alloc d c (an_heap s); Some (any_put x r s) }"
| "any_step alloc (ASetMove x y) s = do { s \<leftarrow> any_swap_vars y x s; any_clear_var y s }"
| "any_step alloc (AClear x) s = any_clear_var x s"

fun any_run :: "(('t, 'v) holders \<Rightarrow> nat) \<Rightarrow> ('t, 'v) any_op list \<Rightarrow> ('t, 'v) any_state \<Rightarrow> ('t, 'v) any_state option" where
  "any_run alloc [] s = Some s"
| "any_run alloc (x # xs) s = do { s \<leftarrow> any_step alloc x s; any_run alloc xs s }"

section \<open>Objects are values\<close>

text \<open>The specification: each object is empty or a value with its type.\<close>

type_synonym ('t, 'v) any_spec = "nat \<Rightarrow> ('t \<times> 'v) option option"

fun spec_step :: "('t, 'v) any_op \<Rightarrow> ('t, 'v) any_spec \<Rightarrow> ('t, 'v) any_spec option" where
  "spec_step (AEmpty x) a = (if a x = None then Some (a(x \<mapsto> None)) else None)"
| "spec_step (AValue x t v) a = (if a x = None then Some (a(x \<mapsto> Some (t, v))) else None)"
| "spec_step (ACopy x y) a = (if a x = None then map_option (\<lambda>c. a(x \<mapsto> c)) (a y) else None)"
| "spec_step (AMove x y) a = (if a x = None then map_option (\<lambda>c. a(y \<mapsto> None, x \<mapsto> c)) (a y) else None)"
| "spec_step (ADestroy x) a = map_option (\<lambda>_. a(x := None)) (a x)"
| "spec_step (ASwap x y) a = do { c \<leftarrow> a x; d \<leftarrow> a y; Some (a(x \<mapsto> d, y \<mapsto> c)) }"
| "spec_step (ASetValue x t v) a = map_option (\<lambda>_. a(x \<mapsto> Some (t, v))) (a x)"
| "spec_step (ASetCopy x y) a = do { _ \<leftarrow> a x; d \<leftarrow> a y; Some (a(x \<mapsto> d)) }"
| "spec_step (ASetByValue x y) a = do { _ \<leftarrow> a x; d \<leftarrow> a y; Some (a(x \<mapsto> d)) }"
| "spec_step (ASetMove x y) a = do { _ \<leftarrow> a x; d \<leftarrow> a y; Some (a(x \<mapsto> d, y \<mapsto> None)) }"
| "spec_step (AClear x) a = map_option (\<lambda>_. a(x \<mapsto> None)) (a x)"

fun spec_run :: "('t, 'v) any_op list \<Rightarrow> ('t, 'v) any_spec \<Rightarrow> ('t, 'v) any_spec option" where
  "spec_run [] a = Some a"
| "spec_run (x # xs) a = do { a \<leftarrow> spec_step x a; spec_run xs a }"

definition any_abs :: "('t, 'v) any_state \<Rightarrow> ('t, 'v) any_spec" where
  "any_abs s x = map_option (\<lambda>c. Option.bind c (an_heap s)) (an_vars s x)"

text \<open>Every holder belongs to exactly one object.\<close>

definition any_inv :: "('t, 'v) any_state \<Rightarrow> bool" where
  "any_inv s \<longleftrightarrow> finite (dom (an_heap s)) \<and>
     (\<forall>x a. an_vars s x = Some (Some a) \<longrightarrow> an_heap s a \<noteq> None) \<and>
     (\<forall>a. an_heap s a \<noteq> None \<longrightarrow> (\<exists>x. an_vars s x = Some (Some a))) \<and>
     (\<forall>x y a. an_vars s x = Some (Some a) \<longrightarrow> an_vars s y = Some (Some a) \<longrightarrow> x = y)"

definition alloc_ok :: "(('t, 'v) holders \<Rightarrow> nat) \<Rightarrow> bool" where
  "alloc_ok alloc \<longleftrightarrow> (\<forall>h. finite (dom h) \<longrightarrow> h (alloc h) = None)"

definition any_sim :: "('t, 'v) any_state option \<Rightarrow> ('t, 'v) any_spec option \<Rightarrow> bool" where
  "any_sim r a \<longleftrightarrow> (case r of None \<Rightarrow> a = None | Some s \<Rightarrow> any_inv s \<and> a = Some (any_abs s))"

lemma invD:
  assumes "any_inv s"
  shows "finite (dom (an_heap s))" "an_vars s x = Some (Some a) \<Longrightarrow> \<exists>y. an_heap s a = Some y"
    "an_vars s x = Some (Some a) \<Longrightarrow> an_vars s y = Some (Some a) \<Longrightarrow> x = y"
    "an_heap s a = Some z \<Longrightarrow> \<exists>x. an_vars s x = Some (Some a)"
  using assms by (auto simp: any_inv_def)

lemma invI:
  assumes "finite (dom (an_heap s))" "\<And>x a. an_vars s x = Some (Some a) \<Longrightarrow> \<exists>y. an_heap s a = Some y"
    "\<And>a z. an_heap s a = Some z \<Longrightarrow> \<exists>x. an_vars s x = Some (Some a)"
    "\<And>x y a. an_vars s x = Some (Some a) \<Longrightarrow> an_vars s y = Some (Some a) \<Longrightarrow> x = y"
  shows "any_inv s"
proof -
  have "an_heap s a \<noteq> None" if "an_vars s x = Some (Some a)" for x a using assms(2) [OF that] by auto
  moreover have "\<exists>x. an_vars s x = Some (Some a)" if "an_heap s a \<noteq> None" for a using assms(3) that by auto
  ultimately show ?thesis unfolding any_inv_def using assms(1,4) by blast
qed

text \<open>The changes the operations are made of: an object gets a fresh holder or none, and loses its old one.\<close>

definition lose :: "content \<Rightarrow> ('t, 'v) holders \<Rightarrow> ('t, 'v) holders" where
  "lose c h = (case c of None \<Rightarrow> h | Some a \<Rightarrow> h(a := None))"

definition held_by :: "nat \<Rightarrow> ('t, 'v) any_state \<Rightarrow> content" where
  "held_by x s = (case an_vars s x of None \<Rightarrow> None | Some c \<Rightarrow> c)"

lemma lose_apply: "lose c h b = (if c = Some b then None else h b)"
  by (simp add: lose_def split: option.split)

lemma held_by_iff: "held_by x s = Some a \<longleftrightarrow> an_vars s x = Some (Some a)"
  by (simp add: held_by_def split: option.split)

lemma lose_finite: "finite (dom h) \<Longrightarrow> finite (dom (lose c h))"
  by (cases c) (simp_all add: lose_def)

lemma gets_fresh:
  assumes inv: "any_inv s" and n: "an_heap s a = None"
  shows "any_inv (any_put x (Some a, lose (held_by x s) ((an_heap s)(a \<mapsto> tv))) s)" (is "any_inv ?t")
    "any_abs (any_put x (Some a, lose (held_by x s) ((an_heap s)(a \<mapsto> tv))) s) = (any_abs s)(x \<mapsto> Some tv)"
proof -
  have h: "an_heap ?t b = (if an_vars s x = Some (Some b) then None else if b = a then Some tv else an_heap s b)"
    "an_vars ?t y = (if y = x then Some (Some a) else an_vars s y)" for b y
    by (simp_all add: any_put_def lose_apply held_by_iff)
  have a: "an_vars s y \<noteq> Some (Some a)" for y using invD(2) [OF inv, of y a] n by auto
  have "finite (dom (an_heap ?t))" using invD(1) [OF inv] by (simp add: any_put_def lose_finite)
  moreover have "\<exists>z. an_heap ?t b = Some z" if "an_vars ?t y = Some (Some b)" for y b
    using that invD(2,3) [OF inv] a by (metis h option.inject)
  moreover have "\<exists>y. an_vars ?t y = Some (Some b)" if "an_heap ?t b = Some z" for b z
  proof -
    have "b = a \<or> an_vars s x \<noteq> Some (Some b) \<and> an_heap s b = Some z" using that unfolding h(1) by (auto split: if_splits)
    then show ?thesis unfolding h(2) using invD(4) [OF inv, of b z] by auto
  qed
  moreover have "y = y'" if "an_vars ?t y = Some (Some b)" "an_vars ?t y' = Some (Some b)" for y y' b
    using that invD(3) [OF inv] a by (metis h(2) option.inject)
  ultimately show "any_inv ?t" by (rule invI)
  have "any_abs ?t y = ((any_abs s)(x \<mapsto> Some tv)) y" for y
  proof (cases "y = x")
    case True
    then show ?thesis using a [of x] by (simp add: any_abs_def h)
  next
    case False
    then show ?thesis
      using invD(3) [OF inv, of y _ x] a [of y] unfolding any_abs_def h(2)
      by (cases "an_vars s y") (auto simp: h(1) split: bind_splits)
  qed
  then show "any_abs ?t = (any_abs s)(x \<mapsto> Some tv)" by blast
qed

lemma gets_none:
  assumes inv: "any_inv s" and v: "v = None \<or> v = Some None"
  shows "any_inv (s\<lparr>an_vars := (an_vars s)(x := v), an_heap := lose (held_by x s) (an_heap s)\<rparr>)" (is "any_inv ?t")
    "any_abs (s\<lparr>an_vars := (an_vars s)(x := v), an_heap := lose (held_by x s) (an_heap s)\<rparr>) =
     (any_abs s)(x := map_option (\<lambda>_. None) v)"
proof -
  have h: "an_heap ?t b = (if an_vars s x = Some (Some b) then None else an_heap s b)"
    "an_vars ?t y = (if y = x then v else an_vars s y)" for b y
    by (simp_all add: lose_apply held_by_iff)
  have v': "v \<noteq> Some (Some b)" for b using v by auto
  have "finite (dom (an_heap ?t))" using invD(1) [OF inv] by (simp add: lose_finite)
  moreover have "\<exists>z. an_heap ?t b = Some z" if "an_vars ?t y = Some (Some b)" for y b
    using that invD(2,3) [OF inv] v' by (metis h)
  moreover have "\<exists>y. an_vars ?t y = Some (Some b)" if "an_heap ?t b = Some z" for b z
  proof -
    have "an_vars s x \<noteq> Some (Some b)" "an_heap s b = Some z" using that unfolding h(1) by (auto split: if_splits)
    then show ?thesis unfolding h(2) using invD(4) [OF inv, of b z] by auto
  qed
  moreover have "y = y'" if "an_vars ?t y = Some (Some b)" "an_vars ?t y' = Some (Some b)" for y y' b
    using that invD(3) [OF inv] v' by (metis h(2))
  ultimately show "any_inv ?t" by (rule invI)
  have "any_abs ?t y = ((any_abs s)(x := map_option (\<lambda>_. None) v)) y" for y
  proof (cases "y = x")
    case True
    then show ?thesis using v by (auto simp: any_abs_def)
  next
    case False
    then show ?thesis
      using invD(3) [OF inv, of y _ x] unfolding any_abs_def h(2)
      by (cases "an_vars s y") (auto simp: lose_apply held_by_iff split: bind_splits)
  qed
  then show "any_abs ?t = (any_abs s)(x := map_option (\<lambda>_. None) v)" by blast
qed

lemma destroy_lose: "any_inv s \<Longrightarrow> an_vars s x = Some c \<Longrightarrow> destroy_CAny c (an_heap s) = Some (lose c (an_heap s))"
  using invD(2) [of s x] by (auto simp: destroy_CAny_def lose_def split: option.split)

lemma copy_fresh:
  assumes inv: "any_inv s" and al: "alloc_ok alloc" and y: "an_vars s y = Some c"
  shows "case Option.bind c (an_heap s) of
      None \<Rightarrow> c = None \<and> CAny_copy alloc c (an_heap s) = Some (None, an_heap s)
    | Some tv \<Rightarrow> \<exists>a. an_heap s a = None \<and> CAny_copy alloc c (an_heap s) = Some (Some a, (an_heap s)(a \<mapsto> tv))"
  using invD(1) [OF inv] invD(2) [OF inv, of y] y al
  by (cases c) (auto simp: CAny_copy_def CAny_value_def alloc_ok_def split: option.split)

lemma abs_var: "an_vars s x = None \<Longrightarrow> any_abs s x = None" "any_abs s x = None \<longleftrightarrow> an_vars s x = None" "an_vars s x = Some c \<Longrightarrow> any_abs s x = Some (Option.bind c (an_heap s))"
  by (simp_all add: any_abs_def)

text \<open>The assignments, in terms of these changes.\<close>

lemma assign_temp_lose:
  "any_inv s \<Longrightarrow> an_vars s x = Some c \<Longrightarrow> (\<And>b. c = Some b \<Longrightarrow> h b = an_heap s b) \<Longrightarrow>
   assign_temp temp c h = Some (temp, lose (held_by x s) h)"
  using invD(2) [of s x] by (fastforce simp: assign_temp_def any_Swap_def destroy_CAny_def lose_def held_by_def split: option.splits)

lemma held_by_Some: "an_vars s x = Some c \<Longrightarrow> held_by x s = c"
  by (simp add: held_by_def)

lemma sim_fresh:
  assumes "any_inv s" "an_heap s a = None"
  shows "any_sim (Some (any_put x (Some a, lose (held_by x s) ((an_heap s)(a \<mapsto> tv))) s)) (Some ((any_abs s)(x \<mapsto> Some tv)))"
  using gets_fresh [OF assms] by (simp add: any_sim_def)

lemma sim_none:
  assumes "any_inv s" "an_vars s x = Some c \<or> an_vars s x = None \<and> c = None"
  shows "any_sim (Some (any_put x (None, lose c (an_heap s)) s)) (Some ((any_abs s)(x \<mapsto> None)))"
    "any_sim (Some (s\<lparr>an_vars := (an_vars s)(x := None), an_heap := lose c (an_heap s)\<rparr>)) (Some ((any_abs s)(x := None)))"
  using gets_none [OF assms(1), of "Some None" x] gets_none [OF assms(1), of None x] assms(2)
  by (auto simp: any_sim_def any_put_def held_by_def)

lemma lose_None [simp]: "lose None h = h"
  by (simp add: lose_def)

lemma sim_copy_into:
  assumes inv: "any_inv s" and al: "alloc_ok alloc" and y: "an_vars s y = Some c" and x: "an_vars s x = None \<or> an_vars s x = Some d"
  shows "any_sim (do { (t, h) \<leftarrow> CAny_copy alloc c (an_heap s); Some (any_put x (t, lose (held_by x s) h) s) })
    (Some ((any_abs s)(x \<mapsto> Option.bind c (an_heap s))))"
proof (cases "Option.bind c (an_heap s)")
  case None
  then show ?thesis
    using copy_fresh [OF inv al y] sim_none(1) [OF inv, of x "held_by x s"] by (auto simp: held_by_def split: option.splits)
next
  case (Some tv)
  then show ?thesis using copy_fresh [OF inv al y] sim_fresh [OF inv, of _ x tv] by auto
qed

lemma swap_ok:
  assumes inv: "any_inv s" and x: "an_vars s x = Some c" "an_vars s y = Some d"
  shows "any_sim (any_swap_vars x y s) (spec_step (ASwap x y) (any_abs s))"
proof -
  let ?t = "s\<lparr>an_vars := (an_vars s)(x \<mapsto> d, y \<mapsto> c)\<rparr>"
  let ?p = "\<lambda>z. if z = x then y else if z = y then x else z"
  have v: "an_vars ?t z = an_vars s (?p z)" for z using x by auto
  have "any_inv ?t"
  proof (rule invI)
    show "\<exists>z. an_vars ?t z = Some (Some a)" if "an_heap ?t a = Some w" for a w
    proof -
      obtain z where "an_vars s z = Some (Some a)" using invD(4) [OF inv, of a w] \<open>an_heap ?t a = Some w\<close> by auto
      then have "an_vars ?t (?p z) = Some (Some a)" unfolding v by auto
      then show ?thesis by blast
    qed
    show "z = z'" if "an_vars ?t z = Some (Some a)" "an_vars ?t z' = Some (Some a)" for z z' a
      using invD(3) [OF inv, of "?p z" a "?p z'"] that unfolding v by (simp split: if_splits)
  qed (use invD(1,2) [OF inv] v in auto)
  moreover have "any_abs ?t = (any_abs s)(x \<mapsto> Option.bind d (an_heap s), y \<mapsto> Option.bind c (an_heap s))"
    by (simp add: any_abs_def fun_eq_iff)
  ultimately show ?thesis using x by (simp add: any_swap_vars_def any_Swap_def any_sim_def abs_var)
qed

lemma clear_ok:
  "any_inv s \<Longrightarrow> any_sim (any_clear_var x s) (spec_step (AClear x) (any_abs s))"
  using sim_none(1) [of s x] assign_temp_lose [of s x _ "an_heap s"]
  by (cases "an_vars s x") (simp_all add: any_clear_var_def any_Clear_def CAny_def any_sim_def abs_var held_by_def)

lemma move_ok:
  assumes inv: "any_inv s" and x: "an_vars s x = None" "an_vars s y = Some c"
  shows "any_sim (Some (s\<lparr>an_vars := (an_vars s)(y \<mapsto> None, x \<mapsto> c)\<rparr>)) (Some ((any_abs s)(y \<mapsto> None, x \<mapsto> Option.bind c (an_heap s))))"
proof -
  have xy: "x \<noteq> y" using x by auto
  let ?t = "s\<lparr>an_vars := (an_vars s)(y \<mapsto> None, x \<mapsto> c)\<rparr>"
  have v: "an_vars ?t z = Some (Some a) \<longleftrightarrow> z \<noteq> y \<and> an_vars s (if z = x then y else z) = Some (Some a)" for z a
    using x xy by auto
  have "any_inv ?t"
  proof (rule invI)
    show "\<exists>z. an_vars ?t z = Some (Some a)" if "an_heap ?t a = Some w" for a w
    proof -
      obtain z where z: "an_vars s z = Some (Some a)" using invD(4) [OF inv, of a w] \<open>an_heap ?t a = Some w\<close> by auto
      then have "z \<noteq> x" using x by auto
      then have "an_vars ?t (if z = y then x else z) = Some (Some a)" unfolding v using z xy by auto
      then show ?thesis by blast
    qed
    show "z = z'" if "an_vars ?t z = Some (Some a)" "an_vars ?t z' = Some (Some a)" for z z' a
      using invD(3) [OF inv, of "if z = x then y else z" a "if z' = x then y else z'"] that unfolding v by (simp split: if_splits)
  qed (use invD(1,2) [OF inv] v in auto)
  moreover have "any_abs ?t = (any_abs s)(y \<mapsto> None, x \<mapsto> Option.bind c (an_heap s))"
    by (simp add: any_abs_def fun_eq_iff)
  ultimately show ?thesis by (simp add: any_sim_def)
qed

text \<open>The assignment by value: of two copies one stays.\<close>

lemma by_value_copy:
  assumes inv: "any_inv s" and al: "alloc_ok alloc" and y: "an_vars s y = Some c" and x: "an_vars s x = Some d"
    and tv: "Option.bind c (an_heap s) = Some tv"
  shows "\<exists>a. an_heap s a = None \<and>
    assign_by_value alloc c d (an_heap s) = Some (Some a, lose (held_by x s) ((an_heap s)(a \<mapsto> tv)))"
proof -
  obtain e where e: "c = Some e" "an_heap s e = Some tv" using tv by (cases c) auto
  let ?a = "alloc (an_heap s)"
  let ?h = "(an_heap s)(?a \<mapsto> tv)"
  let ?b = "alloc ?h"
  have "finite (dom ?h)" using invD(1) [OF inv] by simp
  then have a: "an_heap s ?a = None" "?h ?b = None" using al invD(1) [OF inv] unfolding alloc_ok_def by blast+
  then have ab: "?a \<noteq> ?b" "an_heap s ?b = None" by (auto split: if_splits)
  have d: "b \<noteq> ?a \<and> b \<noteq> ?b" if "d = Some b" for b using invD(2) [OF inv, of x b] x that a(1) ab(2) by auto
  have t: "assign_temp (Some ?b) d (?h(?b \<mapsto> tv)) = Some (Some ?b, lose (held_by x s) (?h(?b \<mapsto> tv)))"
    by (rule assign_temp_lose [OF inv x]) (use d in auto)
  have l: "lose (held_by x s) (?h(?b \<mapsto> tv)) ?a = Some tv"
    using d ab x by (auto simp: lose_apply held_by_Some)
  have "(lose (held_by x s) (?h(?b \<mapsto> tv)))(?a := None) = lose (held_by x s) ((an_heap s)(?b \<mapsto> tv))"
    using a(1) ab(1) by (auto simp: fun_eq_iff lose_apply)
  then have "assign_by_value alloc c d (an_heap s) = Some (Some ?b, lose (held_by x s) ((an_heap s)(?b \<mapsto> tv)))"
    using e a l t by (simp add: assign_by_value_def any_assign_copy_def CAny_copy_def CAny_value_def destroy_CAny_def)
  then show ?thesis using ab(2) by blast
qed

lemma by_value_ok:
  assumes inv: "any_inv s" and al: "alloc_ok alloc" and y: "an_vars s y = Some c" and x: "an_vars s x = Some d"
  shows "any_sim (do { r \<leftarrow> assign_by_value alloc c d (an_heap s); Some (any_put x r s) })
    (Some ((any_abs s)(x \<mapsto> Option.bind c (an_heap s))))"
proof (cases "Option.bind c (an_heap s)")
  case None
  then have "c = None" using copy_fresh [OF inv al y] by auto
  then show ?thesis
    using sim_none(1) [OF inv, of x d] assign_temp_lose [OF inv x, of "an_heap s" None] x
    by (simp add: assign_by_value_def any_assign_copy_def CAny_copy_def destroy_CAny_def held_by_Some)
next
  case (Some tv)
  then show ?thesis using by_value_copy [OF inv al y x Some] sim_fresh [OF inv, of _ x tv] by auto
qed

section \<open>Programs\<close>

lemma any_step_ok:
  assumes inv: "any_inv s" and al: "alloc_ok alloc"
  shows "any_sim (any_step alloc x s) (spec_step x (any_abs s))"
proof (cases x)
  case (AEmpty x)
  then show ?thesis
    using sim_none(1) [OF inv, of x None] by (simp add: any_new_def abs_var CAny_def any_sim_def)
next
  case (AValue x t v)
  have "an_heap s (alloc (an_heap s)) = None" using al invD(1) [OF inv] by (simp add: alloc_ok_def)
  then show ?thesis
    using AValue sim_fresh [OF inv, of "alloc (an_heap s)" x "(t, v)"]
    by (cases "an_vars s x") (simp_all add: any_new_def abs_var CAny_value_def held_by_def any_sim_def)
next
  case (ACopy x y)
  show ?thesis
  proof (cases "an_vars s x = None \<and> an_vars s y \<noteq> None")
    case True
    then obtain c where y: "an_vars s y = Some c" and x: "an_vars s x = None" by auto
    have "any_sim (do { r \<leftarrow> CAny_copy alloc c (an_heap s); Some (any_put x r s) })
        (Some ((any_abs s)(x \<mapsto> Option.bind c (an_heap s))))"
      using sim_copy_into [OF inv al y, of x None] x by (simp add: held_by_def case_prod_unfold)
    then show ?thesis using ACopy x y by (simp add: any_new_def abs_var)
  qed (auto simp: ACopy any_new_def any_sim_def abs_var)
next
  case (AMove x y)
  then show ?thesis
    using move_ok [OF inv, of x y] by (cases "an_vars s y") (auto simp: any_new_def abs_var CAny_move_def any_sim_def)
next
  case (ADestroy x)
  then show ?thesis
    using sim_none(2) [OF inv, of x] destroy_lose [OF inv, of x]
    by (cases "an_vars s x") (simp_all add: abs_var any_sim_def)
next
  case (ASwap x y)
  then show ?thesis
    using swap_ok [OF inv, of x _ y]
    by (cases "an_vars s x"; cases "an_vars s y") (auto simp: any_swap_vars_def any_sim_def abs_var)
next
  case (ASetValue x t v)
  show ?thesis
  proof (cases "an_vars s x")
    case (Some c)
    let ?a = "alloc (an_heap s)"
    have a: "an_heap s ?a = None" using al invD(1) [OF inv] by (simp add: alloc_ok_def)
    then have "assign_value alloc t v c (an_heap s) = Some (Some ?a, lose (held_by x s) ((an_heap s)(?a \<mapsto> (t, v))))"
      using assign_temp_lose [OF inv Some, of "(an_heap s)(?a \<mapsto> (t, v))" "Some ?a"] invD(2) [OF inv, of x] Some
      by (fastforce simp: assign_value_def CAny_value_def)
    then show ?thesis using ASetValue Some sim_fresh [OF inv a, of x "(t, v)"] by (simp add: abs_var)
  qed (simp add: ASetValue abs_var any_sim_def)
next
  case (ASetCopy x y)
  show ?thesis
  proof (cases "an_vars s x = None \<or> an_vars s y = None")
    case False
    then obtain d c where v: "an_vars s x = Some d" "an_vars s y = Some c" by auto
    have "any_assign_copy alloc c d (an_heap s) = do { (t, h) \<leftarrow> CAny_copy alloc c (an_heap s); Some (t, lose (held_by x s) h) }"
    proof (cases "Option.bind c (an_heap s)")
      case None
      then show ?thesis
        using copy_fresh [OF inv al v(2)] assign_temp_lose [OF inv v(1), of "an_heap s" None] by (auto simp: any_assign_copy_def CAny_copy_def)
    next
      case (Some tv)
      obtain a where a: "an_heap s a = None" "CAny_copy alloc c (an_heap s) = Some (Some a, (an_heap s)(a \<mapsto> tv))"
        using copy_fresh [OF inv al v(2)] Some by auto
      then show ?thesis
        using assign_temp_lose [OF inv v(1), of "(an_heap s)(a \<mapsto> tv)" "Some a"] invD(2) [OF inv, of x] v(1)
        by (fastforce simp: any_assign_copy_def)
    qed
    then show ?thesis
      using ASetCopy v sim_copy_into [OF inv al v(2), of x d] by (simp add: abs_var bind_assoc case_prod_unfold)
  qed (auto simp: ASetCopy abs_var any_sim_def)
next
  case (ASetByValue x y)
  then show ?thesis
    using by_value_ok [OF inv al, of y _ x]
    by (cases "an_vars s x"; cases "an_vars s y") (simp_all add: abs_var any_sim_def)
next
  case (ASetMove x y)
  show ?thesis
  proof (cases "an_vars s x = None \<or> an_vars s y = None")
    case False
    then obtain d c where v: "an_vars s y = Some c" "an_vars s x = Some d" by auto
    obtain t where t: "any_swap_vars y x s = Some t" "any_inv t"
      "any_abs t = (any_abs s)(y \<mapsto> Option.bind d (an_heap s), x \<mapsto> Option.bind c (an_heap s))"
      using swap_ok [OF inv v] v by (auto simp: any_sim_def abs_var split: option.splits)
    have "any_sim (any_clear_var y t) (spec_step (AClear y) (any_abs t))" by (rule clear_ok [OF t(2)])
    moreover have "spec_step (AClear y) (any_abs t) = Some ((any_abs s)(x \<mapsto> Option.bind c (an_heap s), y \<mapsto> None))"
      using t(3) by (cases "y = x") (simp_all add: fun_upd_twist)
    ultimately have "any_sim (any_clear_var y t) (Some ((any_abs s)(x \<mapsto> Option.bind c (an_heap s), y \<mapsto> None)))"
      by (simp only:)
    then show ?thesis using ASetMove v t(1) by (simp add: abs_var)
  qed (auto simp: ASetMove abs_var any_sim_def any_swap_vars_def split: bind_splits)
next
  case (AClear x)
  then show ?thesis using clear_ok [OF inv, of x] by simp
qed

text \<open>
  Objects of \<open>CAny\<close> behave as values: a program does something undefined only if it uses an object that
  does not exist or makes one twice; copies are independent of each other; every holder belongs to one
  object, so that none is left when the objects are gone.
\<close>

theorem any_values:
  assumes "alloc_ok alloc"
  shows "any_inv s \<Longrightarrow> any_sim (any_run alloc xs s) (spec_run xs (any_abs s))"
proof (induction xs arbitrary: s)
  case Nil
  then show ?case by (simp add: any_sim_def)
next
  case (Cons x xs)
  show ?case
    using any_step_ok [OF Cons.prems assms, of x] Cons.IH
    by (cases "any_step alloc x s") (auto simp: any_sim_def)
qed

lemma no_holders_left: "any_inv s \<Longrightarrow> \<forall>x. an_vars s x = None \<Longrightarrow> an_heap s = (\<lambda>_. None)"
  using invD(4) [of s] by (metis not_Some_eq option.distinct(1) ext)

text \<open>\<open>any_cast\<close> to another type is defined for a pointer and undefined for a reference.\<close>

lemma any_cast_other:
  assumes "any_inv s" "an_vars s x = Some c" "Option.bind c (an_heap s) = Some (u, v)"
  shows "any_cast t (Some c) (an_heap s) = Some (if t = u then Some v else None)"
    "any_cast_ref t c (an_heap s) = (if t = u then Some v else None)"
  using assms(3) by (cases c; auto simp: any_cast_def any_cast_ref_def any_Type_def)+

end
