(* ===== verification/Std_Map.thy ===== *)
theory Std_Map
  imports Hudp_Prelude
begin

text \<open>
  \<open>std::map\<close>: the interface the components rely on, and the sorted association list that stands
  for it in the model. \<open>entries\<close> is the iteration order; \<open>begin()\<close> is its first element.
\<close>

locale ordered_map =
  fixes lookup :: "'m \<Rightarrow> 'k::linorder \<Rightarrow> 'v option"
    and insert :: "'k \<Rightarrow> 'v \<Rightarrow> 'm \<Rightarrow> 'm"
    and erase :: "'k \<Rightarrow> 'm \<Rightarrow> 'm"
    and entries :: "'m \<Rightarrow> ('k \<times> 'v) list"
    and invar :: "'m \<Rightarrow> bool"
  assumes lookup_insert: "invar m \<Longrightarrow> lookup (insert k v m) = (lookup m)(k \<mapsto> v)"
    and lookup_erase: "invar m \<Longrightarrow> lookup (erase k m) = (lookup m)(k := None)"
    and invar_insert: "invar m \<Longrightarrow> invar (insert k v m)"
    and invar_erase: "invar m \<Longrightarrow> invar (erase k m)"
    and lookup_entries: "invar m \<Longrightarrow> lookup m = map_of (entries m)"
    and sorted_entries: "invar m \<Longrightarrow> sorted_wrt (<) (map fst (entries m))"
begin

lemma distinct_keys: "invar m \<Longrightarrow> distinct (map fst (entries m))"
  using sorted_entries strict_sorted_iff by blast

lemma begin_least:
  assumes "invar m" and "entries m = (k, v) # rest"
  shows "lookup m k = Some v" and "lookup m k' \<noteq> None \<Longrightarrow> k \<le> k'"
proof -
  show "lookup m k = Some v"
    using assms by (simp add: lookup_entries)
  assume "lookup m k' \<noteq> None"
  then obtain v' where "map_of (entries m) k' = Some v'"
    using assms(1) by (auto simp: lookup_entries)
  then have "k' \<in> set (map fst (entries m))"
    by (force dest: map_of_SomeD)
  then show "k \<le> k'"
    using sorted_entries [OF assms(1)] assms(2) by (auto intro: less_imp_le)
qed

lemma entries_unique:
  assumes "invar m" and "invar m'" and "lookup m = lookup m'"
  shows "entries m = entries m'"
proof -
  have "map_of (entries m) = map_of (entries m')"
    using assms by (simp add: lookup_entries)
  then have "set (entries m) = set (entries m')"
    using distinct_keys assms(1,2) by (metis map_of_inject_set)
  then show ?thesis
    using sorted_entries assms(1,2) by (intro map_sorted_distinct_set_unique [where f = fst])
      (auto simp: strict_sorted_iff inj_on_def distinct_map dest: eq_key_imp_eq_value)
qed

end

fun omap_insert :: "'k::linorder \<Rightarrow> 'v \<Rightarrow> ('k \<times> 'v) list \<Rightarrow> ('k \<times> 'v) list" where
  "omap_insert k v [] = [(k, v)]"
| "omap_insert k v ((k', v') # xs) =
     (if k < k' then (k, v) # (k', v') # xs
      else if k = k' then (k, v) # xs
      else (k', v') # omap_insert k v xs)"

definition omap_erase :: "'k \<Rightarrow> ('k \<times> 'v) list \<Rightarrow> ('k \<times> 'v) list" where
  "omap_erase k xs = filter (\<lambda>p. fst p \<noteq> k) xs"

definition omap_ok :: "('k::linorder \<times> 'v) list \<Rightarrow> bool" where
  "omap_ok xs \<longleftrightarrow> sorted_wrt (<) (map fst xs)"

lemma omap_ok_Nil [simp]: "omap_ok []"
  by (simp add: omap_ok_def)

lemma omap_ok_Cons [simp]: "omap_ok (p # xs) \<longleftrightarrow> (\<forall>k \<in> fst ` set xs. fst p < k) \<and> omap_ok xs"
  by (simp add: omap_ok_def)

lemma keys_omap_insert: "fst ` set (omap_insert k v xs) = insert k (fst ` set xs)"
  by (induction k v xs rule: omap_insert.induct) (simp_all add: insert_commute)

lemma omap_ok_insert: "omap_ok xs \<Longrightarrow> omap_ok (omap_insert k v xs)"
proof (induction k v xs rule: omap_insert.induct)
  case (2 k v k' v' xs)
  consider "k < k'" | "k = k'" | "k' < k" by fastforce
  then show ?case
  proof cases
    case 3
    then have "\<not> k < k'" and "k \<noteq> k'" by auto
    then show ?thesis
      using 2 3 by (simp add: keys_omap_insert)
  qed (use 2 in \<open>auto intro: less_trans\<close>)
qed simp

lemma map_of_omap_insert: "omap_ok xs \<Longrightarrow> map_of (omap_insert k v xs) = (map_of xs)(k \<mapsto> v)"
  by (induction xs) (auto simp: fun_eq_iff)

lemma omap_ok_erase: "omap_ok xs \<Longrightarrow> omap_ok (omap_erase k xs)"
  by (induction xs) (auto simp: omap_erase_def)

lemma map_of_omap_erase: "map_of (omap_erase k xs) = (map_of xs)(k := None)"
  by (induction xs) (auto simp: omap_erase_def fun_eq_iff)

lemma sorted_entries_omap: "omap_ok xs \<Longrightarrow> sorted_wrt (<) (map fst xs)"
  by (simp add: omap_ok_def)

interpretation omap: ordered_map map_of omap_insert omap_erase "\<lambda>xs. xs" omap_ok
  by unfold_locales (simp_all add: map_of_omap_insert map_of_omap_erase omap_ok_insert
      omap_ok_erase sorted_entries_omap)

lemma omap_erase_begin: "omap_ok ((k, v) # xs) \<Longrightarrow> omap_erase k ((k, v) # xs) = xs"
  by (auto simp: omap_erase_def filter_id_conv)

lemma omap_ok_append: "omap_ok (xs @ ys) \<Longrightarrow> omap_ok xs \<and> omap_ok ys"
  by (simp add: omap_ok_def sorted_wrt_append)

end
