(* ===== verification/Hudp_Config.thy ===== *)
theory Hudp_Config
  imports Hudp_Prelude
begin

text \<open>
  The compile-time configuration and the flag words of the library: \<^verbatim>\<open>hudp/HudpConfig.h\<close>,
  \<^verbatim>\<open>include/HudpFlag.h\<close>, \<^verbatim>\<open>common/CommonFlag.h\<close>, \<^verbatim>\<open>common/CommonType.h\<close> and the flags of
  \<^verbatim>\<open>interface/IMsg.h\<close>. Enumerators are words of the width the code stores them in.
\<close>

section \<open>HudpConfig.h\<close>

definition max_id :: u16 where "max_id = 0xFFFF"
definition mtu :: u16 where "mtu = 440"
definition hudp_header_size :: u16 where "hudp_header_size = 40"
definition must_less_mtu :: bool where "must_less_mtu = True"
definition max_length :: u16 where "max_length = 0xFFFF"
definition max_compare_num :: u16 where "max_compare_num = 100"
definition msg_body_size :: u16 where "msg_body_size = mtu - hudp_header_size"
definition pri_surplus :: "8 word" where "pri_surplus = 2"
definition msx_cache_msg_num :: u16 where "msx_cache_msg_num = 256"
definition init_send_wnd_size :: u16 where "init_send_wnd_size = 6"
definition pend_ack_send :: u16 where "pend_ack_send = 100"
definition resend_time :: u16 where "resend_time = 150"
definition quick_resend_limit :: u16 where "quick_resend_limit = 3"
definition init_mdev_max :: u32 where "init_mdev_max = 15"
definition init_cur_rto :: u32 where "init_cur_rto = ucast resend_time"
definition msg_with_time :: bool where "msg_with_time = True"
definition send_all_msg_when_close :: bool where "send_all_msg_when_close = True"
definition two_msl_time :: u32 where "two_msl_time = 30000"
definition msg_discard_limit :: u16 where "msg_discard_limit = 3"
definition default_pacing_rate :: u32 where "default_pacing_rate = 0xFFFF"
definition use_fq_and_pacing :: bool where "use_fq_and_pacing = True"
definition filter_whit_thread :: bool where "filter_whit_thread = True"
definition upper_with_thread :: bool where "upper_with_thread = True"
definition msg_pool_reduce_limit_size :: u16 where "msg_pool_reduce_limit_size = 50"
definition max_rto_time :: u16 where "max_rto_time = 12000"

lemmas config_defs = max_id_def mtu_def hudp_header_size_def must_less_mtu_def max_length_def
  max_compare_num_def msg_body_size_def pri_surplus_def msx_cache_msg_num_def
  init_send_wnd_size_def pend_ack_send_def resend_time_def quick_resend_limit_def
  init_mdev_max_def init_cur_rto_def msg_with_time_def send_all_msg_when_close_def
  two_msl_time_def msg_discard_limit_def default_pacing_rate_def use_fq_and_pacing_def

section \<open>HudpFlag.h: reliability, priority, error codes\<close>

definition HTF_ORDERLY :: u32 where "HTF_ORDERLY = 0x01"
definition HTF_RELIABLE :: u32 where "HTF_RELIABLE = 0x02"
definition HTF_RELIABLE_ORDERLY :: u32 where "HTF_RELIABLE_ORDERLY = 0x04"
definition HTF_NORMAL :: u32 where "HTF_NORMAL = 0x08"

definition HPF_LOW_PRI :: u32 where "HPF_LOW_PRI = 0x10"
definition HPF_NROMAL_PRI :: u32 where "HPF_NROMAL_PRI = 0x20"
definition HPF_HIGH_PRI :: u32 where "HPF_HIGH_PRI = 0x40"
definition HPF_HIGHEST_PRI :: u32 where "HPF_HIGHEST_PRI = 0x80"

datatype hudp_error_code =
  HEC_SUCCESS | HEC_CLOSED | HEC_INVALID_HANDLE | HEC_FAILED | HEC_BREAK | HEC_INVALID_PARAM

section \<open>CommonFlag.h: protocol flags and socket status\<close>

definition HPF_RELIABLE_ACK_RANGE :: u32 where "HPF_RELIABLE_ACK_RANGE = 0x100"
definition HPF_RELIABLE_ORDERLY_ACK_RANGE :: u32 where "HPF_RELIABLE_ORDERLY_ACK_RANGE = 0x200"
definition HPF_FIN :: u32 where "HPF_FIN = 0x400"
definition HPF_FIN_ACK :: u32 where "HPF_FIN_ACK = 0x800"
definition HPF_WITH_ID :: u32 where "HPF_WITH_ID = 0x1000"
definition HPF_WITH_RELIABLE_ACK :: u32 where "HPF_WITH_RELIABLE_ACK = 0x2000"
definition HPF_WITH_RELIABLE_ORDERLY_ACK :: u32 where "HPF_WITH_RELIABLE_ORDERLY_ACK = 0x4000"
definition HPF_WITH_BODY :: u32 where "HPF_WITH_BODY = 0x8000"
definition HPF_MSG_WITH_TIME_STAMP :: u32 where "HPF_MSG_WITH_TIME_STAMP = 0x10000"
definition HPF_RST :: u32 where "HPF_RST = 0x20000"
definition HPF_UPPER :: u32 where "HPF_UPPER = 0x40000"

lemmas head_flag_defs = HTF_ORDERLY_def HTF_RELIABLE_def HTF_RELIABLE_ORDERLY_def HTF_NORMAL_def
  HPF_LOW_PRI_def HPF_NROMAL_PRI_def HPF_HIGH_PRI_def HPF_HIGHEST_PRI_def
  HPF_RELIABLE_ACK_RANGE_def HPF_RELIABLE_ORDERLY_ACK_RANGE_def HPF_FIN_def HPF_FIN_ACK_def
  HPF_WITH_ID_def HPF_WITH_RELIABLE_ACK_def HPF_WITH_RELIABLE_ORDERLY_ACK_def HPF_WITH_BODY_def
  HPF_MSG_WITH_TIME_STAMP_def HPF_RST_def HPF_UPPER_def

datatype socket_status =
  SS_CLOSE | SS_READY | SS_FIN_WAIT_1 | SS_FIN_WAIT_2 | SS_TIME_WAIT | SS_CLOSING
| SS_CLOSE_WIAT | SS_LAST_ACK

section \<open>IMsg.h: flags that stay on this host\<close>

definition msg_has_changed :: u32 where "msg_has_changed = 0x0001"
definition msg_is_in_timer :: u32 where "msg_is_in_timer = 0x0002"
definition msg_is_only_ack :: u32 where "msg_is_only_ack = 0x0004"
definition msg_with_out_id :: u32 where "msg_with_out_id = 0x0008"
definition msg_send :: u32 where "msg_send = 0x0010"
definition msg_recv :: u32 where "msg_recv = 0x0020"
definition msg_wait_2_msl :: u32 where "msg_wait_2_msl = 0x0040"
definition msg_pacing_send :: u32 where "msg_pacing_send = 0x0080"
definition msg_resend :: u32 where "msg_resend = 0x0100"

lemmas local_flag_defs = msg_has_changed_def msg_is_in_timer_def msg_is_only_ack_def
  msg_with_out_id_def msg_send_def msg_recv_def msg_wait_2_msl_def msg_pacing_send_def
  msg_resend_def

end
