(* ===== verification/Bit_Stream.thy ===== *)
theory Bit_Stream
  imports Hudp_Config
begin

text \<open>
  \<^verbatim>\<open>common/BitStream.h\<close> and \<^verbatim>\<open>common/BitStream.cpp\<close>: the byte buffer that a message is
  serialised to and parsed from. \<open>bs_data\<close> is the heap block \<open>_data\<close>, \<open>bs_cur\<close> is
  \<open>_cur_point - _data\<close>, or \<open>None\<close> when the block it pointed into has been freed (the
  reallocation in \<open>CheckBufferExpend\<close> moves \<open>_data\<close> and leaves \<open>_cur_point\<close> behind). Copying
  through the current point outside of the block, or when it dangles, is undefined: \<open>None\<close>.
  The life of a stream is modelled up to its destructor, which is not: it gives the block of
  \<open>new char[]\<close> back with \<open>delete\<close> instead of \<open>delete[]\<close>, which C++ leaves undefined.
\<close>

section \<open>State and operations\<close>

record bit_stream =
  bs_data :: "byte list"
  bs_cur :: "nat option"
  bs_length :: u16
  bs_cur_length :: u16

definition CBitStream :: bit_stream where
  "CBitStream = \<lparr>bs_data = replicate (unat mtu) 0, bs_cur = Some 0,
     bs_length = mtu, bs_cur_length = 0\<rparr>"

definition GetTotalLength :: "bit_stream \<Rightarrow> u16" where
  "GetTotalLength s = bs_length s"

definition GetCurrentLength :: "bit_stream \<Rightarrow> u16" where
  "GetCurrentLength s = bs_cur_length s"

text \<open>\<open>std::string(GetDataPoint(), GetCurrentLength())\<close>, the bytes written so far.\<close>

definition bs_content :: "bit_stream \<Rightarrow> byte list" where
  "bs_content s = take (unat (bs_cur_length s)) (bs_data s)"

definition bs_Clear :: "bit_stream \<Rightarrow> bit_stream" where
  "bs_Clear s = s\<lparr>bs_data := replicate (length (bs_data s)) 0, bs_cur := Some 0,
     bs_cur_length := 0\<rparr>"

definition CheckBufferExpend :: "u16 \<Rightarrow> bit_stream \<Rightarrow> bool \<times> bit_stream" where
  "CheckBufferExpend len s =
     (if uint max_length - uint (bs_cur_length s) < uint len then (False, s)
      else if uint (bs_cur_length s) + uint len > uint (bs_length s) then
        (if must_less_mtu then (False, s)
         else let len' = bs_length s * 2 in
           (True, s\<lparr>bs_length := len',
              bs_data := bs_content s @ replicate (unat len' - length (bs_content s)) 0,
              bs_cur := None\<rparr>))
      else (True, s))"

definition CopyMemory :: "byte list \<Rightarrow> bit_stream \<Rightarrow> bit_stream option" where
  "CopyMemory value s =
     (case bs_cur s of
        None \<Rightarrow> None
      | Some p \<Rightarrow>
          if p + length value \<le> length (bs_data s) then
            Some (s\<lparr>bs_data := take p (bs_data s) @ value @ drop (p + length value) (bs_data s),
                    bs_cur := Some (p + length value),
                    bs_cur_length := bs_cur_length s + of_nat (length value)\<rparr>)
          else None)"

definition bs_Init :: "byte list \<Rightarrow> u16 \<Rightarrow> bit_stream \<Rightarrow> (bool \<times> bit_stream) option" where
  "bs_Init value len s =
     (case CheckBufferExpend len s of
        (False, s') \<Rightarrow> Some (False, s')
      | (True, s') \<Rightarrow>
          if unat len \<le> length value \<and> unat len \<le> length (bs_data s') then
            Some (True, s'\<lparr>bs_data := take (unat len) value @ drop (unat len) (bs_data s'),
                          bs_cur_length := len\<rparr>)
          else None)"

text \<open>
  \<open>bs_Write\<close> is the body the three \<open>Write\<close> overloads share: check, copy \<open>len\<close> bytes of the
  source. A template instance \<open>Write<T>\<close> copies the object representation of its argument; the
  \<open>std::string\<close> overload narrows the length to 16 bits.
\<close>

definition bs_Write :: "byte list \<Rightarrow> u16 \<Rightarrow> bit_stream \<Rightarrow> (bool \<times> bit_stream) option" where
  "bs_Write value len s =
     (case CheckBufferExpend len s of
        (False, s') \<Rightarrow> Some (False, s')
      | (True, s') \<Rightarrow>
          if unat len \<le> length value then
            (case CopyMemory (take (unat len) value) s' of
               None \<Rightarrow> None
             | Some s'' \<Rightarrow> Some (True, s''))
          else None)"

definition bs_Write_T :: "byte list \<Rightarrow> bit_stream \<Rightarrow> (bool \<times> bit_stream) option" where
  "bs_Write_T repr s = bs_Write repr (of_nat (length repr)) s"

definition bs_Write_string :: "byte list \<Rightarrow> bit_stream \<Rightarrow> (bool \<times> bit_stream) option" where
  "bs_Write_string value s = bs_Write value (of_nat (length value)) s"

definition bs_Write_stream :: "bit_stream \<Rightarrow> bit_stream \<Rightarrow> (bool \<times> bit_stream) option" where
  "bs_Write_stream value s = bs_Write (bs_data value) (GetCurrentLength value) s"

text \<open>
  \<open>bs_Read\<close>: the bytes read, \<open>None\<close> inside when the reader returns \<open>false\<close>.
\<close>

definition bs_Read :: "u16 \<Rightarrow> bit_stream \<Rightarrow> (byte list option \<times> bit_stream) option" where
  "bs_Read len s =
     (case bs_cur s of
        None \<Rightarrow> None
      | Some p \<Rightarrow>
          if p + unat len > unat (bs_cur_length s) then Some (None, s)
          else if p + unat len \<le> length (bs_data s) then
            Some (Some (take (unat len) (drop p (bs_data s))), s\<lparr>bs_cur := Some (p + unat len)\<rparr>)
          else None)"

text \<open>
  \<open>Read(CBitStreamReader&, len)\<close> copies the next \<open>len\<close> bytes into another stream and does not
  look at what its \<open>Init\<close> returns.
\<close>

definition bs_Read_stream ::
  "u16 \<Rightarrow> bit_stream \<Rightarrow> bit_stream \<Rightarrow> (bool \<times> bit_stream \<times> bit_stream) option" where
  "bs_Read_stream len value s =
     (case bs_Read len s of
        None \<Rightarrow> None
      | Some (None, s') \<Rightarrow> Some (False, value, s')
      | Some (Some bytes, s') \<Rightarrow>
          (case bs_Init bytes len value of
             None \<Rightarrow> None
           | Some (_, value') \<Rightarrow> Some (True, value', s')))"

definition bs_Read_T :: "(byte list \<Rightarrow> 'v) \<Rightarrow> nat \<Rightarrow> bit_stream \<Rightarrow> ('v option \<times> bit_stream) option" where
  "bs_Read_T dec n s =
     (case bs_Read (of_nat n) s of
        None \<Rightarrow> None
      | Some (bytes, s') \<Rightarrow> Some (map_option dec bytes, s'))"

section \<open>Invariants\<close>

text \<open>The invariant of a stream that is written to, and of one that is read.\<close>

definition writer_inv :: "bit_stream \<Rightarrow> bool" where
  "writer_inv s \<longleftrightarrow> bs_length s = mtu \<and> length (bs_data s) = unat mtu \<and>
     bs_cur_length s \<le> mtu \<and> bs_cur s = Some (unat (bs_cur_length s))"

definition reader_inv :: "bit_stream \<Rightarrow> bool" where
  "reader_inv s \<longleftrightarrow> bs_length s = mtu \<and> length (bs_data s) = unat mtu \<and>
     bs_cur_length s \<le> mtu \<and> (\<exists>p. bs_cur s = Some p \<and> p \<le> unat (bs_cur_length s))"

text \<open>What the reader has not consumed yet.\<close>

definition bs_rest :: "bit_stream \<Rightarrow> byte list" where
  "bs_rest s = (case bs_cur s of None \<Rightarrow> [] | Some p \<Rightarrow> drop p (bs_content s))"

lemma unat_mtu [simp]: "unat mtu = 440"
  by (simp add: mtu_def)

lemma writer_inv_imp_reader_inv: "writer_inv s \<Longrightarrow> reader_inv s"
  by (simp add: writer_inv_def reader_inv_def)

lemma length_content: "reader_inv s \<Longrightarrow> length (bs_content s) = unat (bs_cur_length s)"
  by (auto simp: reader_inv_def bs_content_def word_le_nat_alt)

lemma length_content_le: "reader_inv s \<Longrightarrow> length (bs_content s) \<le> 440"
  by (simp add: length_content) (simp add: reader_inv_def word_le_nat_alt)

lemma CBitStream_inv [simp]: "writer_inv CBitStream" "bs_content CBitStream = []"
  by (simp_all add: writer_inv_def CBitStream_def bs_content_def)

lemma CheckBufferExpend_eq:
  assumes "bs_length s = mtu" and "bs_cur_length s \<le> mtu"
  shows "CheckBufferExpend len s = (unat (bs_cur_length s) + unat len \<le> 440, s)"
proof -
  have cfg: "uint mtu = 440" "uint max_length = 65535"
    by (simp_all add: config_defs)
  have "uint (bs_cur_length s) \<le> 440"
    using assms(2) by (simp add: word_le_def config_defs)
  moreover have "uint (bs_cur_length s) + uint len \<le> 440 \<longleftrightarrow>
      unat (bs_cur_length s) + unat len \<le> 440"
    by (simp only: uint_nat) linarith
  ultimately show ?thesis
    unfolding CheckBufferExpend_def must_less_mtu_def assms(1) cfg by auto
qed

lemma bs_Write_ok:
  assumes "writer_inv s" and "unat len = length value"
    and "length (bs_content s) + length value \<le> 440"
  shows "\<exists>s'. bs_Write value len s = Some (True, s') \<and> writer_inv s' \<and>
    bs_content s' = bs_content s @ value"
proof -
  let ?p = "unat (bs_cur_length s)"
  have p: "?p + length value \<le> 440" and len: "length (bs_content s) = ?p"
    using assms(1,3) length_content writer_inv_imp_reader_inv by auto
  have "unat (bs_cur_length s + of_nat (length value)) = ?p + length value"
    using p by (simp add: unat_add_small_u16 unat_of_nat_u16)
  then show ?thesis
    using assms(1,2) p unfolding bs_Write_def writer_inv_def
    by (simp add: CheckBufferExpend_eq CopyMemory_def bs_content_def word_le_nat_alt)
qed

lemma bs_Write_full:
  assumes "writer_inv s" and "length (bs_content s) + unat len > 440"
  shows "bs_Write value len s = Some (False, s)"
  using assms length_content [OF writer_inv_imp_reader_inv [OF assms(1)]]
  unfolding bs_Write_def writer_inv_def by (simp add: CheckBufferExpend_eq)

lemma bs_Read_ok:
  assumes "reader_inv s" and "bs_rest s = bytes @ rest" and "unat len = length bytes"
  shows "\<exists>s'. bs_Read len s = Some (Some bytes, s') \<and> reader_inv s' \<and> bs_rest s' = rest \<and>
    bs_content s' = bs_content s"
proof -
  obtain p where p: "bs_cur s = Some p" "p \<le> unat (bs_cur_length s)"
    using assms(1) by (auto simp: reader_inv_def)
  have d: "drop p (bs_content s) = bytes @ rest"
    using assms(2) p(1) by (simp add: bs_rest_def)
  have n: "length (bs_content s) = unat (bs_cur_length s)"
    using assms(1) by (rule length_content)
  have le: "p + length bytes \<le> unat (bs_cur_length s)"
    using arg_cong [OF d, of length] p(2) n by simp
  have "unat (bs_cur_length s) \<le> length (bs_data s)"
    using assms(1) by (simp add: reader_inv_def word_le_nat_alt)
  moreover have "take (length bytes) (drop p (bs_data s)) = bytes"
  proof -
    have "take (length bytes) (drop p (bs_content s)) = take (length bytes) (drop p (bs_data s))"
      using le by (simp add: bs_content_def drop_take min_def)
    then show ?thesis by (simp add: d)
  qed
  moreover have "drop (p + length bytes) (bs_content s) = rest"
    by (metis add.commute append_eq_conv_conj d drop_drop)
  ultimately show ?thesis
    using assms(1,3) p le unfolding bs_Read_def reader_inv_def bs_rest_def bs_content_def
    by (auto simp: add.commute)
qed

lemma bs_Read_inv:
  assumes "reader_inv s"
  shows "\<exists>r s'. bs_Read len s = Some (r, s') \<and> reader_inv s' \<and> bs_content s' = bs_content s \<and>
    (r = None \<longleftrightarrow> length (bs_rest s) < unat len) \<and>
    (\<forall>bytes. r = Some bytes \<longrightarrow> length bytes = unat len \<and> bs_rest s = bytes @ bs_rest s')"
proof (cases "unat len \<le> length (bs_rest s)")
  case True
  then have "bs_rest s = take (unat len) (bs_rest s) @ drop (unat len) (bs_rest s)"
    and "unat len = length (take (unat len) (bs_rest s))" by simp_all
  from bs_Read_ok [OF assms this] show ?thesis
    using True by force
next
  case False
  obtain p where p: "bs_cur s = Some p" "p \<le> unat (bs_cur_length s)"
    using assms by (auto simp: reader_inv_def)
  then have "length (bs_rest s) = unat (bs_cur_length s) - p"
    using length_content [OF assms] by (simp add: bs_rest_def)
  with False p assms show ?thesis
    by (simp add: bs_Read_def)
qed

lemma bs_Init_ok:
  assumes "unat len \<le> 440" and "unat len \<le> length value"
  shows "\<exists>s. bs_Init value len CBitStream = Some (True, s) \<and> reader_inv s \<and>
    bs_rest s = take (unat len) value \<and> bs_content s = take (unat len) value"
  using assms
  by (auto simp: bs_Init_def CheckBufferExpend_eq reader_inv_def word_le_nat_alt
      bs_rest_def bs_content_def CBitStream_def)

lemma bs_Init_new:
  assumes "length value \<le> 440"
  shows "\<exists>s. bs_Init value (of_nat (length value)) CBitStream = Some (True, s) \<and> reader_inv s \<and>
    bs_rest s = value \<and> bs_content s = value"
  using bs_Init_ok [of "of_nat (length value)" "value"] assms by (simp add: unat_of_nat_u16)

lemma bs_Init_too_long:
  assumes "unat len > 440"
  shows "bs_Init value len CBitStream = Some (False, CBitStream)"
  using assms by (simp add: bs_Init_def CheckBufferExpend_eq CBitStream_def)

end
