(* ===== verification/Msg_Head.thy ===== *)
theory Msg_Head
  imports Hudp_Config
begin

text \<open>
  \<^verbatim>\<open>common/MsgHead.cpp\<close>: the header of a message. \<open>Add..\<close> operations return the \<open>bool\<close> of
  the C++ function beside the new head; \<open>Get..\<close> operations with an output vector return \<open>None\<close>
  where the C++ returns \<open>false\<close> and leaves the vector alone.
\<close>

record head =
  h_flag :: u32
  h_id :: u16
  h_body_len :: u16
  h_send_time :: u64
  h_ack_reliable :: "u16 list"
  h_reliable_times :: "u64 list"
  h_ack_orderly :: "u16 list"
  h_orderly_times :: "u64 list"

definition Head :: head where
  "Head = \<lparr>h_flag = 0, h_id = 0, h_body_len = 0, h_send_time = 0, h_ack_reliable = [],
     h_reliable_times = [], h_ack_orderly = [], h_orderly_times = []\<rparr>"

definition Head_Clear :: "head \<Rightarrow> head" where
  "Head_Clear h = h\<lparr>h_flag := 0, h_id := 0, h_body_len := 0, h_ack_reliable := [],
     h_ack_orderly := [], h_reliable_times := [], h_orderly_times := []\<rparr>"

definition Head_ClearAck :: "head \<Rightarrow> head" where
  "Head_ClearAck h = h\<lparr>h_ack_reliable := [], h_ack_orderly := [], h_reliable_times := [],
     h_orderly_times := [],
     h_flag := h_flag h AND NOT HPF_WITH_RELIABLE_ACK AND NOT HPF_WITH_RELIABLE_ORDERLY_ACK
       AND NOT HPF_RELIABLE_ACK_RANGE AND NOT HPF_RELIABLE_ORDERLY_ACK_RANGE\<rparr>"

definition SetFlag :: "u32 \<Rightarrow> head \<Rightarrow> head" where
  "SetFlag f h = h\<lparr>h_flag := f\<rparr>"

definition SetBodyLength :: "u16 \<Rightarrow> head \<Rightarrow> head" where
  "SetBodyLength n h = h\<lparr>h_body_len := n, h_flag := h_flag h OR HPF_WITH_BODY\<rparr>"

definition SetId :: "u16 \<Rightarrow> head \<Rightarrow> head" where
  "SetId i h = h\<lparr>h_id := i, h_flag := h_flag h OR HPF_WITH_ID\<rparr>"

definition SetSendTime :: "u64 \<Rightarrow> head \<Rightarrow> head" where
  "SetSendTime t h = h\<lparr>h_send_time := t\<rparr>"

definition AddReliableOrderlyAck :: "u16 list \<Rightarrow> bool \<Rightarrow> head \<Rightarrow> bool \<times> head" where
  "AddReliableOrderlyAck ack_vec continue_range h =
     (if length (h_ack_orderly h) > 0 then (False, h)
      else if ack_vec = [] then (False, h)
      else let f = (if continue_range then h_flag h OR HPF_RELIABLE_ORDERLY_ACK_RANGE
                    else h_flag h) in
        (True, h\<lparr>h_ack_orderly := ack_vec, h_flag := f OR HPF_WITH_RELIABLE_ORDERLY_ACK\<rparr>))"

definition GetReliableOrderlyAck :: "head \<Rightarrow> u16 list option" where
  "GetReliableOrderlyAck h = (if h_ack_orderly h = [] then None else Some (h_ack_orderly h))"

definition AddReliableOrderlyAckTime :: "u64 list \<Rightarrow> head \<Rightarrow> bool \<times> head" where
  "AddReliableOrderlyAckTime time_vec h =
     (if length (h_orderly_times h) > 0 then (False, h)
      else if time_vec = [] then (False, h)
      else (True, h\<lparr>h_orderly_times := time_vec, h_flag := h_flag h OR HPF_MSG_WITH_TIME_STAMP\<rparr>))"

definition GetReliableOrderlyAckTime :: "head \<Rightarrow> u64 list option" where
  "GetReliableOrderlyAckTime h = (if h_orderly_times h = [] then None else Some (h_orderly_times h))"

definition AddReliableAck :: "u16 list \<Rightarrow> bool \<Rightarrow> head \<Rightarrow> bool \<times> head" where
  "AddReliableAck ack_vec continue_range h =
     (if length (h_ack_reliable h) > 0 then (False, h)
      else if ack_vec = [] then (False, h)
      else let f = (if continue_range then h_flag h OR HPF_RELIABLE_ACK_RANGE else h_flag h) in
        (True, h\<lparr>h_ack_reliable := ack_vec, h_flag := f OR HPF_WITH_RELIABLE_ACK\<rparr>))"

definition GetReliableAck :: "head \<Rightarrow> u16 list option" where
  "GetReliableAck h = (if h_ack_reliable h = [] then None else Some (h_ack_reliable h))"

definition AddReliableAckTime :: "u64 list \<Rightarrow> head \<Rightarrow> bool \<times> head" where
  "AddReliableAckTime time_vec h =
     (if length (h_reliable_times h) > 0 then (False, h)
      else if time_vec = [] then (False, h)
      else (True, h\<lparr>h_reliable_times := time_vec, h_flag := h_flag h OR HPF_MSG_WITH_TIME_STAMP\<rparr>))"

definition GetReliableAckTime :: "head \<Rightarrow> u64 list option" where
  "GetReliableAckTime h = (if h_reliable_times h = [] then None else Some (h_reliable_times h))"

text \<open>
  The vector a caller ends up with that passed in an empty one: the \<open>bool\<close> is ignored there.
\<close>

definition vec_of :: "'v list option \<Rightarrow> 'v list" where
  "vec_of r = (case r of None \<Rightarrow> [] | Some v \<Rightarrow> v)"

lemmas head_op_defs = Head_Clear_def Head_ClearAck_def SetFlag_def SetBodyLength_def SetId_def
  SetSendTime_def AddReliableOrderlyAck_def AddReliableOrderlyAckTime_def AddReliableAck_def
  AddReliableAckTime_def GetReliableOrderlyAck_def GetReliableOrderlyAckTime_def
  GetReliableAck_def GetReliableAckTime_def

lemma vec_of_get [simp]:
  "vec_of (GetReliableOrderlyAck h) = h_ack_orderly h"
  "vec_of (GetReliableOrderlyAckTime h) = h_orderly_times h"
  "vec_of (GetReliableAck h) = h_ack_reliable h"
  "vec_of (GetReliableAckTime h) = h_reliable_times h"
  by (simp_all add: head_op_defs vec_of_def)

end
