(* ===== verification/Serializes.thy ===== *)
theory Serializes
  imports Bit_Stream Msg_Head
begin

text \<open>
  \<^verbatim>\<open>common/Serializes.cpp\<close>: the wire format. A statement that writes is a state transformer of
  the stream; \<open>check_ret\<close> is the macro \<open>CHECK_RET\<close> followed by the rest of the function body, so
  the early return on a failed write is the \<open>False\<close> branch. A statement that reads also carries
  the head under construction: when a read fails, the function returns \<open>false\<close> and the head keeps
  what was set so far.
\<close>

section \<open>Writing\<close>

type_synonym writer = "bit_stream \<Rightarrow> (bool \<times> bit_stream) option"

definition wr_skip :: writer where
  "wr_skip s = Some (True, s)"

definition check_ret :: "writer \<Rightarrow> writer \<Rightarrow> writer" where
  "check_ret m k s =
     (case m s of
        None \<Rightarrow> None
      | Some (False, s') \<Rightarrow> Some (False, s')
      | Some (True, s') \<Rightarrow> k s')"

definition wr_when :: "bool \<Rightarrow> writer \<Rightarrow> writer" where
  "wr_when b m = (if b then m else wr_skip)"

definition bind_nth :: "'v list \<Rightarrow> nat \<Rightarrow> ('v \<Rightarrow> writer) \<Rightarrow> writer" where
  "bind_nth vec i k s = (if i < length vec then k (vec ! i) s else None)"

fun write_loop :: "('v \<Rightarrow> byte list) \<Rightarrow> 'v list \<Rightarrow> nat list \<Rightarrow> writer" where
  "write_loop enc vec [] = wr_skip"
| "write_loop enc vec (i # is) =
     check_ret (bind_nth vec i (\<lambda>v. bs_Write_T (enc v))) (write_loop enc vec is)"

text \<open>
  The two acknowledgement blocks of \<open>SerializesHead\<close> differ only in the flags and vectors. An
  index outside of a vector is undefined.
\<close>

definition write_acks :: "u32 \<Rightarrow> u32 \<Rightarrow> u16 list \<Rightarrow> u64 list \<Rightarrow> writer" where
  "write_acks flag range_flag vec time_vec =
     (let len = (of_nat (length vec) :: u16) in
      check_ret
        (wr_when (len > 0)
          (check_ret (bs_Write_T (le_bytes 2 len))
            (if has_flag flag range_flag then bind_nth vec 0 (\<lambda>v. bs_Write_T (le_bytes 2 v))
             else write_loop (le_bytes 2) vec [0..<unat len])))
        (wr_when (has_flag flag HPF_MSG_WITH_TIME_STAMP)
          (write_loop (le_bytes 8) time_vec [0..<unat len])))"

definition write_head_fields :: "head \<Rightarrow> writer" where
  "write_head_fields head =
     (let flag = h_flag head in
      check_ret (wr_when (has_flag flag HPF_WITH_ID) (bs_Write_T (le_bytes 2 (h_id head))))
      (check_ret (wr_when (has_flag flag HPF_MSG_WITH_TIME_STAMP)
                   (bs_Write_T (le_bytes 8 (h_send_time head))))
      (check_ret (wr_when (has_flag flag HPF_WITH_RELIABLE_ORDERLY_ACK)
                   (write_acks flag HPF_RELIABLE_ORDERLY_ACK_RANGE
                     (vec_of (GetReliableOrderlyAck head)) (vec_of (GetReliableOrderlyAckTime head))))
      (check_ret (wr_when (has_flag flag HPF_WITH_RELIABLE_ACK)
                   (write_acks flag HPF_RELIABLE_ACK_RANGE
                     (vec_of (GetReliableAck head)) (vec_of (GetReliableAckTime head))))
      (wr_when (has_flag flag HPF_WITH_BODY) (bs_Write_T (le_bytes 2 (h_body_len head))))))))"

text \<open>The result of the first write, of the flag word, is not checked.\<close>

definition SerializesHead :: "head \<Rightarrow> writer" where
  "SerializesHead head s =
     (if GetCurrentLength s > 0 then Some (False, s)
      else case bs_Write_T (le_bytes 4 (h_flag head)) s of
             None \<Rightarrow> None
           | Some (_, s') \<Rightarrow> write_head_fields head s')"

definition Serializes_body :: "head \<Rightarrow> byte list \<Rightarrow> u16 \<Rightarrow> bit_stream \<Rightarrow> (bool \<times> head \<times> bit_stream) option" where
  "Serializes_body head body len s =
     (let head' = (if len > 0 then SetBodyLength len head else head) in
      case SerializesHead head' s of
        None \<Rightarrow> None
      | Some (False, s') \<Rightarrow> Some (False, head', s')
      | Some (True, s') \<Rightarrow>
          (case bs_Write body len s' of
             None \<Rightarrow> None
           | Some (r, s'') \<Rightarrow> Some (r, head', s'')))"

text \<open>\<open>Serializes(CMsg&, ..)\<close>: head and body of the message, the length narrowed to 16 bits.\<close>

definition Serializes :: "head \<Rightarrow> byte list \<Rightarrow> bit_stream \<Rightarrow> (bool \<times> head \<times> bit_stream) option" where
  "Serializes head body s = Serializes_body head body (of_nat (length body)) s"

section \<open>Size estimate\<close>

definition estimate_acks :: "u32 \<Rightarrow> u32 \<Rightarrow> u16 list \<Rightarrow> u32" where
  "estimate_acks flag range_flag vec =
     (let len = (of_nat (length vec) :: u16) in
      (if len > 0 then 2 + (if has_flag flag range_flag then 2 else 2 * ucast len) else 0) +
      (if has_flag flag HPF_MSG_WITH_TIME_STAMP then 8 * ucast len else 0))"

definition EstimateSize :: "head \<Rightarrow> u32" where
  "EstimateSize head =
     (let flag = h_flag head in
      4 +
      (if has_flag flag HPF_WITH_ID then 2 else 0) +
      (if has_flag flag HPF_MSG_WITH_TIME_STAMP then 8 else 0) +
      (if has_flag flag HPF_WITH_RELIABLE_ORDERLY_ACK
       then estimate_acks flag HPF_RELIABLE_ORDERLY_ACK_RANGE (vec_of (GetReliableOrderlyAck head))
       else 0) +
      (if has_flag flag HPF_WITH_RELIABLE_ACK
       then estimate_acks flag HPF_RELIABLE_ACK_RANGE (vec_of (GetReliableAck head))
       else 0) +
      (if has_flag flag HPF_WITH_BODY then 2 + ucast (h_body_len head) else 0))"

section \<open>Reading\<close>

type_synonym reader = "bit_stream \<times> head \<Rightarrow> (bool \<times> bit_stream \<times> head) option"

definition rd_done :: reader where
  "rd_done = (\<lambda>(s, h). Some (True, s, h))"

definition rd_when :: "bool \<Rightarrow> reader \<Rightarrow> reader" where
  "rd_when b m = (if b then m else rd_done)"

definition rd_then :: "reader \<Rightarrow> reader \<Rightarrow> reader" where
  "rd_then m k st =
     (case m st of
        None \<Rightarrow> None
      | Some (False, st') \<Rightarrow> Some (False, st')
      | Some (True, st') \<Rightarrow> k st')"

text \<open>\<open>CHECK_RET(bit_stream.Read(x))\<close> followed by the code that uses \<open>x\<close>.\<close>

definition rd_value :: "(byte list \<Rightarrow> 'v) \<Rightarrow> nat \<Rightarrow> ('v \<Rightarrow> reader) \<Rightarrow> reader" where
  "rd_value dec n k = (\<lambda>(s, h).
     case bs_Read_T dec n s of
       None \<Rightarrow> None
     | Some (None, s') \<Rightarrow> Some (False, s', h)
     | Some (Some v, s') \<Rightarrow> k v (s', h))"

definition rd_head :: "(head \<Rightarrow> head) \<Rightarrow> reader" where
  "rd_head f = (\<lambda>(s, h). Some (True, s, f h))"

fun rd_loop :: "(byte list \<Rightarrow> 'v) \<Rightarrow> nat \<Rightarrow> nat \<Rightarrow> 'v list \<Rightarrow> ('v list \<Rightarrow> reader) \<Rightarrow> reader" where
  "rd_loop dec n 0 acc k = k acc"
| "rd_loop dec n (Suc m) acc k = rd_value dec n (\<lambda>v. rd_loop dec n m (acc @ [v]) k)"

definition read_acks ::
  "u32 \<Rightarrow> u32 \<Rightarrow> (u16 list \<Rightarrow> bool \<Rightarrow> head \<Rightarrow> bool \<times> head) \<Rightarrow> (u64 list \<Rightarrow> head \<Rightarrow> bool \<times> head) \<Rightarrow> reader"
where
  "read_acks flag range_flag add_ack add_time =
     rd_value le_word 2 (\<lambda>len :: u16.
       rd_then
         (if has_flag flag range_flag then
            rd_value le_word 2 (\<lambda>tmp :: u16.
              rd_head (\<lambda>h. snd (add_ack (map (\<lambda>i. tmp + of_nat i) [0..<unat len]) True h)))
          else
            rd_loop le_word 2 (unat len) [] (\<lambda>ack_vec.
              rd_head (\<lambda>h. snd (add_ack ack_vec False h))))
         (rd_when (has_flag flag HPF_MSG_WITH_TIME_STAMP)
            (rd_loop le_word 8 (unat len) [] (\<lambda>time_vec.
              rd_head (\<lambda>h. snd (add_time time_vec h))))))"

definition read_head_fields :: "u32 \<Rightarrow> reader" where
  "read_head_fields flag =
     rd_then (rd_when (has_flag flag HPF_WITH_ID) (rd_value le_word 2 (\<lambda>i. rd_head (SetId i))))
     (rd_then (rd_when (has_flag flag HPF_MSG_WITH_TIME_STAMP)
                (rd_value le_word 8 (\<lambda>t. rd_head (SetSendTime t))))
     (rd_then (rd_when (has_flag flag HPF_WITH_RELIABLE_ORDERLY_ACK)
                (read_acks flag HPF_RELIABLE_ORDERLY_ACK_RANGE
                  AddReliableOrderlyAck AddReliableOrderlyAckTime))
     (rd_then (rd_when (has_flag flag HPF_WITH_RELIABLE_ACK)
                (read_acks flag HPF_RELIABLE_ACK_RANGE AddReliableAck AddReliableAckTime))
     (rd_when (has_flag flag HPF_WITH_BODY)
                (rd_value le_word 2 (\<lambda>n. rd_head (SetBodyLength n)))))))"

text \<open>The flag word is 0 when its read, whose result is not checked, fails.\<close>

definition DeserialiHead :: reader where
  "DeserialiHead = (\<lambda>(s, h).
     case bs_Read_T le_word 4 s of
       None \<Rightarrow> None
     | Some (r, s') \<Rightarrow>
         (let flag = (case r of None \<Rightarrow> 0 | Some f \<Rightarrow> f) in
          read_head_fields flag (s', SetFlag flag h)))"

text \<open>\<open>Deseriali(.., CMsg&)\<close> on head and body. A failed read of the body leaves the body alone.\<close>

definition Deseriali ::
  "bit_stream \<Rightarrow> head \<Rightarrow> byte list \<Rightarrow> (bool \<times> bit_stream \<times> head \<times> byte list) option" where
  "Deseriali s h body =
     (case DeserialiHead (s, h) of
        None \<Rightarrow> None
      | Some (False, s', h') \<Rightarrow> Some (False, s', h', body)
      | Some (True, s', h') \<Rightarrow>
          (case bs_Read (h_body_len h') s' of
             None \<Rightarrow> None
           | Some (None, s'') \<Rightarrow> Some (False, s'', h', body)
           | Some (Some b, s'') \<Rightarrow> Some (True, s'', h', b)))"

end
