(* ===== verification/Serializes_Correct.thy ===== *)
theory Serializes_Correct
  imports Serializes
begin

text \<open>
  The wire format as a specification (\<open>head_bytes\<close>), and the two directions of
  \<^verbatim>\<open>common/Serializes.cpp\<close> against it: \<open>writes m bs\<close> says that the writer \<open>m\<close> appends exactly
  \<open>bs\<close> or, when they do not fit, reports failure; \<open>reads m bs f\<close> says that the reader \<open>m\<close> consumes
  exactly \<open>bs\<close>, changing the head by \<open>f\<close>, and reports failure on a truncated \<open>bs\<close>. Both are
  composed along the code with one rule per combinator.
\<close>

section \<open>Flags\<close>

lemma flag_or_absorb:
  "has_flag f HPF_WITH_ID \<Longrightarrow> f OR HPF_WITH_ID = f"
  "has_flag f HPF_WITH_BODY \<Longrightarrow> f OR HPF_WITH_BODY = f"
  "has_flag f HPF_MSG_WITH_TIME_STAMP \<Longrightarrow> f OR HPF_MSG_WITH_TIME_STAMP = f"
  "has_flag f HPF_WITH_RELIABLE_ACK \<Longrightarrow> f OR HPF_WITH_RELIABLE_ACK = f"
  "has_flag f HPF_WITH_RELIABLE_ORDERLY_ACK \<Longrightarrow> f OR HPF_WITH_RELIABLE_ORDERLY_ACK = f"
  "has_flag f HPF_RELIABLE_ACK_RANGE \<Longrightarrow> f OR HPF_RELIABLE_ACK_RANGE = f"
  "has_flag f HPF_RELIABLE_ORDERLY_ACK_RANGE \<Longrightarrow> f OR HPF_RELIABLE_ORDERLY_ACK_RANGE = f"
  using or_exp_absorb [of f 12] or_exp_absorb [of f 15] or_exp_absorb [of f 16]
    or_exp_absorb [of f 13] or_exp_absorb [of f 14] or_exp_absorb [of f 8] or_exp_absorb [of f 9]
    has_flag_exp [of f 12] has_flag_exp [of f 15] has_flag_exp [of f 16]
    has_flag_exp [of f 13] has_flag_exp [of f 14] has_flag_exp [of f 8] has_flag_exp [of f 9]
  by (simp_all add: head_flag_defs)

lemma has_flag_bits:
  "has_flag f HPF_WITH_ID \<longleftrightarrow> bit f 12" "has_flag f HPF_WITH_BODY \<longleftrightarrow> bit f 15"
  "has_flag f HPF_MSG_WITH_TIME_STAMP \<longleftrightarrow> bit f 16" "has_flag f HPF_WITH_RELIABLE_ACK \<longleftrightarrow> bit f 13"
  "has_flag f HPF_WITH_RELIABLE_ORDERLY_ACK \<longleftrightarrow> bit f 14"
  "has_flag f HPF_RELIABLE_ACK_RANGE \<longleftrightarrow> bit f 8"
  "has_flag f HPF_RELIABLE_ORDERLY_ACK_RANGE \<longleftrightarrow> bit f 9"
  using has_flag_exp [of f 12] has_flag_exp [of f 15] has_flag_exp [of f 16]
    has_flag_exp [of f 13] has_flag_exp [of f 14] has_flag_exp [of f 8] has_flag_exp [of f 9]
  by (simp_all add: head_flag_defs)

lemma bit_u32_exp: "bit (2 ^ k :: u32) n \<longleftrightarrow> k = n \<and> k < 32"
  by (auto simp: bit_simps)

lemma bit_flags:
  "bit HPF_WITH_ID n \<longleftrightarrow> n = 12" "bit HPF_WITH_BODY n \<longleftrightarrow> n = 15"
  "bit HPF_MSG_WITH_TIME_STAMP n \<longleftrightarrow> n = 16" "bit HPF_WITH_RELIABLE_ACK n \<longleftrightarrow> n = 13"
  "bit HPF_WITH_RELIABLE_ORDERLY_ACK n \<longleftrightarrow> n = 14" "bit HPF_RELIABLE_ACK_RANGE n \<longleftrightarrow> n = 8"
  "bit HPF_RELIABLE_ORDERLY_ACK_RANGE n \<longleftrightarrow> n = 9"
  using bit_u32_exp [of 12 n] bit_u32_exp [of 15 n] bit_u32_exp [of 16 n] bit_u32_exp [of 13 n]
    bit_u32_exp [of 14 n] bit_u32_exp [of 8 n] bit_u32_exp [of 9 n]
  by (auto simp: head_flag_defs)

section \<open>The wire format\<close>

definition acks_bytes :: "u32 \<Rightarrow> u32 \<Rightarrow> u16 list \<Rightarrow> u64 list \<Rightarrow> byte list" where
  "acks_bytes flag range_flag vec ts =
     le_bytes 2 (of_nat (length vec) :: u16) @
     (if has_flag flag range_flag then le_bytes 2 (hd vec) else concat (map (le_bytes 2) vec)) @
     (if has_flag flag HPF_MSG_WITH_TIME_STAMP then concat (map (le_bytes 8) ts) else [])"

definition head_field_bytes :: "head \<Rightarrow> byte list" where
  "head_field_bytes h =
     (let flag = h_flag h in
      (if has_flag flag HPF_WITH_ID then le_bytes 2 (h_id h) else []) @
      (if has_flag flag HPF_MSG_WITH_TIME_STAMP then le_bytes 8 (h_send_time h) else []) @
      (if has_flag flag HPF_WITH_RELIABLE_ORDERLY_ACK
       then acks_bytes flag HPF_RELIABLE_ORDERLY_ACK_RANGE (h_ack_orderly h) (h_orderly_times h)
       else []) @
      (if has_flag flag HPF_WITH_RELIABLE_ACK
       then acks_bytes flag HPF_RELIABLE_ACK_RANGE (h_ack_reliable h) (h_reliable_times h)
       else []) @
      (if has_flag flag HPF_WITH_BODY then le_bytes 2 (h_body_len h) else []))"

definition msg_bytes :: "head \<Rightarrow> byte list \<Rightarrow> byte list" where
  "msg_bytes h body = le_bytes 4 (h_flag h) @ head_field_bytes h @ body"

text \<open>
  The messages the format represents: a flag bit is set exactly when the field it announces is
  there, a range block holds consecutive numbers, and with time stamps there is one per
  acknowledged number.
\<close>

definition ack_block_ok :: "u32 \<Rightarrow> u32 \<Rightarrow> u32 \<Rightarrow> u16 list \<Rightarrow> u64 list \<Rightarrow> bool" where
  "ack_block_ok flag with_flag range_flag vec ts \<longleftrightarrow>
     (has_flag flag with_flag \<longleftrightarrow> vec \<noteq> []) \<and> length vec < 65536 \<and>
     (has_flag flag range_flag \<longrightarrow> vec = map (\<lambda>i. hd vec + of_nat i) [0..<length vec]) \<and>
     length ts = (if has_flag flag HPF_MSG_WITH_TIME_STAMP then length vec else 0)"

lemma ack_block_okD:
  assumes "ack_block_ok flag with_flag range_flag vec ts"
  shows "has_flag flag with_flag \<longleftrightarrow> vec \<noteq> []" and "length vec < 65536"
    and "length ts = (if has_flag flag HPF_MSG_WITH_TIME_STAMP then length vec else 0)"
  using assms unfolding ack_block_ok_def by blast+

definition head_ok :: "head \<Rightarrow> bool" where
  "head_ok h \<longleftrightarrow>
     ack_block_ok (h_flag h) HPF_WITH_RELIABLE_ORDERLY_ACK HPF_RELIABLE_ORDERLY_ACK_RANGE
       (h_ack_orderly h) (h_orderly_times h) \<and>
     ack_block_ok (h_flag h) HPF_WITH_RELIABLE_ACK HPF_RELIABLE_ACK_RANGE
       (h_ack_reliable h) (h_reliable_times h) \<and>
     (\<not> has_flag (h_flag h) HPF_WITH_ID \<longrightarrow> h_id h = 0) \<and>
     (\<not> has_flag (h_flag h) HPF_MSG_WITH_TIME_STAMP \<longrightarrow> h_send_time h = 0) \<and>
     (\<not> has_flag (h_flag h) HPF_WITH_BODY \<longrightarrow> h_body_len h = 0)"

definition msg_ok :: "head \<Rightarrow> byte list \<Rightarrow> bool" where
  "msg_ok h body \<longleftrightarrow> head_ok h \<and> length body < 65536 \<and> h_body_len h = of_nat (length body) \<and>
     (body \<noteq> [] \<longrightarrow> has_flag (h_flag h) HPF_WITH_BODY)"

section \<open>Writers\<close>

definition writes :: "writer \<Rightarrow> byte list \<Rightarrow> bool" where
  "writes m bs \<longleftrightarrow> (\<forall>s. writer_inv s \<longrightarrow>
     (if length (bs_content s) + length bs \<le> 440
      then \<exists>s'. m s = Some (True, s') \<and> writer_inv s' \<and> bs_content s' = bs_content s @ bs
      else \<exists>s'. m s = Some (False, s') \<and> writer_inv s'))"

named_theorems writes_intros \<open>composition rules for writers\<close>

lemma writes_Write:
  assumes "unat len = length bs" shows "writes (bs_Write bs len) bs"
  unfolding writes_def using assms bs_Write_ok bs_Write_full by auto

lemma writes_T [writes_intros]: "length bs < 65536 \<Longrightarrow> writes (bs_Write_T bs) bs"
proof -
  assume "length bs < 65536"
  then have "writes (bs_Write bs (of_nat (length bs))) bs"
    by (intro writes_Write) (simp add: unat_of_nat_u16)
  then show ?thesis by (simp add: writes_def bs_Write_T_def)
qed

lemma writes_skip [writes_intros]: "writes wr_skip []"
  by (simp add: writes_def wr_skip_def) (metis length_content_le writer_inv_imp_reader_inv)

lemma writes_check_ret [writes_intros]:
  assumes m: "writes m bs" and k: "writes k cs" shows "writes (check_ret m k) (bs @ cs)"
  unfolding writes_def
proof (intro allI impI)
  fix s assume s: "writer_inv s"
  show "if length (bs_content s) + length (bs @ cs) \<le> 440
        then \<exists>s'. check_ret m k s = Some (True, s') \<and> writer_inv s' \<and>
               bs_content s' = bs_content s @ bs @ cs
        else \<exists>s'. check_ret m k s = Some (False, s') \<and> writer_inv s'"
  proof (cases "length (bs_content s) + length bs \<le> 440")
    case True
    with m s obtain s' where "m s = Some (True, s')" and w: "writer_inv s'"
      and "bs_content s' = bs_content s @ bs" unfolding writes_def by meson
    moreover from this have "if length (bs_content s) + length (bs @ cs) \<le> 440
        then \<exists>s''. k s' = Some (True, s'') \<and> writer_inv s'' \<and> bs_content s'' = bs_content s @ bs @ cs
        else \<exists>s''. k s' = Some (False, s'') \<and> writer_inv s''"
      using k [unfolded writes_def, THEN spec, THEN mp, OF w]
      by (simp only: length_append append_assoc add.assoc)
    ultimately show ?thesis by (simp add: check_ret_def)
  next
    case False
    with m s obtain s' where "m s = Some (False, s')" "writer_inv s'"
      unfolding writes_def by meson
    then show ?thesis using False by (simp add: check_ret_def)
  qed
qed

lemma writes_when [writes_intros]:
  "(b \<Longrightarrow> writes m bs) \<Longrightarrow> writes (wr_when b m) (if b then bs else [])"
  by (simp add: wr_when_def writes_skip)

lemma writes_nth: "i < length vec \<Longrightarrow> writes (k (vec ! i)) bs \<Longrightarrow> writes (bind_nth vec i k) bs"
  by (simp add: writes_def bind_nth_def)

lemma writes_loop:
  assumes "\<And>v. length (enc v) < 65536" and "\<forall>i \<in> set is. i < length vec"
  shows "writes (write_loop enc vec is) (concat (map (\<lambda>i. enc (vec ! i)) is))"
  using assms(2)
proof (induction "is")
  case (Cons i "is")
  then show ?case
    using assms(1) by (auto intro!: writes_check_ret writes_nth writes_T)
qed (simp add: writes_skip)

lemma writes_whole:
  assumes "\<And>v. length (enc v) < 65536" and "n = length vec"
  shows "writes (write_loop enc vec [0..<n]) (concat (map enc vec))"
proof -
  have "map (\<lambda>i. enc (vec ! i)) [0..<n] = map enc vec"
    using assms(2) by (intro nth_equalityI) auto
  then show ?thesis using writes_loop [of enc "[0..<n]" vec] assms by simp
qed

lemma writes_acks:
  assumes ok: "ack_block_ok flag with_flag range_flag vec ts" and ne: "vec \<noteq> []"
  shows "writes (write_acks flag range_flag vec ts) (acks_bytes flag range_flag vec ts)"
proof -
  let ?len = "of_nat (length vec) :: u16"
  have len: "unat ?len = length vec"
    using ok by (simp add: ack_block_ok_def unat_of_nat_u16)
  then have pos: "?len > 0" using ne by (simp add: word_less_nat_alt)
  have hd: "writes (bind_nth vec 0 (\<lambda>v. bs_Write_T (le_bytes 2 v))) (le_bytes 2 (hd vec))"
    using ne by (intro writes_nth) (simp_all add: hd_conv_nth writes_T)
  have nums: "writes (if has_flag flag range_flag
        then bind_nth vec 0 (\<lambda>v. bs_Write_T (le_bytes 2 v))
        else write_loop (le_bytes 2) vec [0..<unat ?len])
      (if has_flag flag range_flag then le_bytes 2 (hd vec) else concat (map (le_bytes 2) vec))"
    using hd len by (simp add: writes_whole)
  have "writes (wr_when (has_flag flag HPF_MSG_WITH_TIME_STAMP)
      (write_loop (le_bytes 8) ts [0..<unat ?len]))
      (if has_flag flag HPF_MSG_WITH_TIME_STAMP then concat (map (le_bytes 8) ts) else [])"
    using ok len by (intro writes_when writes_whole) (auto simp: ack_block_ok_def)
  from writes_check_ret [OF writes_check_ret [OF writes_T nums] this, of "le_bytes 2 ?len"]
  show ?thesis
    using pos by (simp add: write_acks_def acks_bytes_def wr_when_def Let_def)
qed

lemma writes_head_fields:
  assumes "head_ok h" shows "writes (write_head_fields h) (head_field_bytes h)"
  unfolding write_head_fields_def head_field_bytes_def Let_def vec_of_get
  using assms unfolding head_ok_def
  by (intro writes_check_ret writes_when writes_acks writes_T) (auto simp: ack_block_ok_def)

lemma SetBodyLength_same:
  "has_flag (h_flag h) HPF_WITH_BODY \<Longrightarrow> h_body_len h = n \<Longrightarrow> SetBodyLength n h = h"
  by (simp add: SetBodyLength_def flag_or_absorb)

lemma length_head_field_bytes:
  assumes "head_ok h"
  shows "length (head_field_bytes h) \<le> 1400000"
proof -
  have l: "length vec < 65536 \<Longrightarrow> length ts < 65536 \<Longrightarrow>
      length (acks_bytes flag rf vec ts) \<le> 2 + 131070 + 524280"
    for flag rf and vec :: "u16 list" and ts :: "u64 list"
    by (simp add: acks_bytes_def u16_codec.length_concat_enc u64_codec.length_concat_enc)
  have "length (h_orderly_times h) < 65536" "length (h_reliable_times h) < 65536"
    "length (h_ack_orderly h) < 65536" "length (h_ack_reliable h) < 65536"
    using assms by (auto simp: head_ok_def ack_block_ok_def split: if_splits)
  then have "length (acks_bytes (h_flag h) HPF_RELIABLE_ORDERLY_ACK_RANGE (h_ack_orderly h)
      (h_orderly_times h)) + length (acks_bytes (h_flag h) HPF_RELIABLE_ACK_RANGE
      (h_ack_reliable h) (h_reliable_times h)) \<le> 1310704"
    using l [of "h_ack_orderly h" "h_orderly_times h" "h_flag h" HPF_RELIABLE_ORDERLY_ACK_RANGE]
      l [of "h_ack_reliable h" "h_reliable_times h" "h_flag h" HPF_RELIABLE_ACK_RANGE] by linarith
  then show ?thesis
    by (auto simp: head_field_bytes_def Let_def)
qed

section \<open>The whole message\<close>

lemma Serializes_msg_ok:
  assumes ok: "msg_ok h body"
  shows "if length (msg_bytes h body) \<le> 440
    then \<exists>s. Serializes h body CBitStream = Some (True, h, s) \<and> writer_inv s \<and>
           bs_content s = msg_bytes h body
    else \<exists>s. Serializes h body CBitStream = Some (False, h, s) \<and> writer_inv s"
proof -
  let ?len = "of_nat (length body) :: u16"
  have len: "unat ?len = length body"
    using ok by (simp add: msg_ok_def unat_of_nat_u16)
  have same: "(if ?len > 0 then SetBodyLength ?len h else h) = h"
    using ok len by (auto simp: msg_ok_def word_less_nat_alt intro!: SetBodyLength_same)
  obtain s1 where s1: "bs_Write_T (le_bytes 4 (h_flag h)) CBitStream = Some (True, s1)"
    "writer_inv s1" "bs_content s1 = le_bytes 4 (h_flag h)"
    using writes_T [of "le_bytes 4 (h_flag h)", unfolded writes_def, THEN spec, THEN mp,
        OF _ CBitStream_inv(1)] by auto
  have "writes (check_ret (write_head_fields h) (bs_Write body ?len)) (head_field_bytes h @ body)"
    using ok len by (intro writes_check_ret writes_head_fields writes_Write) (simp_all add: msg_ok_def)
  note whole = this [unfolded writes_def, THEN spec, THEN mp, OF s1(2)]
  have ser: "Serializes h body CBitStream =
      map_option (\<lambda>(r, s). (r, h, s)) (check_ret (write_head_fields h) (bs_Write body ?len) s1)"
    using s1(1) by (auto simp: Serializes_def Serializes_body_def SerializesHead_def same
        check_ret_def GetCurrentLength_def CBitStream_def split: option.splits bool.splits)
  show ?thesis
    using whole by (auto simp: ser s1(3) msg_bytes_def add.assoc split: if_splits)
qed

lemma ucast_of_nat_u16_u32: "n < 65536 \<Longrightarrow> (ucast (of_nat n :: u16) :: u32) = of_nat n"
  by (rule word_unat_eq_iff [THEN iffD2]) (simp add: unsigned_ucast_eq unat_of_nat_u16 unat_of_nat_u32 take_bit_nat_eq_self)

lemma estimate_acks_eq:
  assumes "ack_block_ok flag with_flag range_flag vec ts" and "vec \<noteq> []"
  shows "estimate_acks flag range_flag vec = of_nat (length (acks_bytes flag range_flag vec ts))"
proof -
  have "length vec < 65536" using assms by (simp add: ack_block_ok_def)
  moreover from this assms(2) have "(of_nat (length vec) :: u16) > 0"
    by (simp add: word_less_nat_alt unat_of_nat_u16)
  ultimately show ?thesis
    using assms by (simp add: estimate_acks_def acks_bytes_def Let_def ucast_of_nat_u16_u32
        u16_codec.length_concat_enc u64_codec.length_concat_enc ack_block_ok_def)
qed

lemma EstimateSize_eq:
  assumes ok: "msg_ok h body"
  shows "unat (EstimateSize h) = length (msg_bytes h body)"
proof -
  let ?f = "h_flag h"
  have h: "head_ok h" "length body < 65536" "h_body_len h = of_nat (length body)"
    "body \<noteq> [] \<Longrightarrow> has_flag ?f HPF_WITH_BODY"
    using ok by (auto simp: msg_ok_def)
  have bo: "ack_block_ok ?f HPF_WITH_RELIABLE_ORDERLY_ACK HPF_RELIABLE_ORDERLY_ACK_RANGE
      (h_ack_orderly h) (h_orderly_times h)"
    and br: "ack_block_ok ?f HPF_WITH_RELIABLE_ACK HPF_RELIABLE_ACK_RANGE
      (h_ack_reliable h) (h_reliable_times h)"
    using h(1) by (simp_all add: head_ok_def)
  have o: "has_flag ?f HPF_WITH_RELIABLE_ORDERLY_ACK \<Longrightarrow>
      estimate_acks ?f HPF_RELIABLE_ORDERLY_ACK_RANGE (h_ack_orderly h) = of_nat (length
        (acks_bytes ?f HPF_RELIABLE_ORDERLY_ACK_RANGE (h_ack_orderly h) (h_orderly_times h)))"
    using estimate_acks_eq [OF bo] bo ack_block_ok_def by blast
  have r: "has_flag ?f HPF_WITH_RELIABLE_ACK \<Longrightarrow>
      estimate_acks ?f HPF_RELIABLE_ACK_RANGE (h_ack_reliable h) = of_nat (length
        (acks_bytes ?f HPF_RELIABLE_ACK_RANGE (h_ack_reliable h) (h_reliable_times h)))"
    using estimate_acks_eq [OF br] br ack_block_ok_def by blast
  have "EstimateSize h = of_nat (length (msg_bytes h body))"
    using o r h(2-4) by (cases "body = []")
      (simp_all add: EstimateSize_def msg_bytes_def head_field_bytes_def Let_def
        ucast_of_nat_u16_u32)
  moreover have "length (msg_bytes h body) < 4294967296"
    using length_head_field_bytes [OF h(1)] h(2) by (simp add: msg_bytes_def)
  ultimately show ?thesis by (simp add: unat_of_nat_u32)
qed

end
