(* ===== verification/Deserialize_Correct.thy ===== *)
theory Deserialize_Correct
  imports Serializes_Correct
begin

text \<open>
  The parser of \<^verbatim>\<open>common/Serializes.cpp\<close>: it accepts exactly what the format describes and
  rejects what is cut off (\<open>reads\<close>), and on arbitrary bytes it stays inside the buffer
  (\<open>rd_safe\<close>).
\<close>

section \<open>Readers against the format\<close>

definition reads :: "reader \<Rightarrow> byte list \<Rightarrow> (head \<Rightarrow> head) \<Rightarrow> bool" where
  "reads m bs f \<longleftrightarrow> (\<forall>s h. reader_inv s \<longrightarrow>
     (\<forall>rest. bs_rest s = bs @ rest \<longrightarrow>
        (\<exists>s'. m (s, h) = Some (True, s', f h) \<and> reader_inv s' \<and> bs_rest s' = rest)) \<and>
     (\<forall>lost. bs = bs_rest s @ lost \<longrightarrow> lost \<noteq> [] \<longrightarrow> (\<exists>s' h'. m (s, h) = Some (False, s', h'))))"

lemma reads_whole:
  "reads m bs f \<Longrightarrow> reader_inv s \<Longrightarrow> bs_rest s = bs @ rest \<Longrightarrow>
   \<exists>s'. m (s, h) = Some (True, s', f h) \<and> reader_inv s' \<and> bs_rest s' = rest"
  unfolding reads_def by blast

lemma reads_cut:
  "reads m bs f \<Longrightarrow> reader_inv s \<Longrightarrow> bs = bs_rest s @ lost \<Longrightarrow> lost \<noteq> [] \<Longrightarrow>
   \<exists>s' h'. m (s, h) = Some (False, s', h')"
  unfolding reads_def by blast

lemma reads_done: "reads rd_done [] (\<lambda>h. h)"
  by (simp add: reads_def rd_done_def)

lemma reads_head: "reads (rd_head f) [] f"
  by (simp add: reads_def rd_head_def)

definition when_head :: "bool \<Rightarrow> (head \<Rightarrow> head) \<Rightarrow> head \<Rightarrow> head" where
  "when_head b f h = (if b then f h else h)"

lemma reads_when: "(b \<Longrightarrow> reads m bs f) \<Longrightarrow>
  reads (rd_when b m) (if b then bs else []) (when_head b f)"
  using reads_done by (cases b) (simp_all add: rd_when_def when_head_def reads_def)

lemma reads_then:
  assumes m: "reads m bs f" and k: "reads k cs g"
  shows "reads (rd_then m k) (bs @ cs) (\<lambda>h. g (f h))"
  unfolding reads_def
proof (intro allI impI conjI)
  fix s h rest assume "reader_inv s" and "bs_rest s = (bs @ cs) @ rest"
  then obtain s' where "m (s, h) = Some (True, s', f h)" "reader_inv s'" "bs_rest s' = cs @ rest"
    using reads_whole [OF m, of s "cs @ rest"] by auto
  then show "\<exists>s'. rd_then m k (s, h) = Some (True, s', g (f h)) \<and> reader_inv s' \<and> bs_rest s' = rest"
    using reads_whole [OF k, of s' rest] by (simp add: rd_then_def)
next
  fix s h lost assume s: "reader_inv s" and lost: "bs @ cs = bs_rest s @ lost" "lost \<noteq> []"
  from lost(1) obtain us where us: "bs = bs_rest s @ us \<and> us @ cs = lost \<or>
      bs_rest s = bs @ us \<and> cs = us @ lost"
    by (metis append_eq_append_conv2)
  consider (first) "bs = bs_rest s @ us" "us \<noteq> []" | (second) t where "bs_rest s = bs @ t" "cs = t @ lost"
    using us by (cases "us = []") force+
  then show "\<exists>s' h'. rd_then m k (s, h) = Some (False, s', h')"
  proof cases
    case first
    then obtain s' h' where "m (s, h) = Some (False, s', h')"
      using reads_cut [OF m s] by blast
    then show ?thesis by (simp add: rd_then_def)
  next
    case second
    then obtain s' where "m (s, h) = Some (True, s', f h)" "reader_inv s'" "bs_rest s' = t"
      using reads_whole [OF m s] by blast
    then show ?thesis
      using reads_cut [OF k, of s' lost] second lost(2) by (auto simp: rd_then_def)
  qed
qed

context byte_codec
begin

lemma reads_value:
  assumes k: "reads (k v) bs f" and w: "width < 65536"
  shows "reads (rd_value dec width k) (enc v @ bs) f"
  unfolding reads_def
proof (intro allI impI conjI)
  have u: "unat (of_nat width :: u16) = width" using w by (rule unat_of_nat_u16)
  fix s h
  {
    fix rest assume s: "reader_inv s" and r: "bs_rest s = (enc v @ bs) @ rest"
    then obtain s' where "bs_Read (of_nat width) s = Some (Some (enc v), s')" "reader_inv s'"
      "bs_rest s' = bs @ rest"
      using bs_Read_ok [OF s, of "enc v" "bs @ rest" "of_nat width"] u by (auto simp: enc_width)
    then show "\<exists>s'. rd_value dec width k (s, h) = Some (True, s', f h) \<and> reader_inv s' \<and>
        bs_rest s' = rest"
      using reads_whole [OF k, of s' rest] by (simp add: rd_value_def bs_Read_T_def dec_enc)
  next
    fix lost assume s: "reader_inv s" and lost: "enc v @ bs = bs_rest s @ lost" "lost \<noteq> []"
    obtain r s' where r: "bs_Read (of_nat width) s = Some (r, s')" "reader_inv s'"
      "r = None \<longleftrightarrow> length (bs_rest s) < width"
      "\<And>b. r = Some b \<Longrightarrow> length b = width \<and> bs_rest s = b @ bs_rest s'"
      using bs_Read_inv [OF s, of "of_nat width"] u by auto
    show "\<exists>s' h'. rd_value dec width k (s, h) = Some (False, s', h')"
    proof (cases r)
      case None
      then show ?thesis using r by (simp add: rd_value_def bs_Read_T_def)
    next
      case (Some b)
      then have "length b = length (enc v)" "enc v @ bs = b @ (bs_rest s' @ lost)"
        using r(4) lost(1) by (simp_all add: enc_width)
      then have "b = enc v" "bs = bs_rest s' @ lost" by (simp_all add: append_eq_append_conv)
      then show ?thesis
        using reads_cut [OF k r(2) _ lost(2)] Some r(1)
        by (auto simp: rd_value_def bs_Read_T_def dec_enc)
    qed
  }
qed

lemma reads_loop:
  assumes "reads (k (acc @ vs)) bs f" and "width < 65536" and "n = length vs"
  shows "reads (rd_loop dec width n acc k) (concat (map enc vs) @ bs) f"
  using assms(1,3)
proof (induction vs arbitrary: acc n)
  case (Cons v vs)
  then have "reads (rd_loop dec width (length vs) (acc @ [v]) k) (concat (map enc vs) @ bs) f"
    by simp
  from reads_value [of "\<lambda>v. rd_loop dec width (length vs) (acc @ [v]) k", OF this assms(2)]
  show ?case using Cons.prems(2) by simp
qed simp

end

lemma reads_acks:
  assumes ok: "ack_block_ok flag with_flag range_flag vec ts" and ne: "vec \<noteq> []"
  shows "reads (read_acks flag range_flag add_ack add_time) (acks_bytes flag range_flag vec ts)
    (\<lambda>h. when_head (has_flag flag HPF_MSG_WITH_TIME_STAMP) (\<lambda>h. snd (add_time ts h))
      (snd (add_ack vec (has_flag flag range_flag) h)))"
proof -
  let ?len = "of_nat (length vec) :: u16"
  have len: "unat ?len = length vec" "length vec < 65536"
    using ok by (simp_all add: ack_block_ok_def unat_of_nat_u16)
  have range: "map (\<lambda>i. hd vec + of_nat i) [0..<unat ?len] = vec" if "has_flag flag range_flag"
    using ok that len by (simp add: ack_block_ok_def)
  have nums: "reads (if has_flag flag range_flag then
            rd_value le_word 2 (\<lambda>tmp :: u16.
              rd_head (\<lambda>h. snd (add_ack (map (\<lambda>i. tmp + of_nat i) [0..<unat ?len]) True h)))
          else
            rd_loop le_word 2 (unat ?len) [] (\<lambda>ack_vec. rd_head (\<lambda>h. snd (add_ack ack_vec False h))))
      (if has_flag flag range_flag then le_bytes 2 (hd vec) else concat (map (le_bytes 2) vec))
      (\<lambda>h. snd (add_ack vec (has_flag flag range_flag) h))"
  proof (cases "has_flag flag range_flag")
    case True
    have "reads (rd_head (\<lambda>h. snd (add_ack (map (\<lambda>i. hd vec + of_nat i) [0..<unat ?len]) True h)))
        [] (\<lambda>h. snd (add_ack vec True h))"
      by (simp only: range [OF True] reads_head)
    from u16_codec.reads_value [of "\<lambda>tmp. rd_head (\<lambda>h. snd (add_ack (map (\<lambda>i. tmp + of_nat i)
        [0..<unat ?len]) True h))", OF this]
    show ?thesis using True by simp
  next
    case False
    from u16_codec.reads_loop [of "\<lambda>v. rd_head (\<lambda>h. snd (add_ack v False h))" "[]" vec "[]",
        OF _ _ len(1)]
    show ?thesis using False by (simp add: reads_head)
  qed
  have stamps: "reads (rd_when (has_flag flag HPF_MSG_WITH_TIME_STAMP)
      (rd_loop le_word 8 (unat ?len) [] (\<lambda>v. rd_head (\<lambda>h. snd (add_time v h)))))
      (if has_flag flag HPF_MSG_WITH_TIME_STAMP then concat (map (le_bytes 8) ts) else [])
      (when_head (has_flag flag HPF_MSG_WITH_TIME_STAMP) (\<lambda>h. snd (add_time ts h)))"
  proof (rule reads_when)
    assume "has_flag flag HPF_MSG_WITH_TIME_STAMP"
    then have "length ts = unat ?len" using ok len by (simp add: ack_block_ok_def)
    then show "reads (rd_loop le_word 8 (unat ?len) [] (\<lambda>v. rd_head (\<lambda>h. snd (add_time v h))))
        (concat (map (le_bytes 8) ts)) (\<lambda>h. snd (add_time ts h))"
      using u64_codec.reads_loop [of "\<lambda>v. rd_head (\<lambda>h. snd (add_time v h))" "[]" ts "[]"]
      by (simp add: reads_head)
  qed
  show ?thesis
    unfolding read_acks_def acks_bytes_def
    by (rule u16_codec.reads_value) (rule reads_then [OF nums stamps], simp)
qed

definition put_orderly :: "u32 \<Rightarrow> head \<Rightarrow> head \<Rightarrow> head" where
  "put_orderly flag h0 = (\<lambda>h. when_head (has_flag flag HPF_MSG_WITH_TIME_STAMP)
     (\<lambda>h. snd (AddReliableOrderlyAckTime (h_orderly_times h0) h))
     (snd (AddReliableOrderlyAck (h_ack_orderly h0)
        (has_flag flag HPF_RELIABLE_ORDERLY_ACK_RANGE) h)))"

definition put_reliable :: "u32 \<Rightarrow> head \<Rightarrow> head \<Rightarrow> head" where
  "put_reliable flag h0 = (\<lambda>h. when_head (has_flag flag HPF_MSG_WITH_TIME_STAMP)
     (\<lambda>h. snd (AddReliableAckTime (h_reliable_times h0) h))
     (snd (AddReliableAck (h_ack_reliable h0) (has_flag flag HPF_RELIABLE_ACK_RANGE) h)))"

definition set_fields_of :: "head \<Rightarrow> head \<Rightarrow> head" where
  "set_fields_of h0 = (\<lambda>h.
     when_head (has_flag (h_flag h0) HPF_WITH_BODY) (SetBodyLength (h_body_len h0))
     (when_head (has_flag (h_flag h0) HPF_WITH_RELIABLE_ACK) (put_reliable (h_flag h0) h0)
     (when_head (has_flag (h_flag h0) HPF_WITH_RELIABLE_ORDERLY_ACK) (put_orderly (h_flag h0) h0)
     (when_head (has_flag (h_flag h0) HPF_MSG_WITH_TIME_STAMP) (SetSendTime (h_send_time h0))
     (when_head (has_flag (h_flag h0) HPF_WITH_ID) (SetId (h_id h0)) h)))))"

lemma reads_head_fields:
  assumes ok: "head_ok h0"
  shows "reads (read_head_fields (h_flag h0)) (head_field_bytes h0) (set_fields_of h0)"
proof -
  let ?f = "h_flag h0"
  have bo: "ack_block_ok ?f HPF_WITH_RELIABLE_ORDERLY_ACK HPF_RELIABLE_ORDERLY_ACK_RANGE
      (h_ack_orderly h0) (h_orderly_times h0)"
    and br: "ack_block_ok ?f HPF_WITH_RELIABLE_ACK HPF_RELIABLE_ACK_RANGE
      (h_ack_reliable h0) (h_reliable_times h0)"
    using ok by (simp_all add: head_ok_def)
  have i: "reads (rd_value le_word 2 (\<lambda>i. rd_head (SetId i))) (le_bytes 2 (h_id h0)) (SetId (h_id h0))"
    and t: "reads (rd_value le_word 8 (\<lambda>t. rd_head (SetSendTime t))) (le_bytes 8 (h_send_time h0))
        (SetSendTime (h_send_time h0))"
    and n: "reads (rd_value le_word 2 (\<lambda>n. rd_head (SetBodyLength n))) (le_bytes 2 (h_body_len h0))
        (SetBodyLength (h_body_len h0))"
    using u16_codec.reads_value [of "\<lambda>i. rd_head (SetId i)", OF reads_head]
      u64_codec.reads_value [of "\<lambda>t. rd_head (SetSendTime t)", OF reads_head]
      u16_codec.reads_value [of "\<lambda>n. rd_head (SetBodyLength n)", OF reads_head] by simp_all
  have o: "has_flag ?f HPF_WITH_RELIABLE_ORDERLY_ACK \<Longrightarrow> h_ack_orderly h0 \<noteq> []"
    and r: "has_flag ?f HPF_WITH_RELIABLE_ACK \<Longrightarrow> h_ack_reliable h0 \<noteq> []"
    using bo br by (simp_all add: ack_block_ok_def)
  have ro: "has_flag ?f HPF_WITH_RELIABLE_ORDERLY_ACK \<Longrightarrow>
      reads (read_acks ?f HPF_RELIABLE_ORDERLY_ACK_RANGE AddReliableOrderlyAck
        AddReliableOrderlyAckTime)
        (acks_bytes ?f HPF_RELIABLE_ORDERLY_ACK_RANGE (h_ack_orderly h0) (h_orderly_times h0))
        (put_orderly ?f h0)"
    unfolding put_orderly_def using reads_acks [OF bo] o by blast
  have rr: "has_flag ?f HPF_WITH_RELIABLE_ACK \<Longrightarrow>
      reads (read_acks ?f HPF_RELIABLE_ACK_RANGE AddReliableAck AddReliableAckTime)
        (acks_bytes ?f HPF_RELIABLE_ACK_RANGE (h_ack_reliable h0) (h_reliable_times h0))
        (put_reliable ?f h0)"
    unfolding put_reliable_def using reads_acks [OF br] r by blast
  show ?thesis
    unfolding read_head_fields_def head_field_bytes_def Let_def set_fields_of_def
    using reads_then [OF reads_when [OF i] reads_then [OF reads_when [OF t]
        reads_then [OF reads_when [OF ro] reads_then [OF reads_when [OF rr] reads_when [OF n]]]]]
    by blast
qed

text \<open>Into a head with nothing in it, the parser puts back the head that was written.\<close>

lemma put_orderly_eq:
  assumes "ack_block_ok (h_flag h0) HPF_WITH_RELIABLE_ORDERLY_ACK HPF_RELIABLE_ORDERLY_ACK_RANGE
      (h_ack_orderly h0) (h_orderly_times h0)"
    and "h_flag h = h_flag h0" "h_ack_orderly h = []" "h_orderly_times h = []"
  shows "when_head (has_flag (h_flag h0) HPF_WITH_RELIABLE_ORDERLY_ACK) (put_orderly (h_flag h0) h0) h =
    h\<lparr>h_ack_orderly := h_ack_orderly h0, h_orderly_times := h_orderly_times h0\<rparr>"
proof (cases "h_ack_orderly h0 = []")
  case True
  then show ?thesis
    using ack_block_okD [OF assms(1)] assms(2-4) by (simp add: when_head_def split: if_splits)
next
  case False
  then show ?thesis
    using ack_block_okD [OF assms(1)] assms(2-4)
    by (auto simp: when_head_def put_orderly_def AddReliableOrderlyAck_def AddReliableOrderlyAckTime_def
        flag_or_absorb simp flip: length_greater_0_conv)
qed

lemma put_reliable_eq:
  assumes "ack_block_ok (h_flag h0) HPF_WITH_RELIABLE_ACK HPF_RELIABLE_ACK_RANGE
      (h_ack_reliable h0) (h_reliable_times h0)"
    and "h_flag h = h_flag h0" "h_ack_reliable h = []" "h_reliable_times h = []"
  shows "when_head (has_flag (h_flag h0) HPF_WITH_RELIABLE_ACK) (put_reliable (h_flag h0) h0) h =
    h\<lparr>h_ack_reliable := h_ack_reliable h0, h_reliable_times := h_reliable_times h0\<rparr>"
proof (cases "h_ack_reliable h0 = []")
  case True
  then show ?thesis
    using ack_block_okD [OF assms(1)] assms(2-4) by (simp add: when_head_def split: if_splits)
next
  case False
  then show ?thesis
    using ack_block_okD [OF assms(1)] assms(2-4)
    by (auto simp: when_head_def put_reliable_def AddReliableAck_def AddReliableAckTime_def
        flag_or_absorb simp flip: length_greater_0_conv)
qed

lemma put_field_eq:
  "h_flag h = h_flag h0 \<Longrightarrow> h_id h = 0 \<Longrightarrow> (\<not> has_flag (h_flag h0) HPF_WITH_ID \<longrightarrow> h_id h0 = 0) \<Longrightarrow>
   when_head (has_flag (h_flag h0) HPF_WITH_ID) (SetId (h_id h0)) h = h\<lparr>h_id := h_id h0\<rparr>"
  "h_flag h = h_flag h0 \<Longrightarrow> h_body_len h = 0 \<Longrightarrow>
   (\<not> has_flag (h_flag h0) HPF_WITH_BODY \<longrightarrow> h_body_len h0 = 0) \<Longrightarrow>
   when_head (has_flag (h_flag h0) HPF_WITH_BODY) (SetBodyLength (h_body_len h0)) h =
     h\<lparr>h_body_len := h_body_len h0\<rparr>"
  "when_head (has_flag (h_flag h0) HPF_MSG_WITH_TIME_STAMP) (SetSendTime (h_send_time h0)) h =
     h\<lparr>h_send_time := if has_flag (h_flag h0) HPF_MSG_WITH_TIME_STAMP then h_send_time h0
        else h_send_time h\<rparr>"
  using flag_or_absorb by (simp_all add: when_head_def SetId_def SetBodyLength_def SetSendTime_def)

definition head_empty :: "head \<Rightarrow> bool" where
  "head_empty h \<longleftrightarrow> h_ack_orderly h = [] \<and> h_orderly_times h = [] \<and> h_ack_reliable h = [] \<and>
     h_reliable_times h = [] \<and> h_id h = 0 \<and> h_body_len h = 0"

lemma Head_empty [simp]: "head_empty Head" "head_empty (Head_Clear h)"
  by (simp_all add: head_empty_def Head_def Head_Clear_def)

definition parsed_head :: "head \<Rightarrow> head \<Rightarrow> head" where
  "parsed_head h0 h =
     (if has_flag (h_flag h0) HPF_MSG_WITH_TIME_STAMP then h0 else h0\<lparr>h_send_time := h_send_time h\<rparr>)"

lemma set_fields_of_empty:
  assumes ok: "head_ok h0" and e: "head_empty h"
  shows "set_fields_of h0 (SetFlag (h_flag h0) h) = parsed_head h0 h"
proof -
  have bo: "ack_block_ok (h_flag h0) HPF_WITH_RELIABLE_ORDERLY_ACK HPF_RELIABLE_ORDERLY_ACK_RANGE
      (h_ack_orderly h0) (h_orderly_times h0)"
    and br: "ack_block_ok (h_flag h0) HPF_WITH_RELIABLE_ACK HPF_RELIABLE_ACK_RANGE
      (h_ack_reliable h0) (h_reliable_times h0)"
    and z: "\<not> has_flag (h_flag h0) HPF_WITH_ID \<longrightarrow> h_id h0 = 0"
      "\<not> has_flag (h_flag h0) HPF_WITH_BODY \<longrightarrow> h_body_len h0 = 0"
    using ok by (simp_all add: head_ok_def)
  show ?thesis
    using e unfolding set_fields_of_def head_empty_def
    by (simp add: SetFlag_def put_field_eq z put_orderly_eq [OF bo] put_reliable_eq [OF br]
        parsed_head_def)
qed

lemma Deseriali_bytes:
  assumes ok: "msg_ok h0 body" and s: "reader_inv s" "bs_rest s = msg_bytes h0 body @ rest"
    and e: "head_empty h"
  shows "\<exists>s'. Deseriali s h body0 = Some (True, s', parsed_head h0 h, body)"
proof -
  have hok: "head_ok h0" and len: "unat (h_body_len h0) = length body"
    using ok by (auto simp: msg_ok_def unat_of_nat_u16)
  have fields: "set_fields_of h0 (SetFlag (h_flag h0) h) = parsed_head h0 h"
    using hok e by (rule set_fields_of_empty)
  obtain s1 where s1: "bs_Read 4 s = Some (Some (le_bytes 4 (h_flag h0)), s1)" "reader_inv s1"
    "bs_rest s1 = head_field_bytes h0 @ body @ rest"
    using bs_Read_ok [OF s(1), of "le_bytes 4 (h_flag h0)" _ 4] s(2) by (auto simp: msg_bytes_def)
  obtain s2 where s2: "read_head_fields (h_flag h0) (s1, SetFlag (h_flag h0) h) =
      Some (True, s2, parsed_head h0 h)" "reader_inv s2" "bs_rest s2 = body @ rest"
    using reads_whole [OF reads_head_fields [OF hok] s1(2,3), of "SetFlag (h_flag h0) h"]
    unfolding fields by blast
  have "h_body_len (parsed_head h0 h) = h_body_len h0"
    by (simp add: parsed_head_def)
  then show ?thesis
    using bs_Read_ok [OF s2(2,3), of "h_body_len h0"] s1(1) s2(1) len
    by (auto simp: Deseriali_def DeserialiHead_def bs_Read_T_def le_word_le_bytes)
qed

text \<open>A message that lost bytes at its end, but not all of the flag word, is rejected.\<close>

lemma Deseriali_truncated:
  assumes ok: "msg_ok h0 body" and s: "reader_inv s" "msg_bytes h0 body = bs_rest s @ lost"
    and lost: "lost \<noteq> []" and four: "4 \<le> length (bs_rest s)" and e: "head_empty h"
  shows "\<exists>s' h'. Deseriali s h body0 = Some (False, s', h', body0)"
proof -
  have hok: "head_ok h0" and len: "unat (h_body_len h0) = length body"
    using ok by (auto simp: msg_ok_def unat_of_nat_u16)
  have fields: "set_fields_of h0 (SetFlag (h_flag h0) h) = parsed_head h0 h"
    using hok e by (rule set_fields_of_empty)
  have "le_bytes 4 (h_flag h0) = take 4 (bs_rest s)"
    using arg_cong [OF s(2), of "take 4"] four by (simp add: msg_bytes_def)
  then have "bs_rest s = le_bytes 4 (h_flag h0) @ drop 4 (bs_rest s)" by simp
  then obtain s1 where s1: "bs_Read 4 s = Some (Some (le_bytes 4 (h_flag h0)), s1)" "reader_inv s1"
    "bs_rest s1 = drop 4 (bs_rest s)"
    using bs_Read_ok [OF s(1), of "le_bytes 4 (h_flag h0)" _ 4] by auto
  have rest: "head_field_bytes h0 @ body = bs_rest s1 @ lost"
    using arg_cong [OF s(2), of "drop 4"] four s1(3) by (simp add: msg_bytes_def)
  show ?thesis
  proof (cases "\<exists>t. t \<noteq> [] \<and> head_field_bytes h0 = bs_rest s1 @ t")
    case True
    then obtain s2 h2 where "read_head_fields (h_flag h0) (s1, SetFlag (h_flag h0) h) =
        Some (False, s2, h2)"
      using reads_cut [OF reads_head_fields [OF hok] s1(2)] by blast
    then show ?thesis
      using s1(1) by (simp add: Deseriali_def DeserialiHead_def bs_Read_T_def le_word_le_bytes)
  next
    case False
    then obtain t where t: "bs_rest s1 = head_field_bytes h0 @ t" "body = t @ lost"
      using rest unfolding append_eq_append_conv2 by (metis append_Nil append_Nil2)
    then obtain s2 where s2: "read_head_fields (h_flag h0) (s1, SetFlag (h_flag h0) h) =
        Some (True, s2, parsed_head h0 h)" "reader_inv s2" "bs_rest s2 = t"
      using reads_whole [OF reads_head_fields [OF hok] s1(2) t(1), of "SetFlag (h_flag h0) h"]
      unfolding fields by blast
    have bl: "h_body_len (parsed_head h0 h) = h_body_len h0"
      by (simp add: parsed_head_def)
    have "length t < unat (h_body_len h0)"
      using len t(2) lost by simp
    then obtain s3 where s3: "bs_Read (h_body_len h0) s2 = Some (None, s3)"
      using bs_Read_inv [OF s2(2), of "h_body_len h0"] s2(3) by blast
    show ?thesis
      unfolding Deseriali_def DeserialiHead_def bs_Read_T_def
      using s1(1) s2(1) s3 bl by (simp add: le_word_le_bytes)
  qed
qed

section \<open>Safety on arbitrary bytes\<close>

definition rd_safe :: "reader \<Rightarrow> bool" where
  "rd_safe m \<longleftrightarrow> (\<forall>s h. reader_inv s \<longrightarrow>
     (\<exists>r s' h'. m (s, h) = Some (r, s', h') \<and> reader_inv s' \<and> bs_content s' = bs_content s))"

lemma rd_safe_basic: "rd_safe rd_done" "rd_safe (rd_head f)"
  unfolding rd_safe_def rd_done_def rd_head_def by simp_all blast+

lemma rd_safe_when: "(b \<Longrightarrow> rd_safe m) \<Longrightarrow> rd_safe (rd_when b m)"
  by (simp add: rd_when_def rd_safe_basic)

lemma rd_safe_then:
  assumes m: "rd_safe m" and k: "rd_safe k" shows "rd_safe (rd_then m k)"
  unfolding rd_safe_def
proof (intro allI impI)
  fix s h assume "reader_inv s"
  then obtain r s' h' where "m (s, h) = Some (r, s', h')" "reader_inv s'" "bs_content s' = bs_content s"
    using m unfolding rd_safe_def by blast
  then show "\<exists>r s' h'. rd_then m k (s, h) = Some (r, s', h') \<and> reader_inv s' \<and>
      bs_content s' = bs_content s"
    using k unfolding rd_safe_def by (cases r) (auto simp: rd_then_def)
qed

lemma rd_safe_value:
  assumes "\<And>v. rd_safe (k v)" shows "rd_safe (rd_value dec n k)"
  unfolding rd_safe_def
proof (intro allI impI)
  fix s h assume "reader_inv s"
  then obtain r s' where "bs_Read (of_nat n) s = Some (r, s')" "reader_inv s'"
    "bs_content s' = bs_content s"
    using bs_Read_inv [of s "of_nat n"] by blast
  moreover from this have "\<exists>r' s'' h'. k v (s', h) = Some (r', s'', h') \<and> reader_inv s'' \<and>
      bs_content s'' = bs_content s" for v
    using assms unfolding rd_safe_def by metis
  ultimately show "\<exists>r s' h'. rd_value dec n k (s, h) = Some (r, s', h') \<and> reader_inv s' \<and>
      bs_content s' = bs_content s"
    by (cases r) (auto simp: rd_value_def bs_Read_T_def)
qed

lemma rd_safe_loop: "(\<And>vs. rd_safe (k vs)) \<Longrightarrow> rd_safe (rd_loop dec n m acc k)"
  by (induction m arbitrary: acc) (simp_all add: rd_safe_value)

lemmas rd_safe_intros = rd_safe_basic rd_safe_when rd_safe_then rd_safe_value rd_safe_loop

lemma rd_safe_read_acks: "rd_safe (read_acks flag rf aa at)"
  unfolding read_acks_def by (auto intro!: rd_safe_intros)

lemma rd_safe_head_fields: "rd_safe (read_head_fields flag)"
  unfolding read_head_fields_def by (auto intro!: rd_safe_intros rd_safe_read_acks)

lemma Deseriali_safe:
  assumes "reader_inv s"
  shows "\<exists>r s' h' b'. Deseriali s h body0 = Some (r, s', h', b') \<and> reader_inv s' \<and>
    bs_content s' = bs_content s"
proof -
  obtain r1 s1 where s1: "bs_Read 4 s = Some (r1, s1)" "reader_inv s1" "bs_content s1 = bs_content s"
    using bs_Read_inv [OF assms, of 4] by blast
  define flag :: u32 where "flag = (case r1 of None \<Rightarrow> 0 | Some b \<Rightarrow> le_word b)"
  obtain r2 s2 h2 where s2: "read_head_fields flag (s1, SetFlag flag h) = Some (r2, s2, h2)"
    "reader_inv s2" "bs_content s2 = bs_content s"
    using rd_safe_head_fields s1 unfolding rd_safe_def by metis
  have head: "DeserialiHead (s, h) = Some (r2, s2, h2)"
    using s1(1) s2(1) by (cases r1) (simp_all add: DeserialiHead_def bs_Read_T_def flag_def)
  obtain r3 s3 where "bs_Read (h_body_len h2) s2 = Some (r3, s3)" "reader_inv s3"
    "bs_content s3 = bs_content s"
    using bs_Read_inv [OF s2(2), of "h_body_len h2"] s2(3) by metis
  then show ?thesis
    using head s2 by (cases r2; cases r3) (auto simp: Deseriali_def)
qed

end
