(* ===== verification/Msg_Impl.thy ===== *)
theory Msg_Impl
  imports Deserialize_Correct
begin

text \<open>
  \<^verbatim>\<open>common/MsgImpl.cpp\<close>: a message, that is its head and body and what stays on this host
  (local flags, timer number, back-off factor, the handle of the owning socket). Messages are
  shared by reference between the send window, the priority queue, the flow queue, the receive
  lists and the timers; those components hold references (\<open>msg_ref\<close>) into a \<open>store\<close>.
\<close>

section \<open>State and operations\<close>

type_synonym msg_ref = nat

record msg =
  m_head :: head
  m_body :: "byte list"
  m_ip_port :: handle
  m_flag :: u16
  m_upper_id :: u32
  m_next :: "msg_ref option"
  m_prev :: "msg_ref option"
  m_time_id :: u64
  m_backoff_factor :: u16
  m_socket :: "handle option"

type_synonym store = "msg_ref \<Rightarrow> msg"

definition CMsgImpl :: msg where
  "CMsgImpl = \<lparr>m_head = Head, m_body = [], m_ip_port = [], m_flag = ucast msg_with_out_id,
     m_upper_id = 0, m_next = None, m_prev = None, m_time_id = 0, m_backoff_factor = 1,
     m_socket = None\<rparr>"

definition msg_Clear :: "msg \<Rightarrow> msg" where
  "msg_Clear m = m\<lparr>m_flag := ucast msg_with_out_id, m_ip_port := [], m_head := Head_Clear (m_head m),
     m_socket := None, m_backoff_factor := 1, m_time_id := 0, m_body := [], m_upper_id := 0\<rparr>"

definition msg_ClearAck :: "msg \<Rightarrow> msg" where
  "msg_ClearAck m = m\<lparr>m_head := Head_ClearAck (m_head m)\<rparr>"

definition msg_SetId :: "u16 \<Rightarrow> msg \<Rightarrow> msg" where
  "msg_SetId i m = m\<lparr>m_flag := m_flag m AND NOT (ucast msg_with_out_id),
     m_head := SetId i (m_head m)\<rparr>"

definition msg_GetId :: "msg \<Rightarrow> u16" where
  "msg_GetId m = h_id (m_head m)"

definition msg_AddSendDelay :: "msg \<Rightarrow> msg" where
  "msg_AddSendDelay m = m\<lparr>m_backoff_factor := drop_bit 2 (m_backoff_factor m)\<rparr>"

definition msg_GetReSendTime :: "u32 \<Rightarrow> msg \<Rightarrow> u16" where
  "msg_GetReSendTime rto m = ucast (rto * ucast (m_backoff_factor m))"

definition msg_SetHeaderFlag :: "u32 \<Rightarrow> msg \<Rightarrow> msg" where
  "msg_SetHeaderFlag f m = m\<lparr>m_head := SetFlag (h_flag (m_head m) OR f) (m_head m)\<rparr>"

definition msg_GetHeaderFlag :: "msg \<Rightarrow> u32" where
  "msg_GetHeaderFlag m = h_flag (m_head m)"

text \<open>\<open>_flag\<close> is an \<open>int16_t\<close>: \<open>|=\<close> truncates, reading it as \<open>uint32_t\<close> extends the sign.\<close>

definition msg_SetFlag :: "u32 \<Rightarrow> msg \<Rightarrow> msg" where
  "msg_SetFlag f m = m\<lparr>m_flag := ucast (scast (m_flag m) OR f)\<rparr>"

definition msg_GetFlag :: "msg \<Rightarrow> u32" where
  "msg_GetFlag m = scast (m_flag m)"

definition msg_DebugHeaderFlag :: "msg \<Rightarrow> string" where
  "msg_DebugHeaderFlag m = concat (map (\<lambda>(f, name). if has_flag (h_flag (m_head m)) f then name else [])
     [(HTF_ORDERLY, '' HTF_ORDERLY ''), (HTF_RELIABLE, '' HTF_RELIABLE ''),
      (HTF_RELIABLE_ORDERLY, '' HTF_RELIABLE_ORDERLY ''), (HTF_NORMAL, '' HTF_NORMAL ''),
      (HPF_LOW_PRI, '' HPF_LOW_PRI ''), (HPF_NROMAL_PRI, '' HPF_NROMAL_PRI ''),
      (HPF_HIGH_PRI, '' HPF_HIGH_PRI ''), (HPF_HIGHEST_PRI, '' HPF_HIGHEST_PRI ''),
      (HPF_RELIABLE_ACK_RANGE, '' HPF_RELIABLE_ACK_RANGE ''),
      (HPF_RELIABLE_ORDERLY_ACK_RANGE, '' HPF_RELIABLE_ORDERLY_ACK_RANGE ''),
      (HPF_FIN, '' HPF_FIN ''), (HPF_FIN_ACK, '' HPF_FIN_ACK ''), (HPF_WITH_ID, '' HPF_WITH_ID ''),
      (HPF_WITH_RELIABLE_ACK, '' HPF_WITH_RELIABLE_ACK ''),
      (HPF_WITH_RELIABLE_ORDERLY_ACK, '' HPF_WITH_RELIABLE_ORDERLY_ACK ''),
      (HPF_WITH_BODY, '' HPF_WITH_BODY '')])"

definition msg_SetBody :: "byte list \<Rightarrow> msg \<Rightarrow> msg" where
  "msg_SetBody body m = m\<lparr>m_body := body, m_head := SetBodyLength (of_nat (length body)) (m_head m)\<rparr>"

text \<open>The results of the \<open>Add..\<close> calls in \<open>SetAck\<close> are dropped.\<close>

definition msg_SetAck :: "u32 \<Rightarrow> u16 list \<Rightarrow> u64 list \<Rightarrow> bool \<Rightarrow> msg \<Rightarrow> msg" where
  "msg_SetAck flag ack_vec time_vec continuity m =
     (let h1 = (if has_flag flag HPF_WITH_RELIABLE_ACK
                then snd (AddReliableAckTime time_vec (snd (AddReliableAck ack_vec continuity (m_head m))))
                else m_head m);
          h2 = (if has_flag flag HPF_WITH_RELIABLE_ORDERLY_ACK
                then snd (AddReliableOrderlyAckTime time_vec
                            (snd (AddReliableOrderlyAck ack_vec continuity h1)))
                else h1) in
      m\<lparr>m_head := h2\<rparr>)"

text \<open>
  \<open>GetAck\<close> tests the flags of the head, not its parameter; an output vector is overwritten by
  every getter that succeeds.
\<close>

definition assign_vec :: "'v list \<Rightarrow> 'v list option \<Rightarrow> 'v list" where
  "assign_vec old r = (case r of None \<Rightarrow> old | Some v \<Rightarrow> v)"

definition msg_GetAck :: "u32 \<Rightarrow> u16 list \<Rightarrow> u64 list \<Rightarrow> msg \<Rightarrow> u16 list \<times> u64 list" where
  "msg_GetAck flag ack_vec time_vec m =
     (let h = m_head m;
          (a1, t1) = (if has_flag (h_flag h) HPF_WITH_RELIABLE_ACK
                      then (assign_vec ack_vec (GetReliableAck h), assign_vec time_vec (GetReliableAckTime h))
                      else (ack_vec, time_vec)) in
      if has_flag (h_flag h) HPF_WITH_RELIABLE_ORDERLY_ACK
      then (assign_vec a1 (GetReliableOrderlyAck h), assign_vec t1 (GetReliableOrderlyAckTime h))
      else (a1, t1))"

definition msg_GetSerializeBuffer :: "msg \<Rightarrow> (byte list \<times> msg) option" where
  "msg_GetSerializeBuffer m =
     (case Serializes (m_head m) (m_body m) CBitStream of
        None \<Rightarrow> None
      | Some (r, h, s) \<Rightarrow> Some (if r then bs_content s else [], m\<lparr>m_head := h\<rparr>))"

definition msg_InitWithBuffer :: "byte list \<Rightarrow> msg \<Rightarrow> (bool \<times> msg) option" where
  "msg_InitWithBuffer buf m =
     (case bs_Init buf (of_nat (length buf)) CBitStream of
        None \<Rightarrow> None
      | Some (_, s) \<Rightarrow>
          (case Deseriali s (m_head m) (m_body m) of
             None \<Rightarrow> None
           | Some (r, _, h, b) \<Rightarrow> Some (r, m\<lparr>m_head := h, m_body := b\<rparr>)))"

definition msg_SetSendTime :: "u64 \<Rightarrow> msg \<Rightarrow> msg" where
  "msg_SetSendTime t m =
     (let h = SetSendTime t (m_head m) in
      m\<lparr>m_head := (if msg_with_time then SetFlag (h_flag h OR HPF_MSG_WITH_TIME_STAMP) h else h)\<rparr>)"

definition msg_GetSendTime :: "msg \<Rightarrow> u64" where
  "msg_GetSendTime m = h_send_time (m_head m)"

definition msg_GetEstimateSize :: "msg \<Rightarrow> u32" where
  "msg_GetEstimateSize m = EstimateSize (m_head m)"

definition msg_SetSocket :: "handle \<Rightarrow> msg \<Rightarrow> msg" where
  "msg_SetSocket sock m = m\<lparr>m_socket := Some sock\<rparr>"

definition msg_SetHandle :: "handle \<Rightarrow> msg \<Rightarrow> msg" where
  "msg_SetHandle handle m = m\<lparr>m_ip_port := handle\<rparr>"

definition msg_SetUpperId :: "u32 \<Rightarrow> msg \<Rightarrow> msg" where
  "msg_SetUpperId i m = m\<lparr>m_upper_id := i\<rparr>"

definition msg_SetTimerId :: "u64 \<Rightarrow> msg \<Rightarrow> msg" where
  "msg_SetTimerId i m = m\<lparr>m_time_id := i\<rparr>"

section \<open>What goes to the wire and comes back\<close>

text \<open>A message the format represents (\<open>msg_ok\<close> of its head and body).\<close>

definition wire_ok :: "msg \<Rightarrow> bool" where
  "wire_ok m \<longleftrightarrow> msg_ok (m_head m) (m_body m)"

lemma GetSerializeBuffer_wire_ok:
  assumes "wire_ok m"
  shows "msg_GetSerializeBuffer m =
    Some (if unat (msg_GetEstimateSize m) \<le> 440 then msg_bytes (m_head m) (m_body m) else [], m)"
proof -
  have ok: "msg_ok (m_head m) (m_body m)" using assms by (simp add: wire_ok_def)
  note est = EstimateSize_eq [OF ok]
  show ?thesis
  proof (cases "length (msg_bytes (m_head m) (m_body m)) \<le> 440")
    case True
    then obtain s where "Serializes (m_head m) (m_body m) CBitStream = Some (True, m_head m, s)"
      "bs_content s = msg_bytes (m_head m) (m_body m)"
      using Serializes_msg_ok [OF ok] by (simp only: if_True) blast
    then show ?thesis
      using True est by (simp add: msg_GetSerializeBuffer_def msg_GetEstimateSize_def)
  next
    case False
    then obtain s where "Serializes (m_head m) (m_body m) CBitStream = Some (False, m_head m, s)"
      using Serializes_msg_ok [OF ok] by (simp only: if_False) blast
    then show ?thesis
      using False est by (simp add: msg_GetSerializeBuffer_def msg_GetEstimateSize_def)
  qed
qed

lemma GetSerializeBuffer_length:
  assumes "wire_ok m" shows "\<exists>buf. msg_GetSerializeBuffer m = Some (buf, m) \<and>
    (if unat (msg_GetEstimateSize m) \<le> 440 then length buf = unat (msg_GetEstimateSize m) else buf = [])"
  using GetSerializeBuffer_wire_ok [OF assms] EstimateSize_eq assms
  by (simp add: wire_ok_def msg_GetEstimateSize_def)

text \<open>Example messages for the witnesses below.\<close>

definition sample_msg :: msg where
  "sample_msg = msg_SetAck HPF_WITH_RELIABLE_ORDERLY_ACK [7, 8, 65535] [11, 12, 13] False
     (msg_SetBody [104, 105] (msg_SetSendTime 1000 (msg_SetId 9
       (msg_SetHeaderFlag (HTF_RELIABLE_ORDERLY OR HPF_HIGH_PRI) CMsgImpl))))"

lemmas msg_op_defs = CMsgImpl_def msg_SetAck_def msg_SetBody_def msg_SetSendTime_def msg_SetId_def
  msg_SetHeaderFlag_def msg_ClearAck_def msg_Clear_def

lemma sample_msg_head: "m_head sample_msg = \<lparr>h_flag = 0x1D044, h_id = 9, h_body_len = 2,
    h_send_time = 1000, h_ack_reliable = [], h_reliable_times = [],
    h_ack_orderly = [7, 8, 65535], h_orderly_times = [11, 12, 13]\<rparr>"
  and sample_msg_body: "m_body sample_msg = [104, 105]"
  by (simp_all add: sample_msg_def msg_op_defs Head_def head_op_defs head_flag_defs has_flag_def
      msg_with_time_def Let_def)

lemma sample_msg_ok: "wire_ok sample_msg"
  unfolding wire_ok_def msg_ok_def head_ok_def ack_block_ok_def
  by (simp add: sample_msg_head sample_msg_body has_flag_def head_flag_defs)

lemma sample_msg_size: "msg_GetEstimateSize sample_msg = 50"
  by (simp add: msg_GetEstimateSize_def EstimateSize_def estimate_acks_def sample_msg_head
      has_flag_def head_flag_defs)

text \<open>
  C25. The size estimate is exact and decides whether a message can be sent: serialising a message
  that the format represents (\<open>wire_ok\<close>: in particular, with time stamps it has one for each of its
  acknowledgements) never leaves it changed and never touches memory outside of the
  buffer; the buffer is as long as the estimate when that is at most the MTU of 440 bytes, and
  empty (the failure value) otherwise.
\<close>

theorem GetSerializeBuffer_estimate:
  assumes "wire_ok m"
  shows "\<exists>buf. msg_GetSerializeBuffer m = Some (buf, m) \<and>
    (if unat (msg_GetEstimateSize m) \<le> 440 then length buf = unat (msg_GetEstimateSize m) else buf = [])"
  using assms by (rule GetSerializeBuffer_length)

theorem GetSerializeBuffer_estimate_witness:
  "\<exists>buf. msg_GetSerializeBuffer sample_msg = Some (buf, sample_msg) \<and> length buf = 50"
  using GetSerializeBuffer_estimate [OF sample_msg_ok] by (simp add: sample_msg_size)

text \<open>
  A message that the format does not represent: with the flag for time stamps and an acknowledgement
  that has none (\<open>GetAck\<close> gives none for the time 0) the serialiser reads behind the end of the vector.
\<close>

lemma missing_time_undefined:
  assumes "writer_inv s" "length (bs_content s) \<le> 430" "has_flag flag HPF_MSG_WITH_TIME_STAMP" "\<not> has_flag flag range_flag"
  shows "write_acks flag range_flag [i] [] s = None"
proof -
  obtain s1 where s1: "bs_Write_T (le_bytes 2 (1 :: u16)) s = Some (True, s1)" "writer_inv s1"
    "bs_content s1 = bs_content s @ le_bytes 2 (1 :: u16)"
    using bs_Write_ok [OF assms(1), of 2 "le_bytes 2 (1 :: u16)"] assms(2) by (auto simp: bs_Write_T_def)
  obtain s2 where "bs_Write_T (le_bytes 2 i) s1 = Some (True, s2)"
    using bs_Write_ok [OF s1(2), of 2 "le_bytes 2 i"] assms(2) s1(3) by (auto simp: bs_Write_T_def)
  then show ?thesis
    using s1(1) assms(3,4) by (simp add: write_acks_def check_ret_def wr_when_def wr_skip_def bind_nth_def Let_def)
qed

lemma wire_round_trip_bytes:
  assumes ok: "wire_ok m" and fits: "unat (msg_GetEstimateSize m) \<le> 440"
    and pool: "head_empty (m_head p)"
  shows "msg_GetSerializeBuffer m = Some (msg_bytes (m_head m) (m_body m), m)"
    "msg_InitWithBuffer (msg_bytes (m_head m) (m_body m)) p =
    Some (True, p\<lparr>m_head := parsed_head (m_head m) (m_head p), m_body := m_body m\<rparr>)"
proof -
  let ?buf = "msg_bytes (m_head m) (m_body m)"
  have mok: "msg_ok (m_head m) (m_body m)" using ok by (simp add: wire_ok_def)
  then have "length ?buf \<le> 440"
    using fits EstimateSize_eq by (simp add: msg_GetEstimateSize_def)
  then obtain s where "bs_Init ?buf (of_nat (length ?buf)) CBitStream = Some (True, s)"
    "reader_inv s" "bs_rest s = ?buf" using bs_Init_new by blast
  moreover from this obtain s' where "Deseriali s (m_head p) (m_body p) =
      Some (True, s', parsed_head (m_head m) (m_head p), m_body m)"
    using Deseriali_bytes [OF mok, of s "[]" "m_head p"] pool by auto
  ultimately show "msg_GetSerializeBuffer m = Some (?buf, m)" "msg_InitWithBuffer ?buf p =
    Some (True, p\<lparr>m_head := parsed_head (m_head m) (m_head p), m_body := m_body m\<rparr>)"
    using GetSerializeBuffer_wire_ok [OF ok] fits by (simp_all add: msg_InitWithBuffer_def)
qed

text \<open>
  C1. Wire round trip: a message that the format represents and whose estimate is within the MTU
  is rebuilt from its buffer by \<open>InitWithBuffer\<close>, in a message of the pool (freshly constructed
  or cleared), head and body, with every acknowledged number and time stamp.
\<close>

theorem wire_round_trip:
  assumes ok: "wire_ok m" and fits: "unat (msg_GetEstimateSize m) \<le> 440"
    and pool: "head_empty (m_head p)"
  shows "\<exists>buf. msg_GetSerializeBuffer m = Some (buf, m) \<and> msg_InitWithBuffer buf p =
    Some (True, p\<lparr>m_head := parsed_head (m_head m) (m_head p), m_body := m_body m\<rparr>)"
  using wire_round_trip_bytes [OF assms] by blast

theorem wire_round_trip_witness:
  "\<exists>buf. msg_GetSerializeBuffer sample_msg = Some (buf, sample_msg) \<and> msg_InitWithBuffer buf CMsgImpl =
    Some (True, CMsgImpl\<lparr>m_head := m_head sample_msg, m_body := [104, 105]\<rparr>)"
proof -
  have "head_empty (m_head CMsgImpl)" by (simp add: CMsgImpl_def)
  moreover have "parsed_head (m_head sample_msg) h = m_head sample_msg" for h
    by (simp add: parsed_head_def sample_msg_head has_flag_def head_flag_defs)
  ultimately show ?thesis
    using wire_round_trip [OF sample_msg_ok, of CMsgImpl]
    by (simp add: sample_msg_size sample_msg_body)
qed

text \<open>
  C24. A datagram that is cut off is not taken for a shorter message: every proper prefix of a
  serialised message that still has its flag word is rejected by \<open>InitWithBuffer\<close>, and the body
  of the receiving message stays as it was.
\<close>

theorem InitWithBuffer_truncated:
  assumes ok: "wire_ok m" and fits: "unat (msg_GetEstimateSize m) \<le> 440"
    and pool: "head_empty (m_head p)"
    and buf: "msg_GetSerializeBuffer m = Some (buf, m)" and n: "4 \<le> n" "n < length buf"
  shows "\<exists>p'. msg_InitWithBuffer (take n buf) p = Some (False, p') \<and> m_body p' = m_body p"
proof -
  have mok: "msg_ok (m_head m) (m_body m)" using ok by (simp add: wire_ok_def)
  have b: "buf = msg_bytes (m_head m) (m_body m)"
    using GetSerializeBuffer_wire_ok [OF ok] fits buf by simp
  then have "length buf \<le> 440"
    using fits EstimateSize_eq [OF mok] by (simp add: msg_GetEstimateSize_def)
  then obtain s where s: "bs_Init (take n buf) (of_nat (length (take n buf))) CBitStream = Some (True, s)"
    "reader_inv s" "bs_rest s = take n buf"
    using bs_Init_new [of "take n buf"] n by (metis length_take min.coboundedI1)
  moreover have "msg_bytes (m_head m) (m_body m) = bs_rest s @ drop n buf"
    by (simp add: s(3) b)
  then obtain s' h' where "Deseriali s (m_head p) (m_body p) = Some (False, s', h', m_body p)"
    using Deseriali_truncated [OF mok s(2) _ _ _ pool] n s(3) by fastforce
  ultimately show ?thesis by (simp add: msg_InitWithBuffer_def)
qed

theorem InitWithBuffer_truncated_witness:
  "\<exists>buf p'. msg_GetSerializeBuffer sample_msg = Some (buf, sample_msg) \<and> length buf = 50 \<and>
    msg_InitWithBuffer (take 49 buf) CMsgImpl = Some (False, p') \<and> m_body p' = []"
proof -
  have e: "head_empty (m_head CMsgImpl)" by (simp add: CMsgImpl_def)
  have f: "unat (msg_GetEstimateSize sample_msg) \<le> 440" by (simp add: sample_msg_size)
  obtain buf where buf: "msg_GetSerializeBuffer sample_msg = Some (buf, sample_msg)" "length buf = 50"
    using GetSerializeBuffer_length [OF sample_msg_ok] by (auto simp: sample_msg_size)
  then show ?thesis
    using InitWithBuffer_truncated [OF sample_msg_ok f e buf(1), of 49]
    by (simp add: CMsgImpl_def)
qed

lemma InitWithBuffer_defined: "\<exists>r m'. msg_InitWithBuffer buf m = Some (r, m')"
proof -
  let ?len = "of_nat (length buf) :: u16"
  have "\<exists>r s. bs_Init buf ?len CBitStream = Some (r, s) \<and> reader_inv s"
  proof (cases "unat ?len \<le> 440")
    case True
    have "unat ?len \<le> length buf" by (simp add: unat_of_nat)
    then show ?thesis using bs_Init_ok [OF True] by blast
  next
    case False
    then show ?thesis
      using bs_Init_too_long writer_inv_imp_reader_inv [OF CBitStream_inv(1)] by auto
  qed
  then obtain r s where "bs_Init buf ?len CBitStream = Some (r, s)" "reader_inv s" by blast
  then show ?thesis
    using Deseriali_safe [of s "m_head m" "m_body m"] by (auto simp: msg_InitWithBuffer_def)
qed

text \<open>
  C23. The parser stays within its buffer: whatever bytes arrive, parsing them into any message copies
  nothing from outside of them or to outside of the stream, and returns (up to the destructor of the
  stream, which is not part of the model).
\<close>

theorem InitWithBuffer_safe: "\<exists>r m'. msg_InitWithBuffer buf m = Some (r, m')"
  by (rule InitWithBuffer_defined)

text \<open>
  What \<open>SetAck\<close> attached to a message without acknowledgements is what \<open>GetAck\<close> returns for
  the same kind, numbers and time stamps.
\<close>

theorem SetAck_GetAck:
  assumes "f = HPF_WITH_RELIABLE_ACK \<or> f = HPF_WITH_RELIABLE_ORDERLY_ACK" and "vec \<noteq> []"
  shows "msg_GetAck f [] [] (msg_SetAck f vec ts continuity (msg_ClearAck m)) = (vec, ts)"
proof -
  define h where "h = Head_ClearAck (m_head m)"
  have h: "h_ack_reliable h = []" "h_ack_orderly h = []" "h_reliable_times h = []"
    "h_orderly_times h = []" "\<not> bit (h_flag h) 13" "\<not> bit (h_flag h) 14"
    by (simp_all add: h_def Head_ClearAck_def bit_simps bit_flags)
  have "has_flag HPF_WITH_RELIABLE_ACK HPF_WITH_RELIABLE_ACK"
    "has_flag HPF_WITH_RELIABLE_ORDERLY_ACK HPF_WITH_RELIABLE_ORDERLY_ACK"
    "\<not> has_flag HPF_WITH_RELIABLE_ACK HPF_WITH_RELIABLE_ORDERLY_ACK"
    "\<not> has_flag HPF_WITH_RELIABLE_ORDERLY_ACK HPF_WITH_RELIABLE_ACK"
    by (simp_all add: has_flag_bits bit_flags)
  then show ?thesis
    using assms h
    by (cases "ts = []") (auto simp: msg_GetAck_def msg_SetAck_def head_op_defs msg_ClearAck_def
        h_def [symmetric] assign_vec_def Let_def has_flag_bits bit_or_iff bit_flags)
qed

theorem SetAck_GetAck_witness:
  "msg_GetAck HPF_WITH_RELIABLE_ACK [] []
    (msg_SetAck HPF_WITH_RELIABLE_ACK [5, 6] [70, 80] False (msg_ClearAck sample_msg)) = ([5, 6], [70, 80])"
  using SetAck_GetAck [of HPF_WITH_RELIABLE_ACK "[5, 6]" "[70, 80]" False sample_msg] by simp

text \<open>
  A message with acknowledgements of both kinds: \<open>GetAck\<close> does not look at its parameter, so
  the caller that asks for the reliable numbers gets the reliable-orderly ones.
\<close>

theorem GetAck_mixes_kinds:
  "msg_GetAck HPF_WITH_RELIABLE_ACK [] []
    (msg_SetAck HPF_WITH_RELIABLE_ACK [5] [70] False sample_msg) = ([7, 8, 65535], [11, 12, 13])"
  by (simp add: msg_GetAck_def msg_SetAck_def sample_msg_head head_op_defs has_flag_def
      head_flag_defs assign_vec_def)

end
