(* ===== verification/Pend_Ack.thy ===== *)
theory Pend_Ack
  imports Std_Map Msg_Impl
begin

text \<open>
  \<^verbatim>\<open>common/PendAck.cpp\<close>: the acknowledgements that wait for a message to ride on. \<open>_ack_map\<close> is a
  \<open>std::map\<close> from message number to the sender's time stamp (0: none); \<open>_cur_size\<close> is the size
  counter. \<open>AddAck\<close> also says whether it calls \<open>_ack_now_call_back\<close>.
\<close>

section \<open>State and operations\<close>

record pend_ack =
  pa_cur_size :: u32
  pa_map :: "(u16 \<times> u64) list"

definition CPendAck :: pend_ack where
  "CPendAck = \<lparr>pa_cur_size = 0, pa_map = []\<rparr>"

definition id_length :: u16 where "id_length = 2"
definition time_length :: u16 where "time_length = 8"
definition ack_length_limit :: u16 where "ack_length_limit = mtu - time_length - id_length"

definition AddAck :: "u16 \<Rightarrow> pend_ack \<Rightarrow> bool \<times> pend_ack" where
  "AddAck ack_id p =
     (let p' = p\<lparr>pa_map := omap_insert ack_id 0 (pa_map p),
                pa_cur_size := pa_cur_size p + ucast id_length\<rparr> in
      (pa_cur_size p' \<ge> ucast ack_length_limit, p'))"

definition AddAck_time :: "u16 \<Rightarrow> u64 \<Rightarrow> pend_ack \<Rightarrow> bool \<times> pend_ack" where
  "AddAck_time ack_id send_time p =
     (let p' = p\<lparr>pa_map := omap_insert ack_id send_time (pa_map p),
                pa_cur_size := pa_cur_size p + ucast (id_length + time_length)\<rparr> in
      (pa_cur_size p' \<ge> ucast ack_length_limit, p'))"

definition pa_Clear :: "pend_ack \<Rightarrow> pend_ack" where
  "pa_Clear p = p\<lparr>pa_map := []\<rparr>"

definition HasAck :: "pend_ack \<Rightarrow> bool" where
  "HasAck p \<longleftrightarrow> pa_map p \<noteq> []"

text \<open>
  The loop of \<open>GetAck\<close>. Arguments in order: the limit, the map (its first entry is \<open>begin()\<close>),
  the two output vectors, \<open>prev_tmp\<close>, \<open>cur_szie\<close>, \<open>continuity\<close>.
\<close>

fun GetAck_loop ::
  "u16 \<Rightarrow> (u16 \<times> u64) list \<Rightarrow> u16 list \<Rightarrow> u64 list \<Rightarrow> u16 \<Rightarrow> u16 \<Rightarrow> bool \<Rightarrow>
   u16 list \<times> u64 list \<times> u16 \<times> bool \<times> (u16 \<times> u64) list"
where
  "GetAck_loop size_limit [] av tv prev cur cont = (av, tv, cur, cont, [])"
| "GetAck_loop size_limit ((i, t) # rest) av tv prev cur cont =
     (let cont' = (if prev \<noteq> 0 \<and> prev \<noteq> i - 1 then False else cont) in
      if t \<noteq> 0 then
        (let cur1 = cur + time_length; cur2 = cur1 + id_length in
         if size_limit \<le> cur1 then (av, tv, cur1, cont, (i, t) # rest)
         else if size_limit \<le> cur2 then (av, tv, cur2, cont, (i, t) # rest)
         else GetAck_loop size_limit rest (av @ [i]) (tv @ [t]) i cur2 cont')
      else
        (let cur1 = cur + id_length in
         if size_limit \<le> cur1 then (av, tv, cur1, cont, (i, t) # rest)
         else GetAck_loop size_limit rest (av @ [i]) tv i cur1 cont'))"

definition GetAck ::
  "u16 list \<Rightarrow> u64 list \<Rightarrow> bool \<Rightarrow> u16 \<Rightarrow> pend_ack \<Rightarrow> bool \<times> u16 list \<times> u64 list \<times> bool \<times> pend_ack"
where
  "GetAck ack_vec time_vec continuity size_limit p =
     (if pa_map p = [] then (False, ack_vec, time_vec, continuity, p)
      else
        let (av, tv, cur, cont, rest) =
              GetAck_loop size_limit (pa_map p) ack_vec time_vec 0 0 continuity;
            cont' = (if cont \<and> length av = 1 then False else cont) in
        (True, av, tv, cont', p\<lparr>pa_map := rest, pa_cur_size := pa_cur_size p - ucast cur\<rparr>))"

fun GetAllAck_loop ::
  "(u16 \<times> u64) list \<Rightarrow> u16 list \<Rightarrow> u64 list \<Rightarrow> u16 \<Rightarrow> bool \<Rightarrow> u16 list \<times> u64 list \<times> bool"
where
  "GetAllAck_loop [] av tv prev cont = (av, tv, cont)"
| "GetAllAck_loop ((i, t) # rest) av tv prev cont =
     GetAllAck_loop rest (av @ [i]) (if t \<noteq> 0 then tv @ [t] else tv) i
       (if prev \<noteq> 0 \<and> prev \<noteq> i - 1 then False else cont)"

definition GetAllAck ::
  "u16 list \<Rightarrow> u64 list \<Rightarrow> bool \<Rightarrow> pend_ack \<Rightarrow> bool \<times> u16 list \<times> u64 list \<times> bool \<times> pend_ack"
where
  "GetAllAck ack_vec time_vec continuity p =
     (if pa_map p = [] then (False, ack_vec, time_vec, continuity, p)
      else
        let (av, tv, cont) = GetAllAck_loop (pa_map p) ack_vec time_vec 0 True;
            cont' = (if cont \<and> length av = 1 then False else cont) in
        (True, av, tv, cont', p\<lparr>pa_map := [], pa_cur_size := 0\<rparr>))"

section \<open>What \<open>GetAck\<close> hands out\<close>

text \<open>Bytes an entry takes in a message, and the invariant of the component.\<close>

definition entry_size :: "u16 \<times> u64 \<Rightarrow> nat" where
  "entry_size p = (if snd p \<noteq> 0 then 10 else 2)"

definition entries_size :: "(u16 \<times> u64) list \<Rightarrow> nat" where
  "entries_size xs = sum_list (map entry_size xs)"

definition pend_ack_inv :: "pend_ack \<Rightarrow> bool" where
  "pend_ack_inv p \<longleftrightarrow> omap_ok (pa_map p)"

lemma pend_ack_inv_steps:
  "pend_ack_inv CPendAck"
  "pend_ack_inv p \<Longrightarrow> pend_ack_inv (snd (AddAck i p))"
  "pend_ack_inv p \<Longrightarrow> pend_ack_inv (snd (AddAck_time i t p))"
  "pend_ack_inv p \<Longrightarrow> pend_ack_inv (pa_Clear p)"
  by (simp_all add: pend_ack_inv_def CPendAck_def AddAck_def AddAck_time_def pa_Clear_def Let_def
      omap_ok_insert)

lemma unat_cur_add:
  "unat (cur :: u16) + 10 < 65536 \<Longrightarrow> unat (cur + time_length) = unat cur + 8 \<and>
   unat (cur + time_length + id_length) = unat cur + 10 \<and> unat (cur + id_length) = unat cur + 2"
  by (simp add: time_length_def id_length_def unat_add_small_u16 add.assoc)

text \<open>The loop takes the longest prefix of the map whose size stays under the limit.\<close>

lemma GetAck_loop_prefix:
  assumes "unat lim < 65526" and "unat cur < unat lim \<or> cur = 0"
  shows "\<exists>k cur' cont'. GetAck_loop lim xs av tv prev cur cont =
      (av @ map fst (take k xs), tv @ filter (\<lambda>t. t \<noteq> 0) (map snd (take k xs)), cur', cont', drop k xs) \<and>
    k \<le> length xs \<and>
    (k > 0 \<longrightarrow> unat cur + entries_size (take k xs) < unat lim) \<and>
    (k < length xs \<longrightarrow> unat lim \<le> unat cur + entries_size (take (Suc k) xs))"
  using assms(2)
proof (induction xs arbitrary: av tv prev cur cont)
  case (Cons p xs)
  obtain i t where p: "p = (i, t)" by force
  have small: "unat cur + 10 < 65536"
    using Cons.prems assms(1) by auto
  note add = unat_cur_add [OF small]
  let ?cur' = "if t \<noteq> 0 then cur + time_length + id_length else cur + id_length"
  have cur': "unat ?cur' = unat cur + entry_size p"
    using add by (simp add: p entry_size_def)
  show ?case
  proof (cases "unat lim \<le> unat cur + entry_size p")
    case True
    then have "\<exists>c. GetAck_loop lim (p # xs) av tv prev cur cont = (av, tv, c, cont, p # xs)"
      using add by (cases "t = 0"; cases "lim \<le> cur + time_length")
        (simp_all add: p entry_size_def Let_def word_le_nat_alt)
    then obtain c where "GetAck_loop lim (p # xs) av tv prev cur cont = (av, tv, c, cont, p # xs)"
      by blast
    then show ?thesis
      using True by (intro exI [of _ 0] exI [of _ c] exI [of _ cont]) (simp add: entries_size_def)
  next
    case False
    then have "GetAck_loop lim (p # xs) av tv prev cur cont =
        GetAck_loop lim xs (av @ [i]) (if t \<noteq> 0 then tv @ [t] else tv) i ?cur'
          (if prev \<noteq> 0 \<and> prev \<noteq> i - 1 then False else cont)"
      using add by (auto simp: p entry_size_def Let_def word_le_nat_alt split: if_splits)
    moreover have "unat ?cur' < unat lim"
      using False cur' by simp
    ultimately obtain k cur'' cont'' where k:
      "GetAck_loop lim (p # xs) av tv prev cur cont = ((av @ [i]) @ map fst (take k xs),
        (if t \<noteq> 0 then tv @ [t] else tv) @ filter (\<lambda>t. t \<noteq> 0) (map snd (take k xs)),
        cur'', cont'', drop k xs)" "k \<le> length xs"
      "k > 0 \<longrightarrow> unat ?cur' + entries_size (take k xs) < unat lim"
      "k < length xs \<longrightarrow> unat lim \<le> unat ?cur' + entries_size (take (Suc k) xs)"
      using Cons.IH [of ?cur' "av @ [i]" "if t \<noteq> 0 then tv @ [t] else tv" i] by metis
    then show ?thesis
      using False cur' unfolding cur'
      by (intro exI [of _ "Suc k"]) (auto simp: p entries_size_def)
  qed
qed (simp add: entries_size_def)

lemma GetAck_loop_progress:
  assumes "10 < unat lim" and "xs \<noteq> []"
  shows "snd (snd (snd (snd (GetAck_loop lim xs av tv prev 0 cont)))) \<noteq> xs"
proof -
  have shorter: "length (snd (snd (snd (snd (GetAck_loop lim ys av tv prev cur cont))))) \<le> length ys"
    for ys av tv prev cur cont
    by (induction lim ys av tv prev cur cont rule: GetAck_loop.induct) (auto simp: Let_def le_Suc_eq)
  obtain i t ys where xs: "xs = (i, t) # ys"
    using assms(2) by (metis list.exhaust surj_pair)
  have lim: "\<not> lim \<le> 8" "\<not> lim \<le> 10" "\<not> lim \<le> 2"
    using assms(1) by (simp_all add: word_le_nat_alt)
  have "length (snd (snd (snd (snd (GetAck_loop lim xs av tv prev 0 cont))))) < length xs"
    using lim shorter by (auto simp: xs Let_def time_length_def id_length_def less_Suc_eq_le)
  then show ?thesis by auto
qed

lemma GetAck_loop_continuity:
  "fst (snd (snd (snd (GetAck_loop lim xs av tv prev cur False)))) = False"
  by (induction lim xs av tv prev cur "False" rule: GetAck_loop.induct) (auto simp: Let_def)

text \<open>Acknowledgement numbers that follow each other without a gap (modulo \<open>2 ^ 16\<close>).\<close>

fun consecutive :: "u16 list \<Rightarrow> bool" where
  "consecutive (x # y # zs) \<longleftrightarrow> y = x + 1 \<and> consecutive (y # zs)"
| "consecutive _ \<longleftrightarrow> True"

lemma GetAllAck_loop_ids:
  "fst (GetAllAck_loop xs av tv prev cont) = av @ map fst xs \<and>
   fst (snd (GetAllAck_loop xs av tv prev cont)) = tv @ filter (\<lambda>t. t \<noteq> 0) (map snd xs)"
  by (induction xs av tv prev cont rule: GetAllAck_loop.induct) auto

lemma GetAllAck_loop_continuity:
  "prev \<noteq> 0 \<Longrightarrow> 0 \<notin> fst ` set xs \<Longrightarrow>
   snd (snd (GetAllAck_loop xs av tv prev cont)) \<longleftrightarrow> cont \<and> consecutive (prev # map fst xs)"
proof (induction xs av tv prev cont rule: GetAllAck_loop.induct)
  case (2 i t rest av tv prev cont)
  have "prev = i - 1 \<longleftrightarrow> i = prev + 1" by (auto simp: algebra_simps)
  then show ?case using 2 by auto
qed simp

lemma GetAllAck_loop_range:
  assumes "omap_ok xs"
  shows "snd (snd (GetAllAck_loop xs [] [] 0 True)) \<longleftrightarrow>
    consecutive (case map fst xs of [] \<Rightarrow> [] | i # ids \<Rightarrow> if i = 0 then ids else i # ids)"
proof (cases xs)
  case (Cons p ys)
  obtain i t where p: "p = (i, t)" by force
  have later: "0 \<notin> fst ` set ys"
    using assms Cons p by (auto simp: word_less_nat_alt)
  show ?thesis
  proof (cases "i = 0")
    case False
    then show ?thesis
      using GetAllAck_loop_continuity [OF False later] by (simp add: Cons p)
  next
    case True
    show ?thesis
    proof (cases ys)
      case (Cons q zs)
      obtain j u where q: "q = (j, u)" by force
      have "j \<noteq> 0" "0 \<notin> fst ` set zs" using later Cons q by auto
      then show ?thesis
        using True GetAllAck_loop_continuity [of j zs] by (simp add: \<open>xs = p # ys\<close> p Cons q)
    qed (simp add: Cons p True)
  qed
qed simp

section \<open>Properties\<close>


definition sample_pend :: pend_ack where
  "sample_pend = snd (AddAck_time 9 500 (snd (AddAck 3 (snd (AddAck 4 CPendAck)))))"

lemma sample_pend_eq: "sample_pend = \<lparr>pa_cur_size = 14, pa_map = [(3, 0), (4, 0), (9, 500)]\<rparr>"
  by (simp add: sample_pend_def AddAck_def AddAck_time_def CPendAck_def id_length_def
      time_length_def Let_def)

lemma sample_pend_inv: "pend_ack_inv sample_pend"
  by (simp add: sample_pend_def pend_ack_inv_steps)


text \<open>
  \<open>GetAllAck\<close> empties the map and hands out every pending number in order; it reports a range
  exactly when there are at least two numbers and they follow each other, except that the number 0,
  which it also uses for "no number yet", is not compared with its successor.
\<close>

theorem GetAllAck_range:
  assumes inv: "pend_ack_inv p" and pending: "pa_map p = (i, t) # rest"
  shows "GetAllAck [] [] continuity p =
    (True, i # map fst rest, filter (\<lambda>t. t \<noteq> 0) (t # map snd rest),
     rest \<noteq> [] \<and> consecutive (if i = 0 then map fst rest else i # map fst rest),
     p\<lparr>pa_map := [], pa_cur_size := 0\<rparr>)"
proof -
  obtain av tv c where loop: "GetAllAck_loop (pa_map p) [] [] 0 True = (av, tv, c)"
    using prod_cases3 by blast
  have "omap_ok (pa_map p)" using inv by (simp add: pend_ack_inv_def)
  from GetAllAck_loop_range [OF this]
  have c: "c \<longleftrightarrow> consecutive (if i = 0 then map fst rest else i # map fst rest)"
    by (simp only: loop snd_conv) (simp add: pending)
  have "av = i # map fst rest" "tv = filter (\<lambda>t. t \<noteq> 0) (t # map snd rest)"
    using GetAllAck_loop_ids [of "pa_map p" "[]" "[]" 0 True] unfolding loop
    by (simp_all add: pending)
  then show ?thesis
    using loop by (simp only: GetAllAck_def c [symmetric]) (auto simp: pending)
qed

theorem GetAllAck_range_witness:
  "GetAllAck [] [] True sample_pend = (True, [3, 4, 9], [500], False, \<lparr>pa_cur_size = 0, pa_map = []\<rparr>)"
  using GetAllAck_range [OF sample_pend_inv, of 3 0 "[(4, 0), (9, 500)]" True]
  by (simp add: sample_pend_eq)

text \<open>
  The exception matters: with the acknowledgements of 0 and 5 alone pending, \<open>GetAllAck\<close>
  reports a range; the wire format sends a range as its length and first number, which stands for
  0 and 1.
\<close>

theorem GetAllAck_false_range:
  "GetAllAck [] [] False (snd (AddAck 5 (snd (AddAck 0 CPendAck)))) =
     (True, [0, 5], [], True, \<lparr>pa_cur_size = 0, pa_map = []\<rparr>)"
  by (simp add: AddAck_def CPendAck_def GetAllAck_def Let_def)

text \<open>
  The size counter drifts: \<open>GetAck\<close> takes the size of the entry it stops at off the counter
  although the entry stays pending. Two acknowledgements fetched one at a time leave an empty map
  with a counter that wrapped around, and the next \<open>AddAck\<close> already asks for an immediate packet.
\<close>

theorem GetAck_counter_wraps:
  "let p = snd (AddAck_time 2 500 (snd (AddAck_time 1 500 CPendAck)));
       q = snd (snd (snd (snd (GetAck [] [] False 11 p))));
       q' = snd (snd (snd (snd (GetAck [] [] False 11 q)))) in
   pa_map q = [(2, 500)] \<and> pa_cur_size q = 2 \<and>
   pa_map q' = [] \<and> pa_cur_size q' = 0xFFFFFFF8 \<and> fst (AddAck 3 q')"
  by (simp add: AddAck_time_def AddAck_def CPendAck_def GetAck_def Let_def id_length_def
      time_length_def ack_length_limit_def config_defs)

end
