(* ===== verification/Incremental_Id.thy ===== *)
theory Incremental_Id
  imports Hudp_Config
begin

text \<open>
  \<^verbatim>\<open>common/IncrementalId.cpp\<close>: the 16-bit message numbers of a send window and their order
  across the wrap-around. The state is the one field \<open>_cur_id\<close>; the mutex has no counterpart,
  every operation being one atomic step.
\<close>

record incremental_id =
  cur_id :: u16

definition CIncrementalId :: "u16 \<Rightarrow> incremental_id" where
  "CIncrementalId id0 = \<lparr>cur_id = id0\<rparr>"

definition GetNextId :: "incremental_id \<Rightarrow> u16 \<times> incremental_id" where
  "GetNextId s = (let n = cur_id s + 1 in (n, s\<lparr>cur_id := n\<rparr>))"

definition IsNextId :: "u16 \<Rightarrow> u16 \<Rightarrow> bool" where
  "IsNextId prev nxt \<longleftrightarrow> prev + 1 = nxt"

definition IsBiggerThan :: "u16 \<Rightarrow> u16 \<Rightarrow> bool" where
  "IsBiggerThan prev nxt =
     (if prev \<le> max_compare_num \<and> nxt > max_id - 100 then True
      else if nxt \<le> max_compare_num \<and> prev > max_id - 100 then False
      else prev > nxt)"

definition IsSmallerThan :: "u16 \<Rightarrow> u16 \<Rightarrow> bool" where
  "IsSmallerThan prev nxt = IsBiggerThan nxt prev"

text \<open>A run of \<open>n\<close> calls of \<open>GetNextId\<close> and the numbers it hands out.\<close>

fun next_ids :: "nat \<Rightarrow> incremental_id \<Rightarrow> u16 list" where
  "next_ids 0 s = []"
| "next_ids (Suc n) s = fst (GetNextId s) # next_ids n (snd (GetNextId s))"

lemma next_ids_nth: "k < n \<Longrightarrow> next_ids n s ! k = cur_id s + of_nat (Suc k)"
proof (induction n arbitrary: s k)
  case (Suc n)
  then show ?case
    by (cases k) (simp_all add: GetNextId_def Let_def add.assoc)
qed simp

lemma length_next_ids [simp]: "length (next_ids n s) = n"
  by (induction n arbitrary: s) (simp_all add: GetNextId_def)

lemma IsBiggerThan_nat:
  "IsBiggerThan a b \<longleftrightarrow>
     (if unat a \<le> 100 \<and> 65435 < unat b then True
      else if unat b \<le> 100 \<and> 65435 < unat a then False
      else unat b < unat a)"
  by (simp add: IsBiggerThan_def config_defs word_le_nat_alt word_less_nat_alt)

text \<open>
  Message numbers do not repeat before the counter has gone round: any 65536 consecutive
  results of \<open>GetNextId\<close> are pairwise different, and each is the successor of the one before it
  in the sense of \<open>IsNextId\<close>.
\<close>

theorem GetNextId_distinct:
  assumes "n \<le> 65536"
  shows "distinct (next_ids n s) \<and>
    (\<forall>k < n - 1. IsNextId (next_ids n s ! k) (next_ids n s ! Suc k))"
proof -
  have inj: "k = l" if "k < n" "l < n" "(of_nat k :: u16) = of_nat l" for k l
    using that assms by (metis less_le_trans unat_of_nat_u16)
  have "distinct (next_ids n s)"
    unfolding distinct_conv_nth by (auto simp: next_ids_nth dest: inj)
  then show ?thesis
    using assms by (auto simp: IsNextId_def next_ids_nth add.commute add.left_commute)
qed

theorem GetNextId_distinct_witness:
  "distinct (next_ids 3 (CIncrementalId 65534)) \<and> next_ids 3 (CIncrementalId 65534) = [65535, 0, 1]"
proof -
  have "distinct (next_ids 3 (CIncrementalId 65534))"
    using GetNextId_distinct [of 3 "CIncrementalId 65534"] by simp
  moreover have "next_ids 3 (CIncrementalId 65534) = [65535, 0, 1]"
    by code_simp
  ultimately show ?thesis by simp
qed

text \<open>
  The order on message numbers is right across the wrap-around for every pair that the
  protocol may compare: a number that is 1 to 100 steps ahead (modulo \<open>2 ^ 16\<close>) is bigger and
  not smaller, whatever the starting point.
\<close>

theorem IsBiggerThan_ahead:
  assumes "1 \<le> k" and "k \<le> 100"
  shows "IsBiggerThan (a + of_nat k) a \<and> IsSmallerThan a (a + of_nat k) \<and>
    \<not> IsBiggerThan a (a + of_nat k)"
proof -
  define x where "x = unat a"
  define y where "y = unat (a + of_nat k)"
  have "x < 65536" by (simp add: x_def)
  have "y = (x + k) mod 65536"
    using assms by (simp add: x_def y_def unat_word_ariths unat_of_nat_u16)
  then have y: "y = (if x + k < 65536 then x + k else x + k - 65536)"
    using \<open>x < 65536\<close> assms by (simp add: mod_if)
  show ?thesis
    unfolding IsSmallerThan_def IsBiggerThan_nat x_def [symmetric] y_def [symmetric]
    using y \<open>x < 65536\<close> assms by (simp split: if_splits)
qed

theorem IsBiggerThan_ahead_witness:
  "IsBiggerThan (65530 + of_nat 10) 65530 \<and> (65530 + of_nat 10 :: u16) = 4"
  using IsBiggerThan_ahead [of 10 65530] by simp

text \<open>
  The comparison is a tournament on all of the 65536 numbers: no number is bigger than
  itself, and of two different numbers exactly one is bigger.
\<close>

theorem IsBiggerThan_total:
  "\<not> IsBiggerThan a a \<and> (a \<noteq> b \<longleftrightarrow> (IsBiggerThan a b \<noteq> IsBiggerThan b a))"
proof -
  have "a \<noteq> b \<longleftrightarrow> unat a \<noteq> unat b" by (simp add: word_unat_eq_iff)
  then show ?thesis by (auto simp: IsBiggerThan_nat)
qed

end
