(* ===== verification/Priority_Queue.thy ===== *)
theory Priority_Queue
  imports Msg_Impl
begin

text \<open>
  \<^verbatim>\<open>common/PriorityQueue.cpp\<close>: four FIFO queues of message references and three countdown
  counters (\<open>int8_t\<close>). A class may overtake the one below it at most \<open>__pri_surplus\<close> times in a row.
\<close>

section \<open>State and operations\<close>

record priority_queue =
  pq_highest :: "msg_ref list"
  pq_high :: "msg_ref list"
  pq_normal :: "msg_ref list"
  pq_low :: "msg_ref list"
  pri_normal_count :: "8 word"
  pri_high_count :: "8 word"
  pri_highest_count :: "8 word"

definition CPriorityQueueImpl :: priority_queue where
  "CPriorityQueueImpl = \<lparr>pq_highest = [], pq_high = [], pq_normal = [], pq_low = [],
     pri_normal_count = pri_surplus, pri_high_count = pri_surplus, pri_highest_count = pri_surplus\<rparr>"

definition pq_PushBack :: "store \<Rightarrow> msg_ref \<Rightarrow> priority_queue \<Rightarrow> priority_queue" where
  "pq_PushBack \<sigma> msg q =
     (let flag = (ucast (ucast (msg_GetFlag (\<sigma> msg)) :: u16) :: u32) in
      if has_flag flag HPF_LOW_PRI then q\<lparr>pq_low := pq_low q @ [msg]\<rparr>
      else if has_flag flag HPF_NROMAL_PRI then q\<lparr>pq_normal := pq_normal q @ [msg]\<rparr>
      else if has_flag flag HPF_HIGH_PRI then q\<lparr>pq_high := pq_high q @ [msg]\<rparr>
      else if has_flag flag HPF_HIGHEST_PRI then q\<lparr>pq_highest := pq_highest q @ [msg]\<rparr>
      else q)"

text \<open>The three guarded attempts, which occur twice in \<open>Pop\<close>. Counters are compared as signed.\<close>

definition pop_upper :: "priority_queue \<Rightarrow> (msg_ref \<times> priority_queue) option" where
  "pop_upper q =
     (if 0 <s pri_highest_count q \<and> pq_highest q \<noteq> [] then
        Some (hd (pq_highest q),
          q\<lparr>pq_highest := tl (pq_highest q), pri_highest_count := pri_highest_count q - 1\<rparr>)
      else if 0 <s pri_high_count q \<and> pq_high q \<noteq> [] then
        Some (hd (pq_high q),
          q\<lparr>pq_high := tl (pq_high q), pri_highest_count := pri_surplus,
            pri_high_count := pri_high_count q - 1\<rparr>)
      else if 0 <s pri_normal_count q \<and> pq_normal q \<noteq> [] then
        Some (hd (pq_normal q),
          q\<lparr>pq_normal := tl (pq_normal q), pri_high_count := pri_surplus,
            pri_highest_count := pri_surplus, pri_normal_count := pri_normal_count q - 1\<rparr>)
      else None)"

definition pq_Pop :: "priority_queue \<Rightarrow> msg_ref option \<times> priority_queue" where
  "pq_Pop q =
     (case pop_upper q of
        Some (msg, q') \<Rightarrow> (Some msg, q')
      | None \<Rightarrow>
          (let q1 = q\<lparr>pri_normal_count := pri_surplus, pri_high_count := pri_surplus,
                      pri_highest_count := pri_surplus\<rparr> in
           if pq_low q1 \<noteq> [] then (Some (hd (pq_low q1)), q1\<lparr>pq_low := tl (pq_low q1)\<rparr>)
           else case pop_upper q1 of
                  Some (msg, q') \<Rightarrow> (Some msg, q')
                | None \<Rightarrow> (None, q1)))"

definition pq_Size :: "priority_queue \<Rightarrow> u64" where
  "pq_Size q = of_nat (length (pq_highest q)) + of_nat (length (pq_high q)) +
     of_nat (length (pq_normal q)) + of_nat (length (pq_low q))"

definition pq_Clear :: "priority_queue \<Rightarrow> priority_queue" where
  "pq_Clear q = q\<lparr>pq_highest := [], pq_high := [], pq_normal := [], pq_low := []\<rparr>"

section \<open>Contents, conservation and progress\<close>

datatype pri_class = Highest | High | Normal | Low

fun pq_class :: "pri_class \<Rightarrow> priority_queue \<Rightarrow> msg_ref list" where
  "pq_class Highest q = pq_highest q"
| "pq_class High q = pq_high q"
| "pq_class Normal q = pq_normal q"
| "pq_class Low q = pq_low q"

definition pq_content :: "priority_queue \<Rightarrow> msg_ref list" where
  "pq_content q = pq_highest q @ pq_high q @ pq_normal q @ pq_low q"

instantiation priority_queue_ext :: (type) size
begin

definition size_priority_queue_ext :: "('a priority_queue_ext) \<Rightarrow> nat" where
  "size_priority_queue_ext q = length (pq_highest q) + length (pq_high q) + length (pq_normal q) +
     length (pq_low q)"

instance ..

end

definition class_of_flag :: "u32 \<Rightarrow> pri_class option" where
  "class_of_flag flag =
     (if bit flag 4 then Some Low else if bit flag 5 then Some Normal
      else if bit flag 6 then Some High else if bit flag 7 then Some Highest else None)"

definition msg_class :: "store \<Rightarrow> msg_ref \<Rightarrow> pri_class option" where
  "msg_class \<sigma> msg = class_of_flag (msg_GetFlag (\<sigma> msg))"

definition pri_inv :: "priority_queue \<Rightarrow> bool" where
  "pri_inv q \<longleftrightarrow> pri_normal_count q \<in> {0, 1, 2} \<and> pri_high_count q \<in> {0, 1, 2} \<and>
     pri_highest_count q \<in> {0, 1, 2}"

text \<open>How many messages may still overtake the low class.\<close>

definition overtakes :: "priority_queue \<Rightarrow> nat" where
  "overtakes q = 9 * unat (pri_normal_count q) + 3 * unat (pri_high_count q) +
     unat (pri_highest_count q)"

lemma PushBack_class:
  "pq_class c (pq_PushBack \<sigma> msg q) = pq_class c q @ (if msg_class \<sigma> msg = Some c then [msg] else [])"
proof -
  have "has_flag (ucast (ucast f :: u16) :: u32) (2 ^ n) \<longleftrightarrow> bit f n" if "n < 16" for f :: u32 and n
    using that by (simp add: has_flag_exp bit_simps)
  from this [of 4] this [of 5] this [of 6] this [of 7] show ?thesis
    by (cases c) (simp_all add: pq_PushBack_def msg_class_def class_of_flag_def head_flag_defs Let_def)
qed

lemma PushBack_counts [simp]:
  "pri_normal_count (pq_PushBack \<sigma> msg q) = pri_normal_count q"
  "pri_high_count (pq_PushBack \<sigma> msg q) = pri_high_count q"
  "pri_highest_count (pq_PushBack \<sigma> msg q) = pri_highest_count q"
  by (simp_all add: pq_PushBack_def Let_def)

lemma pri_inv_steps:
  "pri_inv CPriorityQueueImpl"
  "pri_inv q \<Longrightarrow> pri_inv (pq_PushBack \<sigma> msg q)"
  "pri_inv q \<Longrightarrow> pri_inv (pq_Clear q)"
  by (simp_all add: pri_inv_def CPriorityQueueImpl_def pri_surplus_def pq_Clear_def)

text \<open>One \<open>Pop\<close>: the served class \<open>c\<close> loses its first message and nothing else changes.\<close>

definition serves :: "pri_class \<Rightarrow> msg_ref \<Rightarrow> priority_queue \<Rightarrow> priority_queue \<Rightarrow> bool" where
  "serves c msg q q' \<longleftrightarrow> pq_class c q = msg # pq_class c q' \<and>
     (\<forall>d. d \<noteq> c \<longrightarrow> pq_class d q' = pq_class d q)"

lemma all_pri_class: "(\<forall>c. P c) \<longleftrightarrow> P Highest \<and> P High \<and> P Normal \<and> P Low"
  by (metis pri_class.exhaust)

lemma pop_upper_serves:
  assumes "pop_upper q = Some (msg, q')" and "pri_inv q"
  shows "\<exists>c. c \<noteq> Low \<and> serves c msg q q' \<and> pri_inv q' \<and> overtakes q' < overtakes q"
proof -
  consider (highest) "0 <s pri_highest_count q \<and> pq_highest q \<noteq> []"
    | (high) "\<not> (0 <s pri_highest_count q \<and> pq_highest q \<noteq> [])" "0 <s pri_high_count q \<and> pq_high q \<noteq> []"
    | (normal) "\<not> (0 <s pri_highest_count q \<and> pq_highest q \<noteq> [])"
        "\<not> (0 <s pri_high_count q \<and> pq_high q \<noteq> [])" "0 <s pri_normal_count q \<and> pq_normal q \<noteq> []"
    using assms(1) by (auto simp: pop_upper_def split: if_splits)
  then show ?thesis
  proof cases
    case highest
    then have "serves Highest msg q q'"
      using assms(1) by (auto simp: pop_upper_def serves_def all_pri_class)
    then show ?thesis
      using highest assms by (intro exI [of _ Highest])
        (auto simp: pop_upper_def pri_inv_def overtakes_def)
  next
    case high
    then have "serves High msg q q'"
      using assms(1) by (auto simp: pop_upper_def serves_def all_pri_class)
    then show ?thesis
      using high assms by (intro exI [of _ High])
        (auto simp: pop_upper_def pri_inv_def overtakes_def pri_surplus_def)
  next
    case normal
    then have "serves Normal msg q q'"
      using assms(1) by (auto simp: pop_upper_def serves_def all_pri_class)
    then show ?thesis
      using normal assms by (intro exI [of _ Normal])
        (auto simp: pop_upper_def pri_inv_def overtakes_def pri_surplus_def)
  qed
qed

definition reset_counts :: "priority_queue \<Rightarrow> priority_queue" where
  "reset_counts q = q\<lparr>pri_normal_count := pri_surplus, pri_high_count := pri_surplus,
     pri_highest_count := pri_surplus\<rparr>"

lemma reset_counts_class [simp]: "pq_class c (reset_counts q) = pq_class c q"
  by (cases c) (simp_all add: reset_counts_def)

lemma reset_counts_inv: "pri_inv (reset_counts q)" "overtakes (reset_counts q) = 26"
  by (simp_all add: reset_counts_def pri_inv_def overtakes_def pri_surplus_def)

lemma serves_reset: "serves c msg (reset_counts q) q' \<longleftrightarrow> serves c msg q q'"
  by (simp add: serves_def)

lemma pop_upper_reset_None:
  "pop_upper (reset_counts q) = None \<longleftrightarrow> pq_highest q = [] \<and> pq_high q = [] \<and> pq_normal q = []"
  by (auto simp: pop_upper_def reset_counts_def pri_surplus_def word_sless_alt)

lemma pq_Pop_alt:
  "pq_Pop q =
     (case pop_upper q of
        Some (msg, q') \<Rightarrow> (Some msg, q')
      | None \<Rightarrow>
          if pq_low q \<noteq> []
          then (Some (hd (pq_low q)), (reset_counts q)\<lparr>pq_low := tl (pq_low q)\<rparr>)
          else case pop_upper (reset_counts q) of
                 Some (msg, q') \<Rightarrow> (Some msg, q')
               | None \<Rightarrow> (None, reset_counts q))"
  by (simp add: pq_Pop_def reset_counts_def Let_def split: option.split)

lemma pq_Pop_serves:
  assumes "pri_inv q"
  shows "(\<exists>c msg q'. pq_Pop q = (Some msg, q') \<and> serves c msg q q' \<and> pri_inv q' \<and>
      (if c = Low then overtakes q' = 26 else pq_low q \<noteq> [] \<longrightarrow> overtakes q' < overtakes q)) \<or>
    (pq_Pop q = (None, reset_counts q) \<and> (\<forall>c. pq_class c q = []))"
proof (cases "pop_upper q")
  case (Some r)
  then obtain msg q' where "pop_upper q = Some (msg, q')" by (cases r) auto
  then show ?thesis
    using pop_upper_serves [OF _ assms] by (auto simp: pq_Pop_alt)
next
  case None
  note none = None
  show ?thesis
  proof (cases "pq_low q = []")
    case False
    let ?q' = "(reset_counts q)\<lparr>pq_low := tl (pq_low q)\<rparr>"
    have "serves Low (hd (pq_low q)) q ?q'" "pri_inv ?q'" "overtakes ?q' = 26"
      using False by (simp_all add: serves_def all_pri_class pri_inv_def overtakes_def reset_counts_def
          pri_surplus_def)
    then show ?thesis
      using False none by (auto simp: pq_Pop_alt)
  next
    case True
    show ?thesis
    proof (cases "pop_upper (reset_counts q)")
      case None
      then have "pq_Pop q = (None, reset_counts q)"
        using True none by (simp add: pq_Pop_alt)
      moreover have "\<forall>c. pq_class c q = []"
        using None True by (simp add: pop_upper_reset_None all_pri_class)
      ultimately show ?thesis by simp
    next
      case (Some r)
      then obtain msg q' where pop: "pop_upper (reset_counts q) = Some (msg, q')" by (cases r) auto
      obtain c where "c \<noteq> Low" "serves c msg q q'" "pri_inv q'"
        using pop_upper_serves [OF pop reset_counts_inv(1)] by (auto simp: serves_reset)
      moreover have "pq_Pop q = (Some msg, q')"
        using True none pop by (simp add: pq_Pop_alt)
      ultimately show ?thesis using True by (intro disjI1 exI [of _ c]) simp
    qed
  qed
qed

lemma serves_content: "serves c msg q q' \<Longrightarrow> mset (pq_content q) = add_mset msg (mset (pq_content q'))"
  by (cases c) (simp_all add: serves_def all_pri_class pq_content_def)

lemma size_pq_content: "size q = length (pq_content q)"
  by (simp add: size_priority_queue_ext_def pq_content_def)

lemma PushBack_content:
  "mset (pq_content (pq_PushBack \<sigma> msg q)) =
     mset (pq_content q) + (if msg_class \<sigma> msg = None then {#} else {#msg#})"
  using PushBack_class [of Highest \<sigma> msg q] PushBack_class [of High \<sigma> msg q]
    PushBack_class [of Normal \<sigma> msg q] PushBack_class [of Low \<sigma> msg q]
  by (cases "msg_class \<sigma> msg" rule: option.exhaust; cases "the (msg_class \<sigma> msg)")
    (simp_all add: pq_content_def)

text \<open>
  What a client of the queue relies on: the contents as a multiset, an empty \<open>Pop\<close> only from an
  empty queue. \<open>CSendWndImpl\<close> is such a client.
\<close>

locale message_queue =
  fixes push :: "store \<Rightarrow> msg_ref \<Rightarrow> 'q \<Rightarrow> 'q"
    and pop :: "'q \<Rightarrow> msg_ref option \<times> 'q"
    and content :: "'q \<Rightarrow> msg_ref multiset"
    and invar :: "'q \<Rightarrow> bool"
  assumes pop_Some: "invar q \<Longrightarrow> pop q = (Some msg, q') \<Longrightarrow>
      content q = add_mset msg (content q') \<and> invar q'"
    and pop_None: "invar q \<Longrightarrow> pop q = (None, q') \<Longrightarrow> content q = {#} \<and> content q' = {#} \<and> invar q'"
    and push_content: "invar q \<Longrightarrow> invar (push \<sigma> msg q) \<and>
      (content (push \<sigma> msg q) = content q \<or> content (push \<sigma> msg q) = add_mset msg (content q))"
begin

lemma pop_size: "invar q \<Longrightarrow> pop q = (Some msg, q') \<Longrightarrow> size (content q) = Suc (size (content q'))"
  using pop_Some by fastforce

lemma pop_member: "invar q \<Longrightarrow> pop q = (Some msg, q') \<Longrightarrow> msg \<in># content q"
  using pop_Some by fastforce

lemma pop_subset: "invar q \<Longrightarrow> pop q = (r, q') \<Longrightarrow> content q' \<subseteq># content q"
  using pop_Some [of q] pop_None [of q q'] by (cases r) simp_all

lemma pop_invar: "invar q \<Longrightarrow> pop q = (r, q') \<Longrightarrow> invar q'"
  using pop_Some pop_None by (cases r) blast+

lemma pop_empty_iff:
  assumes "invar q" shows "fst (pop q) = None \<longleftrightarrow> content q = {#}"
proof (cases "pop q")
  case (Pair r q')
  then show ?thesis
    using assms pop_Some [of q _ q'] pop_None [of q q'] by (cases r) simp_all
qed

end

interpretation pri: message_queue pq_PushBack pq_Pop "\<lambda>q. mset (pq_content q)" pri_inv
proof unfold_locales
  fix q msg q'
  assume "pri_inv q" "pq_Pop q = (Some msg, q')"
  then show "mset (pq_content q) = add_mset msg (mset (pq_content q')) \<and> pri_inv q'"
    using pq_Pop_serves [of q] serves_content by auto
next
  fix q q'
  assume "pri_inv q" "pq_Pop q = (None, q')"
  then have "q' = reset_counts q" "\<forall>c. pq_class c q = []"
    using pq_Pop_serves [of q] by auto
  then show "mset (pq_content q) = {#} \<and> mset (pq_content q') = {#} \<and> pri_inv q'"
    using reset_counts_inv by (auto simp: pq_content_def all_pri_class reset_counts_def)
next
  fix q \<sigma> msg
  assume "pri_inv q"
  then show "pri_inv (pq_PushBack \<sigma> msg q) \<and>
      (mset (pq_content (pq_PushBack \<sigma> msg q)) = mset (pq_content q) \<or>
       mset (pq_content (pq_PushBack \<sigma> msg q)) = add_mset msg (mset (pq_content q)))"
    using PushBack_content [of \<sigma> msg q] pri_inv_steps by auto
qed

section \<open>Sequences of pushes and pops\<close>

datatype pq_op = Push msg_ref | PopOp

fun pq_run :: "store \<Rightarrow> pq_op list \<Rightarrow> priority_queue \<Rightarrow> msg_ref list \<times> priority_queue" where
  "pq_run \<sigma> [] q = ([], q)"
| "pq_run \<sigma> (Push msg # ops) q = pq_run \<sigma> ops (pq_PushBack \<sigma> msg q)"
| "pq_run \<sigma> (PopOp # ops) q =
     (let (r, q1) = pq_Pop q; (out, q2) = pq_run \<sigma> ops q1 in
      (case r of None \<Rightarrow> out | Some msg \<Rightarrow> msg # out, q2))"

fun pushed :: "pq_op list \<Rightarrow> msg_ref list" where
  "pushed [] = []"
| "pushed (Push msg # ops) = msg # pushed ops"
| "pushed (PopOp # ops) = pushed ops"

definition pops :: "pq_op list \<Rightarrow> nat" where
  "pops ops = length (filter (\<lambda>op. op = PopOp) ops)"

text \<open>Every queued message is in the queue of its class.\<close>

definition classified :: "store \<Rightarrow> priority_queue \<Rightarrow> bool" where
  "classified \<sigma> q \<longleftrightarrow> (\<forall>c. \<forall>msg \<in> set (pq_class c q). msg_class \<sigma> msg = Some c)"

lemma classified_serves: "classified \<sigma> q \<Longrightarrow> serves c msg q q' \<Longrightarrow> classified \<sigma> q' \<and> msg_class \<sigma> msg = Some c"
  unfolding classified_def serves_def
  by (intro conjI allI ballI) (metis list.set_intros(1) list.set_intros(2))+

lemma classified_PushBack: "classified \<sigma> q \<Longrightarrow> classified \<sigma> (pq_PushBack \<sigma> msg q)"
  by (auto simp: classified_def PushBack_class)

lemma pq_run_fifo:
  assumes "pri_inv q" and "classified \<sigma> q"
  shows "filter (\<lambda>m. msg_class \<sigma> m = Some c) (fst (pq_run \<sigma> ops q)) @ pq_class c (snd (pq_run \<sigma> ops q)) =
    pq_class c q @ filter (\<lambda>m. msg_class \<sigma> m = Some c) (pushed ops)"
  using assms
proof (induction \<sigma> ops q rule: pq_run.induct)
  case (2 \<sigma> msg ops q)
  then show ?case
    by (simp add: pri_inv_steps classified_PushBack PushBack_class)
next
  case (3 \<sigma> ops q)
  obtain r q1 where pop: "pq_Pop q = (r, q1)" by force
  obtain out q2 where run: "pq_run \<sigma> ops q1 = (out, q2)" by force
  note IH = "3.IH" [OF pop [symmetric], simplified run]
  show ?case
  proof (cases r)
    case None
    then have "pri_inv q1" "\<forall>d. pq_class d q1 = pq_class d q" "\<forall>d. pq_class d q = []"
      using pq_Pop_serves [OF "3.prems"(1)] pop reset_counts_inv(1) by auto
    then show ?thesis
      using "3.IH" [OF pop [symmetric]] run pop None by (simp add: classified_def)
  next
    case (Some msg)
    then obtain d where d: "serves d msg q q1" "pri_inv q1"
      using pq_Pop_serves [OF "3.prems"(1)] pop by auto
    then have "classified \<sigma> q1" "msg_class \<sigma> msg = Some d"
      using classified_serves "3.prems"(2) by blast+
    then show ?thesis
      using "3.IH" [OF pop [symmetric]] run pop Some d
      by (cases "c = d") (auto simp: serves_def)
  qed
qed simp

text \<open>Nothing but messages with a class ever leaves the queue.\<close>

lemma pq_run_classed:
  assumes "pri_inv q" and "classified \<sigma> q"
  shows "filter (\<lambda>m. msg_class \<sigma> m = None) (fst (pq_run \<sigma> ops q)) = []"
  using assms
proof (induction \<sigma> ops q rule: pq_run.induct)
  case (2 \<sigma> msg ops q)
  then show ?case by (simp add: pri_inv_steps classified_PushBack)
next
  case (3 \<sigma> ops q)
  obtain r q1 where pop: "pq_Pop q = (r, q1)" by force
  obtain out q2 where run: "pq_run \<sigma> ops q1 = (out, q2)" by force
  show ?case
  proof (cases r)
    case None
    then have "pri_inv q1" "classified \<sigma> q1"
      using pq_Pop_serves [OF "3.prems"(1)] pop reset_counts_inv(1) by (auto simp: classified_def)
    then show ?thesis using "3.IH" [OF pop [symmetric]] run pop None by simp
  next
    case (Some msg)
    then obtain d where d: "serves d msg q q1" "pri_inv q1"
      using pq_Pop_serves [OF "3.prems"(1)] pop by auto
    then have "classified \<sigma> q1" "msg_class \<sigma> msg = Some d"
      using classified_serves "3.prems"(2) by blast+
    then show ?thesis using "3.IH" [OF pop [symmetric]] run pop Some d by simp
  qed
qed simp

text \<open>
  How many messages of other classes may still be served before the next one of a class, and a bound
  for it: a class is served within so many calls of \<open>Pop\<close>.
\<close>

fun waits :: "pri_class \<Rightarrow> priority_queue \<Rightarrow> nat" where
  "waits Highest q = (if pri_highest_count q = 0 then 1 else 0)"
| "waits High q = unat (pri_highest_count q) + (if pri_high_count q = 0 then 3 else 0)"
| "waits Normal q = 3 * unat (pri_high_count q) + unat (pri_highest_count q) + (if pri_normal_count q = 0 then 9 else 0)"
| "waits Low q = overtakes q"

fun turns :: "pri_class \<Rightarrow> nat" where
  "turns Highest = 2"
| "turns High = 6"
| "turns Normal = 18"
| "turns Low = 27"

lemma waits_turns: "pri_inv q \<Longrightarrow> waits c q < turns c"
  by (cases c) (auto simp: pri_inv_def overtakes_def)

lemma count_pos: "x \<in> {0, 1, 2} \<Longrightarrow> 0 <s (x :: 8 word) \<longleftrightarrow> x \<noteq> 0"
  by (auto simp: word_sless_alt)

lemma count_minus: "x \<in> {0, 1, 2} \<Longrightarrow> x \<noteq> 0 \<Longrightarrow> unat (x - 1 :: 8 word) < unat x"
  by auto

lemma counts_pos:
  assumes "pri_inv q"
  shows "0 <s pri_highest_count q \<longleftrightarrow> pri_highest_count q \<noteq> 0" "0 <s pri_high_count q \<longleftrightarrow> pri_high_count q \<noteq> 0"
    "0 <s pri_normal_count q \<longleftrightarrow> pri_normal_count q \<noteq> 0"
  by (rule count_pos, use assms in \<open>simp add: pri_inv_def\<close>)+

lemma tl_self: "tl xs = xs \<Longrightarrow> xs = []"
  by (cases xs) auto

text \<open>What \<open>pop_upper\<close> does to a class it serves, and to the counters.\<close>

lemma pop_upper_cases:
  assumes "pri_inv q" "pop_upper q = Some (msg, q')"
  obtains (highest) "pri_highest_count q \<noteq> 0" "pq_highest q \<noteq> []"
      "q' = q\<lparr>pq_highest := tl (pq_highest q), pri_highest_count := pri_highest_count q - 1\<rparr>"
    | (high) "pri_highest_count q = 0 \<or> pq_highest q = []" "pri_high_count q \<noteq> 0" "pq_high q \<noteq> []"
      "q' = q\<lparr>pq_high := tl (pq_high q), pri_highest_count := pri_surplus, pri_high_count := pri_high_count q - 1\<rparr>"
    | (normal) "pri_highest_count q = 0 \<or> pq_highest q = []" "pri_high_count q = 0 \<or> pq_high q = []"
      "pri_normal_count q \<noteq> 0" "pq_normal q \<noteq> []"
      "q' = q\<lparr>pq_normal := tl (pq_normal q), pri_high_count := pri_surplus, pri_highest_count := pri_surplus,
        pri_normal_count := pri_normal_count q - 1\<rparr>"
  using assms(2) that unfolding pop_upper_def counts_pos [OF assms(1)] by (auto split: if_splits)

lemma pop_upper_waits:
  assumes inv: "pri_inv q" and pop: "pop_upper q = Some (msg, q')" and c: "c \<noteq> Low" "pq_class c q \<noteq> []"
    and same: "pq_class c q' = pq_class c q"
  shows "waits c q' < waits c q"
  using inv pop
proof (cases rule: pop_upper_cases)
  case highest
  have "unat (pri_highest_count q - 1) < unat (pri_highest_count q)"
    using inv highest(1) unfolding pri_inv_def by (blast intro: count_minus)
  then show ?thesis using highest c same by (cases c) (auto dest: tl_self)
next
  case high
  have "unat (pri_high_count q - 1) < unat (pri_high_count q)"
    using inv high(2) unfolding pri_inv_def by (blast intro: count_minus)
  moreover have "pri_highest_count q = 0" if "c = Highest" using high(1) c that by auto
  ultimately show ?thesis
    using high(2,3,4) c same by (cases c) (auto simp: pri_surplus_def dest: tl_self)
next
  case normal
  have "pri_highest_count q = 0" if "c = Highest" using normal(1) c that by auto
  moreover have "pri_high_count q = 0" if "c = High" using normal(2) c that by auto
  ultimately show ?thesis
    using normal(4,5) c same by (cases c) (auto simp: pri_surplus_def dest: tl_self)
qed

lemma reset_waits:
  assumes inv: "pri_inv q" and pop: "pop_upper q = None" and c: "pq_class c q \<noteq> []" "c \<noteq> Low"
  shows "waits c (reset_counts q) < waits c q"
  using pop c unfolding pop_upper_def counts_pos [OF inv]
  by (cases c) (simp_all add: reset_counts_def pri_surplus_def split: if_splits)

lemma pop_waits:
  assumes inv: "pri_inv q" and ne: "pq_class c q \<noteq> []"
  shows "\<exists>d msg q'. pq_Pop q = (Some msg, q') \<and> serves d msg q q' \<and> pri_inv q' \<and> (d \<noteq> c \<longrightarrow> waits c q' < waits c q)"
proof -
  obtain d msg q' where pop: "pq_Pop q = (Some msg, q')" "serves d msg q q'" "pri_inv q'"
      "if d = Low then overtakes q' = 26 else pq_low q \<noteq> [] \<longrightarrow> overtakes q' < overtakes q"
    using pq_Pop_serves [OF inv] ne by blast
  have "waits c q' < waits c q" if dc: "d \<noteq> c"
  proof (cases "c = Low")
    case True
    then show ?thesis using pop(4) dc ne by simp
  next
    case c: False
    have same: "pq_class c q' = pq_class c q" using pop(2) dc by (simp add: serves_def)
    show ?thesis
    proof (cases "pop_upper q")
      case (Some r)
      then have "pop_upper q = Some (msg, q')" using pop(1) by (auto simp: pq_Pop_alt split: prod.splits)
      then show ?thesis using pop_upper_waits [OF inv _ c ne same] by blast
    next
      case None
      have r: "waits c (reset_counts q) < waits c q" by (rule reset_waits [OF inv None ne c])
      show ?thesis
      proof (cases "pq_low q = []")
        case False
        then have "q' = (reset_counts q)\<lparr>pq_low := tl (pq_low q)\<rparr>" using pop(1) None by (simp add: pq_Pop_alt)
        then have "waits c q' = waits c (reset_counts q)" using c by (cases c) simp_all
        then show ?thesis using r by simp
      next
        case True
        then have "pop_upper (reset_counts q) = Some (msg, q')"
          using pop(1) None by (simp add: pq_Pop_alt split: option.splits prod.splits)
        then have "waits c q' < waits c (reset_counts q)"
          using pop_upper_waits [OF reset_counts_inv(1) _ c, of q msg q'] same ne by simp
        then show ?thesis using r by simp
      qed
    qed
  qed
  then show ?thesis using pop by blast
qed

lemma pq_run_waits:
  assumes "pri_inv q" and "k < length (pq_class c q)" and "waits c q + turns c * k < pops ops"
  shows "pq_class c q ! k \<in> set (fst (pq_run \<sigma> ops q))"
  using assms
proof (induction \<sigma> ops q arbitrary: k rule: pq_run.induct)
  case (2 \<sigma> msg ops q)
  have "\<exists>ms. pq_class c (pq_PushBack \<sigma> msg q) = pq_class c q @ ms"
    using PushBack_class [of c \<sigma> msg q] by auto
  then have "pq_class c (pq_PushBack \<sigma> msg q) ! k = pq_class c q ! k" "k < length (pq_class c (pq_PushBack \<sigma> msg q))"
    using "2.prems"(2) by (auto simp: nth_append)
  moreover have "waits c (pq_PushBack \<sigma> msg q) = waits c q"
    by (cases c) (simp_all add: overtakes_def)
  ultimately show ?case
    using "2.IH" [of k] "2.prems" by (simp add: pri_inv_steps pops_def)
next
  case (3 \<sigma> ops q)
  obtain d msg q1 where d: "pq_Pop q = (Some msg, q1)" "serves d msg q q1" "pri_inv q1"
      "d \<noteq> c \<longrightarrow> waits c q1 < waits c q"
    using pop_waits [OF "3.prems"(1), of c] "3.prems"(2) by fastforce
  have out: "set (fst (pq_run \<sigma> (PopOp # ops) q)) = insert msg (set (fst (pq_run \<sigma> ops q1)))"
    using d(1) by (simp split: prod.split)
  have pops: "waits c q + turns c * k \<le> pops ops"
    using "3.prems"(3) by (simp add: pops_def)
  show ?case
  proof (cases "d = c")
    case False
    then have "pq_class c q1 = pq_class c q" using d(2) by (simp add: serves_def)
    then show ?thesis
      using "3.IH" [OF d(1) [symmetric] refl d(3), of k] "3.prems"(2) d(4) pops False out by auto
  next
    case True
    then have c: "pq_class c q = msg # pq_class c q1" using d(2) by (simp add: serves_def)
    show ?thesis
    proof (cases k)
      case 0
      then show ?thesis using c out by simp
    next
      case (Suc j)
      then have "waits c q1 + turns c * j < pops ops" using waits_turns [OF d(3), of c] pops by simp
      then show ?thesis
        using "3.IH" [OF d(1) [symmetric] refl d(3), of j] "3.prems"(2) Suc out c by auto
    qed
  qed
qed (simp add: pops_def)

lemma pq_run_inv: "pri_inv q \<Longrightarrow> pri_inv (snd (pq_run \<sigma> ops q))"
proof (induction \<sigma> ops q rule: pq_run.induct)
  case (3 \<sigma> ops q)
  obtain r q1 where pop: "pq_Pop q = (r, q1)" by force
  then show ?case
    using "3.IH" [OF pop [symmetric]] pri.pop_invar [OF "3.prems" pop] by (auto split: prod.split)
qed (simp_all add: pri_inv_steps)

section \<open>Properties\<close>

text \<open>
  C9. Nothing that names a class is lost, duplicated or reordered within its class: after any sequence of
  \<open>PushBack\<close> and \<open>Pop\<close> calls on a new queue, the messages of a class that were popped, followed by those
  still queued, are the messages of that class that were pushed, in the order of the pushes. A message
  that names no class is dropped by \<open>PushBack\<close>: none is ever popped.
\<close>

theorem pri_queue_fifo:
  "filter (\<lambda>m. msg_class \<sigma> m = Some c) (fst (pq_run \<sigma> ops CPriorityQueueImpl)) @
     pq_class c (snd (pq_run \<sigma> ops CPriorityQueueImpl)) =
   filter (\<lambda>m. msg_class \<sigma> m = Some c) (pushed ops) \<and>
   filter (\<lambda>m. msg_class \<sigma> m = None) (fst (pq_run \<sigma> ops CPriorityQueueImpl)) = []"
proof -
  have empty: "pq_class c CPriorityQueueImpl = []" for c
    by (cases c) (simp_all add: CPriorityQueueImpl_def)
  then have "classified \<sigma> CPriorityQueueImpl" by (simp add: classified_def)
  then show ?thesis
    using pq_run_fifo [OF pri_inv_steps(1)] pq_run_classed [OF pri_inv_steps(1)] by (simp add: empty)
qed

text \<open>
  C10. No starvation in any class: from any state whose counters are in range, the message in position
  \<open>k\<close> (from 0) of a class has been served after \<open>k + 1\<close> times so many calls of \<open>Pop\<close>, whatever is
  pushed in between: 2 for the highest class, 6 for the high, 18 for the normal, 27 for the low one.
\<close>

theorem pri_queue_no_starvation:
  assumes "pri_inv q" and "k < length (pq_class c q)" and "turns c * (k + 1) \<le> pops ops"
  shows "pq_class c q ! k \<in> set (fst (pq_run \<sigma> ops q))"
  using pq_run_waits [OF assms(1,2)] waits_turns [OF assms(1), of c] assms(3) by simp

theorem pri_queue_no_starvation_witness:
  "7 \<in> set (fst (pq_run (\<lambda>_. CMsgImpl) (replicate 27 PopOp) (CPriorityQueueImpl\<lparr>pq_low := [7]\<rparr>))) \<and>
   8 \<in> set (fst (pq_run (\<lambda>_. CMsgImpl) (replicate 36 PopOp) (CPriorityQueueImpl\<lparr>pq_normal := [7, 8]\<rparr>)))"
  using pri_queue_no_starvation [of "CPriorityQueueImpl\<lparr>pq_low := [7]\<rparr>" 0 Low "replicate 27 PopOp"]
    pri_queue_no_starvation [of "CPriorityQueueImpl\<lparr>pq_normal := [7, 8]\<rparr>" 1 Normal "replicate 36 PopOp"]
  by (simp add: pri_inv_def CPriorityQueueImpl_def pri_surplus_def pops_def)

text \<open>
  \<open>Pop\<close> is work-conserving: in every state that calls of \<open>PushBack\<close> and \<open>Pop\<close> lead to, it
  returns the null pointer exactly when no message is queued.
\<close>

theorem pq_Pop_work_conserving:
  "fst (pq_Pop (snd (pq_run \<sigma> ops CPriorityQueueImpl))) = None \<longleftrightarrow>
   size (snd (pq_run \<sigma> ops CPriorityQueueImpl)) = 0"
  using pri.pop_empty_iff [OF pq_run_inv [OF pri_inv_steps(1)]] by (simp add: size_pq_content)

text \<open>
  The class is taken from the local flags, not from the header: a message of the application
  (\<open>msg_send\<close>) is queued as low whatever priority its header asks for, and a message that
  carries no local flag but the initial one, such as the FIN message of \<open>SendFinMessage\<close>, is
  dropped.
\<close>

theorem pq_PushBack_ignores_header:
  "pq_PushBack (\<sigma>(r := msg_SetFlag msg_send (msg_SetHeaderFlag f CMsgImpl))) r q =
     q\<lparr>pq_low := pq_low q @ [r]\<rparr> \<and>
   pq_PushBack (\<sigma>(r := msg_SetHeaderFlag f CMsgImpl)) r q = q"
  by (simp add: pq_PushBack_def msg_GetFlag_def msg_SetFlag_def msg_SetHeaderFlag_def CMsgImpl_def
      has_flag_def head_flag_defs local_flag_defs)

end
