(* ===== verification/Send_Wnd.thy ===== *)
theory Send_Wnd
  imports Incremental_Id Std_Map Priority_Queue
begin

text \<open>
  \<^verbatim>\<open>common/SendWnd.cpp\<close>: the send window. Messages are references into the store. Calls of the
  socket (\<open>ToSend\<close>, \<open>AckDone\<close>) are collected, in order, in the result of each operation; the socket
  model executes them. \<open>_id_msg_map\<close> is an \<open>unordered_map\<close>: the order of its entries is not
  specified, so \<open>begin()\<close> is a parameter that picks an entry of a non-empty map. \<open>None\<close> stands for
  a call through the null socket pointer of a message without a socket.
\<close>

section \<open>State and operations\<close>

datatype wnd_call = CallToSend msg_ref | CallAckDone msg_ref

record send_wnd =
  sw_start :: "msg_ref option"
  sw_out_of_order_count :: u16
  sw_send_wnd_size :: u16
  sw_cur_send_size :: u16
  sw_always_send :: bool
  sw_priority_queue :: priority_queue
  sw_incremental_id :: incremental_id
  sw_ack_queue :: "msg_ref list"
  sw_send_queue :: "msg_ref list"
  sw_id_msg_map :: "(u16 \<times> msg_ref) list"

type_synonym map_begin = "(u16 \<times> msg_ref) list \<Rightarrow> u16 \<times> msg_ref"

type_synonym wnd_result = "(store \<times> send_wnd \<times> wnd_call list) option"

text \<open>\<open>random\<close> is the value of \<open>GetRandomInitialValue()\<close>.\<close>

definition CSendWndImpl :: "u16 \<Rightarrow> u16 \<Rightarrow> priority_queue \<Rightarrow> bool \<Rightarrow> send_wnd" where
  "CSendWndImpl random send_wnd_size pri always_send =
     \<lparr>sw_start = None, sw_out_of_order_count = 0, sw_send_wnd_size = send_wnd_size,
      sw_cur_send_size = 0, sw_always_send = always_send, sw_priority_queue = pri,
      sw_incremental_id = CIncrementalId random, sw_ack_queue = [], sw_send_queue = [],
      sw_id_msg_map = []\<rparr>"

definition SendAndAck :: "store \<Rightarrow> send_wnd \<Rightarrow> (send_wnd \<times> wnd_call list) option" where
  "SendAndAck \<sigma> w =
     (if \<forall>m \<in> set (sw_send_queue w @ sw_ack_queue w). m_socket (\<sigma> m) \<noteq> None then
        Some (w\<lparr>sw_send_queue := [], sw_ack_queue := []\<rparr>,
              map CallToSend (sw_send_queue w) @ map CallAckDone (sw_ack_queue w))
      else None)"

definition AddToEnd :: "map_begin \<Rightarrow> store \<Rightarrow> msg_ref \<Rightarrow> send_wnd \<Rightarrow> send_wnd" where
  "AddToEnd bg \<sigma> msg w =
     (let w1 = w\<lparr>sw_id_msg_map := omap_insert (msg_GetId (\<sigma> msg)) msg (sw_id_msg_map w)\<rparr> in
      if sw_start w1 = None then w1\<lparr>sw_start := Some (snd (bg (sw_id_msg_map w1)))\<rparr> else w1)"

definition PushBackToSendWnd :: "map_begin \<Rightarrow> msg_ref \<Rightarrow> store \<Rightarrow> send_wnd \<Rightarrow> wnd_result" where
  "PushBackToSendWnd bg msg \<sigma> w =
     (let (i, inc) = GetNextId (sw_incremental_id w);
          \<sigma>1 = \<sigma>(msg := msg_SetId i (\<sigma> msg));
          w1 = w\<lparr>sw_incremental_id := inc, sw_id_msg_map := omap_insert i msg (sw_id_msg_map w)\<rparr>;
          w2 = AddToEnd bg \<sigma>1 msg w1;
          w3 = w2\<lparr>sw_send_queue := sw_send_queue w2 @ [msg]\<rparr>;
          w4 = (if sw_always_send w3 then w3 else w3\<lparr>sw_cur_send_size := sw_cur_send_size w3 + 1\<rparr>) in
      case SendAndAck \<sigma>1 w4 of None \<Rightarrow> None | Some (w5, calls) \<Rightarrow> Some (\<sigma>1, w5, calls))"

lemma pop_upper_size: "pop_upper q = Some (msg, q') \<Longrightarrow> size q' < size q"
  by (auto simp: pop_upper_def size_priority_queue_ext_def split: if_splits)

lemma pq_Pop_size: "pq_Pop q = (Some msg, q') \<Longrightarrow> size q' < size q"
  by (auto simp: pq_Pop_def Let_def size_priority_queue_ext_def split: option.splits if_splits
      dest!: pop_upper_size)

lemma PushBackToSendWnd_queue:
  "PushBackToSendWnd bg msg \<sigma> w = Some (\<sigma>', w', calls) \<Longrightarrow> sw_priority_queue w' = sw_priority_queue w"
  by (auto simp: PushBackToSendWnd_def AddToEnd_def SendAndAck_def Let_def
      split: prod.splits option.splits if_splits)

text \<open>The loop ends because every turn takes a message from the priority queue.\<close>

function SendNext :: "map_begin \<Rightarrow> store \<Rightarrow> send_wnd \<Rightarrow> wnd_result" where
  "SendNext bg \<sigma> w =
     (if sw_cur_send_size w < sw_send_wnd_size w then
        (case pq_Pop (sw_priority_queue w) of
           (None, q) \<Rightarrow> Some (\<sigma>, w\<lparr>sw_priority_queue := q\<rparr>, [])
         | (Some temp, q) \<Rightarrow>
             (case PushBackToSendWnd bg temp \<sigma> (w\<lparr>sw_priority_queue := q\<rparr>) of
                None \<Rightarrow> None
              | Some (\<sigma>1, w1, calls) \<Rightarrow>
                  (case SendNext bg \<sigma>1 w1 of
                     None \<Rightarrow> None
                   | Some (\<sigma>2, w2, calls') \<Rightarrow> Some (\<sigma>2, w2, calls @ calls'))))
      else Some (\<sigma>, w, []))"
  by pat_completeness auto

termination
  by (relation "measure (\<lambda>(bg, \<sigma>, w). size (sw_priority_queue w))")
    (auto dest!: PushBackToSendWnd_queue intro: pq_Pop_size [OF sym])

declare SendNext.simps [simp del]

definition sw_PushBack :: "map_begin \<Rightarrow> msg_ref option \<Rightarrow> store \<Rightarrow> send_wnd \<Rightarrow> wnd_result" where
  "sw_PushBack bg m \<sigma> w =
     (case m of
        None \<Rightarrow> Some (\<sigma>, w, [])
      | Some msg \<Rightarrow>
          if \<not> has_flag (msg_GetFlag (\<sigma> msg)) msg_with_out_id then Some (\<sigma>, w, [])
          else if sw_cur_send_size w \<ge> sw_send_wnd_size w
          then Some (\<sigma>, w\<lparr>sw_priority_queue := pq_PushBack \<sigma> msg (sw_priority_queue w)\<rparr>, [])
          else PushBackToSendWnd bg msg \<sigma> w)"

text \<open>\<open>AcceptAck(uint16_t id)\<close>. The result carries the estimated size of the acknowledged message.\<close>

definition quick_resend :: "send_wnd \<Rightarrow> send_wnd" where
  "quick_resend w =
     (case sw_start w of
        Some s \<Rightarrow>
          if sw_out_of_order_count w \<ge> quick_resend_limit
          then w\<lparr>sw_send_queue := sw_send_queue w @ [s], sw_out_of_order_count := 0\<rparr>
          else w
      | None \<Rightarrow> w)"

definition take_ack :: "map_begin \<Rightarrow> u16 \<Rightarrow> msg_ref \<Rightarrow> send_wnd \<Rightarrow> send_wnd" where
  "take_ack bg i msg w =
     (let w1 = w\<lparr>sw_out_of_order_count :=
                  (if Some msg = sw_start w then 0 else sw_out_of_order_count w + 1),
                sw_ack_queue := sw_ack_queue w @ [msg],
                sw_cur_send_size := sw_cur_send_size w - 1,
                sw_id_msg_map := omap_erase i (sw_id_msg_map w)\<rparr> in
      w1\<lparr>sw_start := (if sw_id_msg_map w1 \<noteq> [] then Some (snd (bg (sw_id_msg_map w1))) else None)\<rparr>)"

definition AcceptAck :: "map_begin \<Rightarrow> u16 \<Rightarrow> store \<Rightarrow> send_wnd \<Rightarrow> (u32 \<times> store \<times> send_wnd \<times> wnd_call list) option" where
  "AcceptAck bg i \<sigma> w =
     (case map_of (sw_id_msg_map w) i of
        None \<Rightarrow> Some (0, \<sigma>, w, [])
      | Some msg \<Rightarrow>
          (let sz = msg_GetEstimateSize (\<sigma> msg) in
           case SendNext bg \<sigma> (quick_resend (take_ack bg i msg w)) of
             None \<Rightarrow> None
           | Some (\<sigma>1, w1, calls) \<Rightarrow>
               (case SendAndAck \<sigma>1 w1 of
                  None \<Rightarrow> None
                | Some (w2, calls') \<Rightarrow> Some (sz, \<sigma>1, w2, calls @ calls'))))"

text \<open>The two \<open>AcceptAck\<close> overloads for several numbers, by repetition; results are summed.\<close>

fun AcceptAcks :: "map_begin \<Rightarrow> u16 list \<Rightarrow> store \<Rightarrow> send_wnd \<Rightarrow> (u32 \<times> store \<times> send_wnd \<times> wnd_call list) option" where
  "AcceptAcks bg [] \<sigma> w = Some (0, \<sigma>, w, [])"
| "AcceptAcks bg (i # ids) \<sigma> w =
     (case AcceptAck bg i \<sigma> w of
        None \<Rightarrow> None
      | Some (sz, \<sigma>1, w1, calls) \<Rightarrow>
          (case AcceptAcks bg ids \<sigma>1 w1 of
             None \<Rightarrow> None
           | Some (szs, \<sigma>2, w2, calls') \<Rightarrow> Some (sz + szs, \<sigma>2, w2, calls @ calls')))"

text \<open>An index outside of the vector is undefined behaviour.\<close>

definition AcceptAck_vec :: "map_begin \<Rightarrow> u16 list \<Rightarrow> u16 \<Rightarrow> u16 \<Rightarrow> store \<Rightarrow> send_wnd \<Rightarrow> (u32 \<times> store \<times> send_wnd \<times> wnd_call list) option" where
  "AcceptAck_vec bg vec_id start_index len \<sigma> w =
     (let idx = [unat start_index..<unat (start_index + len)] in
      if \<forall>k \<in> set idx. k < length vec_id then AcceptAcks bg (map (\<lambda>k. vec_id ! k) idx) \<sigma> w else None)"

definition AcceptAck_range :: "map_begin \<Rightarrow> u16 \<Rightarrow> u16 \<Rightarrow> store \<Rightarrow> send_wnd \<Rightarrow> (u32 \<times> store \<times> send_wnd \<times> wnd_call list) option" where
  "AcceptAck_range bg start_id len = AcceptAcks bg (map (\<lambda>k. start_id + of_nat k) [0..<unat len])"

definition IsAppLimit :: "send_wnd \<Rightarrow> bool" where
  "IsAppLimit w \<longleftrightarrow> sw_send_wnd_size w = of_nat (length (sw_id_msg_map w))"

definition GetWndSize :: "send_wnd \<Rightarrow> u16" where
  "GetWndSize w = sw_send_wnd_size w"

definition ChangeSendWndSize :: "map_begin \<Rightarrow> u16 \<Rightarrow> store \<Rightarrow> send_wnd \<Rightarrow> wnd_result" where
  "ChangeSendWndSize bg sz \<sigma> w =
     (if sw_send_wnd_size w = sz then Some (\<sigma>, w, [])
      else
        case SendNext bg \<sigma> (w\<lparr>sw_send_wnd_size := sz\<rparr>) of
          None \<Rightarrow> None
        | Some (\<sigma>1, w1, calls) \<Rightarrow>
            (case SendAndAck \<sigma>1 w1 of
               None \<Rightarrow> None
             | Some (w2, calls') \<Rightarrow> Some (\<sigma>1, w2, calls @ calls')))"

text \<open>\<open>Clear\<close>: the map in the order of its iteration, here that of the numbers.\<close>

definition sw_Clear :: "store \<Rightarrow> send_wnd \<Rightarrow> send_wnd \<times> wnd_call list" where
  "sw_Clear \<sigma> w =
     (w\<lparr>sw_id_msg_map := []\<rparr>,
      map CallAckDone (filter (\<lambda>m. m_socket (\<sigma> m) \<noteq> None) (map snd (sw_id_msg_map w))))"

definition sw_Remove :: "msg_ref option \<Rightarrow> store \<Rightarrow> send_wnd \<Rightarrow> send_wnd" where
  "sw_Remove m \<sigma> w =
     (case m of
        None \<Rightarrow> w
      | Some msg \<Rightarrow> w\<lparr>sw_id_msg_map := omap_erase (msg_GetId (\<sigma> msg)) (sw_id_msg_map w)\<rparr>)"

section \<open>Invariant and contents\<close>

definition begin_ok :: "map_begin \<Rightarrow> bool" where
  "begin_ok bg \<longleftrightarrow> (\<forall>m. m \<noteq> [] \<longrightarrow> bg m \<in> set m)"

definition in_flight :: "send_wnd \<Rightarrow> msg_ref multiset" where
  "in_flight w = mset (map snd (sw_id_msg_map w))"

definition waiting :: "send_wnd \<Rightarrow> msg_ref multiset" where
  "waiting w = mset (pq_content (sw_priority_queue w))"

definition all_refs :: "send_wnd \<Rightarrow> msg_ref set" where
  "all_refs w = set_mset (in_flight w) \<union> set_mset (waiting w) \<union> set (sw_send_queue w) \<union>
     set (sw_ack_queue w)"

definition have_socket :: "store \<Rightarrow> msg_ref set \<Rightarrow> bool" where
  "have_socket \<sigma> R \<longleftrightarrow> (\<forall>m \<in> R. m_socket (\<sigma> m) \<noteq> None)"

definition start_ok :: "send_wnd \<Rightarrow> bool" where
  "start_ok w \<longleftrightarrow> (case sw_start w of
     None \<Rightarrow> sw_id_msg_map w = []
   | Some s \<Rightarrow> s \<in> snd ` set (sw_id_msg_map w))"

text \<open>
  The next \<open>n\<close> message numbers are not in flight: the counter is not about to meet a message that
  has been waiting for its acknowledgement for a whole turn of the numbers.
\<close>

definition ids_free :: "nat \<Rightarrow> send_wnd \<Rightarrow> bool" where
  "ids_free n w \<longleftrightarrow> n < 65536 \<and> (\<forall>k \<in> fst ` set (sw_id_msg_map w).
     unat (cur_id (sw_incremental_id w) - k) + n < 65536)"

lemma start_ok_updates [simp]:
  "start_ok (w\<lparr>sw_priority_queue := q\<rparr>) = start_ok w"
  "start_ok (w\<lparr>sw_send_queue := sq\<rparr>) = start_ok w" "start_ok (w\<lparr>sw_ack_queue := aq\<rparr>) = start_ok w"
  "start_ok (w\<lparr>sw_send_wnd_size := n\<rparr>) = start_ok w"
  by (cases "sw_start w"; simp add: start_ok_def)+

text \<open>Holds inside the operations of a window with a transmission limit.\<close>

definition wnd_core :: "send_wnd \<Rightarrow> bool" where
  "wnd_core w \<longleftrightarrow> omap_ok (sw_id_msg_map w) \<and> length (sw_id_msg_map w) \<le> unat (sw_cur_send_size w) \<and>
     pri_inv (sw_priority_queue w) \<and> \<not> sw_always_send w \<and> start_ok w"

text \<open>Holds between the operations: nothing is left to call, and a waiting message means a full window.\<close>

definition wnd_inv :: "send_wnd \<Rightarrow> bool" where
  "wnd_inv w \<longleftrightarrow> wnd_core w \<and> sw_send_queue w = [] \<and> sw_ack_queue w = [] \<and>
     (sw_send_wnd_size w \<le> sw_cur_send_size w \<or> waiting w = {#})"

fun sends :: "wnd_call list \<Rightarrow> msg_ref list" where
  "sends [] = []"
| "sends (CallToSend m # cs) = m # sends cs"
| "sends (CallAckDone m # cs) = sends cs"

fun acks :: "wnd_call list \<Rightarrow> msg_ref list" where
  "acks [] = []"
| "acks (CallToSend m # cs) = acks cs"
| "acks (CallAckDone m # cs) = m # acks cs"

lemma sends_append [simp]: "sends (xs @ ys) = sends xs @ sends ys"
  by (induction xs rule: sends.induct) auto

lemma acks_append [simp]: "acks (xs @ ys) = acks xs @ acks ys"
  by (induction xs rule: acks.induct) auto

lemma sends_acks_map [simp]:
  "sends (map CallToSend ms) = ms" "sends (map CallAckDone ms) = []"
  "acks (map CallToSend ms) = []" "acks (map CallAckDone ms) = ms"
  by (induction ms) auto

lemma omap_insert_fresh:
  "k \<notin> fst ` set m \<Longrightarrow> mset (omap_insert k v m) = add_mset (k, v) (mset m)"
  by (induction k v m rule: omap_insert.induct) (auto simp: add_mset_commute)

lemma omap_insert_again: "omap_insert k v (omap_insert k v m) = omap_insert k v m"
  by (induction k v m rule: omap_insert.induct) auto

lemma omap_erase_mset:
  assumes "omap_ok m" and "map_of m k = Some v"
  shows "mset m = add_mset (k, v) (mset (omap_erase k m))"
  using assms
proof (induction m)
  case (Cons p m)
  obtain k' v' where p: "p = (k', v')" by force
  show ?case
  proof (cases "k' = k")
    case True
    then show ?thesis
      using Cons.prems omap_erase_begin [of k v m] by (simp add: p)
  next
    case False
    then show ?thesis
      using Cons by (simp add: p omap_erase_def)
  qed
qed simp

lemma ids_free_step:
  assumes "ids_free (Suc n) w"
  shows "cur_id (sw_incremental_id w) + 1 \<notin> fst ` set (sw_id_msg_map w)"
    and "k \<in> fst ` set (sw_id_msg_map w) \<Longrightarrow> unat (cur_id (sw_incremental_id w) + 1 - k) + n < 65536"
proof -
  let ?c = "cur_id (sw_incremental_id w)"
  have "unat (?c - (?c + 1)) = 65535" by (simp add: unsigned_minus_1_eq_mask mask_eq_exp_minus_1)
  then show "?c + 1 \<notin> fst ` set (sw_id_msg_map w)"
    using assms unfolding ids_free_def by fastforce
  assume "k \<in> fst ` set (sw_id_msg_map w)"
  then have "unat (?c - k) + Suc n < 65536"
    using assms unfolding ids_free_def by blast
  moreover from this have "unat (?c - k + 1) = unat (?c - k) + 1"
    by (subst unat_add_small_u16) auto
  ultimately show "unat (?c + 1 - k) + n < 65536"
    by (simp add: algebra_simps)
qed

lemma SendAndAck_ok:
  assumes "have_socket \<sigma> (set (sw_send_queue w @ sw_ack_queue w))"
  shows "SendAndAck \<sigma> w = Some (w\<lparr>sw_send_queue := [], sw_ack_queue := []\<rparr>,
    map CallToSend (sw_send_queue w) @ map CallAckDone (sw_ack_queue w))"
  using assms unfolding SendAndAck_def have_socket_def by (rule if_P)

lemma msg_SetId_socket [simp]: "m_socket (msg_SetId i m) = m_socket m"
  by (simp add: msg_SetId_def)

lemma msg_GetId_set: "msg_GetId (msg_SetId i m) = i"
  by (simp add: msg_GetId_def msg_SetId_def SetId_def)

lemma PushBackToSendWnd_ok:
  assumes core: "wnd_core w" and sock: "have_socket \<sigma> (insert msg (all_refs w))"
    and free: "ids_free (Suc n) w" and room: "sw_cur_send_size w < sw_send_wnd_size w" and bg: "begin_ok bg"
  shows "\<exists>\<sigma>' w' calls. PushBackToSendWnd bg msg \<sigma> w = Some (\<sigma>', w', calls) \<and> wnd_core w' \<and>
    sw_send_queue w' = [] \<and> sw_ack_queue w' = [] \<and>
    sends calls = sw_send_queue w @ [msg] \<and> acks calls = sw_ack_queue w \<and>
    in_flight w' = add_mset msg (in_flight w) \<and> sw_priority_queue w' = sw_priority_queue w \<and>
    sw_send_wnd_size w' = sw_send_wnd_size w \<and>
    unat (sw_cur_send_size w') = Suc (unat (sw_cur_send_size w)) \<and> ids_free n w' \<and>
    (\<forall>m. m_socket (\<sigma>' m) = m_socket (\<sigma> m)) \<and> (\<forall>m. m \<noteq> msg \<longrightarrow> \<sigma>' m = \<sigma> m)"
proof -
  define i where "i = cur_id (sw_incremental_id w) + 1"
  define m where "m = omap_insert i msg (sw_id_msg_map w)"
  define \<sigma>' where "\<sigma>' = \<sigma>(msg := msg_SetId i (\<sigma> msg))"
  define st where "st = (if sw_start w = None then Some (snd (bg m)) else sw_start w)"
  define w' where "w' = w\<lparr>sw_start := st, sw_incremental_id := (sw_incremental_id w)\<lparr>cur_id := i\<rparr>, sw_id_msg_map := m,
      sw_cur_send_size := sw_cur_send_size w + 1, sw_send_queue := [], sw_ack_queue := []\<rparr>"
  define calls where
    "calls = map CallToSend (sw_send_queue w @ [msg]) @ map CallAckDone (sw_ack_queue w)"
  have fresh: "i \<notin> fst ` set (sw_id_msg_map w)" using ids_free_step(1) [OF free] by (simp add: i_def)
  have mm: "mset m = add_mset (i, msg) (mset (sw_id_msg_map w))"
    unfolding m_def using omap_insert_fresh [OF fresh] .
  have setm: "set m = insert (i, msg) (set (sw_id_msg_map w))"
    using mm by (metis set_mset_add_mset_insert set_mset_mset)
  have len: "length m = Suc (length (sw_id_msg_map w))"
    using mm by (metis size_add_mset size_mset)
  have cur: "unat (sw_cur_send_size w + 1) = Suc (unat (sw_cur_send_size w))"
  proof -
    have "unat (sw_cur_send_size w) + unat (1 :: u16) < 65536"
      using room [unfolded word_less_nat_alt] unat_u16_less [of "sw_send_wnd_size w"]
      unfolding unat_1 by linarith
    then show ?thesis by (simp add: unat_add_small_u16)
  qed
  have \<sigma>': "m_socket (\<sigma>' r) = m_socket (\<sigma> r)" "r \<noteq> msg \<Longrightarrow> \<sigma>' r = \<sigma> r" for r
    by (simp_all add: \<sigma>'_def msg_SetId_def)
  have sockets: "\<forall>r \<in> set (sw_send_queue w @ [msg]) \<union> set (sw_ack_queue w). m_socket (\<sigma>' r) \<noteq> None"
    using sock unfolding \<sigma>' have_socket_def all_refs_def by auto
  have gid: "msg_GetId (\<sigma>' msg) = i" by (simp add: \<sigma>'_def msg_GetId_set)
  have end': "AddToEnd bg \<sigma>' msg (w\<lparr>sw_incremental_id := (sw_incremental_id w)\<lparr>cur_id := i\<rparr>, sw_id_msg_map := m\<rparr>) =
      w\<lparr>sw_start := st, sw_incremental_id := (sw_incremental_id w)\<lparr>cur_id := i\<rparr>, sw_id_msg_map := m\<rparr>"
    by (simp add: AddToEnd_def gid m_def omap_insert_again st_def Let_def)
  define w4 where "w4 = w\<lparr>sw_start := st, sw_incremental_id := (sw_incremental_id w)\<lparr>cur_id := i\<rparr>,
      sw_id_msg_map := m, sw_send_queue := sw_send_queue w @ [msg],
      sw_cur_send_size := sw_cur_send_size w + 1\<rparr>"
  have "\<not> sw_always_send w" using core by (simp add: wnd_core_def)
  then have step: "PushBackToSendWnd bg msg \<sigma> w =
      (case SendAndAck \<sigma>' w4 of None \<Rightarrow> None | Some (w5, calls) \<Rightarrow> Some (\<sigma>', w5, calls))"
    unfolding PushBackToSendWnd_def GetNextId_def Let_def prod.case i_def [symmetric]
      m_def [symmetric] \<sigma>'_def [symmetric] end' by (simp add: w4_def)
  have "SendAndAck \<sigma>' w4 = Some (w', calls)"
  proof -
    have "have_socket \<sigma>' (set (sw_send_queue w4 @ sw_ack_queue w4))"
      using sockets by (simp add: w4_def have_socket_def)
    from SendAndAck_ok [OF this] show ?thesis
      by (simp add: w4_def w'_def calls_def)
  qed
  then have run: "PushBackToSendWnd bg msg \<sigma> w = Some (\<sigma>', w', calls)"
    by (simp add: step)
  have "start_ok w'"
  proof (cases "sw_start w")
    case None
    have "m \<noteq> []" using len by auto
    then have "bg m \<in> set m" using bg by (simp add: begin_ok_def)
    then show ?thesis using None by (simp add: start_ok_def w'_def st_def)
  next
    case (Some s)
    then have "s \<in> snd ` set (sw_id_msg_map w)"
      using core by (simp add: start_ok_def wnd_core_def)
    then show ?thesis using Some setm by (simp add: start_ok_def w'_def st_def)
  qed
  moreover have "omap_ok m" using core by (simp add: m_def omap_ok_insert wnd_core_def)
  moreover have "length m \<le> unat (sw_cur_send_size w + 1)" using core cur len by (simp add: wnd_core_def)
  ultimately have "wnd_core w'"
    using core by (simp add: wnd_core_def w'_def)
  moreover have "in_flight w' = add_mset msg (in_flight w)"
    by (simp add: in_flight_def mm w'_def)
  moreover have "ids_free n w'"
    unfolding ids_free_def
  proof (intro conjI ballI)
    show "n < 65536" using free by (simp add: ids_free_def)
  next
    fix k assume "k \<in> fst ` set (sw_id_msg_map w')"
    then consider "k = i" | "k \<in> fst ` set (sw_id_msg_map w)"
      using setm by (auto simp: w'_def)
    then show "unat (cur_id (sw_incremental_id w') - k) + n < 65536"
    proof cases
      case 1
      then show ?thesis using free by (simp add: w'_def ids_free_def)
    next
      case 2
      then show ?thesis using ids_free_step(2) [OF free 2] by (simp add: w'_def i_def)
    qed
  qed
  ultimately show ?thesis
    using run cur \<sigma>' by (intro exI [of _ \<sigma>'] exI [of _ w'] exI [of _ calls]) (simp add: w'_def calls_def)
qed

definition room :: "send_wnd \<Rightarrow> nat" where
  "room w = unat (sw_send_wnd_size w) - unat (sw_cur_send_size w)"

text \<open>
  The relation between the states around \<open>SendNext\<close>: the messages \<open>new\<close> left the priority queue,
  are in flight and were handed to the socket after those that were due already.
\<close>

definition sent_next :: "msg_ref list \<Rightarrow> store \<Rightarrow> send_wnd \<Rightarrow> store \<Rightarrow> send_wnd \<Rightarrow> wnd_call list \<Rightarrow> bool" where
  "sent_next new \<sigma> w \<sigma>' w' calls \<longleftrightarrow>
     wnd_core w' \<and> have_socket \<sigma>' (all_refs w') \<and> sw_send_wnd_size w' = sw_send_wnd_size w \<and>
     (sw_send_wnd_size w \<le> sw_cur_send_size w' \<or> waiting w' = {#}) \<and>
     unat (sw_cur_send_size w') = unat (sw_cur_send_size w) + length new \<and> length new \<le> room w \<and>
     in_flight w' = in_flight w + mset new \<and> waiting w = waiting w' + mset new \<and>
     sends calls @ sw_send_queue w' = sw_send_queue w @ new \<and>
     acks calls @ sw_ack_queue w' = sw_ack_queue w \<and>
     (\<forall>m. m_socket (\<sigma>' m) = m_socket (\<sigma> m)) \<and> (\<forall>m. m \<notin> set new \<longrightarrow> \<sigma>' m = \<sigma> m)"

lemma have_socket_subset: "have_socket \<sigma> B \<Longrightarrow> A \<subseteq> B \<Longrightarrow> have_socket \<sigma> A"
  by (auto simp: have_socket_def)

lemma have_socket_cong: "(\<And>m. m_socket (\<sigma>' m) = m_socket (\<sigma> m)) \<Longrightarrow> have_socket \<sigma>' A = have_socket \<sigma> A"
  by (simp add: have_socket_def)

lemma SendNext_ok:
  assumes "wnd_core w" and "have_socket \<sigma> (all_refs w)" and "ids_free (room w) w" and "begin_ok bg"
  shows "\<exists>new \<sigma>' w' calls. SendNext bg \<sigma> w = Some (\<sigma>', w', calls) \<and> sent_next new \<sigma> w \<sigma>' w' calls"
  using assms
proof (induction "size (sw_priority_queue w)" arbitrary: \<sigma> w rule: less_induct)
  case less
  have pri: "pri_inv (sw_priority_queue w)" using less.prems(1) by (simp add: wnd_core_def)
  show ?case
  proof (cases "sw_cur_send_size w < sw_send_wnd_size w")
    case False
    then have "SendNext bg \<sigma> w = Some (\<sigma>, w, [])" by (simp add: SendNext.simps [of bg \<sigma> w])
    moreover have "sent_next [] \<sigma> w \<sigma> w []"
      using False less.prems by (simp add: sent_next_def not_less)
    ultimately show ?thesis by blast
  next
    case True
    obtain r q where pop: "pq_Pop (sw_priority_queue w) = (r, q)" by force
    let ?w = "w\<lparr>sw_priority_queue := q\<rparr>"
    show ?thesis
    proof (cases r)
      case None
      then have "waiting ?w = {#}" "waiting w = {#}" "pri_inv q"
        using pri.pop_None [OF pri] pop by (simp_all add: waiting_def)
      moreover from this have "wnd_core ?w" "all_refs ?w = all_refs w"
        using less.prems(1) by (simp_all add: wnd_core_def all_refs_def in_flight_def)
      ultimately have "sent_next [] \<sigma> w \<sigma> ?w []"
        using less.prems by (simp add: sent_next_def in_flight_def)
      moreover have "SendNext bg \<sigma> w = Some (\<sigma>, ?w, [])"
        using True pop None by (simp add: SendNext.simps [of bg \<sigma> w])
      ultimately show ?thesis by blast
    next
      case (Some temp)
      have q: "waiting w = add_mset temp (waiting ?w)" "pri_inv q"
        using pri.pop_Some [OF pri] pop Some by (simp_all add: waiting_def)
      have core1: "wnd_core ?w"
        using less.prems(1) q(2) by (simp add: wnd_core_def)
      have refs: "insert temp (all_refs ?w) = all_refs w"
        by (auto simp: all_refs_def in_flight_def q(1))
      have "room w \<noteq> 0" using True by (simp add: room_def word_less_nat_alt)
      then obtain n where n: "room w = Suc n" using not0_implies_Suc by blast
      have "ids_free (Suc n) ?w" using less.prems(3) n by (simp add: ids_free_def)
      then obtain \<sigma>1 w1 calls1 where
        run1: "PushBackToSendWnd bg temp \<sigma> ?w = Some (\<sigma>1, w1, calls1)" and
        w1: "wnd_core w1" "sw_send_queue w1 = []" "sw_ack_queue w1 = []"
          "sends calls1 = sw_send_queue w @ [temp]" "acks calls1 = sw_ack_queue w"
          "in_flight w1 = add_mset temp (in_flight w)" "sw_priority_queue w1 = q"
          "sw_send_wnd_size w1 = sw_send_wnd_size w"
          "unat (sw_cur_send_size w1) = Suc (unat (sw_cur_send_size w))" "ids_free n w1"
          "\<And>m. m_socket (\<sigma>1 m) = m_socket (\<sigma> m)" "\<And>m. m \<noteq> temp \<Longrightarrow> \<sigma>1 m = \<sigma> m"
        using PushBackToSendWnd_ok [OF core1 _ _ _ less.prems(4), of \<sigma> temp n] refs less.prems(2) True
        by (auto simp: in_flight_def)
      have "room w1 = n" using w1 n by (simp add: room_def)
      moreover have "have_socket \<sigma>1 (all_refs w1)"
      proof -
        have "all_refs w1 \<subseteq> all_refs w"
          using w1 q(1) by (auto simp: all_refs_def waiting_def)
        then show ?thesis
          using less.prems(2) have_socket_subset w1(11) have_socket_cong by metis
      qed
      moreover have "size (sw_priority_queue w1) < size (sw_priority_queue w)"
        using pq_Pop_size pop Some w1(7) by simp
      ultimately obtain new \<sigma>2 w2 calls2 where
        run2: "SendNext bg \<sigma>1 w1 = Some (\<sigma>2, w2, calls2)" and new: "sent_next new \<sigma>1 w1 \<sigma>2 w2 calls2"
        using less.hyps [of w1 \<sigma>1] w1(1,10) less.prems(4) by auto
      have "waiting ?w = waiting w1" using w1(7) by (simp add: waiting_def)
      then have "sent_next (temp # new) \<sigma> w \<sigma>2 w2 (calls1 @ calls2)"
        using new w1 q(1) n \<open>room w1 = n\<close> by (auto simp: sent_next_def)
      moreover have "SendNext bg \<sigma> w = Some (\<sigma>2, w2, calls1 @ calls2)"
        using True pop Some run1 run2 by (simp add: SendNext.simps [of bg \<sigma> w])
      ultimately show ?thesis by blast
    qed
  qed
qed

lemma quick_resend_simps [simp]:
  "sw_id_msg_map (quick_resend w) = sw_id_msg_map w" "sw_start (quick_resend w) = sw_start w"
  "sw_cur_send_size (quick_resend w) = sw_cur_send_size w"
  "sw_send_wnd_size (quick_resend w) = sw_send_wnd_size w"
  "sw_priority_queue (quick_resend w) = sw_priority_queue w"
  "sw_incremental_id (quick_resend w) = sw_incremental_id w"
  "sw_ack_queue (quick_resend w) = sw_ack_queue w" "sw_always_send (quick_resend w) = sw_always_send w"
  by (simp_all add: quick_resend_def split: option.split)

lemma take_ack_simps [simp]:
  "sw_id_msg_map (take_ack bg i msg w) = omap_erase i (sw_id_msg_map w)"
  "sw_cur_send_size (take_ack bg i msg w) = sw_cur_send_size w - 1"
  "sw_send_wnd_size (take_ack bg i msg w) = sw_send_wnd_size w"
  "sw_priority_queue (take_ack bg i msg w) = sw_priority_queue w"
  "sw_incremental_id (take_ack bg i msg w) = sw_incremental_id w"
  "sw_ack_queue (take_ack bg i msg w) = sw_ack_queue w @ [msg]"
  "sw_send_queue (take_ack bg i msg w) = sw_send_queue w"
  "sw_always_send (take_ack bg i msg w) = sw_always_send w"
  by (simp_all add: take_ack_def Let_def)

lemma quick_resend_queue:
  "sw_send_queue (quick_resend w) = sw_send_queue w @
     (case sw_start w of
        Some s \<Rightarrow> if quick_resend_limit \<le> sw_out_of_order_count w then [s] else [] | None \<Rightarrow> [])"
  by (simp add: quick_resend_def split: option.split)

lemma in_flight_take_ack:
  assumes "wnd_core w" and "map_of (sw_id_msg_map w) i = Some msg"
  shows "in_flight w = add_mset msg (in_flight (take_ack bg i msg w))"
proof -
  have "omap_ok (sw_id_msg_map w)" using assms(1) by (simp add: wnd_core_def)
  from omap_erase_mset [OF this assms(2)] show ?thesis by (simp add: in_flight_def)
qed

lemma take_ack_core:
  assumes core: "wnd_core w" and i: "map_of (sw_id_msg_map w) i = Some msg" and bg: "begin_ok bg"
  shows "wnd_core (quick_resend (take_ack bg i msg w))"
    and "unat (sw_cur_send_size w) = Suc (unat (sw_cur_send_size w - 1))"
proof -
  let ?m = "omap_erase i (sw_id_msg_map w)"
  have "size (in_flight w) = length (sw_id_msg_map w)" by (simp add: in_flight_def)
  moreover have "size (in_flight (take_ack bg i msg w)) = length ?m" by (simp add: in_flight_def)
  ultimately have len: "length (sw_id_msg_map w) = Suc (length ?m)"
    using in_flight_take_ack [OF core i] by (metis size_add_mset)
  moreover have le: "length (sw_id_msg_map w) \<le> unat (sw_cur_send_size w)"
    using core by (simp add: wnd_core_def)
  ultimately have "0 < unat (sw_cur_send_size w)" by linarith
  then have "sw_cur_send_size w \<noteq> 0" by auto
  then show cur: "unat (sw_cur_send_size w) = Suc (unat (sw_cur_send_size w - 1))"
    using \<open>0 < unat (sw_cur_send_size w)\<close> by (simp add: unat_minus_one)
  have "start_ok (take_ack bg i msg w)"
    using bg by (auto simp: start_ok_def take_ack_def begin_ok_def Let_def)
  then have "start_ok (quick_resend (take_ack bg i msg w))"
    by (cases "sw_start (take_ack bg i msg w)") (simp_all add: start_ok_def)
  moreover have "omap_ok ?m" using core by (simp add: wnd_core_def omap_ok_erase)
  ultimately show "wnd_core (quick_resend (take_ack bg i msg w))"
    using core len le cur by (simp add: wnd_core_def)
qed

lemma start_in_flight: "wnd_core w \<Longrightarrow> sw_start w = Some s \<Longrightarrow> s \<in># in_flight w"
  by (auto simp: wnd_core_def start_ok_def in_flight_def)

lemma take_ack_refs:
  assumes "wnd_core w" and "map_of (sw_id_msg_map w) i = Some msg" and "begin_ok bg"
  shows "all_refs (quick_resend (take_ack bg i msg w)) \<subseteq> all_refs w"
proof -
  let ?w = "quick_resend (take_ack bg i msg w)"
  have fl: "in_flight w = add_mset msg (in_flight ?w)"
    using in_flight_take_ack [OF assms(1,2), of bg] by (simp add: in_flight_def)
  have "set (sw_send_queue ?w) \<subseteq> set (sw_send_queue w) \<union> set_mset (in_flight w)"
    using start_in_flight [OF take_ack_core(1) [OF assms]] fl
    by (auto simp: quick_resend_queue split: option.splits if_splits)
  then show ?thesis
    using fl by (auto simp: all_refs_def waiting_def)
qed

lemma AcceptAck_ok:
  assumes inv: "wnd_inv w" and sock: "have_socket \<sigma> (all_refs w)" and ids: "ids_free (Suc (room w)) w"
    and bg: "begin_ok bg" and i: "map_of (sw_id_msg_map w) i = Some msg"
  shows "\<exists>new \<sigma>' w' calls. AcceptAck bg i \<sigma> w = Some (msg_GetEstimateSize (\<sigma> msg), \<sigma>', w', calls) \<and>
    wnd_inv w' \<and> have_socket \<sigma>' (all_refs w') \<and> sw_send_wnd_size w' = sw_send_wnd_size w \<and>
    add_mset msg (in_flight w') = in_flight w + mset new \<and> waiting w = waiting w' + mset new \<and>
    sends calls = sw_send_queue (quick_resend (take_ack bg i msg w)) @ new \<and> acks calls = [msg] \<and>
    Suc (unat (sw_cur_send_size w')) = unat (sw_cur_send_size w) + length new \<and>
    (new \<noteq> [] \<longrightarrow> sw_cur_send_size w' \<le> sw_send_wnd_size w)"
proof -
  let ?q = "quick_resend (take_ack bg i msg w)"
  have core: "wnd_core w" using inv by (simp add: wnd_inv_def)
  note cur = take_ack_core(2) [OF core i bg]
  have "room ?q \<le> Suc (room w)" using cur by (simp add: room_def)
  moreover have "fst ` set (omap_erase i (sw_id_msg_map w)) \<subseteq> fst ` set (sw_id_msg_map w)"
    by (auto simp: omap_erase_def)
  ultimately have "ids_free (room ?q) ?q"
    using ids by (fastforce simp: ids_free_def)
  moreover have "have_socket \<sigma> (all_refs ?q)"
    using have_socket_subset [OF sock take_ack_refs [OF core i bg]] .
  ultimately obtain new \<sigma>1 w1 calls where run: "SendNext bg \<sigma> ?q = Some (\<sigma>1, w1, calls)"
    and new: "sent_next new \<sigma> ?q \<sigma>1 w1 calls"
    using SendNext_ok [OF take_ack_core(1) [OF core i bg] _ _ bg, of \<sigma>] by blast
  let ?w2 = "w1\<lparr>sw_send_queue := [], sw_ack_queue := []\<rparr>"
  let ?calls2 = "map CallToSend (sw_send_queue w1) @ map CallAckDone (sw_ack_queue w1)"
  have "have_socket \<sigma>1 (all_refs w1)" using new by (simp add: sent_next_def)
  then have "have_socket \<sigma>1 (set (sw_send_queue w1 @ sw_ack_queue w1))"
    by (rule have_socket_subset) (auto simp: all_refs_def)
  from SendAndAck_ok [OF this] have accept:
    "AcceptAck bg i \<sigma> w = Some (msg_GetEstimateSize (\<sigma> msg), \<sigma>1, ?w2, calls @ ?calls2)"
    using i run by (simp add: AcceptAck_def Let_def)
  have same: "in_flight ?w2 = in_flight w1" "waiting ?w2 = waiting w1" "waiting ?q = waiting w"
    by (simp_all add: in_flight_def waiting_def)
  have "wnd_inv ?w2"
    using new by (simp add: wnd_inv_def sent_next_def wnd_core_def waiting_def)
  moreover have "have_socket \<sigma>1 (all_refs ?w2)"
    using \<open>have_socket \<sigma>1 (all_refs w1)\<close> by (rule have_socket_subset) (auto simp: all_refs_def same)
  moreover have "in_flight w = add_mset msg (in_flight ?q)"
    using in_flight_take_ack [OF core i, of bg] by (simp add: in_flight_def)
  moreover have "sw_ack_queue w = []" using inv by (simp add: wnd_inv_def)
  moreover have "new \<noteq> [] \<longrightarrow> unat (sw_cur_send_size w1) \<le> unat (sw_send_wnd_size w)"
    using new by (cases new) (auto simp: sent_next_def room_def)
  ultimately show ?thesis
    using accept new cur same
    by (intro exI [of _ new] exI [of _ \<sigma>1] exI [of _ ?w2] exI [of _ "calls @ ?calls2"])
      (simp add: sent_next_def word_le_nat_alt)
qed

lemma AcceptAck_repeat:
  "map_of (sw_id_msg_map w) i = None \<Longrightarrow> AcceptAck bg i \<sigma> w = Some (0, \<sigma>, w, [])"
  by (simp add: AcceptAck_def)

lemma PushBack_direct:
  assumes inv: "wnd_inv w" and sock: "have_socket \<sigma> (insert msg (all_refs w))"
    and ids: "ids_free (Suc (room w)) w" and bg: "begin_ok bg"
    and new: "has_flag (msg_GetFlag (\<sigma> msg)) msg_with_out_id"
    and free: "sw_cur_send_size w < sw_send_wnd_size w"
  shows "\<exists>\<sigma>' w' calls. sw_PushBack bg (Some msg) \<sigma> w = Some (\<sigma>', w', calls) \<and> wnd_inv w' \<and>
    have_socket \<sigma>' (all_refs w') \<and> sw_send_wnd_size w' = sw_send_wnd_size w \<and>
    in_flight w' = add_mset msg (in_flight w) \<and> waiting w' = {#} \<and> waiting w = {#} \<and>
    sends calls = [msg] \<and> acks calls = [] \<and>
    unat (sw_cur_send_size w') = Suc (unat (sw_cur_send_size w))"
proof -
  have core: "wnd_core w" and queues: "sw_send_queue w = []" "sw_ack_queue w = []"
    and empty: "waiting w = {#}"
    using inv free by (auto simp: wnd_inv_def)
  obtain \<sigma>' w' calls where run: "PushBackToSendWnd bg msg \<sigma> w = Some (\<sigma>', w', calls)"
    and w': "wnd_core w'" "sw_send_queue w' = []" "sw_ack_queue w' = []"
      "sends calls = sw_send_queue w @ [msg]" "acks calls = sw_ack_queue w"
      "in_flight w' = add_mset msg (in_flight w)" "sw_priority_queue w' = sw_priority_queue w"
      "sw_send_wnd_size w' = sw_send_wnd_size w"
      "unat (sw_cur_send_size w') = Suc (unat (sw_cur_send_size w))"
      "\<And>m. m_socket (\<sigma>' m) = m_socket (\<sigma> m)"
    using PushBackToSendWnd_ok [OF core sock ids free bg] by blast
  have "waiting w' = {#}" using empty w'(7) by (simp add: waiting_def)
  moreover from this have "wnd_inv w'" using w' by (simp add: wnd_inv_def)
  moreover have "all_refs w' \<subseteq> insert msg (all_refs w)"
    using w' \<open>waiting w' = {#}\<close> by (auto simp: all_refs_def)
  then have "have_socket \<sigma>' (all_refs w')"
    using sock have_socket_subset have_socket_cong [of \<sigma>' \<sigma>] w'(10) by blast
  ultimately show ?thesis
    using run w' queues empty new free by (simp add: sw_PushBack_def)
qed

lemma PushBack_wait:
  assumes inv: "wnd_inv w" and sock: "have_socket \<sigma> (insert msg (all_refs w))"
    and new: "has_flag (msg_GetFlag (\<sigma> msg)) msg_with_out_id"
    and full: "sw_send_wnd_size w \<le> sw_cur_send_size w"
  shows "\<exists>w'. sw_PushBack bg (Some msg) \<sigma> w = Some (\<sigma>, w', []) \<and> wnd_inv w' \<and>
    have_socket \<sigma> (all_refs w') \<and> sw_send_wnd_size w' = sw_send_wnd_size w \<and>
    sw_cur_send_size w' = sw_cur_send_size w \<and> in_flight w' = in_flight w \<and>
    waiting w' = waiting w + (if msg_class \<sigma> msg = None then {#} else {#msg#})"
proof -
  let ?w = "w\<lparr>sw_priority_queue := pq_PushBack \<sigma> msg (sw_priority_queue w)\<rparr>"
  have w: "waiting ?w = waiting w + (if msg_class \<sigma> msg = None then {#} else {#msg#})"
    using PushBack_content [of \<sigma> msg "sw_priority_queue w"] by (simp add: waiting_def)
  have "wnd_inv ?w"
    using inv full by (simp add: wnd_inv_def wnd_core_def pri_inv_steps)
  moreover have "all_refs ?w \<subseteq> insert msg (all_refs w)"
    by (auto simp: all_refs_def w in_flight_def split: if_splits)
  then have "have_socket \<sigma> (all_refs ?w)" using sock have_socket_subset by blast
  ultimately show ?thesis
    using w new full by (simp add: sw_PushBack_def in_flight_def)
qed

lemma ChangeSendWndSize_ok:
  assumes inv: "wnd_inv w" and sock: "have_socket \<sigma> (all_refs w)"
    and ids: "ids_free (unat n - unat (sw_cur_send_size w)) w" and bg: "begin_ok bg"
  shows "\<exists>new \<sigma>' w' calls. ChangeSendWndSize bg n \<sigma> w = Some (\<sigma>', w', calls) \<and> wnd_inv w' \<and>
    have_socket \<sigma>' (all_refs w') \<and> sw_send_wnd_size w' = n \<and>
    in_flight w' = in_flight w + mset new \<and> waiting w = waiting w' + mset new \<and>
    sends calls = new \<and> acks calls = [] \<and>
    unat (sw_cur_send_size w') = unat (sw_cur_send_size w) + length new"
proof (cases "sw_send_wnd_size w = n")
  case True
  then show ?thesis
    using inv sock by (intro exI [of _ "[]"]) (simp add: ChangeSendWndSize_def)
next
  case False
  let ?w = "w\<lparr>sw_send_wnd_size := n\<rparr>"
  have core: "wnd_core ?w" "sw_send_queue w = []" "sw_ack_queue w = []"
    using inv by (simp_all add: wnd_inv_def wnd_core_def)
  have same: "in_flight ?w = in_flight w" "waiting ?w = waiting w" "all_refs ?w = all_refs w"
    by (simp_all add: in_flight_def waiting_def all_refs_def)
  have "ids_free (room ?w) ?w" using ids by (simp add: room_def ids_free_def)
  then obtain new \<sigma>1 w1 calls where run: "SendNext bg \<sigma> ?w = Some (\<sigma>1, w1, calls)"
    and new: "sent_next new \<sigma> ?w \<sigma>1 w1 calls"
    using SendNext_ok [OF core(1) _ _ bg, of \<sigma>] sock same by auto
  let ?w2 = "w1\<lparr>sw_send_queue := [], sw_ack_queue := []\<rparr>"
  have "have_socket \<sigma>1 (all_refs w1)" using new by (simp add: sent_next_def)
  then have "have_socket \<sigma>1 (set (sw_send_queue w1 @ sw_ack_queue w1))" "have_socket \<sigma>1 (all_refs ?w2)"
    by (rule have_socket_subset, auto simp: all_refs_def in_flight_def waiting_def)+
  moreover have "wnd_inv ?w2"
    using new by (simp add: wnd_inv_def sent_next_def wnd_core_def waiting_def)
  ultimately show ?thesis
    using run new False same core SendAndAck_ok [of \<sigma>1 w1]
    by (intro exI [of _ new] exI [of _ \<sigma>1] exI [of _ ?w2])
      (simp add: ChangeSendWndSize_def sent_next_def in_flight_def waiting_def)
qed

section \<open>Runs of a window\<close>

text \<open>
  A push that the window refuses: of a message that has a number already, or, when the window is full, of
  one without a class, which the priority queue drops.
\<close>

definition refused :: "store \<Rightarrow> send_wnd \<Rightarrow> msg_ref \<Rightarrow> bool" where
  "refused \<sigma> w msg \<longleftrightarrow> \<not> has_flag (msg_GetFlag (\<sigma> msg)) msg_with_out_id \<or>
     msg_class \<sigma> msg = None \<and> sw_send_wnd_size w \<le> sw_cur_send_size w"

text \<open>
  One step: the socket pushes a message, a number is acknowledged, the window is resized, or the rest
  of the program writes to messages without detaching them from their socket. The labels are the
  messages pushed, those of them refused, and the calls made. Numbers are not used again while they
  are in flight (\<open>ids_free\<close>), and a message that is pushed has a socket.
\<close>

inductive wnd_step ::
  "map_begin \<Rightarrow> store \<times> send_wnd \<Rightarrow> msg_ref list \<Rightarrow> msg_ref list \<Rightarrow> wnd_call list \<Rightarrow> store \<times> send_wnd \<Rightarrow> bool"
  for bg :: map_begin
where
  step_push: "sw_PushBack bg (Some msg) \<sigma> w = Some (\<sigma>', w', calls) \<Longrightarrow>
     m_socket (\<sigma> msg) \<noteq> None \<Longrightarrow> ids_free (Suc (room w)) w \<Longrightarrow>
     wnd_step bg (\<sigma>, w) [msg] (if refused \<sigma> w msg then [msg] else []) calls (\<sigma>', w')"
| step_ack: "AcceptAck bg i \<sigma> w = Some (n, \<sigma>', w', calls) \<Longrightarrow> ids_free (Suc (room w)) w \<Longrightarrow>
     wnd_step bg (\<sigma>, w) [] [] calls (\<sigma>', w')"
| step_resize: "ChangeSendWndSize bg sz \<sigma> w = Some (\<sigma>', w', calls) \<Longrightarrow>
     ids_free (unat sz - unat (sw_cur_send_size w)) w \<Longrightarrow> wnd_step bg (\<sigma>, w) [] [] calls (\<sigma>', w')"
| step_store: "(\<And>m. m_socket (\<sigma>' m) = m_socket (\<sigma> m)) \<Longrightarrow> wnd_step bg (\<sigma>, w) [] [] [] (\<sigma>', w)"

inductive_cases wnd_stepE: "wnd_step bg (\<sigma>, w) ms lost calls (\<sigma>', w')"

inductive wnd_run ::
  "map_begin \<Rightarrow> store \<times> send_wnd \<Rightarrow> msg_ref list \<Rightarrow> msg_ref list \<Rightarrow> wnd_call list \<Rightarrow> store \<times> send_wnd \<Rightarrow> bool"
  for bg :: map_begin
where
  run_refl: "wnd_run bg s [] [] [] s"
| run_step: "wnd_run bg s ms lost calls s' \<Longrightarrow> wnd_step bg s' ms' lost' calls' s'' \<Longrightarrow>
     wnd_run bg s (ms @ ms') (lost @ lost') (calls @ calls') s''"

definition wnd_state_ok :: "store \<times> send_wnd \<Rightarrow> bool" where
  "wnd_state_ok s \<longleftrightarrow> wnd_inv (snd s) \<and> have_socket (fst s) (all_refs (snd s))"

text \<open>Messages in the custody of the window.\<close>

definition held :: "send_wnd \<Rightarrow> msg_ref multiset" where
  "held w = in_flight w + waiting w"

definition step_accounts ::
  "msg_ref multiset \<Rightarrow> msg_ref multiset \<Rightarrow> msg_ref list \<Rightarrow> msg_ref list \<Rightarrow> wnd_call list \<Rightarrow> send_wnd \<Rightarrow> send_wnd \<Rightarrow> bool"
where
  "step_accounts fl fl' ms lost calls w w' \<longleftrightarrow>
     held w + mset ms = held w' + mset (acks calls) + mset lost \<and>
     fl' + mset (acks calls) \<subseteq># fl + mset (sends calls)"

lemma wnd_step_ok:
  assumes step: "wnd_step bg s ms lost calls s'" and ok: "wnd_state_ok s" and bg: "begin_ok bg"
  shows "wnd_state_ok s' \<and> step_accounts (in_flight (snd s)) (in_flight (snd s')) ms lost calls (snd s) (snd s')"
  using step ok
proof cases
  case (step_push msg \<sigma> w \<sigma>' w')
  have inv: "wnd_inv w" and sock: "have_socket \<sigma> (insert msg (all_refs w))"
    using ok step_push by (auto simp: wnd_state_ok_def have_socket_def)
  show ?thesis
  proof (cases "has_flag (msg_GetFlag (\<sigma> msg)) msg_with_out_id")
    case False
    then show ?thesis
      using step_push ok by (simp add: sw_PushBack_def refused_def wnd_state_ok_def step_accounts_def held_def)
  next
    case new: True
    show ?thesis
    proof (cases "sw_cur_send_size w < sw_send_wnd_size w")
      case True
      then have "\<not> refused \<sigma> w msg" using new by (auto simp: refused_def)
      then show ?thesis
        using PushBack_direct [OF inv sock step_push(7) bg new True] step_push
        by (auto simp: wnd_state_ok_def step_accounts_def held_def)
    next
      case False
      then have full: "sw_send_wnd_size w \<le> sw_cur_send_size w" by simp
      then have "refused \<sigma> w msg \<longleftrightarrow> msg_class \<sigma> msg = None" using new by (simp add: refused_def)
      with PushBack_wait [OF inv sock new full, of bg] show ?thesis
        using step_push by (auto simp: wnd_state_ok_def step_accounts_def held_def split: if_splits)
    qed
  qed
next
  case (step_ack i \<sigma> w n \<sigma>' w')
  have inv: "wnd_inv w" and sock: "have_socket \<sigma> (all_refs w)"
    using ok step_ack by (auto simp: wnd_state_ok_def)
  show ?thesis
  proof (cases "map_of (sw_id_msg_map w) i")
    case None
    then show ?thesis
      using step_ack ok AcceptAck_repeat [OF None] by (simp add: step_accounts_def held_def)
  next
    case (Some msg)
    from AcceptAck_ok [OF inv sock step_ack(6) bg Some] obtain new \<sigma>1 w1 calls1 where
      "AcceptAck bg i \<sigma> w = Some (msg_GetEstimateSize (\<sigma> msg), \<sigma>1, w1, calls1)"
      "wnd_inv w1" "have_socket \<sigma>1 (all_refs w1)" and
      acc: "add_mset msg (in_flight w1) = in_flight w + mset new" "waiting w = waiting w1 + mset new"
        "sends calls1 = sw_send_queue (quick_resend (take_ack bg i msg w)) @ new" "acks calls1 = [msg]"
      by blast
    moreover have "step_accounts (in_flight w) (in_flight w1) [] [] calls1 w w1"
      using acc by (simp add: step_accounts_def held_def)
    ultimately show ?thesis
      using step_ack by (simp add: wnd_state_ok_def)
  qed
next
  case (step_resize sz \<sigma> w \<sigma>' w')
  have inv: "wnd_inv w" and sock: "have_socket \<sigma> (all_refs w)"
    using ok step_resize by (auto simp: wnd_state_ok_def)
  from ChangeSendWndSize_ok [OF inv sock step_resize(6) bg] show ?thesis
    using step_resize by (auto simp: wnd_state_ok_def step_accounts_def held_def)
next
  case (step_store \<sigma>' \<sigma> w)
  then show ?thesis
    using ok have_socket_cong [of \<sigma>' \<sigma>] by (simp add: wnd_state_ok_def step_accounts_def held_def)
qed

lemma wnd_init_ok: "wnd_state_ok (\<sigma>, CSendWndImpl r n CPriorityQueueImpl False)"
proof -
  let ?w = "CSendWndImpl r n CPriorityQueueImpl False"
  have "pq_content CPriorityQueueImpl = []" by (simp add: pq_content_def CPriorityQueueImpl_def)
  then have "in_flight ?w = {#}" "waiting ?w = {#}"
    by (simp_all add: in_flight_def waiting_def CSendWndImpl_def)
  moreover from this have "all_refs ?w = {}" by (simp add: all_refs_def CSendWndImpl_def)
  ultimately show ?thesis
    by (simp add: wnd_state_ok_def wnd_inv_def wnd_core_def start_ok_def CSendWndImpl_def
        pri_inv_steps have_socket_def)
qed

lemma wnd_init_held: "held (CSendWndImpl r n CPriorityQueueImpl b) = {#}"
  by (simp add: held_def in_flight_def waiting_def CSendWndImpl_def pq_content_def CPriorityQueueImpl_def)

lemma wnd_run_ok:
  assumes "wnd_run bg s ms lost calls s'" and "wnd_state_ok s" and "begin_ok bg"
  shows "wnd_state_ok s' \<and> held (snd s) + mset ms = held (snd s') + mset (acks calls) + mset lost \<and>
    in_flight (snd s') + mset (acks calls) \<subseteq># in_flight (snd s) + mset (sends calls)"
  using assms
proof (induction rule: wnd_run.induct)
  case (run_step s ms lost calls s' ms' lost' calls' s'')
  have IH: "wnd_state_ok s'" "held (snd s) + mset ms = held (snd s') + mset (acks calls) + mset lost"
    "in_flight (snd s') + mset (acks calls) \<subseteq># in_flight (snd s) + mset (sends calls)"
    using run_step by simp_all
  have step: "wnd_state_ok s''" "held (snd s') + mset ms' = held (snd s'') + mset (acks calls') + mset lost'"
    "in_flight (snd s'') + mset (acks calls') \<subseteq># in_flight (snd s') + mset (sends calls')"
    using wnd_step_ok [OF run_step(2) IH(1) run_step.prems(2)] by (simp_all add: step_accounts_def)
  have "held (snd s) + mset (ms @ ms') = (held (snd s) + mset ms) + mset ms'" by (simp add: union_assoc)
  also have "\<dots> = held (snd s') + mset ms' + (mset (acks calls) + mset lost)"
    unfolding IH(2) by (simp add: union_assoc union_commute union_lcomm)
  also have "\<dots> = held (snd s'') + mset (acks (calls @ calls')) + mset (lost @ lost')"
    unfolding step(2) by (simp add: union_assoc union_commute union_lcomm)
  finally have "held (snd s) + mset (ms @ ms') = held (snd s'') + mset (acks (calls @ calls')) + mset (lost @ lost')" .
  moreover have "in_flight (snd s'') + mset (acks (calls @ calls')) \<subseteq>#
      in_flight (snd s) + mset (sends (calls @ calls'))"
  proof -
    have "in_flight (snd s'') + mset (acks (calls @ calls')) =
        in_flight (snd s'') + mset (acks calls') + mset (acks calls)"
      by (simp add: union_assoc union_commute)
    also have "\<dots> \<subseteq># in_flight (snd s') + mset (sends calls') + mset (acks calls)"
      using step(3) by (rule subset_mset.add_right_mono)
    also have "\<dots> = in_flight (snd s') + mset (acks calls) + mset (sends calls')"
      by (simp add: union_assoc union_commute)
    also have "\<dots> \<subseteq># in_flight (snd s) + mset (sends calls) + mset (sends calls')"
      using IH(3) by (rule subset_mset.add_right_mono)
    finally show ?thesis by (simp add: union_assoc)
  qed
  ultimately show ?case using step(1) by simp
qed simp

section \<open>Properties\<close>

definition sample_store :: store where
  "sample_store = (\<lambda>r. msg_SetFlag msg_send (msg_SetSocket ''peer'' (msg_SetHeaderFlag HTF_RELIABLE CMsgImpl)))"

lemma sample_store_simps: "m_socket (sample_store r) = Some ''peer''"
  "has_flag (msg_GetFlag (sample_store r)) msg_with_out_id" "msg_class sample_store r = Some Low"
  by (simp_all add: sample_store_def msg_SetFlag_def msg_SetSocket_def msg_SetHeaderFlag_def CMsgImpl_def
      SetFlag_def Head_def msg_GetFlag_def local_flag_defs has_flag_def msg_class_def class_of_flag_def)

text \<open>
  C2. The send window neither loses nor duplicates a message it does not refuse, whatever the order of
  pushes, acknowledgements (expected, repeated or unknown), resizings and changes of the messages:
  in every run of a new window the messages pushed are those in flight, those waiting, those
  reported as acknowledged and those refused, each as often as it was pushed; every message in flight
  or acknowledged has been handed to the socket for sending; and the window is in order again
  (\<open>wnd_inv\<close>: at most as many numbers as the counter says, the start of the window among the messages
  in flight, no call left over, a message waiting only in a full window). Refused are messages that
  have a number already, and messages without a priority class while the window is full.
\<close>

theorem send_wnd_conservation:
  assumes "wnd_run bg (\<sigma>, CSendWndImpl r n CPriorityQueueImpl False) ms lost calls (\<sigma>', w')" and "begin_ok bg"
  shows "mset ms = in_flight w' + waiting w' + mset (acks calls) + mset lost \<and>
    in_flight w' + mset (acks calls) \<subseteq># mset (sends calls) \<and> wnd_inv w'"
proof -
  have "in_flight (CSendWndImpl r n CPriorityQueueImpl False) = {#}"
    using wnd_init_held [of r n False] by (simp add: held_def)
  then show ?thesis
    using wnd_run_ok [OF assms(1) wnd_init_ok assms(2)]
    by (simp add: wnd_init_held wnd_state_ok_def) (simp add: held_def)
qed

lemma begin_ok_hd: "begin_ok hd"
  by (simp add: begin_ok_def)

lemma sample_push:
  "sw_PushBack hd (Some 3) sample_store (CSendWndImpl 10 1 CPriorityQueueImpl False) =
     Some (sample_store(3 := msg_SetId 11 (sample_store 3)),
       (CSendWndImpl 10 1 CPriorityQueueImpl False)\<lparr>sw_start := Some 3, sw_cur_send_size := 1,
         sw_incremental_id := \<lparr>cur_id = 11\<rparr>, sw_id_msg_map := [(11, 3)]\<rparr>, [CallToSend 3])"
  using sample_store_simps(1) [of 3] sample_store_simps(2) [of 3]
  by (simp add: sw_PushBack_def CSendWndImpl_def PushBackToSendWnd_def GetNextId_def CIncrementalId_def
      AddToEnd_def msg_GetId_set SendAndAck_def Let_def)

lemma sample_run:
  "wnd_run hd (sample_store, CSendWndImpl 10 1 CPriorityQueueImpl False) [3] [] [CallToSend 3]
     (sample_store(3 := msg_SetId 11 (sample_store 3)),
      (CSendWndImpl 10 1 CPriorityQueueImpl False)\<lparr>sw_start := Some 3, sw_cur_send_size := 1,
        sw_incremental_id := \<lparr>cur_id = 11\<rparr>, sw_id_msg_map := [(11, 3)]\<rparr>)"
proof -
  let ?w = "CSendWndImpl 10 1 CPriorityQueueImpl False"
  have "ids_free (Suc (room ?w)) ?w"
    by (simp add: ids_free_def room_def CSendWndImpl_def)
  moreover have "\<not> refused sample_store ?w 3"
    using sample_store_simps by (simp add: refused_def)
  ultimately have "wnd_step hd (sample_store, ?w) [3] [] [CallToSend 3] (sample_store(3 := msg_SetId 11 (sample_store 3)),
      ?w\<lparr>sw_start := Some 3, sw_cur_send_size := 1, sw_incremental_id := \<lparr>cur_id = 11\<rparr>,
         sw_id_msg_map := [(11, 3)]\<rparr>)"
    using step_push [OF sample_push] sample_store_simps by simp
  from run_step [OF run_refl this] show ?thesis by simp
qed

definition sample_wnd :: send_wnd where
  "sample_wnd = (CSendWndImpl 10 1 CPriorityQueueImpl False)\<lparr>sw_start := Some 3, sw_cur_send_size := 1,
     sw_incremental_id := \<lparr>cur_id = 11\<rparr>, sw_id_msg_map := [(11, 3)],
     sw_priority_queue := CPriorityQueueImpl\<lparr>pq_low := [4]\<rparr>\<rparr>"

lemma sample_run_full:
  "wnd_run hd (sample_store, CSendWndImpl 10 1 CPriorityQueueImpl False) [3, 4] [] [CallToSend 3]
     (sample_store(3 := msg_SetId 11 (sample_store 3)), sample_wnd)"
proof -
  let ?\<sigma> = "sample_store(3 := msg_SetId 11 (sample_store 3))"
  let ?w = "(CSendWndImpl 10 1 CPriorityQueueImpl False)\<lparr>sw_start := Some 3, sw_cur_send_size := 1,
        sw_incremental_id := \<lparr>cur_id = 11\<rparr>, sw_id_msg_map := [(11, 3)]\<rparr>"
  have flags: "has_flag (msg_GetFlag (?\<sigma> 4)) msg_with_out_id" "msg_class ?\<sigma> 4 = Some Low"
    "m_socket (?\<sigma> 4) \<noteq> None"
    using sample_store_simps by (simp_all add: msg_class_def)
  have low: "pq_PushBack ?\<sigma> 4 CPriorityQueueImpl = CPriorityQueueImpl\<lparr>pq_low := [4]\<rparr>"
    by (simp add: sample_store_def pq_PushBack_def msg_SetFlag_def msg_SetSocket_def msg_SetHeaderFlag_def
        CMsgImpl_def SetFlag_def Head_def msg_GetFlag_def local_flag_defs head_flag_defs has_flag_def CPriorityQueueImpl_def
        Let_def)
  have "sw_PushBack hd (Some 4) ?\<sigma> ?w = Some (?\<sigma>, sample_wnd, [])"
    using flags by (auto simp: sw_PushBack_def sample_wnd_def CSendWndImpl_def low)
  moreover have "ids_free (Suc (room ?w)) ?w"
    by (simp add: ids_free_def room_def CSendWndImpl_def)
  moreover have "\<not> refused ?\<sigma> ?w 4" using flags by (simp add: refused_def)
  ultimately have "wnd_step hd (?\<sigma>, ?w) [4] [] [] (?\<sigma>, sample_wnd)"
    using step_push [of hd 4 ?\<sigma> ?w ?\<sigma> sample_wnd "[]"] flags by simp
  from run_step [OF sample_run this] show ?thesis by simp
qed

lemma sample_run_refused:
  "wnd_run hd (sample_store, CSendWndImpl 10 1 CPriorityQueueImpl False) [3, 4, 3] [3] [CallToSend 3]
     (sample_store(3 := msg_SetId 11 (sample_store 3)), sample_wnd)"
proof -
  let ?\<sigma> = "sample_store(3 := msg_SetId 11 (sample_store 3))"
  have f: "\<not> has_flag (msg_GetFlag (?\<sigma> 3)) msg_with_out_id" "m_socket (?\<sigma> 3) \<noteq> None"
    using sample_store_simps(1) by (simp_all add: msg_SetId_def msg_GetFlag_def sample_store_def msg_SetFlag_def
        msg_SetSocket_def msg_SetHeaderFlag_def CMsgImpl_def local_flag_defs has_flag_def)
  then have "sw_PushBack hd (Some 3) ?\<sigma> sample_wnd = Some (?\<sigma>, sample_wnd, [])" by (simp add: sw_PushBack_def)
  moreover have "ids_free (Suc (room sample_wnd)) sample_wnd"
    by (simp add: ids_free_def room_def sample_wnd_def CSendWndImpl_def)
  moreover have "refused ?\<sigma> sample_wnd 3" using f(1) by (simp add: refused_def)
  ultimately have "wnd_step hd (?\<sigma>, sample_wnd) [3] [3] [] (?\<sigma>, sample_wnd)"
    using step_push [of hd 3 ?\<sigma> sample_wnd ?\<sigma> sample_wnd "[]"] f(2) by simp
  from run_step [OF sample_run_full this] show ?thesis by simp
qed

theorem send_wnd_conservation_witness:
  "{#3, 4, 3#} = in_flight sample_wnd + waiting sample_wnd + {#3#} \<and> wnd_inv sample_wnd"
  using send_wnd_conservation [OF sample_run_refused begin_ok_hd] by simp

text \<open>
  C26. The window is used to the full and nothing is undefined: after every run of a new window
  each message of it has its socket, no call is left over, and a message waits only while at least
  as many messages as the window admits are unacknowledged.
\<close>

theorem send_wnd_work_conserving:
  assumes "wnd_run bg (\<sigma>, CSendWndImpl r n CPriorityQueueImpl False) ms lost calls (\<sigma>', w')" and "begin_ok bg"
  shows "have_socket \<sigma>' (all_refs w') \<and> sw_send_queue w' = [] \<and> sw_ack_queue w' = [] \<and>
    (waiting w' \<noteq> {#} \<longrightarrow> GetWndSize w' \<le> sw_cur_send_size w')"
  using wnd_run_ok [OF assms(1) wnd_init_ok assms(2)]
  by (auto simp: wnd_state_ok_def wnd_inv_def GetWndSize_def)

theorem send_wnd_work_conserving_witness:
  "waiting sample_wnd = {#4#} \<and> GetWndSize sample_wnd \<le> sw_cur_send_size sample_wnd"
proof -
  have "waiting sample_wnd = {#4#}"
    by (simp add: waiting_def pq_content_def sample_wnd_def CSendWndImpl_def CPriorityQueueImpl_def)
  then show ?thesis
    using send_wnd_work_conserving [OF sample_run_full begin_ok_hd] by simp
qed

text \<open>
  C27. An acknowledgement of a number in flight ends that message: its estimated size is returned,
  it leaves the window, \<open>AckDone\<close> is called for it alone; what is sent is, first, the window's start
  if this was the third acknowledgement in a row that was not for the start, and then waiting
  messages while there is room.
\<close>

theorem AcceptAck_known:
  assumes inv: "wnd_inv w" and sock: "have_socket \<sigma> (all_refs w)" and ids: "ids_free (Suc (room w)) w"
    and bg: "begin_ok bg" and known: "map_of (sw_id_msg_map w) i = Some msg"
  shows "\<exists>resent new \<sigma>' w' calls.
    AcceptAck bg i \<sigma> w = Some (msg_GetEstimateSize (\<sigma> msg), \<sigma>', w', calls) \<and> wnd_inv w' \<and>
    add_mset msg (in_flight w') = in_flight w + mset new \<and> waiting w = waiting w' + mset new \<and>
    acks calls = [msg] \<and> sends calls = resent @ new \<and>
    resent = (if sw_start w \<noteq> Some msg \<and> 3 \<le> sw_out_of_order_count w + 1 \<and>
                 omap_erase i (sw_id_msg_map w) \<noteq> []
              then [snd (bg (omap_erase i (sw_id_msg_map w)))] else []) \<and>
    Suc (unat (sw_cur_send_size w')) = unat (sw_cur_send_size w) + length new"
proof -
  have "sw_send_queue w = []" using inv by (simp add: wnd_inv_def)
  moreover have "sw_out_of_order_count (take_ack bg i msg w) =
      (if Some msg = sw_start w then 0 else sw_out_of_order_count w + 1)"
    and "sw_start (take_ack bg i msg w) = (if omap_erase i (sw_id_msg_map w) \<noteq> []
      then Some (snd (bg (omap_erase i (sw_id_msg_map w)))) else None)"
    by (simp_all add: take_ack_def Let_def)
  ultimately have "sw_send_queue (quick_resend (take_ack bg i msg w)) =
      (if sw_start w \<noteq> Some msg \<and> 3 \<le> sw_out_of_order_count w + 1 \<and>
          omap_erase i (sw_id_msg_map w) \<noteq> []
       then [snd (bg (omap_erase i (sw_id_msg_map w)))] else [])"
    by (auto simp: quick_resend_queue quick_resend_limit_def)
  then show ?thesis
    using AcceptAck_ok [OF assms] by metis
qed

lemma sample_wnd_ok: "wnd_inv sample_wnd" "have_socket sample_store (all_refs sample_wnd)"
  "ids_free (Suc (room sample_wnd)) sample_wnd"
proof -
  have "pri_inv (CPriorityQueueImpl\<lparr>pq_low := [4]\<rparr>)"
    by (simp add: pri_inv_def CPriorityQueueImpl_def pri_surplus_def)
  then show "wnd_inv sample_wnd"
    by (simp add: wnd_inv_def wnd_core_def start_ok_def sample_wnd_def CSendWndImpl_def)
  show "have_socket sample_store (all_refs sample_wnd)"
    by (simp add: have_socket_def sample_store_simps)
  show "ids_free (Suc (room sample_wnd)) sample_wnd"
    by (simp add: ids_free_def room_def sample_wnd_def CSendWndImpl_def)
qed

theorem AcceptAck_known_witness:
  "\<exists>\<sigma>' w' calls new. AcceptAck hd 11 sample_store sample_wnd =
     Some (msg_GetEstimateSize (sample_store 3), \<sigma>', w', calls) \<and>
     acks calls = [3] \<and> sends calls = new \<and> {#4#} = waiting w' + mset new"
proof -
  have "map_of (sw_id_msg_map sample_wnd) 11 = Some 3" "omap_erase 11 (sw_id_msg_map sample_wnd) = []"
    "waiting sample_wnd = {#4#}"
    by (simp_all add: sample_wnd_def omap_erase_def waiting_def pq_content_def CPriorityQueueImpl_def)
  then show ?thesis
    using AcceptAck_known [OF sample_wnd_ok begin_ok_hd, of 11 3] by fastforce
qed

text \<open>
  A repeated acknowledgement, or one for a number that is not in flight, changes nothing, calls
  nobody and reports no bytes.
\<close>

theorem AcceptAck_unknown:
  assumes "i \<notin> fst ` set (sw_id_msg_map w)"
  shows "AcceptAck bg i \<sigma> w = Some (0, \<sigma>, w, [])"
  using assms by (intro AcceptAck_repeat) (simp add: map_of_eq_None_iff)

theorem AcceptAck_unknown_witness:
  "AcceptAck hd 12 sample_store sample_wnd = Some (0, sample_store, sample_wnd, [])"
  using AcceptAck_unknown [of 12 sample_wnd hd sample_store] by (simp add: sample_wnd_def)

text \<open>
  The window of unreliable orderly messages (\<open>always_send\<close>) keeps every message it sends: the
  number goes into the map, from which only an acknowledgement removes it, the counter stays, and
  the receiver never acknowledges such messages.
\<close>

theorem always_send_keeps_messages:
  assumes "sw_always_send w" and "m_socket (\<sigma> msg) \<noteq> None" and "sw_send_queue w = []" and "sw_ack_queue w = []"
    and "cur_id (sw_incremental_id w) + 1 \<notin> fst ` set (sw_id_msg_map w)"
  shows "\<exists>\<sigma>' w'. PushBackToSendWnd bg msg \<sigma> w = Some (\<sigma>', w', [CallToSend msg]) \<and>
    in_flight w' = add_mset msg (in_flight w) \<and> sw_cur_send_size w' = sw_cur_send_size w"
  using assms omap_insert_fresh [OF assms(5), of msg]
  by (auto simp: PushBackToSendWnd_def GetNextId_def AddToEnd_def SendAndAck_def omap_insert_again
      msg_GetId_set in_flight_def Let_def)

theorem always_send_keeps_messages_witness:
  "\<exists>\<sigma>' w'. PushBackToSendWnd hd 3 sample_store (CSendWndImpl 10 6 CPriorityQueueImpl True) =
     Some (\<sigma>', w', [CallToSend 3]) \<and> in_flight w' = {#3#} \<and> sw_cur_send_size w' = 0"
  using always_send_keeps_messages [of "CSendWndImpl 10 6 CPriorityQueueImpl True" sample_store 3 hd]
  by (simp add: CSendWndImpl_def sample_store_simps in_flight_def)

end
