(* ===== verification/Order_List.thy ===== *)
theory Order_List
  imports Msg_Impl
begin

text \<open>
  \<^verbatim>\<open>common/OrderListImpl.cpp\<close>: the three receive lists. \<open>Insert\<close> returns its code (0 taken, 1
  repeated, 2 too many discarded), the new state and the messages it passes to \<open>ToRecv\<close> of their
  socket, in order; \<open>None\<close> is a call through a null socket pointer. Arrays of 256 slots are
  functions from the index, which \<open>HashFunc\<close> keeps below 256.
\<close>

section \<open>State and operations\<close>

definition HashFunc :: "u16 \<Rightarrow> u16" where
  "HashFunc i = i AND (msx_cache_msg_num - 1)"

text \<open>The test for a message that is too far away; the operands are promoted to \<open>int\<close>.\<close>

definition too_far :: "u16 \<Rightarrow> u16 \<Rightarrow> bool" where
  "too_far i expect \<longleftrightarrow>
     \<bar>uint i - uint expect\<bar> > uint max_compare_num \<or>
     (uint expect > uint max_id - uint max_compare_num div 2 \<and> uint i < uint max_compare_num div 2)"

definition to_recv :: "store \<Rightarrow> msg_ref list \<Rightarrow> 's \<Rightarrow> u16 \<Rightarrow> (u16 \<times> 's \<times> msg_ref list) option" where
  "to_recv \<sigma> ms s r = (if \<forall>m \<in> set ms. m_socket (\<sigma> m) \<noteq> None then Some (r, s, ms) else None)"

record reliable_orderly_list =
  ro_expect_id :: u16
  ro_discard_msg_count :: u16
  ro_order_list :: "u16 \<Rightarrow> msg_ref option"
  ro_recv_list :: "msg_ref list"

definition CReliableOrderlyList :: "u16 \<Rightarrow> reliable_orderly_list" where
  "CReliableOrderlyList start_id = \<lparr>ro_expect_id = start_id, ro_discard_msg_count = 0,
     ro_order_list = (\<lambda>_. None), ro_recv_list = []\<rparr>"

definition ro_Clear :: "reliable_orderly_list \<Rightarrow> reliable_orderly_list" where
  "ro_Clear l = l\<lparr>ro_order_list := (\<lambda>_. None), ro_recv_list := []\<rparr>"

text \<open>The inner loop of \<open>Insert\<close>; it ends because every turn empties a slot.\<close>

function ro_drain ::
  "(u16 \<Rightarrow> msg_ref option) \<Rightarrow> u16 \<Rightarrow> u16 \<Rightarrow> msg_ref list \<Rightarrow> (u16 \<Rightarrow> msg_ref option) \<times> u16 \<times> msg_ref list"
where
  "ro_drain slots index expect recv =
     (case slots index of
        None \<Rightarrow> (slots, expect, recv)
      | Some m \<Rightarrow>
          ro_drain (slots(index := None)) (if index + 1 \<ge> msx_cache_msg_num then 0 else index + 1)
            (expect + 1) (recv @ [m]))"
  by pat_completeness auto

termination
proof (relation "measure (\<lambda>(slots, _, _, _). card {i. slots i \<noteq> None})")
  fix slots :: "u16 \<Rightarrow> msg_ref option" and index expect recv m
  assume "slots index = Some m"
  then have "{i. (slots(index := None)) i \<noteq> None} \<subset> {i. slots i \<noteq> None}"
    by (auto simp: fun_upd_def)
  then have "card {i. (slots(index := None)) i \<noteq> None} < card {i. slots i \<noteq> None}"
    by (simp add: psubset_card_mono)
  then show "((slots(index := None), if msx_cache_msg_num \<le> index + 1 then 0 else index + 1,
      expect + 1, recv @ [m]), slots, index, expect, recv)
    \<in> measure (\<lambda>(slots, _, _, _). card {i. slots i \<noteq> None})"
    by simp
qed simp

declare ro_drain.simps [simp del]

definition ro_Insert ::
  "store \<Rightarrow> msg_ref \<Rightarrow> reliable_orderly_list \<Rightarrow> (u16 \<times> reliable_orderly_list \<times> msg_ref list) option"
where
  "ro_Insert \<sigma> msg l =
     (let i = msg_GetId (\<sigma> msg); index = HashFunc i in
      if too_far i (ro_expect_id l) then
        (let l1 = l\<lparr>ro_discard_msg_count := ro_discard_msg_count l + 1\<rparr> in
         Some (if ro_discard_msg_count l1 \<ge> msg_discard_limit then 2 else 0, l1, []))
      else if i \<noteq> ro_expect_id l \<and> ro_order_list l index \<noteq> None then Some (1, l, [])
      else
        (let l1 = (if i = ro_expect_id l then
                     (let (slots, expect, recv) =
                            ro_drain ((ro_order_list l)(index := Some msg)) index (ro_expect_id l)
                              (ro_recv_list l) in
                      l\<lparr>ro_order_list := slots, ro_expect_id := expect, ro_recv_list := recv\<rparr>)
                   else l\<lparr>ro_order_list := (ro_order_list l)(index := Some msg)\<rparr>) in
         to_recv \<sigma> (ro_recv_list l1) (l1\<lparr>ro_recv_list := []\<rparr>) 0))"

record reliable_list =
  rl_expect_id :: u16
  rl_discard_msg_count :: u16
  rl_order_list :: "u16 \<Rightarrow> u16"

definition CReliableList :: "u16 \<Rightarrow> reliable_list" where
  "CReliableList start_id = \<lparr>rl_expect_id = start_id, rl_discard_msg_count = 0, rl_order_list = (\<lambda>_. 0)\<rparr>"

definition rl_Insert :: "store \<Rightarrow> msg_ref \<Rightarrow> reliable_list \<Rightarrow> (u16 \<times> reliable_list \<times> msg_ref list) option" where
  "rl_Insert \<sigma> msg l =
     (let i = msg_GetId (\<sigma> msg); index = HashFunc i in
      if rl_order_list l index = i then Some (1, l, [])
      else to_recv \<sigma> [msg]
             (l\<lparr>rl_order_list := (rl_order_list l)(index := i), rl_expect_id := i\<rparr>) 0)"

record orderly_list =
  ol_expect_id :: u16
  ol_discard_msg_count :: u16

definition COrderlyList :: "u16 \<Rightarrow> orderly_list" where
  "COrderlyList start_id = \<lparr>ol_expect_id = start_id, ol_discard_msg_count = 0\<rparr>"

definition ol_Insert :: "store \<Rightarrow> msg_ref \<Rightarrow> orderly_list \<Rightarrow> (u16 \<times> orderly_list \<times> msg_ref list) option" where
  "ol_Insert \<sigma> msg l =
     (let i = msg_GetId (\<sigma> msg) in
      if too_far i (ol_expect_id l) then
        (let l1 = l\<lparr>ol_discard_msg_count := ol_discard_msg_count l + 1\<rparr> in
         Some (if ol_discard_msg_count l1 \<ge> msg_discard_limit then 2 else 0, l1, []))
      else if i < ol_expect_id l then Some (0, l, [])
      else to_recv \<sigma> [msg] (l\<lparr>ol_expect_id := i\<rparr>) 0)"

text \<open>A sequence of insertions; the result is the final list and all deliveries, in order.\<close>

fun run_list :: "('s \<Rightarrow> msg_ref \<Rightarrow> (u16 \<times> 's \<times> msg_ref list) option) \<Rightarrow> msg_ref list \<Rightarrow> 's \<Rightarrow> ('s \<times> msg_ref list) option" where
  "run_list ins [] l = Some (l, [])"
| "run_list ins (m # ms) l =
     (case ins l m of
        None \<Rightarrow> None
      | Some (r, l1, out) \<Rightarrow>
          (case run_list ins ms l1 of None \<Rightarrow> None | Some (l2, outs) \<Rightarrow> Some (l2, out @ outs)))"

section \<open>The contract of a receive list\<close>

text \<open>
  What the socket relies on, for each of the three lists: \<open>Insert\<close> is defined as long as the
  messages have their socket, and delivers and keeps only messages that were inserted.
\<close>

locale recv_list =
  fixes insert_msg :: "store \<Rightarrow> msg_ref \<Rightarrow> 's \<Rightarrow> (u16 \<times> 's \<times> msg_ref list) option"
    and stored :: "'s \<Rightarrow> msg_ref set"
  assumes defined: "\<forall>m \<in> insert msg (stored s). m_socket (\<sigma> m) \<noteq> None \<Longrightarrow> insert_msg \<sigma> msg s \<noteq> None"
    and no_invention: "insert_msg \<sigma> msg s = Some (r, s', out) \<Longrightarrow> set out \<union> stored s' \<subseteq> insert msg (stored s)"
    and code: "insert_msg \<sigma> msg s = Some (r, s', out) \<Longrightarrow> r \<in> {0, 1, 2}"
    and rejected: "insert_msg \<sigma> msg s = Some (r, s', out) \<Longrightarrow> r \<noteq> 0 \<Longrightarrow> out = [] \<and> stored s' = stored s"
begin

lemma run_defined:
  "\<forall>m \<in> set ms \<union> stored s. m_socket (\<sigma> m) \<noteq> None \<Longrightarrow> run_list (\<lambda>l m. insert_msg \<sigma> m l) ms s \<noteq> None"
proof (induction ms arbitrary: s)
  case (Cons m ms)
  then obtain r s1 out where 1: "insert_msg \<sigma> m s = Some (r, s1, out)"
    using defined [of m s \<sigma>] by auto
  have "\<forall>x \<in> set ms \<union> stored s1. m_socket (\<sigma> x) \<noteq> None"
    using Cons.prems no_invention [OF 1] by fastforce
  from Cons.IH [OF this] show ?case using 1 by auto
qed simp

lemma run_no_invention:
  "run_list (\<lambda>l m. insert_msg \<sigma> m l) ms s = Some (s', outs) \<Longrightarrow>
   set outs \<union> stored s' \<subseteq> set ms \<union> stored s"
proof (induction ms arbitrary: s s' outs)
  case (Cons m ms)
  then obtain r s1 out outs' where "insert_msg \<sigma> m s = Some (r, s1, out)"
    "run_list (\<lambda>l m. insert_msg \<sigma> m l) ms s1 = Some (s', outs')" "outs = out @ outs'"
    by (auto split: option.splits)
  then show ?case using Cons.IH no_invention by fastforce
qed simp

end

definition filled :: "(u16 \<Rightarrow> msg_ref option) \<Rightarrow> msg_ref set" where
  "filled slots = {m. \<exists>i. slots i = Some m}"

definition ro_stored :: "reliable_orderly_list \<Rightarrow> msg_ref set" where
  "ro_stored l = filled (ro_order_list l) \<union> set (ro_recv_list l)"

lemma filled_update: "filled (slots(i := Some m)) \<subseteq> insert m (filled slots)"
  "filled (slots(i := None)) \<subseteq> filled slots"
  by (auto simp: filled_def split: if_splits)

lemma filled_remove:
  assumes "slots i = Some m" shows "filled slots = insert m (filled (slots(i := None)))"
proof (rule set_eqI)
  fix x
  show "x \<in> filled slots \<longleftrightarrow> x \<in> insert m (filled (slots(i := None)))"
    using assms unfolding filled_def fun_upd_apply
    by (simp only: mem_Collect_eq insert_iff) (metis option.distinct(1) option.inject)
qed

lemma ro_drain_stored:
  "ro_drain slots index expect recv = (slots', expect', recv') \<Longrightarrow>
   filled slots' \<union> set recv' = filled slots \<union> set recv"
proof (induction slots index expect recv rule: ro_drain.induct)
  case (1 slots index expect recv)
  show ?case
  proof (cases "slots index")
    case None
    then show ?thesis using 1(2) by (simp add: ro_drain.simps [of slots])
  next
    case (Some m)
    have "filled slots' \<union> set recv' = filled (slots(index := None)) \<union> set (recv @ [m])"
      by (rule "1.IH" [OF Some]) (use 1(2) Some in \<open>simp add: ro_drain.simps [of slots] fun_upd_def\<close>)
    then show ?thesis
      using filled_remove [of slots index m, OF Some] by simp
  qed
qed

lemma to_recv_None: "to_recv \<sigma> ms s r = None \<longleftrightarrow> (\<exists>m \<in> set ms. m_socket (\<sigma> m) = None)"
  by (auto simp: to_recv_def)

lemma to_recv_Some: "to_recv \<sigma> ms s r = Some (r', s', out) \<longleftrightarrow>
    r' = r \<and> s' = s \<and> out = ms \<and> (\<forall>m \<in> set ms. m_socket (\<sigma> m) \<noteq> None)"
  by (auto simp: to_recv_def)

text \<open>The four ways through \<open>Insert\<close>.\<close>

lemma ro_Insert_far: "too_far (msg_GetId (\<sigma> msg)) (ro_expect_id l) \<Longrightarrow> ro_Insert \<sigma> msg l =
    Some (if ro_discard_msg_count l + 1 \<ge> msg_discard_limit then 2 else 0,
      l\<lparr>ro_discard_msg_count := ro_discard_msg_count l + 1\<rparr>, [])"
  by (simp add: ro_Insert_def Let_def)

lemma ro_Insert_repeat: "\<not> too_far (msg_GetId (\<sigma> msg)) (ro_expect_id l) \<Longrightarrow>
    msg_GetId (\<sigma> msg) \<noteq> ro_expect_id l \<Longrightarrow> ro_order_list l (HashFunc (msg_GetId (\<sigma> msg))) \<noteq> None \<Longrightarrow>
    ro_Insert \<sigma> msg l = Some (1, l, [])"
  by (simp add: ro_Insert_def Let_def)

lemma ro_Insert_keep: "\<not> too_far (msg_GetId (\<sigma> msg)) (ro_expect_id l) \<Longrightarrow>
    msg_GetId (\<sigma> msg) \<noteq> ro_expect_id l \<Longrightarrow> ro_order_list l (HashFunc (msg_GetId (\<sigma> msg))) = None \<Longrightarrow>
    ro_Insert \<sigma> msg l = to_recv \<sigma> (ro_recv_list l)
      (l\<lparr>ro_order_list := (ro_order_list l)(HashFunc (msg_GetId (\<sigma> msg)) := Some msg), ro_recv_list := []\<rparr>) 0"
  by (simp add: ro_Insert_def Let_def)

lemma ro_Insert_expected: "msg_GetId (\<sigma> msg) = ro_expect_id l \<Longrightarrow> \<not> too_far (ro_expect_id l) (ro_expect_id l) \<Longrightarrow>
    ro_drain ((ro_order_list l)(HashFunc (ro_expect_id l) := Some msg)) (HashFunc (ro_expect_id l))
      (ro_expect_id l) (ro_recv_list l) = (slots, expect, recv) \<Longrightarrow>
    ro_Insert \<sigma> msg l = to_recv \<sigma> recv
      (l\<lparr>ro_order_list := slots, ro_expect_id := expect, ro_recv_list := []\<rparr>) 0"
  by (simp add: ro_Insert_def Let_def)

interpretation reliable_orderly: recv_list ro_Insert ro_stored
proof -
  have cases: "(ro_Insert \<sigma> msg l \<noteq> None \<or> (\<exists>m \<in> insert msg (ro_stored l). m_socket (\<sigma> m) = None)) \<and>
    (\<forall>r l' out. ro_Insert \<sigma> msg l = Some (r, l', out) \<longrightarrow> r \<in> {0, 1, 2} \<and>
       set out \<union> ro_stored l' \<subseteq> insert msg (ro_stored l) \<and> (r \<noteq> 0 \<longrightarrow> out = [] \<and> ro_stored l' = ro_stored l))"
    for \<sigma> msg l
  proof -
    let ?i = "msg_GetId (\<sigma> msg)"
    let ?slots = "(ro_order_list l)(HashFunc ?i := Some msg)"
    have up: "filled ?slots \<subseteq> insert msg (filled (ro_order_list l))" by (rule filled_update)
    consider (far) "too_far ?i (ro_expect_id l)"
      | (repeat) "\<not> too_far ?i (ro_expect_id l)" "?i \<noteq> ro_expect_id l" "ro_order_list l (HashFunc ?i) \<noteq> None"
      | (keep) "\<not> too_far ?i (ro_expect_id l)" "?i \<noteq> ro_expect_id l" "ro_order_list l (HashFunc ?i) = None"
      | (expected) "?i = ro_expect_id l" "\<not> too_far (ro_expect_id l) (ro_expect_id l)"
      by metis
    then show ?thesis
    proof cases
      case far
      then show ?thesis by (auto simp: ro_Insert_far ro_stored_def)
    next
      case repeat
      then show ?thesis by (auto simp: ro_Insert_repeat)
    next
      case keep
      show ?thesis
        unfolding ro_Insert_keep [of \<sigma>, OF keep]
        using up by (auto simp: to_recv_None to_recv_Some ro_stored_def)
    next
      case expected
      obtain slots expect recv where d: "ro_drain ((ro_order_list l)(HashFunc (ro_expect_id l) := Some msg))
          (HashFunc (ro_expect_id l)) (ro_expect_id l) (ro_recv_list l) = (slots, expect, recv)"
        using prod_cases3 by blast
      have sub: "filled slots \<subseteq> insert msg (ro_stored l)" "set recv \<subseteq> insert msg (ro_stored l)"
        using ro_drain_stored [OF d] up expected(1) by (auto simp: ro_stored_def)
      let ?l = "l\<lparr>ro_order_list := slots, ro_expect_id := expect, ro_recv_list := []\<rparr>"
      note run = ro_Insert_expected [of \<sigma>, OF expected d]
      show ?thesis
      proof (cases "\<forall>m \<in> set recv. m_socket (\<sigma> m) \<noteq> None")
        case True
        then have "ro_Insert \<sigma> msg l = Some (0, ?l, recv)" unfolding run to_recv_def by (rule if_P)
        moreover have "ro_stored ?l = filled slots" by (simp add: ro_stored_def)
        ultimately show ?thesis using sub by auto
      next
        case False
        then have "ro_Insert \<sigma> msg l = None" unfolding run to_recv_def by (rule if_not_P)
        moreover obtain m where "m \<in> set recv" "m_socket (\<sigma> m) = None"
          using False by auto
        then have "\<exists>m \<in> insert msg (ro_stored l). m_socket (\<sigma> m) = None"
          using sub(2) by (intro bexI [of _ m]) auto
        ultimately show ?thesis by simp
      qed
    qed
  qed
  show "recv_list ro_Insert ro_stored"
    by unfold_locales (use cases in blast)+
qed

interpretation reliable: recv_list rl_Insert "\<lambda>_. {}"
  by unfold_locales (auto simp: rl_Insert_def to_recv_def Let_def split: if_splits)

interpretation orderly: recv_list ol_Insert "\<lambda>_. {}"
  by unfold_locales (auto simp: ol_Insert_def to_recv_def Let_def split: if_splits)

section \<open>Delivery in order\<close>

lemma HashFunc_take_bit: "HashFunc i = take_bit 8 i"
  by (simp add: HashFunc_def msx_cache_msg_num_def take_bit_eq_mask mask_eq_exp_minus_1)

lemma unat_HashFunc: "unat (HashFunc i) = unat i mod 256"
  unfolding HashFunc_take_bit unsigned_take_bit_eq by (simp add: take_bit_eq_mod)

lemma HashFunc_inject:
  assumes "HashFunc a = HashFunc b" and "unat (a - b) < 256"
  shows "a = b"
proof -
  have "unat a mod 256 = unat b mod 256"
    using assms(1) by (metis unat_HashFunc)
  note eq = this
  have sub: "unat (a - b) = (if unat b \<le> unat a then unat a - unat b else unat a + 65536 - unat b)"
    using unat_sub_if' [of a b] by simp
  have "(unat a + 65536) mod 256 = unat b mod 256"
    using eq mod_mult_self2 [of "unat a" 256 256] by simp
  moreover have "unat b \<le> unat a + 65536"
    using unat_u16_less [of b] by linarith
  ultimately have "256 dvd unat a + 65536 - unat b"
    by (simp only: mod_eq_dvd_iff_nat)
  then have "256 dvd unat (a - b)"
    using eq mod_eq_dvd_iff_nat [of "unat b" "unat a" 256] unfolding sub by (simp split: if_split)
  then have "unat (a - b) = 0"
    using assms(2) by (meson gr0I nat_dvd_not_less)
  then have "a - b = 0" by (simp only: unsigned_eq_0_iff)
  then show ?thesis by (simp only: right_minus_eq)
qed

lemma HashFunc_window:
  assumes "unat (a - e) < 256" and "unat (b - e) < 256"
  shows "HashFunc a = HashFunc b \<longleftrightarrow> a = b"
proof
  have close: "unat (x - y) < 256" if "unat (y - e) \<le> unat (x - e)" "unat (x - e) < 256" for x y
  proof -
    have "x - y = (x - e) - (y - e)" by simp
    then have "unat (x - y) = unat (x - e) - unat (y - e)"
      using unat_sub_if' [of "x - e" "y - e"] that(1) by simp
    then show ?thesis using that(2) by simp
  qed
  assume eq: "HashFunc a = HashFunc b"
  show "a = b"
  proof (cases "unat (b - e) \<le> unat (a - e)")
    case True
    from HashFunc_inject [OF eq close [OF True assms(1)]] show ?thesis .
  next
    case False
    then have "unat (a - e) \<le> unat (b - e)" by linarith
    from HashFunc_inject [OF eq [symmetric] close [OF this assms(2)]] show ?thesis by (rule sym)
  qed
qed simp

lemma HashFunc_next:
  "HashFunc (i + 1) = (if HashFunc i + 1 \<ge> msx_cache_msg_num then 0 else HashFunc i + 1)"
proof -
  have h: "unat (HashFunc i + 1) = Suc (unat i mod 256)"
    by (subst unat_add_small_u16) (auto simp: unat_HashFunc intro: le_less_trans [of _ 256])
  have "unat (i + 1) mod 256 = Suc (unat i) mod 256"
    by (simp add: unat_word_ariths mod_mod_cancel)
  then have n: "unat (HashFunc (i + 1)) = Suc (unat i mod 256) mod 256"
    by (simp add: unat_HashFunc mod_Suc_eq)
  show ?thesis
  proof (cases "unat i mod 256 = 255")
    case True
    then show ?thesis
      using h n by (simp add: msx_cache_msg_num_def word_le_nat_alt) (simp add: word_unat_eq_iff)
  next
    case False
    moreover have "unat i mod 256 < 256" by simp
    ultimately have "Suc (unat i mod 256) < 256" by linarith
    then have "unat (HashFunc (i + 1)) = unat (HashFunc i + 1)" "\<not> msx_cache_msg_num \<le> HashFunc i + 1"
      using h n by (simp_all add: msx_cache_msg_num_def word_le_nat_alt)
    then show ?thesis by (simp add: word_unat_eq_iff)
  qed
qed

text \<open>Slots that hold messages at most \<open>k\<close> numbers ahead of \<open>expect\<close>, each at its hash value.\<close>

definition slots_ok :: "store \<Rightarrow> u16 \<Rightarrow> (u16 \<Rightarrow> msg_ref option) \<Rightarrow> bool" where
  "slots_ok \<sigma> expect slots \<longleftrightarrow>
     (\<forall>i m. slots i = Some m \<longrightarrow> HashFunc (msg_GetId (\<sigma> m)) = i \<and> unat (msg_GetId (\<sigma> m) - expect) \<le> 100)"

lemma slots_okD:
  "slots_ok \<sigma> expect slots \<Longrightarrow> slots i = Some m \<Longrightarrow> HashFunc (msg_GetId (\<sigma> m)) = i"
  "slots_ok \<sigma> expect slots \<Longrightarrow> slots i = Some m \<Longrightarrow> unat (msg_GetId (\<sigma> m) - expect) \<le> 100"
  by (auto simp: slots_ok_def)

definition in_order_ids :: "u16 \<Rightarrow> nat \<Rightarrow> u16 list" where
  "in_order_ids start n = map (\<lambda>k. start + of_nat k) [0..<n]"

lemma in_order_ids_simps [simp]: "in_order_ids start 0 = []"
  "in_order_ids start (Suc n) = start # in_order_ids (start + 1) n"
proof -
  have "[0..<Suc n] = 0 # map Suc [0..<n]"
    by (simp add: map_Suc_upt upt_conv_Cons del: upt_Suc)
  then show "in_order_ids start (Suc n) = start # in_order_ids (start + 1) n"
    by (simp add: in_order_ids_def add.assoc del: upt_Suc)
qed (simp add: in_order_ids_def)

lemma in_order_ids_append:
  "in_order_ids start n @ in_order_ids (start + of_nat n) m = in_order_ids start (n + m)"
  by (induction n arbitrary: start) (simp_all add: add.assoc [symmetric])

lemma slots_ok_next:
  assumes ok: "slots_ok \<sigma> e slots" and none: "slots (HashFunc e) = None"
  shows "slots_ok \<sigma> (e + 1) slots" and "slots i = Some m \<Longrightarrow> msg_GetId (\<sigma> m) \<noteq> e"
proof -
  have ne: "msg_GetId (\<sigma> m) \<noteq> e" if "slots i = Some m" for i m
    using slots_okD(1) [OF ok that] none that by auto
  then show "slots i = Some m \<Longrightarrow> msg_GetId (\<sigma> m) \<noteq> e" .
  have "unat (msg_GetId (\<sigma> m) - (e + 1)) \<le> 100" if s: "slots i = Some m" for i m
  proof -
    have "msg_GetId (\<sigma> m) - e \<noteq> 0" using ne [OF s] by simp
    then have "unat (msg_GetId (\<sigma> m) - e - 1) = unat (msg_GetId (\<sigma> m) - e) - 1"
      by (rule unat_minus_one)
    then show ?thesis using slots_okD(2) [OF ok s] by (simp add: algebra_simps)
  qed
  then show "slots_ok \<sigma> (e + 1) slots" using ok by (simp add: slots_ok_def)
qed

lemma slots_ok_empty: "slots_ok \<sigma> e slots \<Longrightarrow> slots_ok \<sigma> e (slots(i := None))"
  by (simp add: slots_ok_def)

lemma ro_drain_in_order:
  assumes "ro_drain slots index e recv = (slots', e', recv')" and "index = HashFunc e" and "slots_ok \<sigma> e slots"
  shows "\<exists>out. recv' = recv @ out \<and> map (\<lambda>m. msg_GetId (\<sigma> m)) out = in_order_ids e (length out) \<and>
    e' = e + of_nat (length out) \<and> slots_ok \<sigma> e' slots' \<and> slots' (HashFunc e') = None"
  using assms
proof (induction slots index e recv rule: ro_drain.induct)
  case (1 slots index e recv)
  show ?case
  proof (cases "slots index")
    case None
    then show ?thesis using 1(2-4) by (simp add: ro_drain.simps [of slots])
  next
    case (Some m)
    have "HashFunc (msg_GetId (\<sigma> m)) = HashFunc e" "unat (msg_GetId (\<sigma> m) - e) < 256"
      using slots_okD [OF 1(4) Some] 1(3) by simp_all
    then have id: "msg_GetId (\<sigma> m) = e" by (rule HashFunc_inject)
    have "slots_ok \<sigma> (e + 1) (slots(index := None))"
      by (rule slots_ok_next) (simp_all add: slots_ok_empty 1)
    moreover have "ro_drain (slots(index := None)) (if index + 1 \<ge> msx_cache_msg_num then 0 else index + 1)
        (e + 1) (recv @ [m]) = (slots', e', recv')"
      using 1(2) Some by (simp add: ro_drain.simps [of slots])
    ultimately have "\<exists>out. recv' = (recv @ [m]) @ out \<and>
        map (\<lambda>m. msg_GetId (\<sigma> m)) out = in_order_ids (e + 1) (length out) \<and>
        e' = e + 1 + of_nat (length out) \<and> slots_ok \<sigma> e' slots' \<and> slots' (HashFunc e') = None"
      by (intro "1.IH" [OF Some]) (use 1(3) HashFunc_next [of e] in \<open>simp_all add: fun_upd_def\<close>)
    then obtain out where "recv' = (recv @ [m]) @ out"
      "map (\<lambda>m. msg_GetId (\<sigma> m)) out = in_order_ids (e + 1) (length out)"
      "e' = e + 1 + of_nat (length out)" "slots_ok \<sigma> e' slots'" "slots' (HashFunc e') = None"
      by blast
    then show ?thesis
      using id by (intro exI [of _ "m # out"]) (simp add: add.assoc)
  qed
qed

definition ro_inv :: "store \<Rightarrow> reliable_orderly_list \<Rightarrow> bool" where
  "ro_inv \<sigma> l \<longleftrightarrow> ro_recv_list l = [] \<and> slots_ok \<sigma> (ro_expect_id l) (ro_order_list l) \<and>
     ro_order_list l (HashFunc (ro_expect_id l)) = None"

text \<open>A message the list is prepared for: expected or at most 100 numbers ahead, and not too far.\<close>

definition in_window :: "u16 \<Rightarrow> u16 \<Rightarrow> bool" where
  "in_window i expect \<longleftrightarrow> \<not> too_far i expect \<and> unat (i - expect) \<le> 100"

lemma not_too_far_self: "\<not> too_far e e"
  by (auto simp: too_far_def config_defs)

lemma slots_ok_put:
  "slots_ok \<sigma> e slots \<Longrightarrow> unat (msg_GetId (\<sigma> msg) - e) \<le> 100 \<Longrightarrow>
   slots_ok \<sigma> e (slots(HashFunc (msg_GetId (\<sigma> msg)) := Some msg))"
  by (simp add: slots_ok_def)

lemma ro_Insert_in_order:
  assumes inv: "ro_inv \<sigma> l" and win: "in_window (msg_GetId (\<sigma> msg)) (ro_expect_id l)"
    and run: "ro_Insert \<sigma> msg l = Some (r, l', out)"
  shows "ro_inv \<sigma> l' \<and> map (\<lambda>m. msg_GetId (\<sigma> m)) out = in_order_ids (ro_expect_id l) (length out) \<and>
    ro_expect_id l' = ro_expect_id l + of_nat (length out) \<and>
    (\<exists>m \<in> set out \<union> ro_stored l'. msg_GetId (\<sigma> m) = msg_GetId (\<sigma> msg)) \<and>
    ro_stored l \<subseteq> set out \<union> ro_stored l'"
proof -
  let ?i = "msg_GetId (\<sigma> msg)" and ?e = "ro_expect_id l" and ?slots = "ro_order_list l"
  have ok: "slots_ok \<sigma> ?e ?slots" and recv: "ro_recv_list l = []"
    using inv by (simp_all add: ro_inv_def)
  have near: "\<not> too_far ?i ?e" "unat (?i - ?e) \<le> 100" using win by (simp_all add: in_window_def)
  consider (repeat) m where "?i \<noteq> ?e" "?slots (HashFunc ?i) = Some m"
    | (keep) "?i \<noteq> ?e" "?slots (HashFunc ?i) = None" | (expected) "?i = ?e"
    by (metis option.exhaust)
  then show ?thesis
  proof cases
    case repeat
    have "r = 1 \<and> l' = l \<and> out = []"
      using run ro_Insert_repeat [of \<sigma>, OF near(1) repeat(1)] repeat(2) by simp
    moreover have "msg_GetId (\<sigma> m) = ?i"
      using HashFunc_window [of "msg_GetId (\<sigma> m)" ?e ?i] slots_okD [OF ok repeat(2)] near(2) by simp
    moreover have "m \<in> ro_stored l" using repeat(2) by (auto simp: ro_stored_def filled_def)
    ultimately show ?thesis using inv by auto
  next
    case keep
    let ?l = "l\<lparr>ro_order_list := ?slots(HashFunc ?i := Some msg), ro_recv_list := []\<rparr>"
    have l': "l' = ?l" "out = []"
      using run unfolding ro_Insert_keep [of \<sigma>, OF near(1) keep] by (simp_all add: to_recv_Some recv)
    have "slots_ok \<sigma> ?e (?slots(HashFunc ?i := Some msg))"
      using ok near(2) by (rule slots_ok_put)
    moreover have "HashFunc ?e \<noteq> HashFunc ?i"
    proof
      assume "HashFunc ?e = HashFunc ?i"
      from HashFunc_inject [OF this [symmetric]] show False using near(2) keep(1) by linarith
    qed
    ultimately have "ro_inv \<sigma> l'" using inv l' by (simp add: ro_inv_def)
    moreover have "msg \<in> ro_stored l'"
    proof -
      have "(?slots(HashFunc ?i := Some msg)) (HashFunc ?i) = Some msg" by simp
      then show ?thesis using l' unfolding ro_stored_def filled_def by fastforce
    qed
    moreover have "filled ?slots \<subseteq> filled (?slots(HashFunc ?i := Some msg))"
    proof
      fix m assume "m \<in> filled ?slots"
      then obtain j where j: "?slots j = Some m" by (auto simp: filled_def)
      then have "j \<noteq> HashFunc ?i" using keep(2) by auto
      then have "(?slots(HashFunc ?i := Some msg)) j = Some m" using j by simp
      then show "m \<in> filled (?slots(HashFunc ?i := Some msg))" unfolding filled_def by blast
    qed
    then have "ro_stored l \<subseteq> ro_stored l'"
      using l' recv by (simp add: ro_stored_def)
    ultimately show ?thesis using l' by auto
  next
    case expected
    obtain slots e' out' where d: "ro_drain (?slots(HashFunc ?e := Some msg)) (HashFunc ?e) ?e (ro_recv_list l) =
        (slots, e', out')" using prod_cases3 by blast
    have l': "l' = l\<lparr>ro_order_list := slots, ro_expect_id := e', ro_recv_list := []\<rparr>" "out = out'"
      using run unfolding ro_Insert_expected [of \<sigma>, OF expected not_too_far_self d] by (simp_all add: to_recv_Some)
    have "slots_ok \<sigma> ?e (?slots(HashFunc ?e := Some msg))"
      using slots_ok_put [OF ok near(2)] expected by simp
    from ro_drain_in_order [OF d refl this] have
      "map (\<lambda>m. msg_GetId (\<sigma> m)) out = in_order_ids ?e (length out)"
      "e' = ?e + of_nat (length out)" "slots_ok \<sigma> e' slots" "slots (HashFunc e') = None"
      using recv l' by auto
    moreover have "filled slots \<union> set out = insert msg (ro_stored l)"
    proof -
      have "filled (?slots(HashFunc ?e := Some msg)) = insert msg (filled ?slots)"
        using inv filled_remove [of "?slots(HashFunc ?e := Some msg)" "HashFunc ?e" msg]
        by (simp add: ro_inv_def fun_upd_idem)
      then show ?thesis
        using ro_drain_stored [OF d] recv l' by (simp add: ro_stored_def)
    qed
    ultimately show ?thesis
      using l' by (auto simp: ro_inv_def ro_stored_def)
  qed
qed

definition ro_run :: "store \<Rightarrow> msg_ref list \<Rightarrow> reliable_orderly_list \<Rightarrow> (reliable_orderly_list \<times> msg_ref list) option" where
  "ro_run \<sigma> = run_list (\<lambda>l m. ro_Insert \<sigma> m l)"

definition rl_run :: "store \<Rightarrow> msg_ref list \<Rightarrow> reliable_list \<Rightarrow> (reliable_list \<times> msg_ref list) option" where
  "rl_run \<sigma> = run_list (\<lambda>l m. rl_Insert \<sigma> m l)"

definition ol_run :: "store \<Rightarrow> msg_ref list \<Rightarrow> orderly_list \<Rightarrow> (orderly_list \<times> msg_ref list) option" where
  "ol_run \<sigma> = run_list (\<lambda>l m. ol_Insert \<sigma> m l)"

text \<open>Every message is within the window of the list at the time it is inserted.\<close>

fun arrivals_ok :: "store \<Rightarrow> msg_ref list \<Rightarrow> reliable_orderly_list \<Rightarrow> bool" where
  "arrivals_ok \<sigma> [] l \<longleftrightarrow> True"
| "arrivals_ok \<sigma> (m # ms) l \<longleftrightarrow> in_window (msg_GetId (\<sigma> m)) (ro_expect_id l) \<and>
     (case ro_Insert \<sigma> m l of None \<Rightarrow> False | Some (_, l1, _) \<Rightarrow> arrivals_ok \<sigma> ms l1)"

lemma run_list_append:
  "run_list ins (ms @ ms') l = (case run_list ins ms l of None \<Rightarrow> None
     | Some (l1, out) \<Rightarrow> (case run_list ins ms' l1 of None \<Rightarrow> None | Some (l2, out') \<Rightarrow> Some (l2, out @ out')))"
  by (induction ms arbitrary: l) (auto split: option.splits)

lemma ro_run_in_order:
  assumes "ro_inv \<sigma> l" and "arrivals_ok \<sigma> ms l"
  shows "\<exists>l' outs. ro_run \<sigma> ms l = Some (l', outs) \<and> ro_inv \<sigma> l' \<and>
    map (\<lambda>m. msg_GetId (\<sigma> m)) outs = in_order_ids (ro_expect_id l) (length outs) \<and>
    ro_expect_id l' = ro_expect_id l + of_nat (length outs) \<and> ro_stored l \<subseteq> set outs \<union> ro_stored l' \<and>
    (\<forall>m \<in> set ms. \<exists>m' \<in> set outs \<union> ro_stored l'. msg_GetId (\<sigma> m') = msg_GetId (\<sigma> m))"
  using assms
proof (induction ms arbitrary: l)
  case (Cons m ms)
  obtain r l1 out where ins: "ro_Insert \<sigma> m l = Some (r, l1, out)" and ok: "arrivals_ok \<sigma> ms l1"
    and win: "in_window (msg_GetId (\<sigma> m)) (ro_expect_id l)"
    using Cons.prems(2) by (auto split: option.splits)
  from ro_Insert_in_order [OF Cons.prems(1) win ins] have
    1: "ro_inv \<sigma> l1" "map (\<lambda>m. msg_GetId (\<sigma> m)) out = in_order_ids (ro_expect_id l) (length out)"
      "ro_expect_id l1 = ro_expect_id l + of_nat (length out)" "ro_stored l \<subseteq> set out \<union> ro_stored l1"
    and m: "\<exists>m' \<in> set out \<union> ro_stored l1. msg_GetId (\<sigma> m') = msg_GetId (\<sigma> m)"
    by auto
  from Cons.IH [OF 1(1) ok] obtain l' outs where
    2: "ro_run \<sigma> ms l1 = Some (l', outs)" "ro_inv \<sigma> l'"
      "map (\<lambda>m. msg_GetId (\<sigma> m)) outs = in_order_ids (ro_expect_id l1) (length outs)"
      "ro_expect_id l' = ro_expect_id l1 + of_nat (length outs)" "ro_stored l1 \<subseteq> set outs \<union> ro_stored l'"
      "\<forall>m \<in> set ms. \<exists>m' \<in> set outs \<union> ro_stored l'. msg_GetId (\<sigma> m') = msg_GetId (\<sigma> m)"
    by blast
  have "ro_run \<sigma> (m # ms) l = Some (l', out @ outs)"
    using ins 2(1) by (simp add: ro_run_def)
  moreover have "map (\<lambda>m. msg_GetId (\<sigma> m)) (out @ outs) = in_order_ids (ro_expect_id l) (length (out @ outs))"
    using 1(2) 2(3) in_order_ids_append [of "ro_expect_id l" "length out" "length outs"]
    by (simp add: 1(3))
  moreover have "\<exists>m' \<in> set (out @ outs) \<union> ro_stored l'. msg_GetId (\<sigma> m') = msg_GetId (\<sigma> m)"
    using m 2(5) by auto
  ultimately show ?case
    using 1 2 by (intro exI [of _ l'] exI [of _ "out @ outs"]) (auto simp: add.assoc)
qed (simp add: ro_run_def)

lemma ro_init_inv: "ro_inv \<sigma> (CReliableOrderlyList e)" "ro_stored (CReliableOrderlyList e) = {}"
  by (simp_all add: ro_inv_def CReliableOrderlyList_def slots_ok_def ro_stored_def filled_def)

text \<open>Messages whose reference is their number.\<close>

definition numbered :: store where
  "numbered = (\<lambda>r. msg_SetSocket ''peer'' (msg_SetId (of_nat r) CMsgImpl))"

lemma numbered_simps [simp]: "msg_GetId (numbered r) = of_nat r" "m_socket (numbered r) = Some ''peer''"
  by (simp_all add: numbered_def msg_SetSocket_def msg_GetId_def msg_SetId_def SetId_def)

lemma ro_Insert_next:
  assumes "ro_recv_list l = []" and "ro_expect_id l = msg_GetId (\<sigma> m)" and "m_socket (\<sigma> m) \<noteq> None"
    and "ro_order_list l (HashFunc (ro_expect_id l)) = None" and "ro_order_list l (HashFunc (ro_expect_id l + 1)) = None"
  shows "ro_Insert \<sigma> m l = Some (0, l\<lparr>ro_expect_id := ro_expect_id l + 1\<rparr>, [m])"
proof -
  let ?e = "ro_expect_id l" and ?slots = "ro_order_list l"
  have empty: "(?slots(HashFunc ?e := Some m))(HashFunc ?e := None) = ?slots"
    using assms(4) by (auto simp: fun_eq_iff)
  have "ro_drain ?slots (HashFunc (?e + 1)) (?e + 1) [m] = (?slots, ?e + 1, [m])"
    using assms(5) by (simp add: ro_drain.simps [of ?slots])
  then have "ro_drain (?slots(HashFunc ?e := Some m)) (HashFunc ?e) ?e [] = (?slots, ?e + 1, [m])"
    unfolding ro_drain.simps [of "?slots(HashFunc ?e := Some m)"] HashFunc_next empty by simp
  then show ?thesis
    using assms ro_Insert_expected [of \<sigma> m l ?slots "?e + 1" "[m]"] not_too_far_self
    by (simp add: to_recv_def)
qed

lemma ro_run_next:
  assumes "ro_recv_list l = []" and "ro_expect_id l = of_nat e"
    and "\<And>k. e \<le> k \<Longrightarrow> k \<le> e + n \<Longrightarrow> ro_order_list l (HashFunc (of_nat k)) = None"
  shows "ro_run numbered [e..<e + n] l = Some (l\<lparr>ro_expect_id := of_nat (e + n)\<rparr>, [e..<e + n])"
  using assms
proof (induction n arbitrary: l e)
  case 0
  then show ?case by (simp add: ro_run_def)
next
  case (Suc n)
  let ?l = "l\<lparr>ro_expect_id := of_nat (Suc e)\<rparr>"
  have "ro_Insert numbered e l = Some (0, ?l, [e])"
    using ro_Insert_next [of l numbered e] Suc.prems(1,2) Suc.prems(3) [of e] Suc.prems(3) [of "Suc e"]
    by (simp add: add.commute)
  moreover have "ro_run numbered [Suc e..<Suc e + n] ?l =
      Some (?l\<lparr>ro_expect_id := of_nat (Suc e + n)\<rparr>, [Suc e..<Suc e + n])"
    by (rule Suc.IH) (use Suc.prems in auto)
  ultimately show ?case
    by (simp add: ro_run_def upt_conv_Cons del: upt_Suc)
qed

lemma ro_run_upto:
  assumes "e \<le> f" and "ro_recv_list l = []" and "ro_expect_id l = of_nat e"
    and "\<And>k. e \<le> k \<Longrightarrow> k \<le> f \<Longrightarrow> ro_order_list l (HashFunc (of_nat k)) = None"
  shows "ro_run numbered [e..<f] l = Some (l\<lparr>ro_expect_id := of_nat f\<rparr>, [e..<f])"
  using ro_run_next [of l e "f - e"] assms by simp

section \<open>The reliable list and the orderly list\<close>

lemma rl_run_once:
  assumes "rl_run \<sigma> ms l = Some (l', outs)"
    and "\<And>m. m \<in> set ms \<Longrightarrow> unat (msg_GetId (\<sigma> m) - s) < 256"
    and "set seen \<subseteq> {i. unat (i - s) < 256}"
    and "\<And>i. unat (i - s) < 256 \<Longrightarrow> (\<exists>m \<in> set ms. msg_GetId (\<sigma> m) = i) \<Longrightarrow>
      rl_order_list l (HashFunc i) = i \<longleftrightarrow> i \<in> set seen"
  shows "distinct (map (\<lambda>m. msg_GetId (\<sigma> m)) outs) \<and>
    set (map (\<lambda>m. msg_GetId (\<sigma> m)) outs) = set (map (\<lambda>m. msg_GetId (\<sigma> m)) ms) - set seen"
  using assms
proof (induction ms arbitrary: l l' outs seen)
  case (Cons m ms)
  let ?i = "msg_GetId (\<sigma> m)" and ?ids = "map (\<lambda>m. msg_GetId (\<sigma> m))"
  obtain r l1 out outs' where ins: "rl_Insert \<sigma> m l = Some (r, l1, out)"
    and rest: "rl_run \<sigma> ms l1 = Some (l', outs')" and outs: "outs = out @ outs'"
    using Cons.prems(1) by (auto simp: rl_run_def split: option.splits)
  have near: "unat (?i - s) < 256" using Cons.prems(2) by simp
  show ?case
  proof (cases "rl_order_list l (HashFunc ?i) = ?i")
    case True
    then have "l1 = l" "out = []" "?i \<in> set seen"
      using ins Cons.prems(4) near by (auto simp: rl_Insert_def)
    then show ?thesis
      using Cons.IH [OF rest, of seen] Cons.prems outs by auto
  next
    case False
    then have l1: "rl_order_list l1 = (rl_order_list l)(HashFunc ?i := ?i)" "out = [m]" "?i \<notin> set seen"
      using ins Cons.prems(4) near by (auto simp: rl_Insert_def Let_def to_recv_Some)
    have inj: "HashFunc j = HashFunc ?i \<longleftrightarrow> j = ?i" if "unat (j - s) < 256" for j
      using HashFunc_window that near by blast
    have "distinct (?ids outs') \<and> set (?ids outs') = set (?ids ms) - set (?i # seen)"
    proof (rule Cons.IH [OF rest])
      fix j assume "unat (j - s) < 256" "\<exists>m \<in> set ms. msg_GetId (\<sigma> m) = j"
      then show "rl_order_list l1 (HashFunc j) = j \<longleftrightarrow> j \<in> set (?i # seen)"
        using Cons.prems(4) l1(1) inj by auto
    qed (use Cons.prems near in auto)
    then show ?thesis using outs l1 by auto
  qed
qed (simp add: rl_run_def)

lemma ol_run_sorted:
  assumes "ol_run \<sigma> ms l = Some (l', outs)"
  shows "sorted (map (\<lambda>m. msg_GetId (\<sigma> m)) outs) \<and>
    (\<forall>m \<in> set outs. ol_expect_id l \<le> msg_GetId (\<sigma> m))"
  using assms
proof (induction ms arbitrary: l l' outs)
  case (Cons m ms)
  obtain r l1 out outs' where ins: "ol_Insert \<sigma> m l = Some (r, l1, out)"
    and rest: "ol_run \<sigma> ms l1 = Some (l', outs')" and outs: "outs = out @ outs'"
    using Cons.prems(1) by (auto simp: ol_run_def split: option.splits)
  have "(out = [] \<and> ol_expect_id l1 = ol_expect_id l) \<or>
      (out = [m] \<and> ol_expect_id l1 = msg_GetId (\<sigma> m) \<and> ol_expect_id l \<le> msg_GetId (\<sigma> m))"
    using ins by (auto simp: ol_Insert_def Let_def to_recv_Some split: if_splits)
  then show ?case
    using Cons.IH [OF rest] outs by auto
qed (simp add: ol_run_def)

section \<open>Properties\<close>

text \<open>
  C3. Reliable orderly delivery. As long as every message that arrives is expected or at most 100
  numbers ahead (in any order, with any repetitions), the messages delivered by a new list carry
  the numbers from the starting number on, without gap, repetition or inversion; and once the
  first \<open>n\<close> numbers have all arrived, at least \<open>n\<close> messages have been delivered.
\<close>

theorem reliable_orderly_delivery:
  assumes "arrivals_ok \<sigma> ms (CReliableOrderlyList start)" and "n \<le> 65536"
    and "\<forall>k < n. \<exists>m \<in> set ms. msg_GetId (\<sigma> m) = start + of_nat k"
  shows "\<exists>l' outs. ro_run \<sigma> ms (CReliableOrderlyList start) = Some (l', outs) \<and>
    map (\<lambda>m. msg_GetId (\<sigma> m)) outs = in_order_ids start (length outs) \<and> n \<le> length outs"
proof -
  have e: "ro_expect_id (CReliableOrderlyList start) = start" by (simp add: CReliableOrderlyList_def)
  obtain l' outs where run: "ro_run \<sigma> ms (CReliableOrderlyList start) = Some (l', outs)" "ro_inv \<sigma> l'"
    "map (\<lambda>m. msg_GetId (\<sigma> m)) outs = in_order_ids start (length outs)"
    "ro_expect_id l' = start + of_nat (length outs)"
    "\<forall>m \<in> set ms. \<exists>m' \<in> set outs \<union> ro_stored l'. msg_GetId (\<sigma> m') = msg_GetId (\<sigma> m)"
    using ro_run_in_order [OF ro_init_inv(1) assms(1)] unfolding e by blast
  have "n \<le> length outs"
  proof (rule ccontr)
    assume "\<not> n \<le> length outs"
    then have short: "length outs < n" by simp
    then obtain m where "m \<in> set ms" "msg_GetId (\<sigma> m) = start + of_nat (length outs)"
      using assms(3) by blast
    then obtain m' where m': "m' \<in> set outs \<union> ro_stored l'" "msg_GetId (\<sigma> m') = start + of_nat (length outs)"
      using run(5) by fastforce
    from m'(1) show False
    proof
      assume "m' \<in> set outs"
      then have "start + of_nat (length outs) \<in> set (in_order_ids start (length outs))"
        using m'(2) run(3) by (metis (no_types, lifting) image_eqI list.set_map)
      then obtain k where "k < length outs" "(of_nat (length outs) :: u16) = of_nat k"
        by (auto simp: in_order_ids_def)
      then show False
        using short assms(2) by (metis unat_of_nat_u16 less_irrefl order.strict_trans less_le_trans)
    next
      assume "m' \<in> ro_stored l'"
      then obtain i where "ro_order_list l' i = Some m'"
        using run(2) by (auto simp: ro_stored_def filled_def ro_inv_def)
      then show False
        using run(2,4) m'(2) slots_okD(1) [of \<sigma> "ro_expect_id l'" "ro_order_list l'" i m']
        by (auto simp: ro_inv_def)
    qed
  qed
  then show ?thesis using run by blast
qed

lemma sample_arrivals: "arrivals_ok numbered [7, 9, 9, 8] (CReliableOrderlyList 7)"
proof -
  let ?l = "CReliableOrderlyList 7"
  let ?l1 = "?l\<lparr>ro_expect_id := 8\<rparr>"
  let ?l2 = "?l1\<lparr>ro_order_list := (\<lambda>_. None)(9 := Some 9)\<rparr>"
  have h: "HashFunc 7 = 7" "HashFunc 8 = 8" "HashFunc 9 = 9"
    by (simp_all add: HashFunc_def msx_cache_msg_num_def)
  have 1: "ro_Insert numbered 7 ?l = Some (0, ?l1, [7])"
    using ro_Insert_next [of ?l numbered 7] by (simp add: CReliableOrderlyList_def h)
  have 2: "ro_Insert numbered 9 ?l1 = Some (0, ?l2, [])"
    by (simp add: ro_Insert_def CReliableOrderlyList_def too_far_def config_defs h to_recv_def)
  have 3: "ro_Insert numbered 9 ?l2 = Some (1, ?l2, [])"
    by (simp add: ro_Insert_def CReliableOrderlyList_def too_far_def config_defs h to_recv_def)
  have "ro_Insert numbered 8 ?l2 \<noteq> None"
    using reliable_orderly.defined [of 8 ?l2 numbered] by simp
  then show ?thesis
    using 1 2 3 by (auto simp: in_window_def too_far_def config_defs CReliableOrderlyList_def)
qed

theorem reliable_orderly_delivery_witness:
  "\<exists>l' outs. ro_run numbered [7, 9, 9, 8] (CReliableOrderlyList 7) = Some (l', outs) \<and>
     map (\<lambda>m. msg_GetId (numbered m)) outs = in_order_ids 7 (length outs) \<and> 3 \<le> length outs"
proof -
  have "\<forall>k < 3. \<exists>m \<in> set [7, 9, 9, 8]. msg_GetId (numbered m) = 7 + of_nat k"
    by (auto simp: numeral_3_eq_3 less_Suc_eq)
  then show ?thesis
    using reliable_orderly_delivery [OF sample_arrivals, of 3] by simp
qed

text \<open>
  The window does not wrap around: a message with number 0 that overtakes number 65535 is
  discarded, with the result 0 that makes the socket acknowledge it, so it is not sent again.
\<close>

theorem reliable_orderly_wrap_discards:
  "ro_Insert (\<sigma>(r := msg_SetId 0 m)) r (CReliableOrderlyList 65535) =
     Some (0, (CReliableOrderlyList 65535)\<lparr>ro_discard_msg_count := 1\<rparr>, [])"
proof -
  have "too_far 0 65535" "\<not> (3 :: u16) \<le> 1"
    by (simp_all add: too_far_def config_defs word_le_nat_alt)
  then show ?thesis
    using ro_Insert_far [of "\<sigma>(r := msg_SetId 0 m)" r "CReliableOrderlyList 65535"]
    by (simp add: msg_GetId_def msg_SetId_def SetId_def CReliableOrderlyList_def msg_discard_limit_def)
qed

text \<open>
  A late duplicate is taken for a message of the future: number 5 arriving after number 10 was
  expected and delivered is put into its slot and delivered 256 numbers later, in the place of
  number 261, which then counts as delivered.
\<close>

theorem reliable_orderly_stale_delivery:
  "\<exists>l. ro_run numbered ([10, 5] @ [11..<261]) (CReliableOrderlyList 10) = Some (l, [10..<261] @ [5]) \<and>
     ro_expect_id l = 262"
proof -
  let ?l0 = "CReliableOrderlyList 10"
  let ?l1 = "?l0\<lparr>ro_expect_id := 11\<rparr>"
  let ?slots = "(\<lambda>_. None)(5 := Some 5)"
  let ?l2 = "?l1\<lparr>ro_order_list := ?slots\<rparr>"
  let ?l3 = "?l2\<lparr>ro_expect_id := 260\<rparr>"
  have h: "HashFunc 5 = 5" "HashFunc 10 = 10" "HashFunc 11 = 11" "HashFunc 260 = 4"
    by (simp_all add: HashFunc_def msx_cache_msg_num_def)
  have 1: "ro_Insert numbered 10 ?l0 = Some (0, ?l1, [10])"
    using ro_Insert_next [of ?l0 numbered 10] by (simp add: CReliableOrderlyList_def h)
  have 2: "ro_Insert numbered 5 ?l1 = Some (0, ?l2, [])"
    by (simp add: ro_Insert_def CReliableOrderlyList_def too_far_def config_defs h to_recv_def)
  have "HashFunc (of_nat k) \<noteq> 5" if "11 \<le> k" "k \<le> 260" for k
  proof
    assume "HashFunc (of_nat k) = 5"
    then have "unat (HashFunc (of_nat k)) = 5" by simp
    then have "k mod 256 = 5" using that by (simp add: unat_HashFunc unat_of_nat_u16)
    moreover have "k mod 256 = (if k < 256 then k else k - 256)"
      using that(2) by (simp add: le_mod_geq)
    ultimately show False using that by (simp split: if_splits)
  qed
  then have 3: "ro_run numbered [11..<260] ?l2 = Some (?l3, [11..<260])"
    using ro_run_upto [of 11 260 ?l2] by (simp add: CReliableOrderlyList_def del: upt_rec_numeral)
  have "ro_drain (?slots(4 := Some 260)) 4 260 [] = ((\<lambda>_. None), 262, [260, 5])"
    by (simp add: ro_drain.simps msx_cache_msg_num_def fun_upd_twist)
  then have 4: "ro_Insert numbered 260 ?l3 = Some (0, ?l3\<lparr>ro_expect_id := 262, ro_order_list := (\<lambda>_. None)\<rparr>, [260, 5])"
    using ro_Insert_expected [of numbered 260 ?l3] not_too_far_self
    by (simp add: h CReliableOrderlyList_def to_recv_def)
  define mid where "mid = [11..<260]"
  have 3: "ro_run numbered mid ?l2 = Some (?l3, mid)" unfolding mid_def by (rule 3)
  have "[11..<Suc 260] = mid @ [260]" unfolding mid_def by (rule upt_Suc_append) simp
  moreover have "[10..<Suc 260] = 10 # [Suc 10..<Suc 260]" by (rule upt_conv_Cons) simp
  ultimately have lists: "[11..<261] = mid @ [260]" "[10..<261] = 10 # mid @ [260]"
    by (simp_all only: Suc_numeral semiring_norm)
  have "ro_run numbered ([10, 5] @ mid @ [260]) ?l0 =
      Some (?l3\<lparr>ro_expect_id := 262, ro_order_list := (\<lambda>_. None)\<rparr>, [10] @ mid @ [260, 5])"
    using 1 2 3 4 by (simp add: ro_run_def run_list_append)
  then show ?thesis unfolding lists by simp
qed

text \<open>
  C38. The reliable list delivers each message of a stretch of 256 consecutive numbers exactly once,
  whatever the order and the number of their arrivals, if the number 0 is not among them. (Two numbers
  that differ by 256 share a slot, and 0 is what an empty slot holds.)
\<close>

theorem reliable_exactly_once:
  assumes "rl_run \<sigma> ms (CReliableList start) = Some (l', outs)"
    and "\<forall>m \<in> set ms. unat (msg_GetId (\<sigma> m) - s) < 256 \<and> msg_GetId (\<sigma> m) \<noteq> 0"
  shows "distinct (map (\<lambda>m. msg_GetId (\<sigma> m)) outs) \<and>
    set (map (\<lambda>m. msg_GetId (\<sigma> m)) outs) = set (map (\<lambda>m. msg_GetId (\<sigma> m)) ms)"
  using rl_run_once [OF assms(1), of s "[]"] assms(2) by (auto simp: CReliableList_def)

theorem reliable_exactly_once_witness:
  "distinct (map (\<lambda>m. msg_GetId (numbered m)) [6, 9])"
proof -
  have "rl_run numbered [6, 9, 6] (CReliableList 6) =
      Some ((CReliableList 6)\<lparr>rl_order_list := (\<lambda>_. 0)(6 := 6, 9 := 9), rl_expect_id := 9\<rparr>, [6, 9])"
    by (simp add: rl_run_def rl_Insert_def CReliableList_def HashFunc_def msx_cache_msg_num_def to_recv_def)
  from reliable_exactly_once [OF this, of 6] show ?thesis by simp
qed

text \<open>
  The number 0 is never delivered as the first of its slot: the slots start at 0, which counts
  as a repetition, so a sender whose numbers start at 0 or wrap around to it loses that message.
\<close>

theorem reliable_drops_zero:
  "rl_Insert (\<sigma>(r := msg_SetId 0 m)) r (CReliableList start) = Some (1, CReliableList start, [])"
  by (simp add: rl_Insert_def CReliableList_def msg_GetId_def msg_SetId_def SetId_def HashFunc_def)

text \<open>
  C39. The orderly list never delivers a message after one with a bigger number, in any sequence of
  arrivals.
\<close>

theorem orderly_sorted:
  assumes "ol_run \<sigma> ms l = Some (l', outs)"
  shows "sorted (map (\<lambda>m. msg_GetId (\<sigma> m)) outs)"
  using ol_run_sorted [OF assms] by simp

theorem orderly_sorted_witness: "sorted (map (\<lambda>m. msg_GetId (numbered m)) [1, 2, 5])"
proof -
  have "ol_run numbered [1, 2, 5, 4, 3] (COrderlyList 1) = Some (COrderlyList 5, [1, 2, 5])"
    by (simp add: ol_run_def ol_Insert_def COrderlyList_def too_far_def config_defs to_recv_def)
  from orderly_sorted [OF this] show ?thesis .
qed

text \<open>
  The orderly list ends at the wrap-around: once number 65535 has been delivered only repetitions
  of it are, every other number is discarded, and the third such message resets the connection.
\<close>

theorem orderly_stuck_after_wrap:
  assumes "msg_GetId (\<sigma> a) < 65435" and "msg_GetId (\<sigma> b) < 65435" and "msg_GetId (\<sigma> c) < 65435"
  shows "ol_run \<sigma> [a, b, c] (COrderlyList 65535) =
      Some (\<lparr>ol_expect_id = 65535, ol_discard_msg_count = 3\<rparr>, []) \<and>
    ol_Insert \<sigma> c \<lparr>ol_expect_id = 65535, ol_discard_msg_count = 2\<rparr> =
      Some (2, \<lparr>ol_expect_id = 65535, ol_discard_msg_count = 3\<rparr>, [])"
proof -
  have far: "too_far i 65535" if "i < 65435" for i
    using that by (simp add: too_far_def config_defs word_less_def)
  show ?thesis
    using assms [THEN far] by (simp add: ol_run_def ol_Insert_def COrderlyList_def Let_def msg_discard_limit_def)
qed

theorem orderly_stuck_after_wrap_witness:
  "ol_run numbered [0, 1, 2] (COrderlyList 65535) =
     Some (\<lparr>ol_expect_id = 65535, ol_discard_msg_count = 3\<rparr>, [])"
  using orderly_stuck_after_wrap [of numbered 0 1 2] by simp

end
