(* ===== verification/Flow_Queue.thy ===== *)
theory Flow_Queue
  imports Msg_Impl
begin

text \<open>
  \<^verbatim>\<open>net/controller/FlowQueue.cpp\<close>: the messages of a socket that wait for pacing, messages sent again
  before new ones.
\<close>

section \<open>State and operations\<close>

record flow_queue =
  fq_resend_list :: "msg_ref list"
  fq_normal_list :: "msg_ref list"

definition CFlowQueue :: flow_queue where
  "CFlowQueue = \<lparr>fq_resend_list = [], fq_normal_list = []\<rparr>"

definition AddToNormalHead :: "msg_ref \<Rightarrow> flow_queue \<Rightarrow> flow_queue" where
  "AddToNormalHead msg q = q\<lparr>fq_normal_list := msg # fq_normal_list q\<rparr>"

definition AddToNormalTail :: "msg_ref \<Rightarrow> flow_queue \<Rightarrow> flow_queue" where
  "AddToNormalTail msg q = q\<lparr>fq_normal_list := fq_normal_list q @ [msg]\<rparr>"

definition AddToResendHead :: "msg_ref \<Rightarrow> flow_queue \<Rightarrow> flow_queue" where
  "AddToResendHead msg q = q\<lparr>fq_resend_list := msg # fq_resend_list q\<rparr>"

definition AddToResendTail :: "msg_ref \<Rightarrow> flow_queue \<Rightarrow> flow_queue" where
  "AddToResendTail msg q = q\<lparr>fq_resend_list := fq_resend_list q @ [msg]\<rparr>"

definition fq_Add :: "store \<Rightarrow> msg_ref \<Rightarrow> flow_queue \<Rightarrow> flow_queue" where
  "fq_Add \<sigma> msg q =
     (if has_flag (msg_GetFlag (\<sigma> msg)) msg_resend then AddToResendTail msg q else AddToNormalTail msg q)"

definition fq_Get :: "flow_queue \<Rightarrow> msg_ref option \<times> flow_queue" where
  "fq_Get q =
     (case fq_resend_list q of
        m # ms \<Rightarrow> (Some m, q\<lparr>fq_resend_list := ms\<rparr>)
      | [] \<Rightarrow>
          (case fq_normal_list q of
             m # ms \<Rightarrow> (Some m, q\<lparr>fq_normal_list := ms\<rparr>)
           | [] \<Rightarrow> (None, q)))"

text \<open>\<open>RemoveUnLock\<close>: the first occurrence, in the list of messages sent again if there is one.\<close>

definition fq_Remove :: "msg_ref option \<Rightarrow> flow_queue \<Rightarrow> flow_queue" where
  "fq_Remove m q =
     (case m of
        None \<Rightarrow> q
      | Some msg \<Rightarrow>
          if msg \<in> set (fq_resend_list q) then q\<lparr>fq_resend_list := remove1 msg (fq_resend_list q)\<rparr>
          else q\<lparr>fq_normal_list := remove1 msg (fq_normal_list q)\<rparr>)"

definition fq_content :: "flow_queue \<Rightarrow> msg_ref list" where
  "fq_content q = fq_resend_list q @ fq_normal_list q"

lemma fq_Remove_content: "mset (fq_content (fq_Remove (Some msg) q)) = mset (fq_content q) - {#msg#}"
proof (cases "msg \<in> set (fq_resend_list q)")
  case True
  then have "mset (fq_normal_list q) + mset (fq_resend_list q) - {#msg#} =
      mset (fq_normal_list q) + (mset (fq_resend_list q) - {#msg#})"
    by (intro diff_union_single_conv) simp
  then show ?thesis using True by (simp add: fq_Remove_def fq_content_def union_commute)
next
  case False
  have "mset (fq_resend_list q) + mset (fq_normal_list q) - {#msg#} =
      mset (fq_resend_list q) + (mset (fq_normal_list q) - {#msg#})"
  proof (cases "msg \<in> set (fq_normal_list q)")
    case True
    then show ?thesis by (intro diff_union_single_conv) simp
  next
    case out: False
    have "msg \<notin># mset (fq_resend_list q) + mset (fq_normal_list q)" using False out by simp
    from diff_single_trivial [OF this] show ?thesis
      using out by (simp add: diff_single_trivial)
  qed
  then show ?thesis using False by (simp add: fq_Remove_def fq_content_def)
qed

section \<open>Properties\<close>

text \<open>
  The flow queue loses nothing and serves messages sent again first: \<open>Get\<close> returns the head of
  the resend list followed by the normal list, and nothing exactly if both are empty; \<open>Add\<close> appends
  to the list of the message's kind; \<open>Remove\<close> takes out one occurrence wherever it is.
\<close>

theorem flow_queue_spec:
  "fst (fq_Get q) = (case fq_content q of [] \<Rightarrow> None | m # _ \<Rightarrow> Some m) \<and>
   fq_content (snd (fq_Get q)) = tl (fq_content q) \<and>
   mset (fq_content (fq_Add \<sigma> msg q)) = add_mset msg (mset (fq_content q)) \<and>
   mset (fq_content (fq_Remove (Some msg) q)) = mset (fq_content q) - {#msg#} \<and>
   fq_Remove None q = q"
  using fq_Remove_content [of msg q]
  by (auto simp: fq_Get_def fq_content_def fq_Add_def AddToResendTail_def AddToNormalTail_def
      fq_Remove_def split: list.splits)

end
