(* ===== verification/Rto.thy ===== *)
theory Rto
  imports Hudp_Config
begin

text \<open>
  \<^verbatim>\<open>common/Rto.cpp\<close>: the retransmission timeout from smoothed round-trip times. All fields are
  \<open>uint32_t\<close>; \<open>err\<close> is an \<open>int32_t\<close>. \<open>None\<close> is the undefined \<open>std::abs(INT_MIN)\<close>.
\<close>

record rto =
  rto_srtt :: u32
  rto_mdev :: u32
  rto_mdev_max :: u32
  rto_cur_rto :: u32

definition CRtoImpl :: rto where
  "CRtoImpl = \<lparr>rto_srtt = 0, rto_mdev = init_mdev_max, rto_mdev_max = init_mdev_max,
     rto_cur_rto = init_cur_rto\<rparr>"

text \<open>The macros \<open>G\<close> on a signed and \<open>H\<close> on an unsigned operand.\<close>

definition rto_G :: "u32 \<Rightarrow> u32" where
  "rto_G x = signed_drop_bit 3 x"

definition rto_H :: "u32 \<Rightarrow> u32" where
  "rto_H x = drop_bit 2 x"

definition int_abs :: "u32 \<Rightarrow> u32 option" where
  "int_abs x = (if x = 0x80000000 then None else Some (if x <s 0 then - x else x))"

definition SetRttTime :: "u64 \<Rightarrow> rto \<Rightarrow> rto option" where
  "SetRttTime rtt r =
     (let est = (if rto_srtt r = 0
                 then Some (r\<lparr>rto_srtt := ucast rtt, rto_mdev := drop_bit 1 (ucast rtt)\<rparr>)
                 else
                   (let err = (ucast (rtt - ucast (rto_srtt r)) :: u32) in
                    case int_abs err of
                      None \<Rightarrow> None
                    | Some a \<Rightarrow>
                        Some (r\<lparr>rto_srtt := rto_srtt r + rto_G err,
                               rto_mdev := rto_mdev r + rto_H (a - rto_mdev r)\<rparr>))) in
      case est of
        None \<Rightarrow> None
      | Some r1 \<Rightarrow>
          (let r2 = r1\<lparr>rto_mdev_max := (if rto_mdev r1 > rto_mdev_max r1 then rto_mdev r1 else rto_mdev_max r1)\<rparr> in
           Some (r2\<lparr>rto_cur_rto := rto_srtt r2 + 4 * rto_mdev_max r2\<rparr>)))"

definition GetRto :: "rto \<Rightarrow> u32" where
  "GetRto r = rto_cur_rto r"

lemma uint_sint_u32: "uint (x :: u32) = sint x mod 2 ^ 32"
  using uint_sint [of x] by (simp add: take_bit_eq_mod)

lemma err_value:
  assumes "uint rtt < 2 ^ 31" and "uint srtt < 2 ^ 31"
  shows "sint (ucast (rtt - ucast srtt :: u64) :: u32) = uint rtt - uint (srtt :: u32)"
proof -
  have "uint (ucast srtt :: u64) = uint srtt"
    using assms(2) by (simp add: unsigned_ucast_eq take_bit_int_eq_self)
  then have "uint (rtt - ucast srtt) = (uint rtt - uint srtt) mod 2 ^ 64"
    by (simp add: uint_word_ariths)
  then have "uint (ucast (rtt - ucast srtt) :: u32) = (uint rtt - uint srtt) mod 2 ^ 32"
    by (simp add: unsigned_ucast_eq take_bit_eq_mod mod_mod_cancel)
  then have "sint (ucast (rtt - ucast srtt) :: u32) = signed_take_bit 31 (take_bit 32 (uint rtt - uint srtt))"
    by (simp add: sint_uint take_bit_eq_mod)
  also have "\<dots> = uint rtt - uint srtt"
  proof -
    have "0 \<le> uint rtt" "0 \<le> uint srtt" by simp_all
    then have "signed_take_bit 31 (uint rtt - uint srtt) = uint rtt - uint srtt"
      using assms by (intro signed_take_bit_int_eq_self) linarith+
    then show ?thesis by (simp add: signed_take_bit_take_bit)
  qed
  finally show ?thesis .
qed

lemma eighth_between: "min t s \<le> s + (t - s) div 8 \<and> s + (t - s) div 8 \<le> max t s" for s t :: int
  by (cases "s \<le> t") (auto simp: min_def max_def; presburger)+

lemma srtt_step:
  assumes "uint rtt < 2 ^ 31" and "uint srtt < 2 ^ 31"
  shows "uint (srtt + rto_G (ucast (rtt - ucast srtt :: u64)) :: u32) = uint srtt + (uint rtt - uint srtt) div 8"
proof -
  let ?d = "uint rtt - uint srtt"
  have "sint (rto_G (ucast (rtt - ucast srtt :: u64))) = ?d div 8"
    by (simp add: rto_G_def sint_signed_drop_bit_eq err_value [OF assms] drop_bit_eq_div)
  then have "uint (srtt + rto_G (ucast (rtt - ucast srtt :: u64))) = (uint srtt + ?d div 8) mod 2 ^ 32"
    by (simp add: uint_word_ariths uint_sint_u32 [of "rto_G _"] mod_add_right_eq)
  note eq = this
  have "0 \<le> uint rtt" "0 \<le> uint srtt" by simp_all
  moreover have "max (uint rtt) (uint srtt) < 2 ^ 32" using assms by simp
  ultimately have "0 \<le> uint srtt + ?d div 8" "uint srtt + ?d div 8 < 2 ^ 32"
    using eighth_between [of "uint rtt" "uint srtt"] by linarith+
  then show ?thesis using eq by simp
qed

section \<open>Properties\<close>

text \<open>
  The smoothed round-trip time never leaves the range of what was measured: with times below
  \<open>2 ^ 31\<close> the update is defined and moves the average by an eighth of the difference (rounded
  down), so that it lies between the old average and the sample; the timeout is the average plus
  four times the largest deviation, which never decreases.
\<close>

theorem SetRttTime_smooth:
  assumes "uint rtt < 2 ^ 31" and "uint (rto_srtt r) < 2 ^ 31" and "rto_srtt r \<noteq> 0"
  shows "\<exists>r'. SetRttTime rtt r = Some r' \<and>
    uint (rto_srtt r') = uint (rto_srtt r) + (uint rtt - uint (rto_srtt r)) div 8 \<and>
    min (uint rtt) (uint (rto_srtt r)) \<le> uint (rto_srtt r') \<and>
    uint (rto_srtt r') \<le> max (uint rtt) (uint (rto_srtt r)) \<and>
    rto_mdev_max r \<le> rto_mdev_max r' \<and> GetRto r' = rto_srtt r' + 4 * rto_mdev_max r'"
proof -
  let ?err = "ucast (rtt - ucast (rto_srtt r) :: u64) :: u32"
  have "sint ?err = uint rtt - uint (rto_srtt r)" using err_value assms by blast
  moreover have "0 \<le> uint rtt" by simp
  ultimately have "sint ?err \<noteq> - (2 ^ 31)" using assms(2) by linarith
  then have "?err \<noteq> 0x80000000" by auto
  then obtain a where "int_abs ?err = Some a" by (simp add: int_abs_def)
  then obtain r' where r': "SetRttTime rtt r = Some r'" "rto_srtt r' = rto_srtt r + rto_G ?err"
    "rto_mdev_max r \<le> rto_mdev_max r'" "rto_cur_rto r' = rto_srtt r' + 4 * rto_mdev_max r'"
    using assms(3) by (cases "rto_mdev r + rto_H (a - rto_mdev r) > rto_mdev_max r")
      (simp_all add: SetRttTime_def Let_def less_imp_le)
  moreover have "uint (rto_srtt r') = uint (rto_srtt r) + (uint rtt - uint (rto_srtt r)) div 8"
    using srtt_step [OF assms(1,2)] r'(2) by simp
  moreover from this have "min (uint rtt) (uint (rto_srtt r)) \<le> uint (rto_srtt r')"
    "uint (rto_srtt r') \<le> max (uint rtt) (uint (rto_srtt r))"
    using eighth_between [of "uint rtt" "uint (rto_srtt r)"] by simp_all
  ultimately show ?thesis by (simp add: GetRto_def)
qed

theorem SetRttTime_smooth_witness:
  "\<exists>r'. SetRttTime 180 \<lparr>rto_srtt = 100, rto_mdev = 20, rto_mdev_max = 20, rto_cur_rto = 180\<rparr> = Some r' \<and>
     uint (rto_srtt r') = 110"
  using SetRttTime_smooth [of 180 "\<lparr>rto_srtt = 100, rto_mdev = 20, rto_mdev_max = 20, rto_cur_rto = 180\<rparr>"]
  by fastforce

text \<open>
  The deviation is computed with unsigned numbers: as soon as a sample is closer to the average
  than the mean deviation, the difference wraps around, a quarter of \<open>2 ^ 32\<close> is added to the
  deviation, and the largest deviation keeps that value for good.
\<close>

theorem SetRttTime_deviation_wraps:
  "SetRttTime 100 \<lparr>rto_srtt = 100, rto_mdev = 52, rto_mdev_max = 52, rto_cur_rto = 308\<rparr> =
     Some \<lparr>rto_srtt = 100, rto_mdev = 0x40000027, rto_mdev_max = 0x40000027, rto_cur_rto = 256\<rparr>"
  by (simp add: SetRttTime_def int_abs_def rto_G_def rto_H_def drop_bit_eq_div Let_def)

end
