(* ===== verification/Timer.thy ===== *)
theory Timer
  imports Std_Map Msg_Impl Time_Tool
begin

text \<open>
  \<^verbatim>\<open>common/Timer.cpp\<close>: the timer thread and its map from expiration times to messages. A turn of
  \<open>Run\<close> releases the lock while it waits, so it is two steps here, \<open>timer_look\<close> before and
  \<open>timer_fire\<close> after the wait; other operations may come in between. \<open>clock\<close> is the system clock
  at the call of \<open>Now\<close>.
\<close>

section \<open>State and operations\<close>

definition timer_empty_wait :: u64 where "timer_empty_wait = 60000"

record timer =
  ti_timer_map :: "(u64 \<times> msg_ref list) list"
  ti_wait_time :: u64
  ti_time_tool :: time_tool

definition CTimer :: "u64 \<Rightarrow> timer" where
  "CTimer clock = \<lparr>ti_timer_map = [], ti_wait_time = timer_empty_wait, ti_time_tool = CTimeTool clock\<rparr>"

definition timer_list :: "u64 \<Rightarrow> timer \<Rightarrow> msg_ref list" where
  "timer_list k t = (case map_of (ti_timer_map t) k of None \<Rightarrow> [] | Some ms \<Rightarrow> ms)"

text \<open>The result also says whether the timer thread is woken up.\<close>

definition AddTimer :: "u64 \<Rightarrow> u32 \<Rightarrow> msg_ref \<Rightarrow> store \<Rightarrow> timer \<Rightarrow> u64 \<times> bool \<times> store \<times> timer" where
  "AddTimer clock ms msg \<sigma> t =
     (let t1 = t\<lparr>ti_time_tool := tt_Now clock (ti_time_tool t)\<rparr>;
          expiration_time = ucast ms + GetMsec (ti_time_tool t1);
          t2 = t1\<lparr>ti_timer_map := omap_insert expiration_time (timer_list expiration_time t1 @ [msg])
                     (ti_timer_map t1)\<rparr> in
      (expiration_time, ucast ms < ti_wait_time t2, \<sigma>(msg := msg_SetTimerId expiration_time (\<sigma> msg)), t2))"

definition RemoveTimer :: "msg_ref \<Rightarrow> store \<Rightarrow> timer \<Rightarrow> store \<times> timer" where
  "RemoveTimer msg \<sigma> t =
     (\<sigma>(msg := msg_SetTimerId 0 (\<sigma> msg)),
      t\<lparr>ti_timer_map := omap_erase (m_time_id (\<sigma> msg)) (ti_timer_map t)\<rparr>)"

definition GetTimeStamp :: "u64 \<Rightarrow> timer \<Rightarrow> u64 \<times> timer" where
  "GetTimeStamp clock t =
     (let t1 = t\<lparr>ti_time_tool := tt_Now clock (ti_time_tool t)\<rparr> in (GetMsec (ti_time_tool t1), t1))"

text \<open>Before the wait: the time of the first entry (\<open>cur_timestemp\<close> keeps its value otherwise).\<close>

record timer_turn =
  tu_cur_timestemp :: u64
  tu_has_list :: bool
  tu_timer_out :: bool

definition timer_look :: "u64 \<Rightarrow> u64 \<Rightarrow> timer \<Rightarrow> timer_turn \<times> timer" where
  "timer_look clock prev t =
     (case ti_timer_map t of
        [] \<Rightarrow> (\<lparr>tu_cur_timestemp = prev, tu_has_list = False, tu_timer_out = False\<rparr>,
               t\<lparr>ti_wait_time := timer_empty_wait\<rparr>)
      | (k, _) # _ \<Rightarrow>
          (let t1 = t\<lparr>ti_time_tool := tt_Now clock (ti_time_tool t)\<rparr>; now = GetMsec (ti_time_tool t1) in
           if k > now
           then (\<lparr>tu_cur_timestemp = k, tu_has_list = True, tu_timer_out = False\<rparr>, t1\<lparr>ti_wait_time := k - now\<rparr>)
           else (\<lparr>tu_cur_timestemp = k, tu_has_list = True, tu_timer_out = True\<rparr>, t1\<lparr>ti_wait_time := 0\<rparr>)))"

text \<open>
  After the wait, which happens only for a positive \<open>_wait_time\<close> and ends with \<open>timed_out\<close>. The
  pointer to the list of the entry is used; \<open>None\<close> if \<open>RemoveTimer\<close> has erased the entry meanwhile.
\<close>

definition timer_fire :: "u64 \<Rightarrow> bool \<Rightarrow> timer_turn \<Rightarrow> timer \<Rightarrow> (msg_ref list \<times> timer) option" where
  "timer_fire clock timed_out u t =
     (let out = (if ti_wait_time t > 0 then timed_out else tu_timer_out u);
          t1 = (if ti_wait_time t > 0 then t\<lparr>ti_time_tool := tt_Now clock (ti_time_tool t)\<rparr> else t);
          k = tu_cur_timestemp u in
      if out \<and> tu_has_list u \<and> k > 0 \<and> k \<le> GetMsec (ti_time_tool t1) then
        (case map_of (ti_timer_map t1) k of
           None \<Rightarrow> None
         | Some ms \<Rightarrow> Some (ms, t1\<lparr>ti_timer_map := omap_erase k (ti_timer_map t1)\<rparr>))
      else if out \<and> tu_has_list u \<and> k = 0 then Some ([], t1\<lparr>ti_timer_map := omap_erase k (ti_timer_map t1)\<rparr>)
      else Some ([], t1))"

section \<open>Invariant and lemmas\<close>

definition timer_inv :: "timer \<Rightarrow> bool" where
  "timer_inv t \<longleftrightarrow> omap_ok (ti_timer_map t)"

lemma timer_list_AddTimer:
  assumes "timer_inv t" and "AddTimer clock ms msg \<sigma> t = (k, w, \<sigma>', t')"
  shows "k = ucast ms + clock" and "timer_inv t'" and "m_time_id (\<sigma>' msg) = k"
    and "timer_list j t' = (if j = k then timer_list j t @ [msg] else timer_list j t)"
  using assms by (auto simp: AddTimer_def timer_inv_def tt_Now_def GetMsec_def omap_ok_insert
      timer_list_def map_of_omap_insert msg_SetTimerId_def Let_def)

lemma timer_list_RemoveTimer:
  assumes "timer_inv t" and "RemoveTimer msg \<sigma> t = (\<sigma>', t')"
  shows "timer_inv t'" and "timer_list j t' = (if j = m_time_id (\<sigma> msg) then [] else timer_list j t)"
  using assms by (auto simp: RemoveTimer_def timer_inv_def omap_ok_erase timer_list_def map_of_omap_erase)

section \<open>Properties\<close>

definition sample_timer :: timer where
  "sample_timer = \<lparr>ti_timer_map = [(700, [4]), (900, [5, 6])], ti_wait_time = 60000,
     ti_time_tool = \<lparr>tt_update_time = True, tt_time = 600\<rparr>\<rparr>"

lemma sample_timer_inv: "timer_inv sample_timer"
  by (simp add: timer_inv_def sample_timer_def)

text \<open>
  Timers fire when they are due, earliest first: if the earliest expiration is not after the
  current time, the next turn of the timer thread passes exactly its messages to \<open>TimerOut\<close> in the
  order they were added, removes them, and leaves every other list as it is.
\<close>

theorem timer_fires_due:
  assumes inv: "timer_inv t" and first: "ti_timer_map t = (k, ms) # rest" and due: "0 < k" "k \<le> clock"
    and turn: "timer_look clock prev t = (u, t1)"
  shows "\<exists>t'. timer_fire clock' timed_out u t1 = Some (timer_list k t, t') \<and> timer_inv t' \<and>
    timer_list k t' = [] \<and> (\<forall>j. j \<noteq> k \<longrightarrow> timer_list j t' = timer_list j t) \<and>
    (\<forall>j. timer_list j t \<noteq> [] \<longrightarrow> k \<le> j)"
proof -
  have ok: "omap_ok (ti_timer_map t)" using inv by (simp add: timer_inv_def)
  have look: "u = \<lparr>tu_cur_timestemp = k, tu_has_list = True, tu_timer_out = True\<rparr>"
    "t1 = t\<lparr>ti_time_tool := tt_Now clock (ti_time_tool t), ti_wait_time := 0\<rparr>"
    using turn first leD [OF due(2)] by (auto simp: timer_look_def GetMsec_def tt_Now_def Let_def)
  let ?t' = "t1\<lparr>ti_timer_map := omap_erase k (ti_timer_map t)\<rparr>"
  have "timer_fire clock' timed_out u t1 = Some (timer_list k t, ?t')"
    using due first by (simp add: timer_fire_def look GetMsec_def tt_Now_def timer_list_def Let_def)
  moreover have "timer_inv ?t'" using ok by (simp add: timer_inv_def look omap_ok_erase)
  moreover have "k \<le> j" if "timer_list j t \<noteq> []" for j
    using omap.begin_least(2) [OF ok first, of j] that by (auto simp: timer_list_def split: option.splits)
  moreover have "timer_list j ?t' = (if j = k then [] else timer_list j t)" for j
    by (simp add: timer_list_def map_of_omap_erase look)
  ultimately show ?thesis by (intro exI [of _ ?t']) simp
qed

theorem timer_fires_due_witness:
  "\<exists>t'. timer_fire 710 False (fst (timer_look 705 0 sample_timer)) (snd (timer_look 705 0 sample_timer)) =
     Some ([4], t') \<and> timer_list 900 t' = [5, 6]"
  using timer_fires_due [OF sample_timer_inv, of 700 "[4]" "[(900, [5, 6])]" 705 0 _ _ 710 False]
  by (cases "timer_look 705 0 sample_timer") (auto simp: sample_timer_def timer_list_def)

text \<open>
  No timer fires early: whatever happened between the two halves of a turn, messages are passed
  to \<open>TimerOut\<close> only from the list of an expiration time that the clock has reached.
\<close>

theorem timer_never_early:
  assumes "timer_fire clock timed_out u t = Some (ms, t')" and "ms \<noteq> []"
  shows "tu_cur_timestemp u \<le> GetMsec (ti_time_tool t') \<and> ms = timer_list (tu_cur_timestemp u) t"
  using assms by (auto simp: timer_fire_def Let_def timer_list_def split: if_splits option.splits)

theorem timer_never_early_witness:
  "(700 :: u64) \<le> GetMsec \<lparr>tt_update_time = True, tt_time = 720\<rparr>"
proof -
  have "timer_fire 720 True \<lparr>tu_cur_timestemp = 700, tu_has_list = True, tu_timer_out = False\<rparr> sample_timer =
      Some ([4], sample_timer\<lparr>ti_timer_map := [(900, [5, 6])], ti_time_tool := \<lparr>tt_update_time = True, tt_time = 720\<rparr>\<rparr>)"
    by (simp add: timer_fire_def sample_timer_def tt_Now_def GetMsec_def omap_erase_def)
  from timer_never_early [OF this] show ?thesis by simp
qed

text \<open>
  \<open>RemoveTimer\<close> cancels too much: it erases the whole entry of the message's expiration time. Of
  two messages whose timers were set in the same millisecond with the same delay, acknowledging
  one cancels the retransmission of the other.
\<close>

theorem RemoveTimer_cancels_others:
  assumes "timer_inv t" and "AddTimer clock ms a \<sigma> t = (k, w1, \<sigma>1, t1)"
    and "AddTimer clock ms b \<sigma>1 t1 = (k', w2, \<sigma>2, t2)" and "a \<noteq> b" and "RemoveTimer a \<sigma>2 t2 = (\<sigma>3, t3)"
  shows "b \<in> set (timer_list k t2) \<and> timer_list k t3 = [] \<and> m_time_id (\<sigma>3 b) = k"
proof -
  note 1 = timer_list_AddTimer [OF assms(1,2)]
  note 2 = timer_list_AddTimer [OF 1(2) assms(3)]
  have "\<sigma>2 a = \<sigma>1 a" "\<sigma>3 b = \<sigma>2 b"
    using assms(3-5) by (auto simp: AddTimer_def RemoveTimer_def Let_def)
  then show ?thesis
    using 1 2 timer_list_RemoveTimer(2) [OF 2(2) assms(5)] by simp
qed

theorem RemoveTimer_cancels_others_witness:
  "let (_, _, \<sigma>1, t1) = AddTimer 100 50 1 (\<lambda>_. CMsgImpl) (CTimer 90);
       (_, _, \<sigma>2, t2) = AddTimer 100 50 2 \<sigma>1 t1;
       (_, t3) = RemoveTimer 1 \<sigma>2 t2 in timer_list 150 t2 = [1, 2] \<and> timer_list 150 t3 = []"
proof -
  have inv: "timer_inv (CTimer 90)" by (simp add: timer_inv_def CTimer_def)
  obtain k w1 \<sigma>1 t1 where 1: "AddTimer 100 50 1 (\<lambda>_. CMsgImpl) (CTimer 90) = (k, w1, \<sigma>1, t1)"
    using prod_cases4 by blast
  obtain k' w2 \<sigma>2 t2 where 2: "AddTimer 100 50 2 \<sigma>1 t1 = (k', w2, \<sigma>2, t2)"
    using prod_cases4 by blast
  obtain \<sigma>3 t3 where 3: "RemoveTimer 1 \<sigma>2 t2 = (\<sigma>3, t3)" by force
  note a = timer_list_AddTimer [OF inv 1]
  note b = timer_list_AddTimer [OF a(2) 2]
  have "timer_list k t3 = []"
    using RemoveTimer_cancels_others [OF inv 1 2 _ 3] by simp
  moreover have "k = 150" "k' = 150" "timer_list 150 (CTimer 90) = []"
    using a(1) b(1) by (simp_all add: CTimer_def timer_list_def)
  moreover have "timer_list 150 t2 = [1, 2]"
    using a(4) [of 150] b(4) [of 150] calculation(2-4) by simp
  ultimately show ?thesis using 1 2 3 by simp
qed

text \<open>
  A pointer into the map is kept across the wait: if the message is acknowledged while the
  thread waits for its timer, and the wait ends by the time-out, the list that is used has been
  erased.
\<close>

theorem timer_fire_dangling:
  "let (u, t1) = timer_look 650 0 sample_timer;
       (\<sigma>', t2) = RemoveTimer 4 (\<lambda>_. msg_SetTimerId 700 CMsgImpl) t1 in
   timer_fire 700 True u t2 = None"
  by (simp add: timer_look_def sample_timer_def tt_Now_def GetMsec_def RemoveTimer_def omap_erase_def
      msg_SetTimerId_def timer_fire_def)

end
