(* ===== verification/Pacing.thy ===== *)
theory Pacing
  imports Timer
begin

text \<open>
  \<^verbatim>\<open>net/controller/Pacing.cpp\<close>: spacing of the packets of a socket. The result of \<open>SendMessage\<close> says
  where the message went: straight to the net, into the pacing timer (one for all sockets) or to
  the call-back of the socket. \<open>now\<close> is the result of \<open>GetCurTimeStamp\<close>. \<open>_pacing_rate\<close> is not
  initialised by the constructor and is a parameter of it.
\<close>

section \<open>State and operations\<close>

definition USEC_PER_MSEC :: u64 where "USEC_PER_MSEC = 1000"

record pacing =
  pc_pacing_rate :: u32
  pc_next_time :: u64

datatype pacing_call = PaceToNet msg_ref | PaceTimer u32 msg_ref | PaceCallback msg_ref

definition CPacing :: "u32 \<Rightarrow> pacing" where
  "CPacing uninit = \<lparr>pc_pacing_rate = uninit, pc_next_time = 0\<rparr>"

definition SetPacingRate :: "u32 \<Rightarrow> pacing \<Rightarrow> pacing" where
  "SetPacingRate rate p = p\<lparr>pc_pacing_rate := rate\<rparr>"

definition GetPacingRate :: "pacing \<Rightarrow> u32" where
  "GetPacingRate p = pc_pacing_rate p"

text \<open>How long the message keeps the line, in milliseconds.\<close>

definition pace_length :: "pacing \<Rightarrow> u32 \<Rightarrow> u32" where
  "pace_length p estimate =
     (let rate = (if pc_pacing_rate p \<noteq> 0 then pc_pacing_rate p else default_pacing_rate);
          msg_len = ucast (ucast estimate * USEC_PER_MSEC) in
      if rate \<noteq> 0 then msg_len div rate else msg_len)"

definition pc_SendMessage :: "u64 \<Rightarrow> msg_ref \<Rightarrow> store \<Rightarrow> pacing \<Rightarrow> pacing_call \<times> store \<times> pacing" where
  "pc_SendMessage now msg \<sigma> p =
     (if m_body (\<sigma> msg) = [] then (PaceToNet msg, \<sigma>, p)
      else if now < pc_next_time p then
        (PaceTimer (ucast (pc_next_time p)) msg, \<sigma>(msg := msg_SetFlag msg_pacing_send (\<sigma> msg)), p)
      else
        (PaceCallback msg, \<sigma>(msg := msg_SetSendTime now (\<sigma> msg)),
         p\<lparr>pc_next_time := ucast (pace_length p (msg_GetEstimateSize (\<sigma> msg))) + now\<rparr>))"

section \<open>A sequence of sends\<close>

text \<open>
  Times of the messages that go out by the call-back, with the time each keeps the line; the rate
  may change in between.
\<close>

datatype pace_op = PaceRate u32 | PaceSend u64 msg_ref

fun pace_run :: "store \<Rightarrow> pace_op list \<Rightarrow> pacing \<Rightarrow> (u64 \<times> u32) list" where
  "pace_run \<sigma> [] p = []"
| "pace_run \<sigma> (PaceRate r # ops) p = pace_run \<sigma> ops (SetPacingRate r p)"
| "pace_run \<sigma> (PaceSend now msg # ops) p =
     (case pc_SendMessage now msg \<sigma> p of
        (PaceCallback _, \<sigma>', p') \<Rightarrow>
          (now, pace_length p (msg_GetEstimateSize (\<sigma> msg))) # pace_run \<sigma>' ops p'
      | (_, \<sigma>', p') \<Rightarrow> pace_run \<sigma>' ops p')"

fun spaced :: "u64 \<Rightarrow> (u64 \<times> u32) list \<Rightarrow> bool" where
  "spaced free [] \<longleftrightarrow> True"
| "spaced free ((sent, len) # xs) \<longleftrightarrow> free \<le> sent \<and> spaced (ucast len + sent) xs"

lemma pace_run_spaced: "spaced (pc_next_time p) (pace_run \<sigma> ops p)"
proof (induction ops arbitrary: \<sigma> p)
  case (Cons op ops)
  show ?case
  proof (cases op)
    case (PaceRate r)
    then show ?thesis using Cons.IH [of "SetPacingRate r p" \<sigma>] by (simp add: SetPacingRate_def)
  next
    case (PaceSend now msg)
    consider "m_body (\<sigma> msg) = []" | "m_body (\<sigma> msg) \<noteq> []" "now < pc_next_time p"
      | "m_body (\<sigma> msg) \<noteq> []" "\<not> now < pc_next_time p" by blast
    then show ?thesis
    proof cases
      case 3
      let ?p = "p\<lparr>pc_next_time := ucast (pace_length p (msg_GetEstimateSize (\<sigma> msg))) + now\<rparr>"
      show ?thesis using 3 PaceSend Cons.IH [of ?p] by (simp add: pc_SendMessage_def)
    qed (use PaceSend Cons.IH in \<open>simp_all add: pc_SendMessage_def\<close>)
  qed
qed simp

section \<open>Properties\<close>

text \<open>
  Pacing: whatever messages are offered at whatever times, and however the rate changes, a
  message with a body passes to the socket's call-back only when the time that the one before it
  was given, its size at the rate then in force, has passed.
\<close>

theorem pacing_spaced: "spaced 0 (pace_run \<sigma> ops (CPacing uninit))"
  using pace_run_spaced [of "CPacing uninit" \<sigma> ops] by (simp add: CPacing_def)

text \<open>
  A message that comes too early is put into the timer with the absolute time of its turn where
  the timer takes a delay, so that it becomes due only after the current time once more.
\<close>

theorem pacing_delay_is_absolute:
  assumes "m_body (\<sigma> msg) \<noteq> []" and "now < pc_next_time p" and "pc_next_time p < 2 ^ 32"
    and "pc_SendMessage now msg \<sigma> p = (c, \<sigma>', p')"
  shows "\<exists>delay. c = PaceTimer delay msg \<and>
    fst (AddTimer clock delay msg \<sigma>' t) = pc_next_time p + clock"
proof -
  have "ucast (ucast (pc_next_time p) :: u32) = pc_next_time p"
  proof -
    have "unat (pc_next_time p) < 2 ^ 32"
      using assms(3) by (simp add: word_less_nat_alt)
    then have "unat (ucast (ucast (pc_next_time p) :: u32) :: u64) = unat (pc_next_time p)"
      by (simp add: unsigned_ucast_eq unsigned_take_bit_eq take_bit_nat_eq_self)
    then show ?thesis by (simp add: word_unat_eq_iff)
  qed
  then show ?thesis
    using assms by (auto simp: pc_SendMessage_def AddTimer_def GetMsec_def tt_Now_def Let_def)
qed

theorem pacing_delay_is_absolute_witness:
  "fst (AddTimer 1000 1006 3 (\<lambda>_. CMsgImpl) (CTimer 90)) = 2006"
proof -
  let ?\<sigma> = "\<lambda>_. CMsgImpl\<lparr>m_body := [7]\<rparr>" and ?p = "\<lparr>pc_pacing_rate = 0, pc_next_time = 1006\<rparr>"
  obtain c \<sigma>' p' where run: "pc_SendMessage 1000 3 ?\<sigma> ?p = (c, \<sigma>', p')"
    using prod_cases3 by blast
  have "\<exists>delay. c = PaceTimer delay 3 \<and> fst (AddTimer 1000 delay 3 \<sigma>' (CTimer 90)) = 2006"
    using pacing_delay_is_absolute [OF _ _ _ run, of 1000 "CTimer 90"] by simp
  moreover have "c = PaceTimer 1006 3" using run by (simp add: pc_SendMessage_def)
  ultimately show ?thesis by (simp add: AddTimer_def Let_def)
qed

end
