(* ===== verification/Flow_Slicing.thy ===== *)
theory Flow_Slicing
  imports Hudp_Config
begin

text \<open>
  \<^verbatim>\<open>filter/FlowSlicingFilter.cpp\<close>: a body is cut into slices that fit a datagram and put together
  again by the receiver. The filters before and behind it are parameters; a filter that is called
  yields its \<open>bool\<close> and the new state \<open>'s\<close> of what lies behind it. \<open>srt\<close> stands for
  \<open>std::sort\<close>, which leaves the order of slices with equal numbers open.
\<close>

section \<open>Slices\<close>

record slice_head =
  sh_count :: u16
  sh_index :: u16
  sh_flag :: u16

record slice_bag =
  sb_head :: slice_head
  sb_body :: "byte list"

text \<open>The bytes \<open>_data\<close> and \<open>_data_len\<close> refer to.\<close>

record slice_bag_ref =
  sr_head :: slice_head
  sr_data :: "byte list"

text \<open>Three members of two bytes without padding.\<close>

definition slice_header_size :: u16 where "slice_header_size = 6"
definition slice_limit :: u16 where "slice_limit = msg_body_size - slice_header_size"

definition slice_head_bytes :: "slice_head \<Rightarrow> byte list" where
  "slice_head_bytes h = le_bytes 2 (sh_count h) @ le_bytes 2 (sh_index h) @ le_bytes 2 (sh_flag h)"

definition SliceBagToString :: "slice_bag \<Rightarrow> byte list" where
  "SliceBagToString bag =
     replicate (unat slice_header_size + length (sb_body bag)) 0 @ slice_head_bytes (sb_head bag) @ sb_body bag"

definition SliceBagRefToString :: "slice_bag_ref \<Rightarrow> byte list" where
  "SliceBagRefToString bag = slice_head_bytes (sr_head bag) @ sr_data bag"

text \<open>\<open>None\<close>: a body shorter than the slice head is read beyond its end.\<close>

definition StringToSliceBag :: "byte list \<Rightarrow> slice_bag option" where
  "StringToSliceBag msg =
     (if length msg < unat slice_header_size then None
      else Some \<lparr>sb_head = \<lparr>sh_count = le_word (take 2 msg), sh_index = le_word (take 2 (drop 2 msg)),
                              sh_flag = le_word (take 2 (drop 4 msg))\<rparr>,
                 sb_body = drop (unat slice_header_size) msg\<rparr>)"

definition SliceBagComparer :: "slice_bag \<Rightarrow> slice_bag \<Rightarrow> bool" where
  "SliceBagComparer bag1 bag2 \<longleftrightarrow> sh_index (sb_head bag1) < sh_index (sb_head bag2)"

section \<open>The filter\<close>

type_synonym 's send_filter = "handle \<Rightarrow> u16 \<Rightarrow> byte list \<Rightarrow> u32 \<Rightarrow> 's \<Rightarrow> (bool \<times> 's) option"
type_synonym 's recv_filter = "handle \<Rightarrow> u16 \<Rightarrow> byte list \<Rightarrow> 's \<Rightarrow> (bool \<times> 's) option"

text \<open>A key that is missing in \<open>_slice_map\<close> and one with an empty vector are not told apart.\<close>

record flow_slicing =
  fs_cur_flag :: u16
  fs_slice_map :: "u16 \<Rightarrow> slice_bag list"

definition CFlowSlicingFilter :: flow_slicing where
  "CFlowSlicingFilter = \<lparr>fs_cur_flag = 0, fs_slice_map = (\<lambda>_. [])\<rparr>"

definition slice_count :: "u32 \<Rightarrow> u32" where
  "slice_count total_size =
     (let slice_num = total_size div ucast slice_limit in
      if total_size mod ucast slice_limit > 0 then slice_num + 1 else slice_num)"

text \<open>
  The loop over the slices, \<open>n\<close> of them to go. It ends early if the next filter returns something
  other than \<open>HEC_SUCCESS\<close>, that is \<open>true\<close>.
\<close>

fun slice_loop :: "'s send_filter \<Rightarrow> handle \<Rightarrow> u16 \<Rightarrow> byte list \<Rightarrow> u32 \<Rightarrow> u32 \<Rightarrow> u16 \<Rightarrow> u16 \<Rightarrow> nat \<Rightarrow> u32 \<Rightarrow> u32 \<Rightarrow> 's
    \<Rightarrow> (bool \<times> 's) option" where
  "slice_loop nxt h flag body upper_id total_size cnt cur_flag 0 i cur_index s = Some (True, s)"
| "slice_loop nxt h flag body upper_id total_size cnt cur_flag (Suc n) i cur_index s =
     (let len = (if total_size - cur_index < ucast slice_limit then total_size - cur_index else ucast slice_limit);
          bag = \<lparr>sr_head = \<lparr>sh_count = cnt, sh_index = ucast i, sh_flag = cur_flag\<rparr>,
                 sr_data = take (unat len) (drop (unat cur_index) body)\<rparr> in
      case nxt h flag (SliceBagRefToString bag) upper_id s of
        None \<Rightarrow> None
      | Some (failed, s') \<Rightarrow>
          if failed then Some (False, s')
          else slice_loop nxt h flag body upper_id total_size cnt cur_flag n (i + 1) (cur_index + len) s')"

definition fs_FilterProcess :: "'s send_filter \<Rightarrow> handle \<Rightarrow> u16 \<Rightarrow> byte list \<Rightarrow> u32 \<Rightarrow> flow_slicing \<times> 's
    \<Rightarrow> (bool \<times> flow_slicing \<times> 's) option" where
  "fs_FilterProcess nxt h flag body upper_id st =
     (let fs = (fst st)\<lparr>fs_cur_flag := fs_cur_flag (fst st) + 1\<rparr>;
          total_size = of_nat (length body);
          slice_num = slice_count total_size in
      map_option (\<lambda>(ok, s). (ok, fs, s))
        (slice_loop nxt h flag body upper_id total_size (ucast slice_num) (fs_cur_flag fs)
           (unat slice_num) 0 0 (snd st)))"

text \<open>
  What happens to one slice: it is stored, and when as many are stored as its head counts, they
  are sorted and their bodies joined.
\<close>

definition take_slice :: "(slice_bag list \<Rightarrow> slice_bag list) \<Rightarrow> slice_bag \<Rightarrow> flow_slicing
    \<Rightarrow> byte list option \<times> flow_slicing" where
  "take_slice srt bag fs =
     (let f = sh_flag (sb_head bag);
          bags = fs_slice_map fs f @ [bag] in
      if sh_count (sb_head bag) = of_nat (length bags)
      then (Some (concat (map sb_body (srt bags))), fs\<lparr>fs_slice_map := (fs_slice_map fs)(f := [])\<rparr>)
      else (None, fs\<lparr>fs_slice_map := (fs_slice_map fs)(f := bags)\<rparr>))"

definition fs_RelieveFilterProcess :: "(slice_bag list \<Rightarrow> slice_bag list) \<Rightarrow> 's recv_filter
    \<Rightarrow> handle \<Rightarrow> u16 \<Rightarrow> byte list \<Rightarrow> flow_slicing \<times> 's \<Rightarrow> (bool \<times> flow_slicing \<times> 's) option" where
  "fs_RelieveFilterProcess srt prv h flag body st =
     (case StringToSliceBag body of
        None \<Rightarrow> None
      | Some bag \<Rightarrow>
          (case take_slice srt bag (fst st) of
             (None, fs) \<Rightarrow> Some (True, fs, snd st)
           | (Some recv_msg, fs) \<Rightarrow> map_option (\<lambda>(ok, s). (ok, fs, s)) (prv h flag recv_msg (snd st))))"

section \<open>Which slices a body is cut into\<close>

definition nslices :: "byte list \<Rightarrow> nat" where
  "nslices body = (length body + 393) div 394"

definition slice_of :: "u16 \<Rightarrow> byte list \<Rightarrow> nat \<Rightarrow> slice_bag" where
  "slice_of f body i =
     \<lparr>sb_head = \<lparr>sh_count = of_nat (nslices body), sh_index = of_nat i, sh_flag = f\<rparr>,
      sb_body = take 394 (drop (394 * i) body)\<rparr>"

definition slices :: "u16 \<Rightarrow> byte list \<Rightarrow> slice_bag list" where
  "slices f body = map (slice_of f body) [0..<nslices body]"

definition slice_bytes :: "slice_bag \<Rightarrow> byte list" where
  "slice_bytes bag = slice_head_bytes (sb_head bag) @ sb_body bag"

text \<open>At most 65535 slices, so that their number fits the head.\<close>

definition sliceable :: "byte list \<Rightarrow> bool" where
  "sliceable body \<longleftrightarrow> length body \<le> 394 * 65535"

lemma slice_limit_value: "unat slice_limit = 394" "(ucast slice_limit :: u32) = 394"
  by (simp_all add: slice_limit_def slice_header_size_def config_defs)

lemma nslices_le: "sliceable body \<Longrightarrow> nslices body \<le> 65535"
  by (simp add: sliceable_def nslices_def)

lemma StringToSliceBag_bytes [simp]: "StringToSliceBag (slice_bytes bag) = Some bag"
proof -
  have "length (slice_head_bytes h) = 6" for h by (simp add: slice_head_bytes_def)
  then show ?thesis
    by (simp add: StringToSliceBag_def slice_bytes_def slice_header_size_def slice_head_bytes_def
        le_word_le_bytes)
qed

lemma slice_count_value:
  assumes "n < 2 ^ 32 - 394"
  shows "unat (slice_count (of_nat n)) = (n + 393) div 394"
proof -
  have n: "unat (of_nat n :: u32) = n"
    using assms by (simp add: unat_of_nat)
  have d: "unat ((of_nat n :: u32) div 394) = n div 394"
    using n by (simp add: unat_div)
  have m: "unat ((of_nat n :: u32) mod 394) = n mod 394"
    using n by (simp add: unat_mod)
  have pos: "(of_nat n :: u32) mod 394 > 0 \<longleftrightarrow> n mod 394 \<noteq> 0"
    using m by (metis unat_eq_zero word_gt_0)
  have "n div 394 + 1 < 2 ^ 32" using assms by linarith
  then have "unat ((of_nat n :: u32) div 394 + 1) = n div 394 + 1"
    using d by (simp add: unat_word_ariths)
  moreover have "(n + 393) div 394 = (if n mod 394 \<noteq> 0 then n div 394 + 1 else n div 394)"
  proof -
    have n: "n = 394 * (n div 394) + n mod 394" by simp
    define q r where "q = n div 394" and "r = n mod 394"
    have "r < 394" by (simp add: r_def)
    then have "(394 * q + r + 393) div 394 = (if r \<noteq> 0 then q + 1 else q)"
      by (auto intro!: div_nat_eqI)
    then show ?thesis using n by (simp add: q_def r_def)
  qed
  ultimately show ?thesis
    using d pos by (simp add: slice_count_def slice_limit_value Let_def)
qed

lemma concat_chunks: "concat (map (\<lambda>i. take k (drop (k * i) xs)) [0..<n]) = take (k * n) xs"
proof (induction n)
  case (Suc n)
  have "take (k * n) xs @ take k (drop (k * n) xs) = take (k * n + k) xs"
    by (simp add: take_add)
  then show ?case using Suc by (simp add: algebra_simps)
qed simp

lemma concat_slices: "concat (map sb_body (slices f body)) = body"
proof -
  have "length body \<le> 394 * nslices body" by (simp add: nslices_def)
  then show ?thesis
    by (simp add: slices_def slice_of_def comp_def concat_chunks)
qed

section \<open>Sending\<close>

lemma sliceable_less: "sliceable body \<Longrightarrow> length body < 2 ^ 32 - 394"
  by (simp add: sliceable_def)

lemma slice_loop_sends:
  assumes nxt: "\<And>b s. nxt h flag b up s = Some (False, g b s)" and ok: "sliceable body"
    and "i + n = nslices body" and "n \<noteq> 0 \<Longrightarrow> cur_index = of_nat (394 * i)"
  shows "slice_loop nxt h flag body up (of_nat (length body)) (of_nat (nslices body)) f n (of_nat i) cur_index s =
    Some (True, fold (\<lambda>bag. g (slice_bytes bag)) (map (slice_of f body) [i..<i + n]) s)"
  using assms(3,4)
proof (induction n arbitrary: i cur_index s)
  case (Suc n)
  have len: "length body < 2 ^ 32" using sliceable_less [OF ok] by simp
  have i: "394 * i < length body"
    using Suc.prems(1) by (simp add: nslices_def)
  have cur: "cur_index = of_nat (394 * i)" using Suc.prems(2) by simp
  have rest: "unat (of_nat (length body) - cur_index) = length body - 394 * i"
    using i len by (simp add: cur unat_sub_if' unat_of_nat del: of_nat_mult)
  define l where "l = (if of_nat (length body) - cur_index < (ucast slice_limit :: u32)
    then of_nat (length body) - cur_index else ucast slice_limit)"
  have l: "unat l = min 394 (length body - 394 * i)"
    using rest by (simp add: l_def slice_limit_value word_less_nat_alt)
  have cur_nat: "unat cur_index = 394 * i"
    using i len by (simp add: cur unat_of_nat del: of_nat_mult)
  have data: "take (unat l) (drop (unat cur_index) body) = take 394 (drop (394 * i) body)"
    by (simp add: l cur_nat min_def)
  have idx: "ucast (of_nat i :: u32) = (of_nat i :: u16)"
    by (simp add: word_unat_eq_iff unsigned_ucast_eq unsigned_of_nat take_bit_take_bit)
  have bag: "SliceBagRefToString \<lparr>sr_head = \<lparr>sh_count = of_nat (nslices body), sh_index = ucast (of_nat i :: u32),
      sh_flag = f\<rparr>, sr_data = take (unat l) (drop (unat cur_index) body)\<rparr> = slice_bytes (slice_of f body i)"
    by (simp add: SliceBagRefToString_def slice_bytes_def slice_of_def data idx)
  have next_cur: "cur_index + l = of_nat (394 * Suc i)" if "n \<noteq> 0"
  proof -
    have "394 * Suc i < length body"
      using Suc.prems(1) that by (simp add: nslices_def)
    then have "unat l = 394" by (simp add: l)
    then have "l = of_nat 394" by (simp add: word_unat_eq_iff)
    then show ?thesis by (simp add: cur)
  qed
  have todo: "[i..<i + Suc n] = i # [Suc i..<Suc i + n]"
    by (simp add: upt_conv_Cons del: upt_Suc)
  show ?case
    using Suc.IH [of "Suc i" "cur_index + l" "g (slice_bytes (slice_of f body i)) s"] next_cur Suc.prems(1)
    unfolding todo by (simp add: Let_def nxt bag flip: l_def del: upt_Suc) (simp add: add.commute)
qed simp

lemma fs_FilterProcess_sends:
  assumes "\<And>b s. nxt h flag b up s = Some (False, g b s)" and "sliceable body"
  shows "fs_FilterProcess nxt h flag body up (fs, s) =
    Some (True, fs\<lparr>fs_cur_flag := fs_cur_flag fs + 1\<rparr>,
      fold (\<lambda>bag. g (slice_bytes bag)) (slices (fs_cur_flag fs + 1) body) s)"
proof -
  have n: "unat (slice_count (of_nat (length body))) = nslices body"
    using slice_count_value [OF sliceable_less [OF assms(2)]] by (simp add: nslices_def)
  have cnt: "(ucast (slice_count (of_nat (length body))) :: u16) = of_nat (nslices body)"
    by (metis n of_nat_unat)
  show ?thesis
    using slice_loop_sends [of nxt h flag up g body 0 "nslices body" 0 "fs_cur_flag fs + 1" s] assms
    by (simp add: fs_FilterProcess_def Let_def n cnt slices_def)
qed

section \<open>Receiving\<close>

text \<open>The contract of \<open>std::sort\<close> with \<open>SliceBagComparer\<close>.\<close>

definition sort_ok :: "(slice_bag list \<Rightarrow> slice_bag list) \<Rightarrow> bool" where
  "sort_ok srt \<longleftrightarrow> (\<forall>xs. mset (srt xs) = mset xs \<and> sorted_wrt (\<lambda>a b. \<not> SliceBagComparer b a) (srt xs))"

definition bag_index :: "slice_bag \<Rightarrow> u16" where "bag_index bag = sh_index (sb_head bag)"
definition bag_flag :: "slice_bag \<Rightarrow> u16" where "bag_flag bag = sh_flag (sb_head bag)"

fun take_slices :: "(slice_bag list \<Rightarrow> slice_bag list) \<Rightarrow> slice_bag list \<Rightarrow> flow_slicing
    \<Rightarrow> byte list list \<times> flow_slicing" where
  "take_slices srt [] fs = ([], fs)"
| "take_slices srt (bag # bags) fs =
     (let (m, fs1) = take_slice srt bag fs; (ms, fs2) = take_slices srt bags fs1 in
      (case m of None \<Rightarrow> ms | Some b \<Rightarrow> b # ms, fs2))"

lemma sort_ok_sort_key: "sort_ok (sort_key bag_index)"
proof -
  have "sorted_wrt (\<lambda>a b. bag_index a \<le> bag_index b) (sort_key bag_index xs)" for xs
    using sorted_sort_key [of bag_index xs] by (simp add: sorted_map)
  then show ?thesis
    by (simp add: sort_ok_def SliceBagComparer_def bag_index_def not_less)
qed

lemma slice_index: "i < 65536 \<Longrightarrow> unat (bag_index (slice_of f b i)) = i"
  by (simp add: bag_index_def slice_of_def unat_of_nat_u16)

lemma slices_index_sorted:
  assumes "sliceable b"
  shows "sorted (map bag_index (slices f b))" "inj_on bag_index (set (slices f b))"
proof -
  have small: "i < 65536" if "i < nslices b" for i
    using that nslices_le [OF assms] by simp
  show "sorted (map bag_index (slices f b))"
    using small by (auto simp: slices_def sorted_map sorted_wrt_iff_nth_less word_le_nat_alt slice_index)
  show "inj_on bag_index (set (slices f b))"
    using small by (auto simp: slices_def inj_on_def) (metis slice_index)
qed

lemma sort_slices:
  assumes srt: "sort_ok srt" and xs: "mset xs = mset (slices f b)" and ok: "sliceable b"
  shows "concat (map sb_body (srt xs)) = b"
proof -
  have m: "mset (srt xs) = mset (slices f b)" using srt xs by (simp add: sort_ok_def)
  have "sorted (map bag_index (srt xs))"
    using srt by (simp add: sort_ok_def sorted_map SliceBagComparer_def bag_index_def not_less)
  then have "map bag_index (srt xs) = map bag_index (slices f b)"
    using properties_for_sort [of "map bag_index (srt xs)" "map bag_index (slices f b)"]
      properties_for_sort [of "map bag_index (slices f b)" "map bag_index (slices f b)"]
      slices_index_sorted(1) [OF ok] m by (metis mset_map)
  then have "srt xs = slices f b"
    using slices_index_sorted(2) [OF ok] mset_eq_setD [OF m] by (metis inj_on_map_eq_map sup.idem)
  then show ?thesis by (simp add: concat_slices)
qed

lemma slices_count: "bag \<in> set (slices f b) \<Longrightarrow> sh_count (sb_head bag) = of_nat (nslices b)"
  and slices_flag: "bag \<in> set (slices f b) \<Longrightarrow> bag_flag bag = f"
  by (auto simp: slices_def slice_of_def bag_flag_def)

text \<open>
  The slices of several bodies, each with a flag of its own, on the way: \<open>msgs\<close> are the flags and
  bodies, \<open>bags\<close> the slices still to come.
\<close>

definition live :: "slice_bag list \<Rightarrow> (u16 \<times> byte list) list \<Rightarrow> (u16 \<times> byte list) list" where
  "live bags msgs = filter (\<lambda>(f, b). f \<in> bag_flag ` set bags) msgs"

definition slicing_inv :: "(u16 \<times> byte list) list \<Rightarrow> slice_bag list \<Rightarrow> flow_slicing \<Rightarrow> bool" where
  "slicing_inv msgs bags fs \<longleftrightarrow>
     distinct (map fst msgs) \<and> (\<forall>(f, b) \<in> set msgs. sliceable b) \<and>
     (\<forall>bag \<in> set bags. bag_flag bag \<in> fst ` set msgs) \<and>
     (\<forall>(f, b) \<in> set msgs. if f \<in> bag_flag ` set bags
        then mset (fs_slice_map fs f) + filter_mset (\<lambda>x. bag_flag x = f) (mset bags) = mset (slices f b)
        else fs_slice_map fs f = [])"

lemma live_finished:
  assumes "distinct (map fst msgs)" and "(f, b) \<in> set msgs" and "f \<notin> F"
  shows "mset (map snd (filter (\<lambda>(g, b). g \<in> insert f F) msgs)) =
    add_mset b (mset (map snd (filter (\<lambda>(g, b). g \<in> F) msgs)))"
  using assms
proof (induction msgs)
  case (Cons x msgs)
  obtain g c where x: "x = (g, c)" by (cases x)
  show ?case
  proof (cases "g = f")
    case True
    then have "c = b" and "f \<notin> fst ` set msgs" using Cons.prems x by force+
    then have "filter (\<lambda>(g, b). g \<in> insert f F) msgs = filter (\<lambda>(g, b). g \<in> F) msgs"
      by (intro filter_cong) force+
    then show ?thesis using True \<open>c = b\<close> Cons.prems(3) x by simp
  next
    case False
    then show ?thesis using Cons x by auto
  qed
qed simp

lemma none_left: "filter_mset (\<lambda>x. g x = f) (mset xs) = {#} \<longleftrightarrow> f \<notin> g ` set xs"
  by (induction xs) auto

lemma slicing_inv_step:
  assumes inv: "slicing_inv msgs (bag # bags) fs" and srt: "sort_ok srt"
  shows "\<exists>m fs'. take_slice srt bag fs = (m, fs') \<and> slicing_inv msgs bags fs' \<and>
    fs_cur_flag fs' = fs_cur_flag fs \<and> (\<forall>f. f \<notin> fst ` set msgs \<longrightarrow> fs_slice_map fs' f = fs_slice_map fs f) \<and>
    mset (map snd (live (bag # bags) msgs)) =
      mset (case m of None \<Rightarrow> [] | Some b \<Rightarrow> [b]) + mset (map snd (live bags msgs))"
proof -
  let ?f = "bag_flag bag" and ?m = "fs_slice_map fs (bag_flag bag) @ [bag]"
  obtain b where b: "(?f, b) \<in> set msgs" using inv by (auto simp: slicing_inv_def)
  have dist: "distinct (map fst msgs)" using inv by (simp add: slicing_inv_def)
  have uniq: "b' = b" if "(?f, b') \<in> set msgs" for b'
    using that b dist by (meson eq_key_imp_eq_value)
  have ok: "sliceable b" using inv b by (auto simp: slicing_inv_def)
  have all: "mset ?m + filter_mset (\<lambda>x. bag_flag x = ?f) (mset bags) = mset (slices ?f b)"
    using inv b by (fastforce simp: slicing_inv_def)
  have len: "length ?m + size (filter_mset (\<lambda>x. bag_flag x = ?f) (mset bags)) = nslices b"
    using arg_cong [OF all, of size] by (simp add: slices_def)
  have "bag \<in># mset (slices ?f b)" by (simp flip: all)
  then have cnt: "sh_count (sb_head bag) = of_nat (nslices b)"
    by (simp add: slices_count)
  have small: "nslices b < 65536" using nslices_le [OF ok] by simp
  have done_iff: "sh_count (sb_head bag) = of_nat (length ?m) \<longleftrightarrow> ?f \<notin> bag_flag ` set bags"
  proof -
    have "sh_count (sb_head bag) = of_nat (length ?m) \<longleftrightarrow> nslices b = length ?m"
    proof -
      have "length ?m < 65536" using small len by linarith
      then show ?thesis
        unfolding cnt using small by (metis unat_of_nat_u16)
    qed
    also have "\<dots> \<longleftrightarrow> filter_mset (\<lambda>x. bag_flag x = ?f) (mset bags) = {#}"
      unfolding size_eq_0_iff_empty [symmetric] using len by linarith
    also have "\<dots> \<longleftrightarrow> ?f \<notin> bag_flag ` set bags"
      by (rule none_left)
    finally show ?thesis .
  qed
  define fs' where "fs' = fs\<lparr>fs_slice_map := (fs_slice_map fs)
    (?f := if ?f \<in> bag_flag ` set bags then ?m else [])\<rparr>"
  define m where "m = (if ?f \<in> bag_flag ` set bags then None else Some (concat (map sb_body (srt ?m))))"
  have "take_slice srt bag fs = (m, fs')"
    using done_iff by (simp add: take_slice_def Let_def m_def fs'_def flip: bag_flag_def)
  moreover have "slicing_inv msgs bags fs'"
  proof -
    have "if f \<in> bag_flag ` set bags
        then mset (fs_slice_map fs' f) + filter_mset (\<lambda>x. bag_flag x = f) (mset bags) = mset (slices f b')
        else fs_slice_map fs' f = []" if fb: "(f, b') \<in> set msgs" for f b'
    proof (cases "f = ?f")
      case True
      then show ?thesis using all uniq [of b'] fb by (simp add: fs'_def)
    next
      case False
      have "if f \<in> bag_flag ` set (bag # bags)
        then mset (fs_slice_map fs f) + filter_mset (\<lambda>x. bag_flag x = f) (mset (bag # bags)) = mset (slices f b')
        else fs_slice_map fs f = []"
        using inv fb by (auto simp: slicing_inv_def)
      then show ?thesis using False by (auto simp: fs'_def split: if_splits)
    qed
    then show ?thesis using inv by (auto simp: slicing_inv_def)
  qed
  moreover have "mset (map snd (live (bag # bags) msgs)) =
      mset (case m of None \<Rightarrow> [] | Some b \<Rightarrow> [b]) + mset (map snd (live bags msgs))"
  proof (cases "?f \<in> bag_flag ` set bags")
    case True
    then have "insert ?f (bag_flag ` set bags) = bag_flag ` set bags" by blast
    then show ?thesis using True by (simp add: m_def live_def)
  next
    case False
    then have none: "filter_mset (\<lambda>x. bag_flag x = ?f) (mset bags) = {#}"
      by (rule none_left [THEN iffD2])
    have "mset ?m = mset (slices ?f b)" using all unfolding none by simp
    then show ?thesis
      using False sort_slices [OF srt _ ok] live_finished [OF dist b False] by (simp add: m_def live_def)
  qed
  moreover have "fs_cur_flag fs' = fs_cur_flag fs"
    and "\<forall>f. f \<notin> fst ` set msgs \<longrightarrow> fs_slice_map fs' f = fs_slice_map fs f"
    using b by (force simp: fs'_def)+
  ultimately show ?thesis by blast
qed

lemma take_slices_all:
  assumes "slicing_inv msgs bags fs" and srt: "sort_ok srt"
  shows "\<exists>ms fs'. take_slices srt bags fs = (ms, fs') \<and> mset ms = mset (map snd (live bags msgs)) \<and>
    fs_cur_flag fs' = fs_cur_flag fs \<and> (\<forall>f \<in> fst ` set msgs. fs_slice_map fs' f = []) \<and>
    (\<forall>f. f \<notin> fst ` set msgs \<longrightarrow> fs_slice_map fs' f = fs_slice_map fs f)"
  using assms(1)
proof (induction bags arbitrary: fs)
  case Nil
  then show ?case by (auto simp: live_def slicing_inv_def)
next
  case (Cons bag bags)
  obtain m fs1 where step: "take_slice srt bag fs = (m, fs1)" "slicing_inv msgs bags fs1"
      "fs_cur_flag fs1 = fs_cur_flag fs" "\<forall>f. f \<notin> fst ` set msgs \<longrightarrow> fs_slice_map fs1 f = fs_slice_map fs f"
      "mset (map snd (live (bag # bags) msgs)) =
        mset (case m of None \<Rightarrow> [] | Some b \<Rightarrow> [b]) + mset (map snd (live bags msgs))"
    using slicing_inv_step [OF Cons.prems srt] by blast
  show ?case
    using Cons.IH [OF step(2)] step by (cases m) fastforce+
qed

section \<open>Bodies from one filter to another\<close>

text \<open>A filter behind that accepts everything, and one before that takes everything.\<close>

definition collect_sent :: "byte list list send_filter" where
  "collect_sent h flag body upper_id s = Some (False, s @ [body])"

definition collect_received :: "byte list list recv_filter" where
  "collect_received h flag body s = Some (True, s @ [body])"

fun fs_send_all :: "handle \<Rightarrow> u16 \<Rightarrow> byte list list \<Rightarrow> flow_slicing \<times> byte list list
    \<Rightarrow> (flow_slicing \<times> byte list list) option" where
  "fs_send_all h flag [] st = Some st"
| "fs_send_all h flag (body # bodies) st =
     (case fs_FilterProcess collect_sent h flag body 0 st of
        None \<Rightarrow> None
      | Some (_, st') \<Rightarrow> fs_send_all h flag bodies st')"

fun fs_recv_all :: "(slice_bag list \<Rightarrow> slice_bag list) \<Rightarrow> handle \<Rightarrow> u16 \<Rightarrow> byte list list
    \<Rightarrow> flow_slicing \<times> byte list list \<Rightarrow> (flow_slicing \<times> byte list list) option" where
  "fs_recv_all srt h flag [] st = Some st"
| "fs_recv_all srt h flag (body # bodies) st =
     (case fs_RelieveFilterProcess srt collect_received h flag body st of
        None \<Rightarrow> None
      | Some (_, st') \<Rightarrow> fs_recv_all srt h flag bodies st')"

lemma fold_append: "fold (\<lambda>x s. s @ [g x]) xs s = s @ map g xs"
  by (induction xs arbitrary: s) auto

fun numbered_from :: "u16 \<Rightarrow> byte list list \<Rightarrow> (u16 \<times> byte list) list" where
  "numbered_from f [] = []"
| "numbered_from f (b # bs) = (f, b) # numbered_from (f + 1) bs"

lemma fs_send_all_slices:
  assumes "\<forall>b \<in> set bodies. sliceable b"
  shows "\<exists>fs'. fs_send_all h flag bodies (fs, sent) = Some (fs', sent @
    map slice_bytes (concat (map (\<lambda>(f, b). slices f b) (numbered_from (fs_cur_flag fs + 1) bodies)))) \<and>
    fs_slice_map fs' = fs_slice_map fs"
  using assms
proof (induction bodies arbitrary: fs sent)
  case (Cons b bodies)
  have "fs_FilterProcess collect_sent h flag b 0 (fs, sent) =
      Some (True, fs\<lparr>fs_cur_flag := fs_cur_flag fs + 1\<rparr>,
        sent @ map slice_bytes (slices (fs_cur_flag fs + 1) b))"
    using fs_FilterProcess_sends [of collect_sent h flag 0 "\<lambda>b s. s @ [b]"] Cons.prems
    by (simp add: collect_sent_def fold_append)
  then show ?case
    using Cons.IH [of "fs\<lparr>fs_cur_flag := fs_cur_flag fs + 1\<rparr>"
      "sent @ map slice_bytes (slices (fs_cur_flag fs + 1) b)"] Cons.prems by auto
qed simp

lemma fs_recv_all_slices:
  "take_slices srt bags fs = (ms, fs') \<Longrightarrow>
   fs_recv_all srt h flag (map slice_bytes bags) (fs, out) = Some (fs', out @ ms)"
proof (induction bags arbitrary: fs out ms)
  case (Cons bag bags)
  then show ?case
    by (cases "take_slice srt bag fs")
      (auto simp: fs_RelieveFilterProcess_def collect_received_def Let_def
        split: prod.splits option.splits)
qed simp

lemma numbered_from_nth:
  "map snd (numbered_from f bs) = bs" "map fst (numbered_from f bs) = map (\<lambda>k. f + of_nat k) [0..<length bs]"
  by (induction bs arbitrary: f) (simp_all add: upt_conv_Cons map_Suc_upt [symmetric] del: upt_Suc)

lemma numbered_from_distinct: "length bs \<le> 65536 \<Longrightarrow> distinct (map fst (numbered_from f bs))"
  by (auto simp: numbered_from_nth distinct_map inj_on_def) (metis unat_of_nat_u16 order_less_le_trans)

lemma slices_flagged:
  "distinct (map fst msgs) \<Longrightarrow> (f, b) \<in> set msgs \<Longrightarrow>
   filter (\<lambda>x. bag_flag x = f) (concat (map (\<lambda>(f, b). slices f b) msgs)) = slices f b"
proof (induction msgs)
  case (Cons x msgs)
  obtain g c where x: "x = (g, c)" by (cases x)
  have other: "filter (\<lambda>x. bag_flag x = f) (slices g' c') = (if g' = f then slices g' c' else [])" for g' c'
    using slices_flag by (auto intro!: filter_True simp: filter_empty_conv)
  have none: "filter (\<lambda>x. bag_flag x = g) (concat (map (\<lambda>(f, b). slices f b) msgs)) = []"
  proof -
    have "g \<notin> fst ` set msgs" using Cons.prems x by simp
    then show ?thesis by (force simp: filter_empty_conv dest: slices_flag)
  qed
  show ?case
    using Cons x other none by (cases "f = g") (auto simp: image_iff)
qed simp

lemma slices_nonempty: "b \<noteq> [] \<Longrightarrow> slice_of f b 0 \<in> set (slices f b)"
  by (cases b) (auto simp: slices_def nslices_def)

lemma live_all:
  assumes "mset bags = mset (concat (map (\<lambda>(f, b). slices f b) msgs))" and "\<forall>b \<in> snd ` set msgs. b \<noteq> []"
  shows "live bags msgs = msgs"
proof -
  have "f \<in> bag_flag ` set bags" if "(f, b) \<in> set msgs" for f b
  proof -
    have "slice_of f b 0 \<in> set (slices f b)" using that assms(2) by (intro slices_nonempty) force
    then have "slice_of f b 0 \<in> set bags" "bag_flag (slice_of f b 0) = f"
      using that mset_eq_setD [OF assms(1)] slices_flag by auto
    then show ?thesis by force
  qed
  then show ?thesis by (auto simp: live_def intro: filter_True)
qed

lemma slicing_inv_all:
  assumes "distinct (map fst msgs)" and "\<forall>b \<in> snd ` set msgs. sliceable b"
    and all: "mset bags = mset (concat (map (\<lambda>(f, b). slices f b) msgs))"
  shows "slicing_inv msgs bags CFlowSlicingFilter"
proof -
  have "mset (filter (\<lambda>x. bag_flag x = f) bags) = mset (slices f b)" if "(f, b) \<in> set msgs" for f b
    using arg_cong [OF all, of "filter_mset (\<lambda>x. bag_flag x = f)"] slices_flagged [OF assms(1) that]
    by (simp flip: mset_filter)
  moreover have "bag_flag bag \<in> fst ` set msgs" if "bag \<in> set bags" for bag
    using that mset_eq_setD [OF all] slices_flag by (auto, metis fst_conv image_eqI)
  ultimately show ?thesis
    using assms(1,2) by (auto simp: slicing_inv_def CFlowSlicingFilter_def)
qed

lemma bags_of_bytes:
  assumes "mset bytes = image_mset slice_bytes (mset all)"
  shows "\<exists>bags. bytes = map slice_bytes bags \<and> mset bags = mset all"
proof (intro exI conjI)
  let ?bags = "map (the \<circ> StringToSliceBag) bytes"
  have "set bytes \<subseteq> range slice_bytes" using mset_eq_setD [of bytes "map slice_bytes all"] assms by auto
  then show "bytes = map slice_bytes ?bags"
    by (auto simp: comp_def intro!: map_idI [symmetric])
  show "mset ?bags = mset all"
    using assms by (simp add: multiset.map_comp comp_def)
qed

lemma length_slice_bytes: "length (slice_bytes (slice_of f body i)) \<le> 400"
  by (simp add: slice_bytes_def slice_of_def slice_head_bytes_def)

section \<open>Properties\<close>

text \<open>
  C7. Slicing and putting together are inverse for any traffic between two filters: the slices of
  up to 65535 non-empty bodies of up to 65535 slices each may arrive in any order, mixed among
  each other; every body is passed on exactly once and unchanged, and no slice stays behind.
\<close>

theorem flow_slicing_reassembly:
  assumes srt: "sort_ok srt" and len: "length bodies < 65536"
    and bodies: "\<forall>b \<in> set bodies. sliceable b \<and> b \<noteq> []"
    and sent: "fs_send_all h flag bodies (CFlowSlicingFilter, []) = Some (fs, sent)"
    and arrived: "mset arrived = mset sent"
  shows "\<exists>fs' received. fs_recv_all srt h flag arrived (CFlowSlicingFilter, []) = Some (fs', received) \<and>
    mset received = mset bodies \<and> fs_slice_map fs' = (\<lambda>_. [])"
proof -
  define msgs where "msgs = numbered_from 1 bodies"
  let ?all = "concat (map (\<lambda>(f, b). slices f b) msgs)"
  have bag_all: "mset arrived = image_mset slice_bytes (mset ?all)"
    using fs_send_all_slices [of bodies h flag CFlowSlicingFilter "[]"] bodies sent arrived
    by (auto simp: msgs_def CFlowSlicingFilter_def)
  obtain bags where arr: "arrived = map slice_bytes bags" and all: "mset bags = mset ?all"
    using bags_of_bytes [OF bag_all] by blast
  have fsts: "distinct (map fst msgs)" and snds: "map snd msgs = bodies"
    using numbered_from_distinct [of bodies 1] len by (simp_all add: msgs_def numbered_from_nth(1))
  obtain ms fs' where run: "take_slices srt bags CFlowSlicingFilter = (ms, fs')"
      "mset ms = mset (map snd (live bags msgs))" "\<forall>f \<in> fst ` set msgs. fs_slice_map fs' f = []"
      "\<forall>f. f \<notin> fst ` set msgs \<longrightarrow> fs_slice_map fs' f = fs_slice_map CFlowSlicingFilter f"
    using take_slices_all [OF slicing_inv_all [OF fsts _ all] srt] bodies snds by auto
  have "live bags msgs = msgs"
    using live_all [OF all] bodies snds by auto
  moreover have "fs_slice_map fs' f = []" for f
    using run(3,4) by (cases "f \<in> fst ` set msgs") (auto simp: CFlowSlicingFilter_def)
  then have "fs_slice_map fs' = (\<lambda>_. [])" by (intro ext)
  ultimately show ?thesis
    using fs_recv_all_slices [OF run(1), of h flag "[]"] run(2) snds by (simp add: arr)
qed

text \<open>A body of one slice and one of two, arriving with the slices of the second exchanged.\<close>

definition sample_bodies :: "byte list list" where
  "sample_bodies = [[1, 2, 3], replicate 400 7]"

lemma sample_bodies_ok: "\<forall>b \<in> set sample_bodies. sliceable b \<and> b \<noteq> []" "length sample_bodies < 65536"
  by (simp_all add: sample_bodies_def sliceable_def)

theorem flow_slicing_reassembly_witness:
  "\<exists>a b c fs fs' received. fs_send_all ''peer'' 0 sample_bodies (CFlowSlicingFilter, []) = Some (fs, [a, b, c]) \<and>
     fs_recv_all (sort_key bag_index) ''peer'' 0 [c, a, b] (CFlowSlicingFilter, []) = Some (fs', received) \<and>
     mset received = {#[1, 2, 3], replicate 400 7#}"
proof -
  have n: "nslices [1, 2, 3] = 1" "nslices (replicate 400 7) = 2"
    by (simp_all add: nslices_def)
  obtain fs a b c where sent: "fs_send_all ''peer'' 0 sample_bodies (CFlowSlicingFilter, []) = Some (fs, [a, b, c])"
    using fs_send_all_slices [of sample_bodies "''peer''" 0 CFlowSlicingFilter "[]"] sample_bodies_ok
    by (auto simp: sample_bodies_def slices_def n upt_rec)
  have "mset [c, a, b] = mset [a, b, c]" by simp
  from flow_slicing_reassembly [OF sort_ok_sort_key sample_bodies_ok(2,1) sent this] sent
  show ?thesis by (force simp: sample_bodies_def)
qed



text \<open>
  A filter behind that returns \<open>true\<close> for success, as the filters of the library do (only
  \<open>CEndFilter\<close> returns an error code), stops the slicing after the first slice.
\<close>

theorem slicing_stops_on_true:
  assumes "body \<noteq> []" and "sliceable body"
  shows "fs_FilterProcess (\<lambda>h f b u s. Some (True, s @ [b])) h flag body up (fs, []) =
    Some (False, fs\<lparr>fs_cur_flag := fs_cur_flag fs + 1\<rparr>,
      [slice_bytes (slice_of (fs_cur_flag fs + 1) body 0)])"
proof -
  have n: "unat (slice_count (of_nat (length body))) = nslices body"
    using slice_count_value [OF sliceable_less [OF assms(2)]] by (simp add: nslices_def)
  have cnt: "(ucast (slice_count (of_nat (length body))) :: u16) = of_nat (nslices body)"
    by (metis n of_nat_unat)
  obtain k where k: "nslices body = Suc k"
    using assms(1) by (cases "nslices body") (auto simp: nslices_def div_eq_0_iff)
  have len: "unat (of_nat (length body) :: u32) = length body"
    using sliceable_less [OF assms(2)] by (simp add: unat_of_nat)
  have "take (unat (if of_nat (length body) < (ucast slice_limit :: u32) then of_nat (length body) - 0
      else (ucast slice_limit :: u32))) body = take 394 body"
    using len by (simp add: slice_limit_value word_less_nat_alt)
  then show ?thesis
    by (simp add: fs_FilterProcess_def Let_def n cnt k SliceBagRefToString_def slice_bytes_def slice_of_def
        del: map_option_eq_Some split del: if_split)
qed

text \<open>
  The slices of different peers are mixed: two messages of two slices each, with the same
  number, are joined to a body that neither peer has sent.
\<close>

theorem slices_of_peers_mix:
  "let a = \<lparr>sb_head = \<lparr>sh_count = 2, sh_index = 0, sh_flag = 1\<rparr>, sb_body = [1]\<rparr>;
       b = \<lparr>sb_head = \<lparr>sh_count = 2, sh_index = 1, sh_flag = 1\<rparr>, sb_body = [2]\<rparr> in
   map_option (snd \<circ> snd) (Option.bind
     (fs_RelieveFilterProcess (sort_key bag_index) collect_received ''a'' 0 (slice_bytes a) (CFlowSlicingFilter, []))
     (\<lambda>(_, st). fs_RelieveFilterProcess (sort_key bag_index) collect_received ''b'' 0 (slice_bytes b) st)) =
   Some [[1, 2]]"
  by (simp add: fs_RelieveFilterProcess_def take_slice_def CFlowSlicingFilter_def collect_received_def
      bag_index_def Let_def del: map_option_eq_Some)

end
