(* ===== verification/Filter_Process.thy ===== *)
theory Filter_Process
  imports Flow_Slicing Task_Queue
begin

text \<open>
  The filters between the application and the sockets: \<^verbatim>\<open>filter/HeadFilter.cpp\<close>,
  \<^verbatim>\<open>filter/UpperThreadFilter.cpp\<close>, \<^verbatim>\<open>filter/SnappyFilter.cpp\<close>, \<^verbatim>\<open>filter/EndFilter.cpp\<close>, their
  linked list and the two drivers \<^verbatim>\<open>hudp/FilterProcessNoThread.cpp\<close> and
  \<^verbatim>\<open>hudp/FilterProcessWithThread.cpp\<close>. The snappy library is a parameter, as is
  \<open>CHudpImpl::SendTo\<close> behind the last filter (\<open>'e\<close> is the state it works on).
\<close>

section \<open>Snappy\<close>

text \<open>
  The C interface of the library as far as it is used: the bound on the compressed length, the
  compression of an input into a buffer (status, buffer afterwards, compressed length), the
  uncompressed length of a compressed input, and the inverse.
\<close>

record snappy =
  snappy_max_compressed_length :: "nat \<Rightarrow> nat"
  snappy_compress :: "byte list \<Rightarrow> byte list \<Rightarrow> bool \<times> byte list \<times> nat"
  snappy_uncompressed_length :: "byte list \<Rightarrow> nat option"
  snappy_uncompress :: "byte list \<Rightarrow> byte list \<Rightarrow> bool \<times> byte list"

definition SnappyCompress :: "snappy \<Rightarrow> byte list \<Rightarrow> bool \<times> byte list" where
  "SnappyCompress sn in_put =
     (case snappy_compress sn in_put (replicate (snappy_max_compressed_length sn (length in_put)) 0) of
        (ok, output, out_size) \<Rightarrow>
          if \<not> ok then (False, output)
          else (True, take out_size (output @ replicate (out_size - length output) 0)))"

definition SnappyUncompress :: "snappy \<Rightarrow> byte list \<Rightarrow> bool \<times> byte list" where
  "SnappyUncompress sn in_put =
     (case snappy_uncompressed_length sn in_put of
        None \<Rightarrow> (False, [])
      | Some out_size \<Rightarrow> snappy_uncompress sn in_put (replicate out_size 0))"

section \<open>The chain of filters\<close>

datatype filter_type = FILTER_RECV | FILTER_SEND

record filter_param =
  fp_filter_type :: filter_type
  fp_handle :: handle
  fp_flag :: u16
  fp_body :: "byte list"
  fp_upper_id :: u32

datatype filter_kind = UpperThreadFilter | HeadFilter | SnappyFilter | SlicingFilter | EndFilter

text \<open>
  The state of the filters, one of each kind, the calls of \<open>_recv_call_back\<close> so far and the state
  behind \<open>SendTo\<close>.
\<close>

record 'e filters =
  fi_slicing :: flow_slicing
  fi_task_list :: "filter_param task_queue"
  fi_received :: "(handle \<times> byte list) list"
  fi_env :: 'e

definition filters_init :: "'e \<Rightarrow> 'e filters" where
  "filters_init env = \<lparr>fi_slicing = CFlowSlicingFilter, fi_task_list = CTaskQueue (- 1), fi_received = [], fi_env = env\<rparr>"

text \<open>\<open>CHudpImpl::RecvMessageToUpper\<close>: the length is converted to 16 bits.\<close>

definition RecvMessageToUpper :: "handle \<Rightarrow> byte list \<Rightarrow> 'e filters \<Rightarrow> 'e filters" where
  "RecvMessageToUpper h body s =
     s\<lparr>fi_received := fi_received s @ [(h, take (unat (of_nat (length body) :: u16)) body)]\<rparr>"

type_synonym 'e send_to = "handle \<Rightarrow> u16 \<Rightarrow> byte list \<Rightarrow> u32 \<Rightarrow> 'e \<Rightarrow> (hudp_error_code \<times> 'e) option"

text \<open>
  \<open>FilterProcess\<close> of the first filter of a list, from the head of the chain on; past the end the
  pointer to the next filter is null. \<open>CEndFilter\<close> converts the error code to \<open>bool\<close>.
\<close>

primrec chain_send :: "snappy \<Rightarrow> 'e send_to \<Rightarrow> filter_kind list \<Rightarrow> 'e filters send_filter" where
  "chain_send sn snd_to [] = (\<lambda>h flag body upper_id s. None)"
| "chain_send sn snd_to (k # ks) =
     (case k of
        UpperThreadFilter \<Rightarrow> chain_send sn snd_to ks
      | HeadFilter \<Rightarrow> chain_send sn snd_to ks
      | SnappyFilter \<Rightarrow> (\<lambda>h flag body upper_id s. chain_send sn snd_to ks h flag (snd (SnappyCompress sn body)) upper_id s)
      | SlicingFilter \<Rightarrow> (\<lambda>h flag body upper_id s.
          map_option (\<lambda>(ok, fs, s'). (ok, s'\<lparr>fi_slicing := fs\<rparr>))
            (fs_FilterProcess (chain_send sn snd_to ks) h flag body upper_id (fi_slicing s, s)))
      | EndFilter \<Rightarrow> (\<lambda>h flag body upper_id s.
          map_option (\<lambda>(err, env). (err \<noteq> HEC_SUCCESS, s\<lparr>fi_env := env\<rparr>))
            (snd_to h flag body upper_id (fi_env s))))"

text \<open>
  \<open>RelieveFilterProcess\<close> of the first filter of a list, from the end of the chain on (the list holds
  the filters backwards). \<open>None\<close> also if the task list of the upper thread is full.
\<close>

primrec chain_recv :: "(slice_bag list \<Rightarrow> slice_bag list) \<Rightarrow> snappy \<Rightarrow> filter_kind list \<Rightarrow> 'e filters recv_filter" where
  "chain_recv srt sn [] = (\<lambda>h flag body s. None)"
| "chain_recv srt sn (k # ks) =
     (case k of
        UpperThreadFilter \<Rightarrow> (\<lambda>h flag body s.
          map_option (\<lambda>q. (True, s\<lparr>fi_task_list := q\<rparr>))
            (tq_Push \<lparr>fp_filter_type = FILTER_RECV, fp_handle = h, fp_flag = flag, fp_body = body,
               fp_upper_id = 0\<rparr> (fi_task_list s)))
      | HeadFilter \<Rightarrow> (\<lambda>h flag body s.
          if ks \<noteq> [] then map_option (\<lambda>(_, s'). (True, s')) (chain_recv srt sn ks h flag body s)
          else Some (True, RecvMessageToUpper h body s))
      | SnappyFilter \<Rightarrow> (\<lambda>h flag body s. chain_recv srt sn ks h flag (snd (SnappyUncompress sn body)) s)
      | SlicingFilter \<Rightarrow> (\<lambda>h flag body s.
          map_option (\<lambda>(ok, fs, s'). (ok, s'\<lparr>fi_slicing := fs\<rparr>))
            (fs_RelieveFilterProcess srt (chain_recv srt sn ks) h flag body (fi_slicing s, s)))
      | EndFilter \<Rightarrow> chain_recv srt sn ks)"

text \<open>A turn of the upper thread; \<open>None\<close> while it waits for a task.\<close>

definition upper_Run :: "'e filters \<Rightarrow> 'e filters option" where
  "upper_Run s =
     (case tq_Pop (fi_task_list s) of
        None \<Rightarrow> None
      | Some (param, q) \<Rightarrow>
          (let s' = s\<lparr>fi_task_list := q\<rparr> in
           Some (if fp_handle param \<noteq> [] then RecvMessageToUpper (fp_handle param) (fp_body param) s' else s')))"

section \<open>The two drivers\<close>

text \<open>The links of the filters, by number, and the ends of the list.\<close>

record filter_list =
  fl_filter_head :: "nat option"
  fl_filter_end :: "nat option"
  fl_next_filter :: "nat \<Rightarrow> nat option"
  fl_prev_filter :: "nat \<Rightarrow> nat option"

definition CFilterProcess :: filter_list where
  "CFilterProcess = \<lparr>fl_filter_head = None, fl_filter_end = None, fl_next_filter = (\<lambda>_. None),
     fl_prev_filter = (\<lambda>_. None)\<rparr>"

definition AddFilter :: "nat \<Rightarrow> filter_list \<Rightarrow> filter_list" where
  "AddFilter f l =
     (let l1 = l\<lparr>fl_prev_filter := (fl_prev_filter l)(f := fl_filter_end l),
                fl_next_filter := (fl_next_filter l)(f := None)\<rparr>;
          l2 = (case fl_filter_end l1 of
                  None \<Rightarrow> l1
                | Some e \<Rightarrow> l1\<lparr>fl_next_filter := (fl_next_filter l1)(e := Some f)\<rparr>);
          l3 = l2\<lparr>fl_filter_end := Some f\<rparr> in
      case fl_filter_head l3 of None \<Rightarrow> l3\<lparr>fl_filter_head := Some f\<rparr> | Some _ \<Rightarrow> l3)"

text \<open>\<open>CHudpImpl::Init\<close>: the filters from head to end.\<close>

definition init_filters :: "filter_kind list" where
  "init_filters = (if upper_with_thread then [UpperThreadFilter] else []) @
     [HeadFilter, SnappyFilter, SlicingFilter, EndFilter]"

definition PushSendMsg :: "snappy \<Rightarrow> 'e send_to \<Rightarrow> filter_kind list \<Rightarrow> 'e filters send_filter" where
  "PushSendMsg sn snd_to ks = chain_send sn snd_to ks"

definition PushRecvMsg :: "(slice_bag list \<Rightarrow> slice_bag list) \<Rightarrow> snappy \<Rightarrow> filter_kind list \<Rightarrow> 'e filters recv_filter" where
  "PushRecvMsg srt sn ks = chain_recv srt sn (rev ks)"

text \<open>\<open>CFilterProcessWithThread\<close>: the calls only queue a task, a turn of the thread takes one.\<close>

definition PushSendMsg_thread :: "handle \<Rightarrow> u16 \<Rightarrow> byte list \<Rightarrow> u32 \<Rightarrow> filter_param task_queue
    \<Rightarrow> filter_param task_queue option" where
  "PushSendMsg_thread h flag body upper_id =
     tq_Push \<lparr>fp_filter_type = FILTER_SEND, fp_handle = h, fp_flag = flag, fp_body = body, fp_upper_id = upper_id\<rparr>"

definition PushRecvMsg_thread :: "handle \<Rightarrow> u16 \<Rightarrow> byte list \<Rightarrow> filter_param task_queue
    \<Rightarrow> filter_param task_queue option" where
  "PushRecvMsg_thread h flag body =
     tq_Push \<lparr>fp_filter_type = FILTER_RECV, fp_handle = h, fp_flag = flag, fp_body = body, fp_upper_id = 0\<rparr>"

definition filter_Run :: "(slice_bag list \<Rightarrow> slice_bag list) \<Rightarrow> snappy \<Rightarrow> 'e send_to \<Rightarrow> filter_kind list
    \<Rightarrow> filter_param task_queue \<times> 'e filters \<Rightarrow> (filter_param task_queue \<times> 'e filters) option" where
  "filter_Run srt sn snd_to ks st =
     (case tq_Pop (fst st) of
        None \<Rightarrow> None
      | Some (p, q) \<Rightarrow>
          map_option (\<lambda>(_, s). (q, s))
            (case fp_filter_type p of
               FILTER_RECV \<Rightarrow> PushRecvMsg srt sn ks (fp_handle p) (fp_flag p) (fp_body p) (snd st)
             | FILTER_SEND \<Rightarrow> PushSendMsg sn snd_to ks (fp_handle p) (fp_flag p) (fp_body p) (fp_upper_id p) (snd st)))"

section \<open>The linked list\<close>

text \<open>The filters met on the way from one filter along the links, at most \<open>n\<close> of them.\<close>

fun walk :: "(nat \<Rightarrow> nat option) \<Rightarrow> nat \<Rightarrow> nat option \<Rightarrow> nat list" where
  "walk link 0 p = []"
| "walk link (Suc n) None = []"
| "walk link (Suc n) (Some f) = f # walk link n (link f)"

definition list_of :: "filter_list \<Rightarrow> nat list \<Rightarrow> bool" where
  "list_of l fs \<longleftrightarrow> distinct fs \<and>
     fl_filter_head l = (if fs = [] then None else Some (hd fs)) \<and>
     fl_filter_end l = (if fs = [] then None else Some (last fs)) \<and>
     (\<forall>i < length fs. fl_next_filter l (fs ! i) = (if Suc i < length fs then Some (fs ! Suc i) else None) \<and>
        fl_prev_filter l (fs ! i) = (if i = 0 then None else Some (fs ! (i - 1))))"

lemma list_of_empty: "list_of CFilterProcess []"
  by (simp add: list_of_def CFilterProcess_def)

lemma AddFilter_list_of:
  assumes l: "list_of l fs" and f: "f \<notin> set fs"
  shows "list_of (AddFilter f l) (fs @ [f])"
proof (cases "fs = []")
  case True
  then show ?thesis using l by (simp add: list_of_def AddFilter_def)
next
  case False
  have dist: "distinct fs" and ends: "fl_filter_head l = Some (hd fs)" "fl_filter_end l = Some (last fs)"
    using l False by (simp_all add: list_of_def)
  have nx: "fl_next_filter (AddFilter f l) = (fl_next_filter l)(f := None, last fs := Some f)"
    and pv: "fl_prev_filter (AddFilter f l) = (fl_prev_filter l)(f := Some (last fs))"
    and hd_end: "fl_filter_head (AddFilter f l) = Some (hd fs)" "fl_filter_end (AddFilter f l) = Some f"
    using ends by (simp_all add: AddFilter_def Let_def)
  have old: "fs ! i \<noteq> f" "fs ! i = last fs \<longleftrightarrow> Suc i = length fs" if "i < length fs" for i
    using that f dist False by (auto simp: last_conv_nth nth_eq_iff_index_eq)
  have "last fs \<noteq> f" using f False by auto
  have "fl_next_filter (AddFilter f l) ((fs @ [f]) ! i) =
        (if Suc i < length (fs @ [f]) then Some ((fs @ [f]) ! Suc i) else None) \<and>
      fl_prev_filter (AddFilter f l) ((fs @ [f]) ! i) = (if i = 0 then None else Some ((fs @ [f]) ! (i - 1)))"
    if "i < length (fs @ [f])" for i
  proof (cases "i = length fs")
    case True
    then show ?thesis
      using \<open>last fs \<noteq> f\<close> False by (simp add: nx pv nth_append last_conv_nth)
  next
    case not_last: False
    then have i: "i < length fs" using that by simp
    have "fl_next_filter l (fs ! i) = (if Suc i < length fs then Some (fs ! Suc i) else None)"
      and "fl_prev_filter l (fs ! i) = (if i = 0 then None else Some (fs ! (i - 1)))"
      using l i by (simp_all add: list_of_def)
    moreover have "i - Suc 0 < length fs" using i by simp
    moreover have "(fs @ [f]) ! Suc i = f" if "Suc i = length fs"
      using that by (simp add: nth_append)
    ultimately show ?thesis
      using i old [OF i] by (cases "Suc i = length fs") (simp_all add: nx pv nth_append)
  qed
  then show ?thesis
    using False f dist hd_end by (simp add: list_of_def hd_append)
qed

lemma foldl_AddFilter:
  "list_of l fs \<Longrightarrow> distinct (fs @ gs) \<Longrightarrow> list_of (fold AddFilter gs l) (fs @ gs)"
proof (induction gs arbitrary: l fs)
  case (Cons g gs)
  then show ?case using Cons.IH [OF AddFilter_list_of [OF Cons.prems(1)]] by simp
qed simp

lemma walk_next: "list_of l fs \<Longrightarrow> i < length fs \<Longrightarrow> walk (fl_next_filter l) (length fs - i) (Some (fs ! i)) = drop i fs"
proof (induction "length fs - i" arbitrary: i)
  case (Suc n)
  then have step: "walk (fl_next_filter l) (length fs - i) (Some (fs ! i)) =
      fs ! i # walk (fl_next_filter l) n (fl_next_filter l (fs ! i))"
    by (metis walk.simps(3))
  show ?case
  proof (cases "Suc i < length fs")
    case True
    then have "n = length fs - Suc i" using Suc.hyps(2) by linarith
    then show ?thesis
      using Suc.hyps(1) [of "Suc i"] Suc.prems True step by (simp add: list_of_def Cons_nth_drop_Suc)
  next
    case False
    then have "n = 0" using Suc.hyps(2) Suc.prems by linarith
    then show ?thesis using step Suc.prems False by (simp add: Cons_nth_drop_Suc [symmetric])
  qed
qed simp

lemma walk_prev: "list_of l fs \<Longrightarrow> i < length fs \<Longrightarrow> walk (fl_prev_filter l) (Suc i) (Some (fs ! i)) = rev (take (Suc i) fs)"
proof (induction i)
  case 0
  then show ?case by (simp add: take_Suc_conv_app_nth)
next
  case (Suc i)
  then have "fl_prev_filter l (fs ! Suc i) = Some (fs ! i)" by (simp add: list_of_def)
  then show ?case
    using Suc by (simp add: take_Suc_conv_app_nth [of "Suc i"])
qed

section \<open>What passes through the chain\<close>

text \<open>
  The documented behaviour of snappy: compression into a buffer of the maximal length succeeds,
  its result is not empty and not longer than documented, and the two other functions undo it.
\<close>

definition snappy_ok :: "snappy \<Rightarrow> bool" where
  "snappy_ok sn \<longleftrightarrow> (\<forall>xs.
     case snappy_compress sn xs (replicate (snappy_max_compressed_length sn (length xs)) 0) of
       (ok, buf, n) \<Rightarrow> ok \<and> 0 < n \<and> n \<le> length buf \<and> n \<le> 32 + length xs + length xs div 6 \<and>
         snappy_uncompressed_length sn (take n buf) = Some (length xs) \<and>
         snappy_uncompress sn (take n buf) (replicate (length xs) 0) = (True, xs))"

lemma snappy_round_trip:
  assumes "snappy_ok sn"
  shows "snd (SnappyUncompress sn (snd (SnappyCompress sn xs))) = xs" "snd (SnappyCompress sn xs) \<noteq> []"
    "length (snd (SnappyCompress sn xs)) \<le> 32 + length xs + length xs div 6"
proof -
  obtain ok buf n where run: "snappy_compress sn xs
      (replicate (snappy_max_compressed_length sn (length xs)) 0) = (ok, buf, n)"
    by (rule prod_cases3)
  have sn: "ok" "0 < n" "n \<le> length buf" "n \<le> 32 + length xs + length xs div 6"
      "snappy_uncompressed_length sn (take n buf) = Some (length xs)"
      "snappy_uncompress sn (take n buf) (replicate (length xs) 0) = (True, xs)"
    using assms [unfolded snappy_ok_def, rule_format, of xs] by (simp_all add: run)
  have out: "snd (SnappyCompress sn xs) = take n buf"
    using sn by (simp add: SnappyCompress_def run)
  show "snd (SnappyUncompress sn (snd (SnappyCompress sn xs))) = xs"
    using sn by (simp add: out SnappyUncompress_def)
  show "snd (SnappyCompress sn xs) \<noteq> []" "length (snd (SnappyCompress sn xs)) \<le> 32 + length xs + length xs div 6"
    using sn by (auto simp: out)
qed

lemma compressed_sliceable:
  assumes "snappy_ok sn" and "length xs < 65536"
  shows "sliceable (snd (SnappyCompress sn xs))"
  using snappy_round_trip(3) [OF assms(1), of xs] assms(2) by (simp add: sliceable_def)

text \<open>A \<open>SendTo\<close> that accepts and records everything.\<close>

definition collect_send_to :: "(handle \<times> u16 \<times> byte list \<times> u32) list send_to" where
  "collect_send_to h flag body upper_id env = Some (HEC_SUCCESS, env @ [(h, flag, body, upper_id)])"

fun send_bodies :: "snappy \<Rightarrow> handle \<Rightarrow> u16 \<Rightarrow> (byte list \<times> u32) list \<Rightarrow> (handle \<times> u16 \<times> byte list \<times> u32) list filters
    \<Rightarrow> (handle \<times> u16 \<times> byte list \<times> u32) list filters option" where
  "send_bodies sn h flag [] s = Some s"
| "send_bodies sn h flag ((body, upper_id) # xs) s =
     (case PushSendMsg sn collect_send_to init_filters h flag body upper_id s of
        None \<Rightarrow> None
      | Some (_, s') \<Rightarrow> send_bodies sn h flag xs s')"

text \<open>What the receiver sees: a body taken off the network, or a turn of its upper thread.\<close>

datatype recv_event = Arrive handle u16 "byte list" | UpperTurn

fun recv_events :: "(slice_bag list \<Rightarrow> slice_bag list) \<Rightarrow> snappy \<Rightarrow> recv_event list \<Rightarrow> 'e filters \<Rightarrow> 'e filters option" where
  "recv_events srt sn [] s = Some s"
| "recv_events srt sn (Arrive h flag body # evs) s =
     (case PushRecvMsg srt sn init_filters h flag body s of
        None \<Rightarrow> None
      | Some (_, s') \<Rightarrow> recv_events srt sn evs s')"
| "recv_events srt sn (UpperTurn # evs) s =
     recv_events srt sn evs (case upper_Run s of None \<Rightarrow> s | Some s' \<Rightarrow> s')"

fun arrived :: "recv_event list \<Rightarrow> byte list list" where
  "arrived [] = []"
| "arrived (Arrive h flag body # evs) = body # arrived evs"
| "arrived (UpperTurn # evs) = arrived evs"

lemma init_filters_simps: "init_filters = [UpperThreadFilter, HeadFilter, SnappyFilter, SlicingFilter, EndFilter]"
  by (simp add: init_filters_def upper_with_thread_def)

lemma fold_env: "fold (\<lambda>x s. s\<lparr>fi_env := fi_env s @ [g x]\<rparr>) xs s = s\<lparr>fi_env := fi_env s @ map g xs\<rparr>"
  by (induction xs arbitrary: s) simp_all

lemma PushSendMsg_sends:
  assumes sn: "snappy_ok sn" and len: "length body < 65536"
  shows "PushSendMsg sn collect_send_to init_filters h flag body up s =
    Some (True, s\<lparr>fi_slicing := (fi_slicing s)\<lparr>fs_cur_flag := fs_cur_flag (fi_slicing s) + 1\<rparr>,
      fi_env := fi_env s @ map (\<lambda>bag. (h, flag, slice_bytes bag, up))
        (slices (fs_cur_flag (fi_slicing s) + 1) (snd (SnappyCompress sn body)))\<rparr>)"
proof -
  show ?thesis
    using fs_FilterProcess_sends [of "chain_send sn collect_send_to [EndFilter]" h flag up
        "\<lambda>b s. s\<lparr>fi_env := fi_env s @ [(h, flag, b, up)]\<rparr>" "snd (SnappyCompress sn body)"
        "fi_slicing s" s] compressed_sliceable [OF sn len]
    by (simp add: PushSendMsg_def init_filters_simps collect_send_to_def fold_env)
qed

text \<open>What the application gets of a body.\<close>

definition upper_view :: "byte list \<Rightarrow> byte list" where
  "upper_view body = take (unat (of_nat (length body) :: u16)) body"

text \<open>What has been handed to the application, together with what waits for the upper thread.\<close>

definition upper_account :: "'e filters \<Rightarrow> (handle \<times> byte list) multiset" where
  "upper_account s = mset (fi_received s) +
     mset (map (\<lambda>p. (fp_handle p, upper_view (fp_body p))) (tq_block_queue (fi_task_list s)))"

definition tasks_ok :: "nat \<Rightarrow> 'e filters \<Rightarrow> bool" where
  "tasks_ok n s \<longleftrightarrow> length (tq_block_queue (fi_task_list s)) + n < tq_list_size (fi_task_list s) \<and>
     (\<forall>p \<in> set (tq_block_queue (fi_task_list s)). fp_handle p \<noteq> [])"

lemma upper_view_id: "length body < 65536 \<Longrightarrow> upper_view body = body"
  by (simp add: upper_view_def unat_of_nat_u16)

lemma upper_Run_account:
  assumes "upper_Run s = Some s'" and "tasks_ok n s"
  shows "upper_account s' = upper_account s" "tasks_ok n s'" "fi_slicing s' = fi_slicing s"
proof -
  let ?q = "tq_block_queue (fi_task_list s)"
  have ne: "?q \<noteq> []" using assms(1) by (auto simp: upper_Run_def tq_Pop_def)
  then have split: "?q = butlast ?q @ [last ?q]" by simp
  have "fp_handle (last ?q) \<noteq> []" using assms(2) ne by (simp add: tasks_ok_def)
  then have s': "s' = RecvMessageToUpper (fp_handle (last ?q)) (fp_body (last ?q))
      (s\<lparr>fi_task_list := (fi_task_list s)\<lparr>tq_block_queue := butlast ?q\<rparr>\<rparr>)"
    using assms(1) ne by (simp add: upper_Run_def tq_Pop_def Let_def)
  have "mset (map f ?q) = add_mset (f (last ?q)) (mset (map f (butlast ?q)))" for f :: "filter_param \<Rightarrow> handle \<times> byte list"
    by (subst split) simp
  then show "upper_account s' = upper_account s"
    by (simp add: s' RecvMessageToUpper_def upper_account_def upper_view_def)
  show "tasks_ok n s'" using assms(2) in_set_butlastD [of _ ?q]
    by (auto simp: s' RecvMessageToUpper_def tasks_ok_def)
  show "fi_slicing s' = fi_slicing s" by (simp add: s' RecvMessageToUpper_def)
qed

lemma PushRecvMsg_slice:
  assumes "take_slice srt bag (fi_slicing s) = (m, fs)" and "tasks_ok ((case m of None \<Rightarrow> 0 | Some _ \<Rightarrow> 1) + n) s"
    and "h \<noteq> []"
  shows "\<exists>s'. PushRecvMsg srt sn init_filters h flag (slice_bytes bag) s = Some (True, s') \<and>
    fi_slicing s' = fs \<and> tasks_ok n s' \<and>
    upper_account s' = upper_account s +
      (case m of None \<Rightarrow> {#} | Some c \<Rightarrow> {#(h, upper_view (snd (SnappyUncompress sn c)))#})"
  using assms
  by (cases m) (auto simp: PushRecvMsg_def init_filters_simps fs_RelieveFilterProcess_def tq_Push_def
      tasks_ok_def upper_account_def)

lemma recv_events_account:
  assumes "slicing_inv msgs bags (fi_slicing s)" and srt: "sort_ok srt" and "arrived evs = map slice_bytes bags"
    and "tasks_ok (length (live bags msgs)) s" and h: "h \<noteq> []"
    and "\<forall>h' flag body. Arrive h' flag body \<in> set evs \<longrightarrow> h' = h"
  shows "\<exists>s'. recv_events srt sn evs s = Some s' \<and>
    upper_account s' = upper_account s +
      mset (map (\<lambda>(f, c). (h, upper_view (snd (SnappyUncompress sn c)))) (live bags msgs))"
  using assms(1,3,4,6)
proof (induction evs arbitrary: bags s)
  case Nil
  then show ?case by (simp add: live_def)
next
  case (Cons ev evs)
  show ?case
  proof (cases ev)
    case UpperTurn
    show ?thesis
    proof (cases "upper_Run s")
      case None
      then show ?thesis using Cons UpperTurn by simp
    next
      case (Some s1)
      then show ?thesis
        using Cons.IH [of bags s1] Cons.prems UpperTurn upper_Run_account [OF Some Cons.prems(3)] by simp
    qed
  next
    case (Arrive h' flag body)
    obtain bag bags' where bags: "bags = bag # bags'" "body = slice_bytes bag" "arrived evs = map slice_bytes bags'"
      using Cons.prems(2) Arrive by (cases bags) auto
    obtain m fs where step: "take_slice srt bag (fi_slicing s) = (m, fs)" "slicing_inv msgs bags' fs"
        "mset (map snd (live bags msgs)) = mset (case m of None \<Rightarrow> [] | Some b \<Rightarrow> [b]) + mset (map snd (live bags' msgs))"
      using slicing_inv_step [OF _ srt, of msgs bag bags' "fi_slicing s"] Cons.prems(1) bags(1) by auto
    have "length (live bags msgs) = (case m of None \<Rightarrow> 0 | Some _ \<Rightarrow> 1) + length (live bags' msgs)"
      using arg_cong [OF step(3), of size] by (simp split: option.splits)
    then obtain s1 where s1: "PushRecvMsg srt sn init_filters h flag (slice_bytes bag) s = Some (True, s1)"
        "fi_slicing s1 = fs" "tasks_ok (length (live bags' msgs)) s1"
        "upper_account s1 = upper_account s +
           (case m of None \<Rightarrow> {#} | Some c \<Rightarrow> {#(h, upper_view (snd (SnappyUncompress sn c)))#})"
      using PushRecvMsg_slice [OF step(1) _ h, of "length (live bags' msgs)" sn flag] Cons.prems(3) by auto
    have views: "mset (map (\<lambda>(f, c). (h, upper_view (snd (SnappyUncompress sn c)))) xs) =
        image_mset (\<lambda>c. (h, upper_view (snd (SnappyUncompress sn c)))) (mset (map snd xs))"
      for xs :: "(u16 \<times> byte list) list"
      by (induction xs) auto
    obtain s2 where "recv_events srt sn evs s1 = Some s2" "upper_account s2 = upper_account s1 +
        mset (map (\<lambda>(f, c). (h, upper_view (snd (SnappyUncompress sn c)))) (live bags' msgs))"
      using Cons.IH [of bags' s1] step(2) s1(2,3) bags(3) Cons.prems(4) by auto
    then show ?thesis
      using s1 Cons.prems(4) step(3) unfolding views by (simp add: Arrive bags(2) split: option.splits)
  qed
qed

lemma send_bodies_env:
  assumes sn: "snappy_ok sn" and "\<forall>x \<in> set xs. length (fst x) < 65536"
  shows "\<exists>s'. send_bodies sn h flag xs s = Some s' \<and>
    (\<forall>x \<in> set (fi_env s'). x \<in> set (fi_env s) \<or> fst x = h \<and> length (fst (snd (snd x))) \<le> 400) \<and>
    map (\<lambda>x. fst (snd (snd x))) (fi_env s') = map (\<lambda>x. fst (snd (snd x))) (fi_env s) @
      map slice_bytes (concat (map (\<lambda>(f, c). slices f c)
        (numbered_from (fs_cur_flag (fi_slicing s) + 1) (map (\<lambda>x. snd (SnappyCompress sn (fst x))) xs))))"
  using assms(2)
proof (induction xs arbitrary: s)
  case (Cons x xs)
  obtain body up where x: "x = (body, up)" by (cases x)
  then have "length body < 65536" using Cons.prems by simp
  note send = PushSendMsg_sends [OF sn this, of h flag up s]
  define bags where "bags = slices (fs_cur_flag (fi_slicing s) + 1) (snd (SnappyCompress sn body))"
  define s1 where "s1 = s\<lparr>fi_slicing := (fi_slicing s)\<lparr>fs_cur_flag := fs_cur_flag (fi_slicing s) + 1\<rparr>,
      fi_env := fi_env s @ map (\<lambda>bag. (h, flag, slice_bytes bag, up)) bags\<rparr>"
  obtain s' where s': "send_bodies sn h flag xs s1 = Some s'"
      "\<forall>x \<in> set (fi_env s'). x \<in> set (fi_env s1) \<or> fst x = h \<and> length (fst (snd (snd x))) \<le> 400"
      "map (\<lambda>x. fst (snd (snd x))) (fi_env s') = map (\<lambda>x. fst (snd (snd x))) (fi_env s1) @
        map slice_bytes (concat (map (\<lambda>(f, c). slices f c)
          (numbered_from (fs_cur_flag (fi_slicing s1) + 1) (map (\<lambda>x. snd (SnappyCompress sn (fst x))) xs))))"
    using Cons.IH [of s1] Cons.prems by auto
  have "fst x = h \<and> length (fst (snd (snd x))) \<le> 400"
    if "x \<in> set (fi_env s1)" "x \<notin> set (fi_env s)" for x
    using that length_slice_bytes by (auto simp: s1_def bags_def slices_def)
  then have "\<forall>x \<in> set (fi_env s'). x \<in> set (fi_env s) \<or> fst x = h \<and> length (fst (snd (snd x))) \<le> 400"
    using s'(2) by blast
  moreover have "send_bodies sn h flag (x # xs) s = Some s'"
    using s'(1) by (simp add: x send s1_def bags_def)
  ultimately show ?case
    using s'(3) by (intro exI [of _ s']) (simp add: x s1_def bags_def comp_def)
qed simp

section \<open>Properties\<close>

text \<open>
  C8. From application to application through the filters on both sides (head, snappy, slicing,
  end, with the upper thread): whatever up to 65535 bodies shorter than 65536 bytes are sent,
  every datagram body handed to the socket layer is within its limit, and when these bodies arrive
  in any order, mixed with turns of the upper thread, then every body that was sent is handed to
  the application, or waits for the upper thread, exactly as often as it was sent.
\<close>

theorem filter_chain_round_trip:
  assumes srt: "sort_ok srt" and sn: "snappy_ok sn" and peer: "peer \<noteq> []"
    and msgs: "length msgs < 65536" "\<forall>x \<in> set msgs. length (fst x) < 65536"
    and sent: "send_bodies sn h flag msgs (filters_init []) = Some s1"
    and arrive: "mset (arrived evs) = mset (map (\<lambda>(_, _, body, _). body) (fi_env s1))"
    and from_peer: "\<forall>h' fl body. Arrive h' fl body \<in> set evs \<longrightarrow> h' = peer"
  shows "(\<forall>(h', _, body, _) \<in> set (fi_env s1). h' = h \<and> length body \<le> unat msg_body_size) \<and>
    (\<exists>s2. recv_events srt sn evs (filters_init ()) = Some s2 \<and>
      upper_account s2 = mset (map (\<lambda>(body, _). (peer, body)) msgs))"
proof -
  let ?cs = "map (\<lambda>x. snd (SnappyCompress sn (fst x))) msgs"
  define nums where "nums = numbered_from 1 ?cs"
  let ?all = "concat (map (\<lambda>(f, c). slices f c) nums)"
  have env: "\<forall>x \<in> set (fi_env s1). fst x = h \<and> length (fst (snd (snd x))) \<le> 400"
      "map (\<lambda>x. fst (snd (snd x))) (fi_env s1) = map slice_bytes ?all"
    using send_bodies_env [OF sn msgs(2), of h flag "filters_init []"] sent
    by (auto simp: filters_init_def CFlowSlicingFilter_def nums_def)
  have "mset (arrived evs) = image_mset slice_bytes (mset ?all)"
    using arrive arg_cong [OF env(2), of mset] by (simp add: case_prod_beta')
  then obtain bags where bags: "arrived evs = map slice_bytes bags" "mset bags = mset ?all"
    using bags_of_bytes by blast
  have fsts: "distinct (map fst nums)" and snds: "map snd nums = ?cs"
    using numbered_from_distinct [of ?cs 1] msgs(1) by (simp_all add: nums_def numbered_from_nth(1))
  have cs: "snd ` set nums = set ?cs"
    unfolding snds [symmetric] by simp
  have "sliceable c \<and> c \<noteq> []" if c: "c \<in> snd ` set nums" for c
  proof -
    obtain x where "x \<in> set msgs" "c = snd (SnappyCompress sn (fst x))"
      using c unfolding cs by auto
    then show ?thesis
      using compressed_sliceable [OF sn] snappy_round_trip(2) [OF sn] msgs(2) by simp
  qed
  then have inv: "slicing_inv nums bags CFlowSlicingFilter" and live: "live bags nums = nums"
    using slicing_inv_all [OF fsts _ bags(2)] live_all [OF bags(2)] by auto
  have "length nums = length msgs" using arg_cong [OF snds, of length] by simp
  then have "tasks_ok (length (live bags nums)) (filters_init ())"
    using msgs(1) by (simp add: live tasks_ok_def filters_init_def CTaskQueue_def)
  moreover have "slicing_inv nums bags (fi_slicing (filters_init ()))"
    using inv by (simp add: filters_init_def)
  ultimately obtain s2 where s2: "recv_events srt sn evs (filters_init ()) = Some s2"
      "upper_account s2 = upper_account (filters_init ()) +
        mset (map (\<lambda>(f, c). (peer, upper_view (snd (SnappyUncompress sn c)))) nums)"
    using recv_events_account [OF _ srt bags(1) _ peer from_peer, of nums "filters_init ()" sn]
    by (auto simp: live)
  have views: "map (\<lambda>(f, c). (peer, upper_view (snd (SnappyUncompress sn c)))) nums =
      map (\<lambda>c. (peer, upper_view (snd (SnappyUncompress sn c)))) (map snd nums)"
    by (simp add: comp_def case_prod_beta')
  also have "\<dots> = map (\<lambda>(body, _). (peer, body)) msgs"
    using msgs(2) snappy_round_trip(1) [OF sn] upper_view_id unfolding snds by auto
  finally have "upper_account s2 = mset (map (\<lambda>(body, _). (peer, body)) msgs)"
    using s2(2) by (simp add: filters_init_def upper_account_def CTaskQueue_def del: mset_map)
  moreover have "\<forall>(h', _, body, _) \<in> set (fi_env s1). h' = h \<and> length body \<le> unat msg_body_size"
    using env(1) by (auto simp: config_defs)
  ultimately show ?thesis using s2(1) by blast
qed

text \<open>A library that stores the input behind one byte meets the documentation of snappy.\<close>

definition sample_snappy :: snappy where
  "sample_snappy = \<lparr>snappy_max_compressed_length = Suc, snappy_compress = (\<lambda>xs buf. (True, 0 # xs, Suc (length xs))),
     snappy_uncompressed_length = (\<lambda>ys. if ys = [] then None else Some (length ys - 1)),
     snappy_uncompress = (\<lambda>ys buf. (True, tl ys))\<rparr>"

lemma sample_snappy_ok: "snappy_ok sample_snappy"
  by (simp add: snappy_ok_def sample_snappy_def)

theorem filter_chain_round_trip_witness:
  "\<exists>s1 s2 b. send_bodies sample_snappy ''a'' 4 [([1, 2], 0), ([3], 0)] (filters_init []) = Some s1 \<and>
     map (\<lambda>(_, _, body, _). body) (fi_env s1) = b \<and> length b = 2 \<and>
     recv_events (sort_key bag_index) sample_snappy
       [Arrive ''b'' 4 (b ! 1), UpperTurn, Arrive ''b'' 4 (b ! 0)] (filters_init ()) = Some s2 \<and>
     upper_account s2 = {#(''b'', [1, 2]), (''b'', [3])#}"
proof -
  let ?msgs = "[([1, 2], 0), ([3], 0)] :: (byte list \<times> u32) list"
  have len: "\<forall>x \<in> set ?msgs. length (fst x) < 65536" by simp
  obtain s1 where s1: "send_bodies sample_snappy ''a'' 4 ?msgs (filters_init []) = Some s1"
      "map (\<lambda>x. fst (snd (snd x))) (fi_env s1) = map slice_bytes (slices 1 [0, 1, 2] @ slices 2 [0, 3])"
    using send_bodies_env [OF sample_snappy_ok len, of "''a''" 4 "filters_init []"]
    by (auto simp: filters_init_def CFlowSlicingFilter_def SnappyCompress_def sample_snappy_def)
  obtain x y where b: "map (\<lambda>(_, _, body, _). body) (fi_env s1) = [x, y]"
    using s1(2) by (auto simp: slices_def nslices_def case_prod_beta')
  let ?evs = "[Arrive ''b'' 4 y, UpperTurn, Arrive ''b'' 4 x]"
  have "mset (arrived ?evs) = mset (map (\<lambda>(_, _, body, _). body) (fi_env s1))"
    unfolding b by simp
  from filter_chain_round_trip [OF sort_ok_sort_key sample_snappy_ok _ _ len s1(1) this, of "''b''"]
  obtain s2 where "recv_events (sort_key bag_index) sample_snappy ?evs (filters_init ()) = Some s2"
      "upper_account s2 = {#(''b'', [1, 2]), (''b'', [3])#}"
    by auto
  then show ?thesis using s1(1) b by (intro exI [of _ s1] exI [of _ s2] exI [of _ "[x, y]"]) simp
qed

text \<open>
  \<open>AddFilter\<close> builds the two-way list of the filters in the order of the calls: from the head
  the next links, and from the end the previous links, visit every filter once.
\<close>

theorem AddFilter_builds_list:
  assumes "distinct fs" and "fs \<noteq> []"
  shows "let l = fold AddFilter fs CFilterProcess in
    walk (fl_next_filter l) (length fs) (fl_filter_head l) = fs \<and>
    walk (fl_prev_filter l) (length fs) (fl_filter_end l) = rev fs"
proof -
  let ?l = "fold AddFilter fs CFilterProcess"
  have l: "list_of ?l fs" using foldl_AddFilter [OF list_of_empty, of fs] assms by simp
  have "Suc (length fs - 1) = length fs" using assms by (cases fs) auto
  then show ?thesis
    using walk_next [OF l, of 0] walk_prev [OF l, of "length fs - 1"] assms l
    by (simp add: list_of_def hd_conv_nth last_conv_nth)
qed

theorem AddFilter_builds_list_witness:
  "walk (fl_next_filter (fold AddFilter [4, 7, 2] CFilterProcess)) 3
     (fl_filter_head (fold AddFilter [4, 7, 2] CFilterProcess)) = [4, 7, 2]"
  using AddFilter_builds_list [of "[4, 7, 2]"] by (simp add: Let_def numeral_3_eq_3)

text \<open>
  A body of 65536 bytes or more reaches the application cut to its length modulo 65536.
\<close>

theorem RecvMessageToUpper_cuts:
  assumes "length body = 65536 + n" and "n < 65536"
  shows "fi_received (RecvMessageToUpper h body s) = fi_received s @ [(h, take n body)]"
proof -
  have "unat (of_nat (length body) :: u16) = n"
    unfolding assms(1) unat_of_nat using assms(2) by simp
  then show ?thesis by (simp add: RecvMessageToUpper_def)
qed

theorem RecvMessageToUpper_cuts_witness:
  "fi_received (RecvMessageToUpper ''b'' (replicate 65537 7) (filters_init ())) = [(''b'', [7])]"
  using RecvMessageToUpper_cuts [of "replicate 65537 7" 1 "''b''" "filters_init ()"]
  by (simp add: filters_init_def take_replicate)

text \<open>
  The filter thread takes the task queued last: of two bodies given to \<open>PushSendMsg\<close> before it
  runs, the second is sent first.
\<close>

theorem filter_thread_reorders:
  assumes "PushSendMsg_thread h flag a up q = Some q1" and "PushSendMsg_thread h flag b up q1 = Some q2"
  shows "filter_Run srt sn snd_to ks (q2, s) = map_option (\<lambda>(_, s). (q1, s)) (PushSendMsg sn snd_to ks h flag b up s)"
  using assms by (auto simp: filter_Run_def PushSendMsg_thread_def tq_Push_def tq_Pop_def butlast_append
      split: if_splits)

end
