(* ===== verification/Minmax.thy ===== *)
theory Minmax
  imports Hudp_Prelude
begin

text \<open>
  \<^verbatim>\<open>net/controller/OsCommon.h\<close>: the filter for the maximum of the measurements in a sliding window
  of time, which keeps the best three samples. Times are \<open>uint32_t\<close> and may wrap around.
\<close>

section \<open>State and operations\<close>

record minmax_sample =
  mm_t :: u32
  mm_v :: u32

text \<open>The array \<open>s[3]\<close>.\<close>

record minmax =
  mm_s0 :: minmax_sample
  mm_s1 :: minmax_sample
  mm_s2 :: minmax_sample

definition minmax_get :: "minmax \<Rightarrow> u32" where
  "minmax_get m = mm_v (mm_s0 m)"

definition minmax_reset :: "u32 \<Rightarrow> u32 \<Rightarrow> minmax" where
  "minmax_reset t meas =
     (let val = \<lparr>mm_t = t, mm_v = meas\<rparr> in \<lparr>mm_s0 = val, mm_s1 = val, mm_s2 = val\<rparr>)"

definition minmax_subwin_update :: "u32 \<Rightarrow> minmax_sample \<Rightarrow> minmax \<Rightarrow> minmax" where
  "minmax_subwin_update win val m =
     (let dt = mm_t val - mm_t (mm_s0 m) in
      if dt > win then
        (let m1 = \<lparr>mm_s0 = mm_s1 m, mm_s1 = mm_s2 m, mm_s2 = val\<rparr> in
         if mm_t val - mm_t (mm_s0 m1) > win
         then \<lparr>mm_s0 = mm_s1 m1, mm_s1 = mm_s2 m1, mm_s2 = val\<rparr> else m1)
      else if mm_t (mm_s1 m) = mm_t (mm_s0 m) \<and> dt > win div 4 then m\<lparr>mm_s1 := val, mm_s2 := val\<rparr>
      else if mm_t (mm_s2 m) = mm_t (mm_s1 m) \<and> dt > win div 2 then m\<lparr>mm_s2 := val\<rparr>
      else m)"

definition minmax_running_max :: "u32 \<Rightarrow> u32 \<Rightarrow> u32 \<Rightarrow> minmax \<Rightarrow> minmax" where
  "minmax_running_max win t meas m =
     (let val = \<lparr>mm_t = t, mm_v = meas\<rparr> in
      if mm_v val \<ge> mm_v (mm_s0 m) \<or> mm_t val - mm_t (mm_s2 m) > win then minmax_reset t meas
      else
        (let m1 = (if mm_v val \<ge> mm_v (mm_s1 m) then m\<lparr>mm_s1 := val, mm_s2 := val\<rparr>
                   else if mm_v val \<ge> mm_v (mm_s2 m) then m\<lparr>mm_s2 := val\<rparr> else m) in
         minmax_subwin_update win val m1))"

section \<open>The window\<close>

text \<open>
  The filter after a number of measurements, the latest first.
\<close>

fun running :: "u32 \<Rightarrow> minmax_sample list \<Rightarrow> minmax" where
  "running win [] = minmax_reset 0 0"
| "running win [x] = minmax_reset (mm_t x) (mm_v x)"
| "running win (x # h) = minmax_running_max win (mm_t x) (mm_v x) (running win h)"

text \<open>\<open>s\<close> was measured, and nothing measured since then is bigger.\<close>

definition unbeaten :: "minmax_sample \<Rightarrow> minmax_sample list \<Rightarrow> bool" where
  "unbeaten s h \<longleftrightarrow> (\<exists>newer older. h = newer @ s # older \<and> (\<forall>x \<in> set newer. mm_v x \<le> mm_v s))"

text \<open>The age of a sample at the time of the latest measurement.\<close>

definition age :: "u32 \<Rightarrow> minmax_sample \<Rightarrow> nat" where
  "age now s = unat (now - mm_t s)"

definition minmax_inv :: "u32 \<Rightarrow> minmax_sample list \<Rightarrow> minmax \<Rightarrow> bool" where
  "minmax_inv win h m \<longleftrightarrow> h \<noteq> [] \<and> unbeaten (mm_s0 m) h \<and> unbeaten (mm_s1 m) h \<and> unbeaten (mm_s2 m) h \<and>
     mm_v (mm_s2 m) \<le> mm_v (mm_s1 m) \<and> mm_v (mm_s1 m) \<le> mm_v (mm_s0 m) \<and>
     age (mm_t (hd h)) (mm_s0 m) \<le> unat win"

lemma unbeaten_new: "unbeaten x (x # h)"
  unfolding unbeaten_def by (intro exI [of _ "[]"] exI [of _ h]) simp

lemma unbeaten_old: "unbeaten s h \<Longrightarrow> mm_v x \<le> mm_v s \<Longrightarrow> unbeaten s (x # h)"
  unfolding unbeaten_def by (metis append_Cons set_ConsD)

lemma unbeaten_hd: "unbeaten s h \<Longrightarrow> mm_v (hd h) \<le> mm_v s"
  by (auto simp: unbeaten_def hd_append)

lemma sample_eta: "\<lparr>mm_t = mm_t x, mm_v = mm_v x\<rparr> = x"
  by simp

lemma minmax_reset_inv: "minmax_inv win (x # h) (minmax_reset (mm_t x) (mm_v x))"
  by (simp add: minmax_inv_def minmax_reset_def Let_def sample_eta unbeaten_new age_def)

lemma running_max_inv:
  assumes inv: "minmax_inv win h m"
  shows "minmax_inv win (x # h) (minmax_running_max win (mm_t x) (mm_v x) m)"
proof (cases "mm_v x \<ge> mm_v (mm_s0 m) \<or> mm_t x - mm_t (mm_s2 m) > win")
  case True
  then show ?thesis by (simp add: minmax_running_max_def minmax_reset_inv)
next
  case False
  define m1 where "m1 = (if mm_v x \<ge> mm_v (mm_s1 m) then m\<lparr>mm_s1 := x, mm_s2 := x\<rparr>
    else if mm_v x \<ge> mm_v (mm_s2 m) then m\<lparr>mm_s2 := x\<rparr> else m)"
  have run: "minmax_running_max win (mm_t x) (mm_v x) m = minmax_subwin_update win x m1"
    using False by (simp add: minmax_running_max_def m1_def Let_def sample_eta)
  have m1: "unbeaten (mm_s0 m1) (x # h)" "unbeaten (mm_s1 m1) (x # h)" "unbeaten (mm_s2 m1) (x # h)"
      "mm_v x \<le> mm_v (mm_s2 m1)" "mm_v (mm_s2 m1) \<le> mm_v (mm_s1 m1)" "mm_v (mm_s1 m1) \<le> mm_v (mm_s0 m1)"
      "age (mm_t x) (mm_s2 m1) \<le> unat win"
    using inv False by (auto simp: m1_def minmax_inv_def unbeaten_new age_def word_le_nat_alt
        word_less_nat_alt not_less intro!: unbeaten_old)
  then show ?thesis
    unfolding run minmax_subwin_update_def
    by (auto simp: Let_def minmax_inv_def unbeaten_new age_def not_less word_le_nat_alt)
qed

lemma running_inv: "h \<noteq> [] \<Longrightarrow> minmax_inv win h (running win h)"
proof (induction h rule: running.induct)
  case (3 win x y h)
  then show ?case by (auto intro: running_max_inv simp del: running.simps simp: running.simps(3))
qed (simp_all add: minmax_reset_inv)

section \<open>Properties\<close>

text \<open>
  C31. The windowed maximum: the value of the filter is that of a measurement which is not older
  than the window, and no measurement made since then is bigger; the latest measurement in
  particular is not.
\<close>

theorem minmax_windowed_max:
  assumes "h \<noteq> []"
  shows "let m = running win h in
    (\<exists>newer older. h = newer @ mm_s0 m # older \<and> (\<forall>x \<in> set newer. mm_v x \<le> minmax_get m)) \<and>
    age (mm_t (hd h)) (mm_s0 m) \<le> unat win \<and> mm_v (hd h) \<le> minmax_get m"
proof -
  have inv: "minmax_inv win h (running win h)" by (rule running_inv [OF assms])
  then have "unbeaten (mm_s0 (running win h)) h" by (simp add: minmax_inv_def)
  moreover from this have "mm_v (hd h) \<le> mm_v (mm_s0 (running win h))"
    by (rule unbeaten_hd)
  ultimately show ?thesis
    using inv by (simp add: minmax_inv_def minmax_get_def unbeaten_def Let_def)
qed

theorem minmax_windowed_max_witness:
  "minmax_get (running 10 [\<lparr>mm_t = 25, mm_v = 4\<rparr>, \<lparr>mm_t = 13, mm_v = 7\<rparr>, \<lparr>mm_t = 12, mm_v = 9\<rparr>]) \<ge> 4"
  using minmax_windowed_max [of "[\<lparr>mm_t = 25, mm_v = 4\<rparr>, \<lparr>mm_t = 13, mm_v = 7\<rparr>, \<lparr>mm_t = 12, mm_v = 9\<rparr>]" 10]
  by (simp add: Let_def)

end
