(* ===== verification/Bbr.thy ===== *)
theory Bbr
  imports Minmax Hudp_Config
begin

text \<open>
  \<^verbatim>\<open>net/controller/bbr/bbr.cpp\<close>: the congestion controller. The bit fields keep their widths, the
  mode is an enumeration. \<open>GetCurTimeStamp\<close> has the same value for all calls of a step, the argument
  \<open>now\<close>. Members that \<open>bbr_init\<close> does not set keep what the memory held, the argument \<open>uninit\<close> of
  the constructor. Gains are never negative and passed as \<open>uint32_t\<close> here, not as \<open>int\<close>.
\<close>

section \<open>Constants\<close>

definition TCP_MSS_DEFAULT :: u32 where "TCP_MSS_DEFAULT = 536"
definition MAX_PACING_RATE :: u32 where "MAX_PACING_RATE = 0xFFFFFFFF"
definition TCP_INIT_CWND :: u32 where "TCP_INIT_CWND = 10"
definition MAX_SEND_WND :: u32 where "MAX_SEND_WND = 65535"
definition HZ :: u32 where "HZ = 1000"
definition USEC_PER_SEC :: u64 where "USEC_PER_SEC = 1000000"
definition bbr_USEC_PER_MSEC :: u64 where "bbr_USEC_PER_MSEC = 1000"

definition BW_SCALE :: nat where "BW_SCALE = 24"
definition BW_UNIT :: u32 where "BW_UNIT = push_bit BW_SCALE 1"
definition BBR_SCALE :: nat where "BBR_SCALE = 8"
definition BBR_UNIT :: u32 where "BBR_UNIT = push_bit BBR_SCALE 1"

datatype bbr_mode = BBR_STARTUP | BBR_DRAIN | BBR_PROBE_BW | BBR_PROBE_RTT

definition CYCLE_LEN :: u32 where "CYCLE_LEN = 8"
definition bbr_bw_rtts :: u32 where "bbr_bw_rtts = CYCLE_LEN + 2"
definition bbr_min_rtt_win_sec :: u32 where "bbr_min_rtt_win_sec = 10"
definition bbr_probe_rtt_mode_ms :: u32 where "bbr_probe_rtt_mode_ms = 200"
definition bbr_min_tso_rate :: u32 where "bbr_min_tso_rate = 1200000"
definition bbr_high_gain :: u32 where "bbr_high_gain = BBR_UNIT * 2885 div 1000 + 1"
definition bbr_drain_gain :: u32 where "bbr_drain_gain = BBR_UNIT * 1000 div 2885"
definition bbr_cwnd_gain :: u32 where "bbr_cwnd_gain = BBR_UNIT * 2"
definition bbr_pacing_gain :: "u32 list" where
  "bbr_pacing_gain = [BBR_UNIT * 5 div 4, BBR_UNIT * 3 div 4, BBR_UNIT, BBR_UNIT, BBR_UNIT,
     BBR_UNIT, BBR_UNIT, BBR_UNIT]"
definition bbr_cwnd_min_target :: u32 where "bbr_cwnd_min_target = 4"
definition bbr_full_bw_thresh :: u32 where "bbr_full_bw_thresh = BBR_UNIT * 5 div 4"
definition bbr_full_bw_cnt :: u32 where "bbr_full_bw_cnt = 3"
definition bbr_lt_intvl_min_rtts :: u32 where "bbr_lt_intvl_min_rtts = 4"
definition bbr_lt_loss_thresh :: u32 where "bbr_lt_loss_thresh = 50"
definition bbr_lt_bw_ratio :: u32 where "bbr_lt_bw_ratio = BBR_UNIT div 8"
definition bbr_lt_bw_diff :: u32 where "bbr_lt_bw_diff = 4000 div 8"
definition bbr_lt_bw_max_rtts :: u32 where "bbr_lt_bw_max_rtts = 48"

lemmas bbr_const_defs = TCP_MSS_DEFAULT_def MAX_PACING_RATE_def TCP_INIT_CWND_def MAX_SEND_WND_def HZ_def
  USEC_PER_SEC_def bbr_USEC_PER_MSEC_def BW_SCALE_def BW_UNIT_def BBR_SCALE_def BBR_UNIT_def CYCLE_LEN_def
  bbr_bw_rtts_def bbr_min_rtt_win_sec_def bbr_probe_rtt_mode_ms_def bbr_min_tso_rate_def
  bbr_high_gain_def bbr_drain_gain_def bbr_cwnd_gain_def bbr_pacing_gain_def bbr_cwnd_min_target_def
  bbr_full_bw_thresh_def bbr_full_bw_cnt_def bbr_lt_intvl_min_rtts_def bbr_lt_loss_thresh_def
  bbr_lt_bw_ratio_def bbr_lt_bw_diff_def bbr_lt_bw_max_rtts_def

section \<open>State\<close>

record bbr =
  b_min_rtt_us :: u32
  b_min_rtt_stamp :: u64
  b_probe_rtt_done_stamp :: u64
  b_bw :: minmax
  b_rtt_cnt :: u32
  b_next_rtt_delivered :: u64
  b_cycle_mstamp :: u64
  b_mode :: bbr_mode
  b_packet_conservation :: bool
  b_round_start :: bool
  b_idle_restart :: bool
  b_probe_rtt_round_done :: bool
  b_lt_is_sampling :: bool
  b_lt_rtt_cnt :: "7 word"
  b_lt_use_bw :: bool
  b_lt_bw :: u64
  b_lt_last_delivered :: u32
  b_lt_last_stamp :: u64
  b_lt_last_lost :: u32
  b_pacing_gain :: "10 word"
  b_cwnd_gain :: "10 word"
  b_full_bw_reached :: bool
  b_full_bw_cnt :: "2 word"
  b_cycle_idx :: "3 word"
  b_has_seen_rtt :: bool
  b_prior_cwnd :: u32
  b_full_bw :: u32

definition bbr_max_bw :: "bbr \<Rightarrow> u32" where
  "bbr_max_bw b = minmax_get (b_bw b)"

definition bbr_bw :: "bbr \<Rightarrow> u32" where
  "bbr_bw b = (if b_lt_use_bw b then ucast (b_lt_bw b) else bbr_max_bw b)"

section \<open>Rates\<close>

definition bbr_rate_bytes_per_sec :: "u64 \<Rightarrow> u32 \<Rightarrow> u64" where
  "bbr_rate_bytes_per_sec rate gain =
     (let rate = rate * ucast TCP_MSS_DEFAULT;
          rate = rate * ucast gain;
          rate = drop_bit BBR_SCALE rate;
          rate = rate * USEC_PER_SEC in
      drop_bit BW_SCALE rate)"

definition bbr_bw_to_pacing_rate :: "u32 \<Rightarrow> u32 \<Rightarrow> u32" where
  "bbr_bw_to_pacing_rate bw gain =
     (let rate = bbr_rate_bytes_per_sec (ucast bw) gain in
      ucast (if rate < ucast MAX_PACING_RATE then rate else ucast MAX_PACING_RATE))"

definition bbr_init_pacing_rate_from_rtt :: "u32 \<Rightarrow> u32 \<Rightarrow> bbr \<Rightarrow> u32 \<times> bbr" where
  "bbr_init_pacing_rate_from_rtt rtt send_wnd b =
     (let (rtt_us, b1) = (if rtt \<noteq> 0 then (if rtt > 1 then rtt else 1, b\<lparr>b_has_seen_rtt := True\<rparr>)
                          else (ucast bbr_USEC_PER_MSEC, b));
          bw = send_wnd * BW_UNIT;
          bw = bw div rtt_us in
      (bbr_bw_to_pacing_rate bw bbr_high_gain, b1))"

definition bbr_set_pacing_rate :: "u32 \<Rightarrow> u32 \<Rightarrow> u32 \<Rightarrow> u32 \<Rightarrow> u32 \<Rightarrow> bbr \<Rightarrow> u32 \<times> bbr" where
  "bbr_set_pacing_rate rtt send_wnd bw gain pacing_rate b =
     (let rate = bbr_bw_to_pacing_rate bw gain;
          (pacing_rate, b1) = (if b_has_seen_rtt b \<and> rtt \<noteq> 0
                               then bbr_init_pacing_rate_from_rtt rtt send_wnd b else (pacing_rate, b)) in
      (if b_full_bw_reached b1 \<or> rate > pacing_rate then rate else pacing_rate, b1))"

definition bbr_min_tso_segs :: "u32 \<Rightarrow> u32" where
  "bbr_min_tso_segs pacing_rate = (if pacing_rate < drop_bit 3 bbr_min_tso_rate then 1 else 2)"

definition bbr_tso_segs_goal :: "u32 \<Rightarrow> u32" where
  "bbr_tso_segs_goal pacing_rate =
     (let bytes = drop_bit 10 pacing_rate;
          segs = (if bytes div TCP_MSS_DEFAULT > bbr_min_tso_segs pacing_rate
                  then bytes div TCP_MSS_DEFAULT else bbr_min_tso_segs pacing_rate) in
      min segs 0x7F)"

text \<open>\<open>~1U\<close> has 32 bits: the mask also clears the upper half of the 64-bit \<open>cwnd\<close>.\<close>

definition bbr_target_cwnd :: "u32 \<Rightarrow> u32 \<Rightarrow> u32 \<Rightarrow> bbr \<Rightarrow> u32" where
  "bbr_target_cwnd pacing_rate bw gain b =
     (if b_min_rtt_us b = 0xFFFFFFFF then TCP_INIT_CWND
      else
        let w = (ucast bw * ucast (b_min_rtt_us b) :: u64);
            cwnd = (drop_bit BBR_SCALE (w * ucast gain) + ucast BW_UNIT - 1) div ucast BW_UNIT;
            cwnd = cwnd + ucast (3 * bbr_tso_segs_goal pacing_rate);
            cwnd = (cwnd + 1) AND 0xFFFFFFFE;
            cwnd = (if b_mode b = BBR_PROBE_BW \<and> gain > BBR_UNIT then cwnd + 2 else cwnd) in
        ucast cwnd)"

definition bbr_set_cwnd :: "u32 \<Rightarrow> u32 \<Rightarrow> u32 \<Rightarrow> u32 \<Rightarrow> u32 \<Rightarrow> bbr \<Rightarrow> u32" where
  "bbr_set_cwnd pacing_rate acked bw gain cwnd b =
     (let cwnd =
            (if acked = 0 then cwnd
             else
               let target_cwnd = bbr_target_cwnd pacing_rate bw gain b;
                   cwnd = (if b_full_bw_reached b then min (cwnd + acked) target_cwnd
                           else if cwnd < target_cwnd then cwnd + acked else cwnd) in
               max cwnd bbr_cwnd_min_target);
          cwnd = min cwnd MAX_SEND_WND in
      if b_mode b = BBR_PROBE_RTT then min cwnd bbr_cwnd_min_target else cwnd)"

section \<open>Modes\<close>

definition bbr_reset_startup_mode :: "bbr \<Rightarrow> bbr" where
  "bbr_reset_startup_mode b =
     b\<lparr>b_mode := BBR_STARTUP, b_pacing_gain := ucast bbr_high_gain, b_cwnd_gain := ucast bbr_high_gain\<rparr>"

definition bbr_advance_cycle_phase :: "u64 \<Rightarrow> bbr \<Rightarrow> bbr" where
  "bbr_advance_cycle_phase delivered_mstamp b =
     (let idx = ucast ((ucast (b_cycle_idx b) + 1) AND (CYCLE_LEN - 1)) :: 3 word in
      b\<lparr>b_cycle_idx := idx, b_cycle_mstamp := delivered_mstamp,
        b_pacing_gain := ucast (if b_lt_use_bw b then BBR_UNIT else bbr_pacing_gain ! unat idx)\<rparr>)"

definition bbr_reset_probe_bw_mode :: "u64 \<Rightarrow> bbr \<Rightarrow> bbr" where
  "bbr_reset_probe_bw_mode delivered_mstamp b =
     (let idx = b_cycle_idx b + 1;
          idx = (ucast (ucast idx mod CYCLE_LEN) :: 3 word) in
      bbr_advance_cycle_phase delivered_mstamp
        (b\<lparr>b_mode := BBR_PROBE_BW, b_pacing_gain := ucast BBR_UNIT, b_cwnd_gain := ucast bbr_cwnd_gain,
           b_cycle_idx := idx\<rparr>))"

definition bbr_reset_mode :: "u64 \<Rightarrow> bbr \<Rightarrow> bbr" where
  "bbr_reset_mode delivered_mstamp b =
     (if \<not> b_full_bw_reached b then bbr_reset_startup_mode b else bbr_reset_probe_bw_mode delivered_mstamp b)"

definition bbr_save_cwnd :: "u32 \<Rightarrow> bbr \<Rightarrow> bbr" where
  "bbr_save_cwnd send_wnd b =
     b\<lparr>b_prior_cwnd := (if b_mode b \<noteq> BBR_PROBE_RTT then send_wnd
                        else if b_prior_cwnd b > send_wnd then b_prior_cwnd b else send_wnd)\<rparr>"

definition bbr_is_next_cycle_phase :: "u32 \<Rightarrow> u64 \<Rightarrow> u32 \<Rightarrow> bool \<Rightarrow> bbr \<Rightarrow> bool" where
  "bbr_is_next_cycle_phase pacing_rate delivered_mstamp inflight loss_pkt b =
     (let is_full_length = delivered_mstamp - b_cycle_mstamp b > ucast (b_min_rtt_us b);
          gain = (ucast (b_pacing_gain b) :: u32) in
      if gain = BBR_UNIT then is_full_length
      else if gain > BBR_UNIT then
        is_full_length \<and> (loss_pkt \<or> inflight \<ge> bbr_target_cwnd pacing_rate (bbr_max_bw b) gain b)
      else is_full_length \<or> inflight \<le> bbr_target_cwnd pacing_rate (bbr_max_bw b) BBR_UNIT b)"

definition bbr_update_cycle_phase :: "u32 \<Rightarrow> u64 \<Rightarrow> u32 \<Rightarrow> bool \<Rightarrow> bbr \<Rightarrow> bbr" where
  "bbr_update_cycle_phase pacing_rate delivered_mstamp inflight loss_pkt b =
     (if b_mode b = BBR_PROBE_BW \<and> bbr_is_next_cycle_phase pacing_rate delivered_mstamp inflight loss_pkt b
      then bbr_advance_cycle_phase delivered_mstamp b else b)"

section \<open>Long-term sampling\<close>

definition bbr_reset_lt_bw_sampling_interval :: "u64 \<Rightarrow> u32 \<Rightarrow> u32 \<Rightarrow> bbr \<Rightarrow> bbr" where
  "bbr_reset_lt_bw_sampling_interval delivered_mstamp delivered lost b =
     b\<lparr>b_lt_last_stamp := delivered_mstamp div bbr_USEC_PER_MSEC, b_lt_last_delivered := delivered,
       b_lt_last_lost := lost, b_lt_rtt_cnt := 0\<rparr>"

definition bbr_reset_lt_bw_sampling :: "u64 \<Rightarrow> u32 \<Rightarrow> u32 \<Rightarrow> bbr \<Rightarrow> bbr" where
  "bbr_reset_lt_bw_sampling delivered_mstamp delivered lost b =
     bbr_reset_lt_bw_sampling_interval delivered_mstamp delivered lost
       (b\<lparr>b_lt_bw := 0, b_lt_use_bw := False, b_lt_is_sampling := False\<rparr>)"

definition bbr_lt_bw_interval_done :: "u64 \<Rightarrow> u64 \<Rightarrow> u32 \<Rightarrow> u32 \<Rightarrow> bbr \<Rightarrow> bbr" where
  "bbr_lt_bw_interval_done bw delivered_mstamp delivered lost b =
     (let diff = (if bw > b_lt_bw b then bw - b_lt_bw b else b_lt_bw b - bw) in
      if b_lt_bw b \<noteq> 0 \<and> (diff * ucast BBR_UNIT \<le> ucast bbr_lt_bw_ratio * b_lt_bw b \<or>
           bbr_rate_bytes_per_sec diff BBR_UNIT \<le> ucast bbr_lt_bw_diff)
      then b\<lparr>b_lt_bw := drop_bit 1 (bw + b_lt_bw b), b_lt_use_bw := True, b_pacing_gain := ucast BBR_UNIT,
             b_lt_rtt_cnt := 0\<rparr>
      else bbr_reset_lt_bw_sampling_interval delivered_mstamp delivered lost (b\<lparr>b_lt_bw := bw\<rparr>))"

text \<open>\<open>lost\<close> and \<open>delivered\<close> are overwritten by their increase in the interval.\<close>

definition bbr_lt_bw_sample :: "u64 \<Rightarrow> u32 \<Rightarrow> u32 \<Rightarrow> bbr \<Rightarrow> bbr" where
  "bbr_lt_bw_sample delivered_mstamp delivered lost b =
     (if lost = 0 then b
      else
        let lost = lost - b_lt_last_lost b;
            delivered = delivered - b_lt_last_delivered b in
        if delivered = 0 \<or> push_bit BBR_SCALE lost < bbr_lt_loss_thresh * delivered then b
        else
          let t = delivered_mstamp div bbr_USEC_PER_MSEC - b_lt_last_stamp b in
          if t < 1 then b
          else if t \<ge> 0xFFFFFFFF div bbr_USEC_PER_MSEC
          then bbr_reset_lt_bw_sampling delivered_mstamp delivered lost b
          else
            let t = t * bbr_USEC_PER_MSEC;
                bw = (ucast (delivered * BW_UNIT) :: u64) div t in
            bbr_lt_bw_interval_done bw delivered_mstamp delivered lost b)"

definition bbr_lt_bw_sampling :: "u64 \<Rightarrow> u32 \<Rightarrow> u32 \<Rightarrow> bool \<Rightarrow> bbr \<Rightarrow> bbr" where
  "bbr_lt_bw_sampling delivered_mstamp delivered lost is_app_limited b =
     (if b_lt_use_bw b then
        (if b_mode b = BBR_PROBE_BW \<and> b_round_start b then
           let b1 = b\<lparr>b_lt_rtt_cnt := b_lt_rtt_cnt b + 1\<rparr> in
           if ucast (b_lt_rtt_cnt b1) \<ge> bbr_lt_bw_max_rtts
           then bbr_reset_probe_bw_mode delivered_mstamp (bbr_reset_lt_bw_sampling delivered_mstamp delivered lost b1)
           else b1
         else b)
      else if \<not> b_lt_is_sampling b \<and> lost = 0 then b
      else
        let b1 = (if \<not> b_lt_is_sampling b
                  then (bbr_reset_lt_bw_sampling_interval delivered_mstamp delivered lost b)\<lparr>b_lt_is_sampling := True\<rparr>
                  else b) in
        if is_app_limited then bbr_reset_lt_bw_sampling delivered_mstamp delivered lost b1
        else
          let b2 = (if b_round_start b1 then b1\<lparr>b_lt_rtt_cnt := b_lt_rtt_cnt b1 + 1\<rparr> else b1) in
          if ucast (b_lt_rtt_cnt b2) < bbr_lt_intvl_min_rtts then b2
          else if ucast (b_lt_rtt_cnt b2) > 4 * bbr_lt_intvl_min_rtts
          then bbr_reset_lt_bw_sampling delivered_mstamp delivered lost b2
          else bbr_lt_bw_sample delivered_mstamp delivered lost b2)"

section \<open>The model of the path\<close>

definition bbr_update_bw :: "u32 \<Rightarrow> u64 \<Rightarrow> u32 \<Rightarrow> u32 \<Rightarrow> bool \<Rightarrow> bbr \<Rightarrow> bbr" where
  "bbr_update_bw rrt delivered_mstamp delivered lost app_limit b =
     (let b1 = b\<lparr>b_round_start := False\<rparr> in
      if rrt = 0 then b1
      else
        let b2 = (if b_rtt_cnt b1 > 1000
                  then b1\<lparr>b_next_rtt_delivered := ucast delivered, b_rtt_cnt := b_rtt_cnt b1 + 1,
                          b_round_start := True\<rparr> else b1);
            b3 = bbr_lt_bw_sampling delivered_mstamp delivered lost app_limit b2;
            cur_bw = delivered * BW_UNIT div rrt in
        if \<not> app_limit \<or> cur_bw \<ge> bbr_max_bw b3
        then b3\<lparr>b_bw := minmax_running_max bbr_bw_rtts (b_rtt_cnt b3) cur_bw (b_bw b3)\<rparr> else b3)"

definition bbr_check_full_bw_reached :: "bool \<Rightarrow> bbr \<Rightarrow> bbr" where
  "bbr_check_full_bw_reached app_limite b =
     (if b_full_bw_reached b \<or> \<not> b_round_start b \<or> app_limite then b
      else
        let bw_thresh = (ucast (drop_bit BBR_SCALE (ucast (b_full_bw b) * ucast bbr_full_bw_thresh :: u64)) :: u32) in
        if bbr_max_bw b \<ge> bw_thresh then b\<lparr>b_full_bw := bbr_max_bw b, b_full_bw_cnt := 0\<rparr>
        else
          let n = b_full_bw_cnt b + 1 in
          b\<lparr>b_full_bw_cnt := n, b_full_bw_reached := (ucast n \<ge> bbr_full_bw_cnt)\<rparr>)"

definition bbr_check_drain :: "u64 \<Rightarrow> u32 \<Rightarrow> u32 \<Rightarrow> bbr \<Rightarrow> bbr" where
  "bbr_check_drain delivered_mstamp pacing_rate inflight b =
     (let b1 = (if b_mode b = BBR_STARTUP \<and> b_full_bw_reached b
                then b\<lparr>b_mode := BBR_DRAIN, b_pacing_gain := ucast bbr_drain_gain,
                       b_cwnd_gain := ucast bbr_high_gain\<rparr> else b) in
      if b_mode b1 = BBR_DRAIN \<and> inflight \<le> bbr_target_cwnd pacing_rate (bbr_max_bw b1) BBR_UNIT b1
      then bbr_reset_probe_bw_mode delivered_mstamp b1 else b1)"

definition bbr_check_probe_rtt_done :: "u64 \<Rightarrow> u64 \<Rightarrow> u32 \<Rightarrow> bbr \<Rightarrow> u32 \<times> bbr" where
  "bbr_check_probe_rtt_done now delivered_mstamp send_wnd b =
     (if \<not> (b_probe_rtt_done_stamp b \<noteq> 0 \<and> now < b_probe_rtt_done_stamp b) then (send_wnd, b)
      else (max send_wnd (b_prior_cwnd b), bbr_reset_mode delivered_mstamp (b\<lparr>b_min_rtt_stamp := now\<rparr>)))"

definition bbr_probe_rtt :: "u64 \<Rightarrow> u64 \<Rightarrow> u32 \<Rightarrow> u64 \<Rightarrow> u32 \<Rightarrow> bbr \<Rightarrow> u32 \<times> bbr" where
  "bbr_probe_rtt now delivered_mstamp inflight delivered send_wnd b =
     (if b_mode b = BBR_PROBE_RTT then
        (if b_probe_rtt_done_stamp b = 0 \<and> inflight \<le> bbr_cwnd_min_target
         then (send_wnd, b\<lparr>b_probe_rtt_done_stamp := now + ucast bbr_probe_rtt_mode_ms,
                           b_probe_rtt_round_done := False, b_next_rtt_delivered := delivered\<rparr>)
         else if b_probe_rtt_done_stamp b \<noteq> 0
         then (let b1 = (if b_round_start b then b\<lparr>b_probe_rtt_round_done := True\<rparr> else b) in
               if b_probe_rtt_round_done b1 then bbr_check_probe_rtt_done now delivered_mstamp send_wnd b1
               else (send_wnd, b1))
         else (send_wnd, b))
      else (send_wnd, b))"

definition bbr_update_min_rtt :: "u64 \<Rightarrow> u64 \<Rightarrow> u32 \<Rightarrow> u64 \<Rightarrow> u32 \<Rightarrow> u32 \<Rightarrow> bbr \<Rightarrow> u32 \<times> bbr" where
  "bbr_update_min_rtt now delivered_mstamp inflight delivered rtt_us send_wnd b =
     (let filter_expired = now < b_min_rtt_stamp b + ucast (bbr_min_rtt_win_sec * HZ);
          b1 = (if rtt_us \<le> b_min_rtt_us b \<or> filter_expired
                then b\<lparr>b_min_rtt_us := rtt_us, b_min_rtt_stamp := now\<rparr> else b);
          b2 = (if bbr_probe_rtt_mode_ms > 0 \<and> filter_expired \<and> \<not> b_idle_restart b1 \<and> b_mode b1 \<noteq> BBR_PROBE_RTT
                then (bbr_save_cwnd send_wnd
                        (b1\<lparr>b_mode := BBR_PROBE_RTT, b_pacing_gain := ucast BBR_UNIT,
                            b_cwnd_gain := ucast BBR_UNIT\<rparr>))\<lparr>b_probe_rtt_done_stamp := 0\<rparr>
                else b1);
          (send_wnd, b3) = bbr_probe_rtt now delivered_mstamp inflight delivered send_wnd b2 in
      (send_wnd, if delivered > 0 then b3\<lparr>b_idle_restart := False\<rparr> else b3))"

definition bbr_init :: "u64 \<Rightarrow> bbr \<Rightarrow> bbr" where
  "bbr_init now uninit =
     bbr_reset_startup_mode (uninit\<lparr>
       b_prior_cwnd := 0, b_rtt_cnt := 0, b_next_rtt_delivered := 0, b_probe_rtt_done_stamp := 0,
       b_probe_rtt_round_done := False, b_min_rtt_us := 0, b_min_rtt_stamp := now,
       b_bw := minmax_reset 0 0, b_has_seen_rtt := False, b_round_start := False, b_idle_restart := True,
       b_full_bw_reached := False, b_full_bw := 0, b_full_bw_cnt := 0, b_cycle_mstamp := 0, b_cycle_idx := 0\<rparr>)"

definition CBbr :: "u64 \<Rightarrow> bbr \<Rightarrow> bbr" where
  "CBbr now uninit = bbr_init now uninit"

definition bbr_update_model :: "u64 \<Rightarrow> u32 \<Rightarrow> u32 \<Rightarrow> u32 \<Rightarrow> u64 \<Rightarrow> u32 \<Rightarrow> u32 \<Rightarrow> bool \<Rightarrow> u32 \<Rightarrow> bbr \<Rightarrow> u32 \<times> bbr" where
  "bbr_update_model now pacing_rate inflight rrt delivered_mstamp delivered lost app_limit send_wnd b =
     (let b1 = bbr_update_bw rrt delivered_mstamp delivered lost app_limit b;
          b2 = bbr_update_cycle_phase pacing_rate delivered_mstamp inflight (lost > 0) b1;
          b3 = bbr_check_full_bw_reached app_limit b2;
          b4 = bbr_check_drain delivered_mstamp pacing_rate inflight b3 in
      bbr_update_min_rtt now delivered_mstamp inflight (ucast delivered) rrt send_wnd b4)"

text \<open>The result: the send window, the pacing rate and the new state.\<close>

definition bbr_main :: "u64 \<Rightarrow> u32 \<Rightarrow> u32 \<Rightarrow> u32 \<Rightarrow> u64 \<Rightarrow> u32 \<Rightarrow> u32 \<Rightarrow> bool \<Rightarrow> u32 \<Rightarrow> u32 \<Rightarrow> bbr \<Rightarrow> u32 \<times> u32 \<times> bbr" where
  "bbr_main now inflight rrt acked delivered_mstamp delivered lost app_limit send_wnd pacing_rate b =
     (let (send_wnd, b1) = bbr_update_model now pacing_rate inflight rrt delivered_mstamp delivered lost app_limit send_wnd b;
          bw = bbr_bw b1;
          (pacing_rate, b2) = bbr_set_pacing_rate rrt send_wnd bw (ucast (b_pacing_gain b1)) pacing_rate b1 in
      (bbr_set_cwnd pacing_rate acked bw (ucast (b_pacing_gain b2)) send_wnd b2, pacing_rate, b2))"

section \<open>Reachable states\<close>

text \<open>The arguments of one call of \<open>bbr_main\<close>.\<close>

record bbr_input =
  bi_now :: u64
  bi_inflight :: u32
  bi_rtt :: u32
  bi_acked :: u32
  bi_delivered_mstamp :: u64
  bi_delivered :: u32
  bi_lost :: u32
  bi_app_limit :: bool
  bi_send_wnd :: u32
  bi_pacing_rate :: u32

definition bbr_step :: "bbr_input \<Rightarrow> bbr \<Rightarrow> u32 \<times> u32 \<times> bbr" where
  "bbr_step i = bbr_main (bi_now i) (bi_inflight i) (bi_rtt i) (bi_acked i) (bi_delivered_mstamp i)
     (bi_delivered i) (bi_lost i) (bi_app_limit i) (bi_send_wnd i) (bi_pacing_rate i)"

inductive bbr_reachable :: "bbr \<Rightarrow> bool" where
  start: "bbr_reachable (CBbr now uninit)"
| turn: "bbr_reachable b \<Longrightarrow> bbr_step i b = (wnd, rate, b') \<Longrightarrow> bbr_reachable b'"

text \<open>What every reachable state has: no round was ever counted, so the pipe never seems full.\<close>

definition bbr_stuck :: "bbr \<Rightarrow> bool" where
  "bbr_stuck b \<longleftrightarrow> b_rtt_cnt b = 0 \<and> \<not> b_round_start b \<and> \<not> b_full_bw_reached b \<and>
     \<not> b_probe_rtt_round_done b \<and> (b_mode b = BBR_STARTUP \<or> b_mode b = BBR_PROBE_RTT)"

lemmas bbr_reset_defs = bbr_reset_lt_bw_sampling_def bbr_reset_lt_bw_sampling_interval_def

definition bbr_core :: "bbr \<Rightarrow> u32 \<times> bool \<times> bool \<times> bool \<times> bbr_mode \<times> bool \<times> minmax \<times> u64 \<times> u32" where
  "bbr_core b = (b_rtt_cnt b, b_round_start b, b_full_bw_reached b, b_probe_rtt_round_done b, b_mode b,
     b_idle_restart b, b_bw b, b_probe_rtt_done_stamp b, b_min_rtt_us b)"

lemma bbr_lt_bw_sample_core: "bbr_core (bbr_lt_bw_sample ms d l b) = bbr_core b"
  by (simp add: bbr_lt_bw_sample_def bbr_lt_bw_interval_done_def bbr_reset_defs bbr_core_def Let_def)

lemma bbr_lt_bw_sampling_core:
  "\<not> b_round_start b \<Longrightarrow> bbr_core (bbr_lt_bw_sampling ms d l lim b) = bbr_core b"
  by (simp add: bbr_lt_bw_sampling_def bbr_lt_bw_sample_core Let_def)
    (simp add: bbr_reset_defs bbr_core_def)

lemma bbr_update_bw_core:
  assumes "b_rtt_cnt b = 0"
  shows "\<exists>b'. bbr_update_bw rrt ms d l lim b = b' \<and> b_rtt_cnt b' = 0 \<and> \<not> b_round_start b' \<and>
    b_full_bw_reached b' = b_full_bw_reached b \<and> b_probe_rtt_round_done b' = b_probe_rtt_round_done b \<and>
    b_mode b' = b_mode b \<and> b_idle_restart b' = b_idle_restart b \<and>
    b_probe_rtt_done_stamp b' = b_probe_rtt_done_stamp b \<and> b_min_rtt_us b' = b_min_rtt_us b"
  using assms bbr_lt_bw_sampling_core [of "b\<lparr>b_round_start := False\<rparr>" ms d l lim]
  by (auto simp: bbr_update_bw_def bbr_core_def Let_def)

lemma bbr_update_min_rtt_stuck:
  assumes "bbr_stuck b" and "bbr_update_min_rtt now ms inflight d rtt wnd b = (wnd', b')"
  shows "bbr_stuck b'" "wnd' = wnd" "b_mode b = BBR_PROBE_RTT \<Longrightarrow> b_mode b' = BBR_PROBE_RTT"
  using assms
  by (auto simp: bbr_update_min_rtt_def bbr_stuck_def bbr_save_cwnd_def bbr_probe_rtt_def Let_def
      split: if_splits prod.splits)

lemma bbr_set_pacing_rate_core: "bbr_set_pacing_rate rtt wnd bw gain rate b = (rate', b') \<Longrightarrow>
   bbr_core b' = bbr_core b \<and> b_lt_use_bw b' = b_lt_use_bw b \<and> b_lt_rtt_cnt b' = b_lt_rtt_cnt b"
  by (auto simp: bbr_set_pacing_rate_def bbr_init_pacing_rate_from_rtt_def Let_def bbr_core_def split: if_splits)

lemma bbr_stuck_core: "bbr_core b' = bbr_core b \<Longrightarrow> bbr_stuck b' = bbr_stuck b"
  by (simp add: bbr_stuck_def bbr_core_def)

lemma bbr_update_model_stuck:
  assumes b: "bbr_stuck b" and run: "bbr_update_model now rate inflight rtt ms d l lim wnd b = (wnd', b')"
  shows "bbr_stuck b'" "wnd' = wnd" "b_mode b = BBR_PROBE_RTT \<Longrightarrow> b_mode b' = BBR_PROBE_RTT"
proof -
  obtain b1 where b1: "bbr_update_bw rtt ms d l lim b = b1" "bbr_stuck b1" "b_mode b1 = b_mode b"
    using bbr_update_bw_core [of b rtt ms d l lim] b by (auto simp: bbr_stuck_def)
  have "bbr_update_cycle_phase rate ms inflight (l > 0) b1 = b1"
    and "bbr_check_full_bw_reached lim b1 = b1" and "bbr_check_drain ms rate inflight b1 = b1"
    using b1(2) by (auto simp: bbr_stuck_def bbr_update_cycle_phase_def bbr_check_full_bw_reached_def
        bbr_check_drain_def Let_def)
  then have "bbr_update_min_rtt now ms inflight (ucast d) rtt wnd b1 = (wnd', b')"
    using run by (simp add: bbr_update_model_def b1(1) Let_def)
  from bbr_update_min_rtt_stuck [OF b1(2) this]
  show "bbr_stuck b'" "wnd' = wnd" "b_mode b = BBR_PROBE_RTT \<Longrightarrow> b_mode b' = BBR_PROBE_RTT"
    by (simp_all add: b1(3))
qed

lemma bbr_main_stuck:
  assumes b: "bbr_stuck b" and run: "bbr_main now inflight rtt acked ms d l lim wnd rate b = (wnd', rate', b')"
  shows "bbr_stuck b'"
proof -
  obtain w1 b1 where m: "bbr_update_model now rate inflight rtt ms d l lim wnd b = (w1, b1)" by fastforce
  obtain r2 b2 where p: "bbr_set_pacing_rate rtt w1 (bbr_bw b1) (ucast (b_pacing_gain b1)) rate b1 = (r2, b2)"
    by fastforce
  have "b' = b2" using run by (simp add: bbr_main_def m p Let_def)
  moreover have "bbr_stuck b1" using bbr_update_model_stuck [OF b m] by simp
  ultimately show ?thesis
    using bbr_stuck_core bbr_set_pacing_rate_core [OF p] by blast
qed

lemma CBbr_stuck: "bbr_stuck (CBbr now uninit)"
  by (simp add: bbr_stuck_def CBbr_def bbr_init_def bbr_reset_startup_mode_def)

lemma bbr_step_probe_rtt:
  assumes b: "bbr_stuck b" and mode: "b_mode b = BBR_PROBE_RTT"
  shows "b_mode (snd (snd (bbr_step i b))) = BBR_PROBE_RTT"
proof -
  obtain w1 b1 where m: "bbr_update_model (bi_now i) (bi_pacing_rate i) (bi_inflight i) (bi_rtt i)
      (bi_delivered_mstamp i) (bi_delivered i) (bi_lost i) (bi_app_limit i) (bi_send_wnd i) b = (w1, b1)"
    by fastforce
  obtain r2 b2 where p: "bbr_set_pacing_rate (bi_rtt i) w1 (bbr_bw b1) (ucast (b_pacing_gain b1)) (bi_pacing_rate i) b1 = (r2, b2)"
    by fastforce
  have "b_mode b1 = BBR_PROBE_RTT" using bbr_update_model_stuck(3) [OF b m mode] .
  then show ?thesis
    using bbr_set_pacing_rate_core [OF p] by (simp add: bbr_step_def bbr_main_def m p Let_def bbr_core_def)
qed

lemma bbr_reachable_stuck: "bbr_reachable b \<Longrightarrow> bbr_stuck b"
proof (induction rule: bbr_reachable.induct)
  case (start now uninit)
  show ?case by (rule CBbr_stuck)
next
  case (turn b i wnd rate b')
  then show ?case by (auto simp: bbr_step_def intro: bbr_main_stuck)
qed

text \<open>
  The caller passes no delivered bytes and a window of 0 (see the socket); then the bandwidth
  stays 0. The members the constructor leaves open are assumed not to claim a long-term rate.
\<close>

definition bbr_idle :: "bbr \<Rightarrow> bool" where
  "bbr_idle b \<longleftrightarrow> bbr_stuck b \<and> b_mode b = BBR_STARTUP \<and> b_idle_restart b \<and> \<not> b_lt_use_bw b \<and>
     ucast (b_lt_rtt_cnt b) < bbr_lt_intvl_min_rtts \<and>
     mm_v (mm_s0 (b_bw b)) = 0 \<and> mm_v (mm_s1 (b_bw b)) = 0 \<and> mm_v (mm_s2 (b_bw b)) = 0"

lemma bbr_lt_bw_sampling_idle:
  assumes "\<not> b_round_start b" and "\<not> b_lt_use_bw b" and "ucast (b_lt_rtt_cnt b) < bbr_lt_intvl_min_rtts"
  shows "\<not> b_lt_use_bw (bbr_lt_bw_sampling ms d l lim b)"
    "ucast (b_lt_rtt_cnt (bbr_lt_bw_sampling ms d l lim b)) < bbr_lt_intvl_min_rtts"
  using assms by (simp_all add: bbr_lt_bw_sampling_def bbr_reset_defs Let_def bbr_lt_intvl_min_rtts_def)

lemma minmax_running_max_zero:
  assumes "mm_v (mm_s0 m) = 0" and "mm_v (mm_s1 m) = 0" and "mm_v (mm_s2 m) = 0"
  shows "mm_v (mm_s0 (minmax_running_max win t 0 m)) = 0" "mm_v (mm_s1 (minmax_running_max win t 0 m)) = 0"
    "mm_v (mm_s2 (minmax_running_max win t 0 m)) = 0"
  using assms by (simp_all add: minmax_running_max_def minmax_reset_def Let_def)

lemma bbr_update_bw_idle:
  assumes "bbr_idle b"
  shows "bbr_idle (bbr_update_bw rtt ms 0 l lim b)"
  using assms bbr_update_bw_core [of b rtt ms 0 l lim] bbr_lt_bw_sampling_core [of "b\<lparr>b_round_start := False\<rparr>" ms 0 l lim]
    bbr_lt_bw_sampling_idle [of "b\<lparr>b_round_start := False\<rparr>" ms 0 l lim]
  by (auto simp: bbr_update_bw_def bbr_idle_def bbr_stuck_def bbr_core_def Let_def minmax_running_max_zero)

lemma bbr_update_min_rtt_idle:
  assumes "bbr_idle b" and "bbr_update_min_rtt now ms inflight 0 rtt wnd b = (wnd', b')"
  shows "bbr_idle b'" "wnd' = wnd"
  using assms by (auto simp: bbr_update_min_rtt_def bbr_idle_def bbr_stuck_def bbr_probe_rtt_def Let_def
      split: if_splits prod.splits)

lemma bbr_update_model_idle:
  assumes b: "bbr_idle b" and run: "bbr_update_model now rate inflight rtt ms 0 l lim wnd b = (wnd', b')"
  shows "bbr_idle b'" "wnd' = wnd"
proof -
  let ?b1 = "bbr_update_bw rtt ms 0 l lim b"
  have b1: "bbr_idle ?b1" by (rule bbr_update_bw_idle [OF b])
  then have "bbr_update_cycle_phase rate ms inflight (l > 0) ?b1 = ?b1"
    and "bbr_check_full_bw_reached lim ?b1 = ?b1" and "bbr_check_drain ms rate inflight ?b1 = ?b1"
    by (auto simp: bbr_idle_def bbr_stuck_def bbr_update_cycle_phase_def bbr_check_full_bw_reached_def
        bbr_check_drain_def Let_def)
  then have "bbr_update_min_rtt now ms inflight 0 rtt wnd ?b1 = (wnd', b')"
    using run by (simp add: bbr_update_model_def Let_def)
  then show "bbr_idle b'" "wnd' = wnd"
    using bbr_update_min_rtt_idle [OF b1] by blast+
qed

text \<open>The window aimed at is at least one packet.\<close>

lemma even_mask_pos:
  fixes y :: u64
  assumes "1 < unat y" and "unat y < 2 ^ 32"
  shows "(ucast (y AND 0xFFFFFFFE) :: u32) \<noteq> 0"
proof -
  have "y = take_bit 32 y"
    using assms(2) by (simp add: word_unat_eq_iff unsigned_take_bit_eq take_bit_nat_eq_self)
  then have hi: "n < 32" if "bit y n" for n
    using that by (metis bit_take_bit_iff)
  have "\<exists>n \<ge> 1. bit y n"
  proof (rule ccontr)
    assume none: "\<not> (\<exists>n \<ge> 1. bit y n)"
    have "y = take_bit 1 y"
      by (rule bit_word_eqI) (metis none bit_take_bit_iff less_one not_less)
    then have "unat y = unat (take_bit 1 y)" by (rule arg_cong)
    also have "\<dots> = unat y mod 2" by (simp only: unsigned_take_bit_eq) (simp add: take_bit_eq_mod)
    finally show False using assms(1) by linarith
  qed
  then obtain n where n: "bit y n" "1 \<le> n" by blast
  have "(0xFFFFFFFE :: u64) = push_bit 1 (mask 31)"
    by (simp add: mask_eq_exp_minus_1 push_bit_eq_mult)
  moreover have "bit (push_bit 1 (mask 31 :: u64)) n"
    using n hi [OF n(1)] by (simp only: bit_push_bit_iff bit_mask_iff) (simp add: possible_bit_word, linarith)
  ultimately have "bit (y AND 0xFFFFFFFE) n" using n(1) by (simp only: bit_and_iff)
  then have "bit (ucast (y AND 0xFFFFFFFE) :: u32) n"
    using hi [OF n(1)] by (simp add: bit_ucast_iff)
  then show ?thesis by auto
qed

lemma tso_segs_bounds: "1 \<le> unat (bbr_tso_segs_goal r)" "unat (bbr_tso_segs_goal r) \<le> 127"
  by (auto simp: bbr_tso_segs_goal_def Let_def min_def bbr_min_tso_segs_def word_le_nat_alt word_less_nat_alt)

lemma target_cwnd_idle: "b_mode b \<noteq> BBR_PROBE_BW \<Longrightarrow> bbr_target_cwnd rate 0 gain b \<noteq> 0"
proof -
  define k where "k = unat (bbr_tso_segs_goal rate)"
  have k: "1 \<le> k" "k \<le> 127" using tso_segs_bounds [of rate] by (simp_all add: k_def)
  have three: "unat (3 * bbr_tso_segs_goal rate) = 3 * k"
    using k by (simp add: unat_word_ariths k_def)
  have quot: "(0 + ucast BW_UNIT - 1 :: u64) div ucast BW_UNIT = 0"
    by (simp add: BW_UNIT_def BW_SCALE_def)
  let ?y = "ucast (3 * bbr_tso_segs_goal rate) + 1 :: u64"
  have "unat (ucast (3 * bbr_tso_segs_goal rate) :: u64) = 3 * k"
    using three k by (simp add: unsigned_ucast_eq take_bit_eq_mod)
  then have "unat ?y = 3 * k + 1"
    using k by (simp add: unat_word_ariths)
  then have pos: "(ucast (?y AND 0xFFFFFFFE) :: u32) \<noteq> 0"
    using k by (intro even_mask_pos) simp_all
  assume "b_mode b \<noteq> BBR_PROBE_BW"
  then show ?thesis
    using pos quot by (simp add: bbr_target_cwnd_def TCP_INIT_CWND_def Let_def)
qed

section \<open>Properties\<close>

text \<open>
  C32. The send window that a controller turn sets is at most 65535; if packets were acknowledged, it is
  at least 4, and exactly 4 while the round-trip time is probed; whatever the state of the controller
  and the measurements are.
\<close>

theorem bbr_window_bounds:
  assumes "bbr_step i b = (wnd, rate, b')"
  shows "wnd \<le> 65535 \<and> (bi_acked i \<noteq> 0 \<longrightarrow> 4 \<le> wnd) \<and>
    (b_mode b' = BBR_PROBE_RTT \<and> bi_acked i \<noteq> 0 \<longrightarrow> wnd = 4)"
proof -
  have "bbr_set_cwnd r a bw gain w b \<le> 65535 \<and> (a \<noteq> 0 \<longrightarrow> 4 \<le> bbr_set_cwnd r a bw gain w b) \<and>
      (b_mode b = BBR_PROBE_RTT \<and> a \<noteq> 0 \<longrightarrow> bbr_set_cwnd r a bw gain w b = 4)" for r a bw gain w b
    by (auto simp: bbr_set_cwnd_def Let_def MAX_SEND_WND_def bbr_cwnd_min_target_def min_def max_def)
  then show ?thesis
    using assms by (auto simp: bbr_step_def bbr_main_def Let_def split: prod.splits)
qed

definition sample_input :: bbr_input where
  "sample_input = \<lparr>bi_now = 50, bi_inflight = 900, bi_rtt = 20, bi_acked = 7, bi_delivered_mstamp = 50,
     bi_delivered = 0, bi_lost = 1, bi_app_limit = False, bi_send_wnd = 0, bi_pacing_rate = 10\<rparr>"

lemma sample_input_simps: "bi_acked sample_input = 7" "bi_delivered sample_input = 0" "bi_send_wnd sample_input = 0"
  by (simp_all add: sample_input_def)

definition sample_memory :: bbr where
  "sample_memory = \<lparr>b_min_rtt_us = 1, b_min_rtt_stamp = 1, b_probe_rtt_done_stamp = 1, b_bw = minmax_reset 1 1,
     b_rtt_cnt = 1, b_next_rtt_delivered = 1, b_cycle_mstamp = 1, b_mode = BBR_DRAIN,
     b_packet_conservation = False, b_round_start = True, b_idle_restart = True,
     b_probe_rtt_round_done = True, b_lt_is_sampling = False, b_lt_rtt_cnt = 0, b_lt_use_bw = False,
     b_lt_bw = 0, b_lt_last_delivered = 0, b_lt_last_stamp = 0, b_lt_last_lost = 0, b_pacing_gain = 0,
     b_cwnd_gain = 0, b_full_bw_reached = True, b_full_bw_cnt = 1, b_cycle_idx = 1, b_has_seen_rtt = True,
     b_prior_cwnd = 1, b_full_bw = 1\<rparr>"

theorem bbr_window_bounds_witness:
  "fst (bbr_step sample_input (CBbr 50 sample_memory)) \<le> 65535 \<and>
   4 \<le> fst (bbr_step sample_input (CBbr 50 sample_memory))"
proof -
  obtain wnd rate b' where run: "bbr_step sample_input (CBbr 50 sample_memory) = (wnd, rate, b')"
    by (rule prod_cases3)
  show ?thesis
    using bbr_window_bounds [OF run] by (simp add: run sample_input_simps)
qed

text \<open>
  C33. The state machine of the controller: in every reachable state the mode is start-up or
  the probing of the round-trip time, and the pipe is never estimated to be full, because no round
  is ever counted. Drain and bandwidth probing are unreachable, and so is the end of the probing.
\<close>

theorem bbr_modes_unreachable:
  assumes "bbr_reachable b"
  shows "b_mode b \<in> {BBR_STARTUP, BBR_PROBE_RTT} \<and> \<not> b_full_bw_reached b \<and> b_rtt_cnt b = 0 \<and>
    (b_mode b = BBR_PROBE_RTT \<longrightarrow> b_mode (snd (snd (bbr_step i b))) = BBR_PROBE_RTT)"
proof -
  have stuck: "bbr_stuck b" by (rule bbr_reachable_stuck [OF assms])
  moreover have "b_mode (snd (snd (bbr_step i b))) = BBR_PROBE_RTT" if "b_mode b = BBR_PROBE_RTT"
    using bbr_step_probe_rtt [OF stuck that] .
  ultimately show ?thesis by (auto simp: bbr_stuck_def)
qed

theorem bbr_modes_unreachable_witness:
  "b_mode (snd (snd (bbr_step sample_input (CBbr 50 sample_memory)))) \<in> {BBR_STARTUP, BBR_PROBE_RTT}"
proof -
  obtain wnd rate b' where run: "bbr_step sample_input (CBbr 50 sample_memory) = (wnd, rate, b')"
    by (rule prod_cases3)
  then have "bbr_reachable b'" by (rule bbr_reachable.turn [OF bbr_reachable.start])
  then show ?thesis using bbr_modes_unreachable [of b'] by (simp add: run)
qed

lemma bbr_idle_step:
  assumes "bbr_idle b" and "bi_delivered i = 0" and "bi_send_wnd i = 0"
    and "bbr_step i b = (wnd, rate, b')"
  shows "bi_acked i \<noteq> 0 \<Longrightarrow> wnd = max 4 (min (bi_acked i) 65535)" "bbr_idle b'"
proof -
  obtain b1 r2 where run: "bbr_update_model (bi_now i) (bi_pacing_rate i) (bi_inflight i) (bi_rtt i)
        (bi_delivered_mstamp i) 0 (bi_lost i) (bi_app_limit i) 0 b = (0, b1)" "bbr_idle b1"
      "bbr_set_pacing_rate (bi_rtt i) 0 (bbr_bw b1) (ucast (b_pacing_gain b1)) (bi_pacing_rate i) b1 = (r2, b')"
      "wnd = bbr_set_cwnd r2 (bi_acked i) (bbr_bw b1) (ucast (b_pacing_gain b')) 0 b'"
    using assms bbr_update_model_idle [OF assms(1)]
    by (fastforce simp: bbr_step_def bbr_main_def Let_def split: prod.splits)
  have bw: "bbr_bw b1 = 0"
    using run(2) by (simp add: bbr_idle_def bbr_bw_def bbr_max_bw_def minmax_get_def)
  have idle: "bbr_idle b'"
    using run(2) bbr_set_pacing_rate_core [OF run(3)] by (auto simp: bbr_idle_def bbr_core_def bbr_stuck_def)
  show "bbr_idle b'" by (rule idle)
  have "0 < bbr_target_cwnd r2 0 (ucast (b_pacing_gain b')) b'"
    using target_cwnd_idle [of b'] idle by (simp add: bbr_idle_def word_gt_0)
  then show "bi_acked i \<noteq> 0 \<Longrightarrow> wnd = max 4 (min (bi_acked i) 65535)"
    using idle unfolding run(4) bw
    by (auto simp: bbr_set_cwnd_def bbr_idle_def bbr_stuck_def Let_def MAX_SEND_WND_def
        bbr_cwnd_min_target_def min_def max_def word_le_nat_alt word_unat_eq_iff)
qed

text \<open>
  Driven the way the socket drives it, with no delivered bytes and a window of 0, the
  controller sets the window to the number of acknowledgements in the message at hand, within 4
  and 65535, whatever the round-trip time, the losses and the packets in flight are.
\<close>

theorem bbr_window_counts_acks:
  assumes "bbr_idle b" and "bi_delivered i = 0" and "bi_send_wnd i = 0" and "bi_acked i \<noteq> 0"
    and "bbr_step i b = (wnd, rate, b')"
  shows "wnd = max 4 (min (bi_acked i) 65535) \<and> bbr_idle b'"
  using bbr_idle_step [OF assms(1-3,5)] assms(4) by simp

lemma CBbr_idle:
  assumes "\<not> b_lt_use_bw uninit" and "ucast (b_lt_rtt_cnt uninit) < bbr_lt_intvl_min_rtts"
  shows "bbr_idle (CBbr now uninit)"
  using assms by (simp add: bbr_idle_def CBbr_stuck)
    (simp add: CBbr_def bbr_init_def bbr_reset_startup_mode_def minmax_reset_def Let_def)

lemma sample_idle: "bbr_idle (CBbr 50 sample_memory)"
  by (rule CBbr_idle) (simp_all add: sample_memory_def bbr_lt_intvl_min_rtts_def)

theorem bbr_window_counts_acks_witness:
  "fst (bbr_step sample_input (CBbr 50 sample_memory)) = 7"
proof -
  obtain wnd rate b' where run: "bbr_step sample_input (CBbr 50 sample_memory) = (wnd, rate, b')"
    by (rule prod_cases3)
  show ?thesis
    using bbr_window_counts_acks [OF sample_idle _ _ _ run]
    by (simp add: run sample_input_simps min_def max_def word_le_nat_alt)
qed

end
