(* ===== verification/Msg_Pool.thy ===== *)
theory Msg_Pool
  imports Timer Task_Queue
begin

text \<open>
  \<^verbatim>\<open>hudp/MsgPoolFactory.cpp\<close>: the pool of messages. A reference is the address of a message; \<open>mp_next\<close>
  is the next address \<open>new\<close> gives. \<open>new\<close> does not fail and does not reuse a deleted address here.
\<close>

section \<open>State and operations\<close>

record msg_pool =
  mp_free_net_msg_queue :: "msg_ref list"
  mp_next :: msg_ref

definition CMsgPoolFactory :: msg_pool where
  "CMsgPoolFactory = \<lparr>mp_free_net_msg_queue = [], mp_next = 0\<rparr>"

definition CreateMsg :: "store \<times> msg_pool \<Rightarrow> msg_ref \<times> store \<times> msg_pool" where
  "CreateMsg s =
     (case ts_Pop (mp_free_net_msg_queue (snd s)) of
        Some (net_msg, q) \<Rightarrow> (net_msg, fst s, (snd s)\<lparr>mp_free_net_msg_queue := q\<rparr>)
      | None \<Rightarrow>
          (mp_next (snd s), (fst s)(mp_next (snd s) := CMsgImpl), (snd s)\<lparr>mp_next := Suc (mp_next (snd s))\<rparr>))"

text \<open>Popping \<open>n\<close> messages, which are then deleted.\<close>

fun drop_free :: "nat \<Rightarrow> msg_pool \<Rightarrow> msg_pool" where
  "drop_free 0 p = p"
| "drop_free (Suc n) p =
     (case ts_Pop (mp_free_net_msg_queue p) of
        Some (_, q) \<Rightarrow> drop_free n (p\<lparr>mp_free_net_msg_queue := q\<rparr>)
      | None \<Rightarrow> drop_free n p)"

definition ReduceFree :: "msg_pool \<Rightarrow> msg_pool" where
  "ReduceFree p =
     (let sz = length (mp_free_net_msg_queue p) in
      if sz > unat msg_pool_reduce_limit_size then drop_free (sz div 2) p else p)"

definition DeleteMsg :: "msg_ref \<Rightarrow> store \<times> msg_pool \<Rightarrow> store \<times> msg_pool" where
  "DeleteMsg msg s =
     ((fst s)(msg := msg_Clear (fst s msg)),
      ReduceFree ((snd s)\<lparr>mp_free_net_msg_queue := ts_Push msg (mp_free_net_msg_queue (snd s))\<rparr>))"

text \<open>What happens when the last shared pointer to a message goes.\<close>

definition SharedPtrDeleter :: "msg_ref \<Rightarrow> store \<times> msg_pool \<Rightarrow> timer \<Rightarrow> (store \<times> msg_pool) \<times> timer" where
  "SharedPtrDeleter msg s t =
     (if m_time_id (fst s msg) > 0
      then (case RemoveTimer msg (fst s) t of (\<sigma>, t') \<Rightarrow> (DeleteMsg msg (\<sigma>, snd s), t'))
      else (DeleteMsg msg s, t))"

section \<open>Reachable pools\<close>

text \<open>Messages in use, with the operations a client performs: it deletes what it holds.\<close>

inductive pool_run :: "msg_ref set \<Rightarrow> store \<times> msg_pool \<Rightarrow> bool" where
  pool_start: "pool_run {} (\<sigma>, CMsgPoolFactory)"
| pool_create: "pool_run used s \<Longrightarrow> CreateMsg s = (r, s') \<Longrightarrow> pool_run (insert r used) s'"
| pool_delete: "pool_run used s \<Longrightarrow> r \<in> used \<Longrightarrow> pool_run (used - {r}) (DeleteMsg r s)"
| pool_write: "pool_run used s \<Longrightarrow> r \<in> used \<Longrightarrow> pool_run used ((fst s)(r := m), snd s)"

definition blank :: "msg \<Rightarrow> bool" where
  "blank m \<longleftrightarrow> m_body m = [] \<and> m_flag m = ucast msg_with_out_id \<and> h_flag (m_head m) = 0 \<and>
     m_socket m = None \<and> m_time_id m = 0 \<and> m_backoff_factor m = 1 \<and> m_ip_port m = [] \<and>
     head_empty (m_head m)"

definition pool_inv :: "msg_ref set \<Rightarrow> store \<times> msg_pool \<Rightarrow> bool" where
  "pool_inv used s \<longleftrightarrow>
     distinct (mp_free_net_msg_queue (snd s)) \<and> length (mp_free_net_msg_queue (snd s)) \<le> 50 \<and>
     used \<inter> set (mp_free_net_msg_queue (snd s)) = {} \<and>
     (\<forall>r \<in> used \<union> set (mp_free_net_msg_queue (snd s)). r < mp_next (snd s)) \<and>
     (\<forall>r \<in> set (mp_free_net_msg_queue (snd s)). blank (fst s r))"

lemma drop_free_queue: "drop_free n p = p\<lparr>mp_free_net_msg_queue := drop n (mp_free_net_msg_queue p)\<rparr>"
  by (induction n p rule: drop_free.induct) (auto simp: ts_Pop_def drop_Suc tl_drop split: list.splits)

lemma ReduceFree_queue:
  "ReduceFree p = p\<lparr>mp_free_net_msg_queue := drop (if length (mp_free_net_msg_queue p) > 50
     then length (mp_free_net_msg_queue p) div 2 else 0) (mp_free_net_msg_queue p)\<rparr>"
  by (simp add: ReduceFree_def drop_free_queue msg_pool_reduce_limit_size_def Let_def)

lemma blank_new: "blank CMsgImpl" "blank (msg_Clear m)"
  by (simp_all add: blank_def CMsgImpl_def Head_def msg_Clear_def Head_Clear_def head_empty_def)

lemma CreateMsg_inv:
  assumes "pool_inv used s" and "CreateMsg s = (r, s')"
  shows "pool_inv (insert r used) s'" "r \<notin> used" "blank (fst s' r)" "\<forall>m. m \<noteq> r \<longrightarrow> fst s' m = fst s m"
  using assms by (auto simp: CreateMsg_def ts_Pop_def pool_inv_def blank_new split: list.splits)

lemma DeleteMsg_inv:
  assumes inv: "pool_inv used s" and r: "r \<in> used"
  shows "pool_inv (used - {r}) (DeleteMsg r s)"
proof -
  let ?q = "mp_free_net_msg_queue (snd s) @ [r]"
  define k where "k = (if length ?q > 50 then length ?q div 2 else 0)"
  have del: "DeleteMsg r s = ((fst s)(r := msg_Clear (fst s r)), (snd s)\<lparr>mp_free_net_msg_queue := drop k ?q\<rparr>)"
    by (simp add: DeleteMsg_def ReduceFree_queue ts_Push_def k_def)
  have q: "distinct ?q" "length ?q \<le> 51" "(used - {r}) \<inter> set ?q = {}"
    using inv r by (auto simp: pool_inv_def)
  have "length (drop k ?q) \<le> 50" using q(2) by (auto simp: k_def)
  moreover have "set (drop k ?q) \<subseteq> set ?q" by (rule set_drop_subset)
  moreover have "distinct (drop k ?q)" using q(1) by (rule distinct_drop)
  ultimately show ?thesis
    using inv r q(3) unfolding del pool_inv_def by (auto simp: blank_new simp del: drop_append)
qed

lemma pool_run_inv: "pool_run used s \<Longrightarrow> pool_inv used s"
proof (induction rule: pool_run.induct)
  case (pool_start \<sigma>)
  show ?case by (simp add: pool_inv_def CMsgPoolFactory_def)
next
  case (pool_create used s r s')
  then show ?case using CreateMsg_inv by blast
next
  case (pool_delete used s r)
  then show ?case using DeleteMsg_inv by blast
next
  case (pool_write used s r m)
  then show ?case by (auto simp: pool_inv_def)
qed

section \<open>Properties\<close>

text \<open>
  C17. The pool: after any sequence of creations, deletions and uses, the message handed out is in
  nobody's use, is blank and no other message has changed; at most 50 free messages are kept.
\<close>

theorem msg_pool_fresh:
  assumes "pool_run used s" and "CreateMsg s = (r, s')"
  shows "r \<notin> used \<and> blank (fst s' r) \<and> (\<forall>m \<in> used. fst s' m = fst s m) \<and>
    length (mp_free_net_msg_queue (snd s')) \<le> 50"
  using CreateMsg_inv [OF pool_run_inv [OF assms(1)] assms(2)] by (auto simp: pool_inv_def)

theorem msg_pool_fresh_witness:
  "blank (fst (snd (CreateMsg (DeleteMsg 0
     ((\<lambda>_. CMsgImpl)(0 := msg_SetBody [1] CMsgImpl), \<lparr>mp_free_net_msg_queue = [], mp_next = 1\<rparr>)))) 0)"
proof -
  let ?s1 = "((\<lambda>_. CMsgImpl)(0 := msg_SetBody [1] CMsgImpl), \<lparr>mp_free_net_msg_queue = [], mp_next = 1\<rparr>)"
  have "CreateMsg (\<lambda>_. CMsgImpl, CMsgPoolFactory) = (0, (\<lambda>_. CMsgImpl), \<lparr>mp_free_net_msg_queue = [], mp_next = 1\<rparr>)"
    by (simp add: CreateMsg_def CMsgPoolFactory_def ts_Pop_def fun_upd_idem)
  from pool_create [OF pool_start this]
  have "pool_run {0} (\<lambda>_. CMsgImpl, \<lparr>mp_free_net_msg_queue = [], mp_next = 1\<rparr>)" by simp
  from pool_write [OF this, of 0 "msg_SetBody [1] CMsgImpl"] have "pool_run {0} ?s1" by simp
  then have run: "pool_run {} (DeleteMsg 0 ?s1)" using pool_delete [of "{0}" _ 0] by fastforce
  obtain r s' where create: "CreateMsg (DeleteMsg 0 ?s1) = (r, s')" by (rule prod.exhaust)
  have "r = 0" using create by (simp add: CreateMsg_def DeleteMsg_def ReduceFree_def ts_Pop_def ts_Push_def
        msg_pool_reduce_limit_size_def)
  then show ?thesis using msg_pool_fresh [OF run create] create by simp
qed

end
