(* ===== verification/Socket_Impl.thy ===== *)
theory Socket_Impl
  imports Send_Wnd Order_List Pend_Ack Flow_Queue Rto Pacing Bbr Msg_Pool "HOL-Library.Monad_Syntax"
begin

text \<open>
  \<^verbatim>\<open>net/SocketImpl.cpp\<close>: a connection. Its operations work on the state of the socket and on the
  state it shares with the rest of the program (\<open>net\<close>): the messages and their pool, the timers,
  the clock. Calls into \<open>CHudpImpl\<close> are recorded as \<open>out_call\<close>s in their order; what the
  application answers to the resend call-back is a parameter (\<open>resend\<close>), as are the order in
  which \<open>begin()\<close> of an \<open>unordered_map\<close> looks (\<open>bg\<close>) and the random initial numbers. \<open>None\<close> stands for
  undefined behaviour.

  The send window, the receive lists and the pending acknowledgements call back into the socket.
  They do not look at the state these calls change, so the calls are run right after the operation
  that makes them, in the same order.
\<close>

section \<open>State\<close>

datatype wnd_index = WI_ORDERLY | WI_RELIABLE | WI_RELIABLE_ORDERLY

datatype recv_list =
  RecvOrderly orderly_list | RecvReliable reliable_list | RecvReliableOrderly reliable_orderly_list

record sock =
  sk_handle :: handle
  sk_status :: socket_status
  sk_send_wnd :: "wnd_index \<Rightarrow> send_wnd option"
  sk_recv_list :: "wnd_index \<Rightarrow> recv_list option"
  sk_pend_ack :: "wnd_index \<Rightarrow> pend_ack option"
  sk_is_in_timer :: bool
  sk_rto :: rto
  sk_lost_msg :: u32
  sk_in_flight :: u32
  sk_bbr_controller :: bbr
  sk_pacing :: pacing
  sk_flow_queue :: flow_queue

text \<open>Calls of \<open>CHudpImpl\<close>; \<open>CallNet\<close> is the datagram that goes to the handle of the message.\<close>

datatype out_call =
  CallNet handle "byte list"
| CallRecvFilter handle u16 "byte list"
| CallRecvUpper handle "byte list" hudp_error_code
| CallNewConnect handle hudp_error_code
| CallSendBack handle u32 hudp_error_code
| CallResendBack handle u32
| CallRelease handle

record net =
  nt_store :: store
  nt_pool :: msg_pool
  nt_timer :: timer
  nt_pacing_timer :: timer
  nt_clock :: u64
  nt_time_stamp :: "time_tool option"
  nt_random :: "nat \<Rightarrow> u16"
  nt_random_pos :: nat
  nt_out :: "out_call list"

record env =
  env_begin :: map_begin
  env_resend :: "handle \<Rightarrow> u32 \<Rightarrow> bool"

type_synonym sk_state = "sock \<times> net"
type_synonym sk_op = "sk_state \<Rightarrow> sk_state option"

text \<open>\<open>now\<close>, the uninitialised members and the handle are what the constructor depends on.\<close>

definition CSocketImpl :: "handle \<Rightarrow> u64 \<Rightarrow> u32 \<Rightarrow> bbr \<Rightarrow> sock" where
  "CSocketImpl handle now uninit_rate uninit_bbr =
     \<lparr>sk_handle = handle, sk_status = SS_CLOSE, sk_send_wnd = (\<lambda>_. None), sk_recv_list = (\<lambda>_. None),
      sk_pend_ack = (\<lambda>_. None), sk_is_in_timer = False, sk_rto = CRtoImpl, sk_lost_msg = 0, sk_in_flight = 0,
      sk_bbr_controller = CBbr now uninit_bbr, sk_pacing = CPacing uninit_rate, sk_flow_queue = CFlowQueue\<rparr>"

section \<open>Access to the shared state\<close>

definition the_msg :: "msg_ref \<Rightarrow> sk_state \<Rightarrow> msg" where
  "the_msg m st = nt_store (snd st) m"

definition upd_msg :: "msg_ref \<Rightarrow> (msg \<Rightarrow> msg) \<Rightarrow> sk_state \<Rightarrow> sk_state" where
  "upd_msg m f st = (fst st, (snd st)\<lparr>nt_store := (nt_store (snd st))(m := f (nt_store (snd st) m))\<rparr>)"

definition call :: "out_call \<Rightarrow> sk_state \<Rightarrow> sk_state" where
  "call c st = (fst st, (snd st)\<lparr>nt_out := nt_out (snd st) @ [c]\<rparr>)"

definition CreateSharedMsg :: "sk_state \<Rightarrow> msg_ref \<times> sk_state" where
  "CreateSharedMsg st =
     (case CreateMsg (nt_store (snd st), nt_pool (snd st)) of
        (m, \<sigma>, p) \<Rightarrow> (m, (fst st, (snd st)\<lparr>nt_store := \<sigma>, nt_pool := p\<rparr>)))"

definition sk_AddTimer :: "u32 \<Rightarrow> msg_ref \<Rightarrow> sk_state \<Rightarrow> sk_state" where
  "sk_AddTimer ms m st =
     (case AddTimer (nt_clock (snd st)) ms m (nt_store (snd st)) (nt_timer (snd st)) of
        (_, _, \<sigma>, t) \<Rightarrow> (fst st, (snd st)\<lparr>nt_store := \<sigma>, nt_timer := t\<rparr>))"

definition sk_RemoveTimer :: "msg_ref \<Rightarrow> sk_state \<Rightarrow> sk_state" where
  "sk_RemoveTimer m st =
     (case RemoveTimer m (nt_store (snd st)) (nt_timer (snd st)) of
        (\<sigma>, t) \<Rightarrow> (fst st, (snd st)\<lparr>nt_store := \<sigma>, nt_timer := t\<rparr>))"

definition sk_now :: "sk_state \<Rightarrow> u64 \<times> sk_state" where
  "sk_now st =
     (case GetCurTimeStamp (nt_clock (snd st)) (nt_time_stamp (snd st)) of
        (now, tool) \<Rightarrow> (now, (fst st, (snd st)\<lparr>nt_time_stamp := tool\<rparr>)))"

definition GetRandomInitialValue :: "sk_state \<Rightarrow> u16 \<times> sk_state" where
  "GetRandomInitialValue st =
     (nt_random (snd st) (nt_random_pos (snd st)),
      (fst st, (snd st)\<lparr>nt_random_pos := Suc (nt_random_pos (snd st))\<rparr>))"

text \<open>\<open>CHudpImpl::SendMessageToNet\<close>.\<close>

definition SendMessageToNet :: "msg_ref \<Rightarrow> sk_op" where
  "SendMessageToNet m st =
     (case msg_GetSerializeBuffer (the_msg m st) of
        None \<Rightarrow> None
      | Some (net_msg, m') \<Rightarrow> Some (call (CallNet (m_ip_port m') net_msg) (upd_msg m (\<lambda>_. m') st)))"

section \<open>Sending\<close>

text \<open>The acknowledgement limit is computed with 32 bits and passed as \<open>uint16_t\<close>.\<close>

definition msg_length_limit :: u16 where "msg_length_limit = mtu - 8"

definition ack_limit :: "msg \<Rightarrow> u16" where
  "ack_limit m = ucast (ucast msg_length_limit - msg_GetEstimateSize m)"

definition add_pend_ack :: "wnd_index \<Rightarrow> u32 \<Rightarrow> msg_ref \<Rightarrow> sk_state \<Rightarrow> bool \<times> sk_state" where
  "add_pend_ack index flag m st =
     (case sk_pend_ack (fst st) index of
        None \<Rightarrow> (False, st)
      | Some p \<Rightarrow>
          if \<not> HasAck p then (False, st)
          else
            (case GetAck [] [] False (ack_limit (the_msg m st)) p of
               (_, ack_vec, time_vec, continuity, p') \<Rightarrow>
                 (True, upd_msg m (msg_SetAck flag ack_vec time_vec continuity)
                    ((fst st)\<lparr>sk_pend_ack := (sk_pend_ack (fst st))(index := Some p')\<rparr>, snd st))))"

definition AddAckToMsg :: "msg_ref \<Rightarrow> sk_state \<Rightarrow> bool \<times> sk_state" where
  "AddAckToMsg m st =
     (let (r1, st1) = add_pend_ack WI_RELIABLE_ORDERLY HPF_WITH_RELIABLE_ORDERLY_ACK m (upd_msg m msg_ClearAck st);
          (r2, st2) = add_pend_ack WI_RELIABLE HPF_WITH_RELIABLE_ACK m st1 in
      (r1 \<or> r2, st2))"

definition PacingCallBack :: "msg_ref \<Rightarrow> sk_op" where
  "PacingCallBack m st =
     (let f = msg_GetHeaderFlag (the_msg m st) in
      SendMessageToNet m
        (if has_flag f HTF_RELIABLE \<or> has_flag f HTF_RELIABLE_ORDERLY
         then ((fst st)\<lparr>sk_in_flight := sk_in_flight (fst st) + msg_GetEstimateSize (the_msg m st)\<rparr>, snd st)
         else st))"

text \<open>\<open>_pacing->SendMessage\<close>; it asks for the time only if the message has a body.\<close>

definition pacing_send :: "msg_ref \<Rightarrow> sk_op" where
  "pacing_send m st =
     (let (now, st1) = (if m_body (the_msg m st) = [] then (0, st) else sk_now st) in
      case pc_SendMessage now m (nt_store (snd st1)) (sk_pacing (fst st1)) of
        (c, \<sigma>, p) \<Rightarrow>
          (let st2 = ((fst st1)\<lparr>sk_pacing := p\<rparr>, (snd st1)\<lparr>nt_store := \<sigma>\<rparr>) in
           case c of
             PaceToNet msg \<Rightarrow> SendMessageToNet msg st2
           | PaceTimer ms msg \<Rightarrow>
               (case AddTimer (nt_clock (snd st2)) ms msg \<sigma> (nt_pacing_timer (snd st2)) of
                  (_, _, \<sigma>', t) \<Rightarrow> Some (fst st2, (snd st2)\<lparr>nt_store := \<sigma>', nt_pacing_timer := t\<rparr>))
           | PaceCallback msg \<Rightarrow> PacingCallBack msg st2))"

definition SendPacingMsg :: "msg_ref \<Rightarrow> bool \<Rightarrow> sk_op" where
  "SendPacingMsg m add_fq st =
     (if use_fq_and_pacing \<and> \<not> has_flag (msg_GetFlag (the_msg m st)) msg_is_only_ack then
        (let q = (if add_fq then fq_Add (nt_store (snd st)) m (sk_flow_queue (fst st)) else sk_flow_queue (fst st)) in
         case fq_Get q of
           (send_msg, q') \<Rightarrow>
             (let st1 = ((fst st)\<lparr>sk_flow_queue := q'\<rparr>, snd st) in
              case send_msg of None \<Rightarrow> Some st1 | Some msg \<Rightarrow> pacing_send msg st1))
      else
        SendMessageToNet m
          (if has_flag (msg_GetFlag (the_msg m st)) msg_is_only_ack then st
           else (let (now, st1) = sk_now st in upd_msg m (msg_SetSendTime now) st1)))"

definition ToSend :: "msg_ref \<Rightarrow> sk_op" where
  "ToSend m st =
     (let f = msg_GetHeaderFlag (the_msg m st);
          st1 = (if has_flag f HTF_RELIABLE_ORDERLY \<or> has_flag f HTF_RELIABLE
                 then sk_AddTimer (ucast (msg_GetReSendTime (GetRto (sk_rto (fst st))) (the_msg m st))) m st
                 else st);
          (now, st2) = sk_now st1 in
      SendPacingMsg m True (snd (AddAckToMsg m (upd_msg m (msg_SetSendTime now) st2))))"

definition AckDone :: "msg_ref \<Rightarrow> sk_state \<Rightarrow> sk_state" where
  "AckDone m st =
     (let st1 = (if has_flag (msg_GetHeaderFlag (the_msg m st)) HPF_UPPER
                 then call (CallSendBack (sk_handle (fst st)) (m_upper_id (the_msg m st)) HEC_SUCCESS) st else st);
          st2 = sk_RemoveTimer m st1 in
      if use_fq_and_pacing
      then ((fst st2)\<lparr>sk_flow_queue := fq_Remove (Some m) (sk_flow_queue (fst st2))\<rparr>, snd st2) else st2)"

text \<open>The calls a send window makes.\<close>

fun run_calls :: "wnd_call list \<Rightarrow> sk_op" where
  "run_calls [] st = Some st"
| "run_calls (CallToSend m # cs) st = do { st \<leftarrow> ToSend m st; run_calls cs st }"
| "run_calls (CallAckDone m # cs) st = run_calls cs (AckDone m st)"

definition put_wnd :: "wnd_index \<Rightarrow> store \<Rightarrow> send_wnd \<Rightarrow> sk_state \<Rightarrow> sk_state" where
  "put_wnd index \<sigma> w st =
     ((fst st)\<lparr>sk_send_wnd := (sk_send_wnd (fst st))(index := Some w)\<rparr>, (snd st)\<lparr>nt_store := \<sigma>\<rparr>)"

definition AddToSendWnd :: "env \<Rightarrow> wnd_index \<Rightarrow> msg_ref \<Rightarrow> sk_op" where
  "AddToSendWnd e index m st =
     (let (w, st1) =
            (case sk_send_wnd (fst st) index of
               Some w \<Rightarrow> (w, st)
             | None \<Rightarrow> (let (r, st1) = GetRandomInitialValue st in
                 (CSendWndImpl r init_send_wnd_size CPriorityQueueImpl (index = WI_ORDERLY), st1))) in
      case sw_PushBack (env_begin e) (Some m) (nt_store (snd st1)) w of
        None \<Rightarrow> None
      | Some (\<sigma>, w', calls) \<Rightarrow> run_calls calls (put_wnd index \<sigma> w' st1))"

definition SendMessage :: "env \<Rightarrow> msg_ref \<Rightarrow> sk_op" where
  "SendMessage e m st =
     (let header_flag = msg_GetHeaderFlag (the_msg m st) in
      if has_flag header_flag HTF_ORDERLY then AddToSendWnd e WI_ORDERLY m st
      else if has_flag header_flag HTF_RELIABLE then AddToSendWnd e WI_RELIABLE m st
      else if has_flag header_flag HTF_RELIABLE_ORDERLY then AddToSendWnd e WI_RELIABLE_ORDERLY m st
      else SendPacingMsg m True (snd (AddAckToMsg m st)))"

section \<open>Status\<close>

definition set_status :: "socket_status \<Rightarrow> sk_state \<Rightarrow> sk_state" where
  "set_status s st = ((fst st)\<lparr>sk_status := s\<rparr>, snd st)"

definition status_edge :: "socket_status \<Rightarrow> socket_status \<Rightarrow> bool" where
  "status_edge old new =
     (case new of
        SS_CLOSE \<Rightarrow> False
      | SS_READY \<Rightarrow> old = SS_CLOSE
      | SS_FIN_WAIT_1 \<Rightarrow> old = SS_READY
      | SS_FIN_WAIT_2 \<Rightarrow> old = SS_FIN_WAIT_1
      | SS_TIME_WAIT \<Rightarrow> old = SS_FIN_WAIT_2 \<or> old = SS_CLOSING
      | SS_CLOSING \<Rightarrow> old = SS_FIN_WAIT_1
      | SS_CLOSE_WIAT \<Rightarrow> old = SS_READY
      | SS_LAST_ACK \<Rightarrow> old = SS_CLOSE_WIAT)"

text \<open>A change that is not an edge is only logged; \<open>SS_CLOSE\<close> releases the socket and leaves the status.\<close>

definition StatusChange :: "socket_status \<Rightarrow> sk_state \<Rightarrow> sk_state" where
  "StatusChange new st =
     (if new = SS_CLOSE then call (CallRelease (sk_handle (fst st))) st
      else if status_edge (sk_status (fst st)) new then set_status new st
      else st)"

definition CanSendMessage :: "sk_state \<Rightarrow> bool" where
  "CanSendMessage st \<longleftrightarrow> sk_status (fst st) = SS_CLOSE \<or> sk_status (fst st) = SS_READY"

text \<open>A message of the pool that belongs to this socket, with local flag \<open>f\<close> and head flag \<open>hf\<close>.\<close>

definition own_msg :: "u32 \<Rightarrow> u32 \<Rightarrow> sk_state \<Rightarrow> msg_ref \<times> sk_state" where
  "own_msg f hf st =
     (let (m, st1) = CreateSharedMsg st; h = sk_handle (fst st) in
      (m, upd_msg m (\<lambda>x. msg_SetHandle h (msg_SetSocket h
            (msg_SetFlag f (if hf = 0 then x else msg_SetHeaderFlag hf x)))) st1))"

definition SendFinMessage :: "env \<Rightarrow> sk_op" where
  "SendFinMessage e st =
     (if sk_status (fst st) \<noteq> SS_READY \<and> sk_status (fst st) \<noteq> SS_CLOSE_WIAT then Some st
      else
        (let (fin_msg, st1) =
               own_msg 0 (HTF_RELIABLE_ORDERLY OR (if send_all_msg_when_close then HPF_LOW_PRI else HPF_HIGHEST_PRI)
                 OR HPF_FIN) st;
             st2 = call (CallNewConnect (sk_handle (fst st1)) HEC_CLOSED) st1;
             st3 = StatusChange (if sk_status (fst st2) = SS_READY then SS_FIN_WAIT_1 else SS_LAST_ACK) st2 in
         SendMessage e fin_msg st3))"

definition SendFinAckMessage :: "env \<Rightarrow> sk_op" where
  "SendFinAckMessage e st =
     (let (fin_msg, st1) = own_msg 0 (HTF_ORDERLY OR HPF_HIGHEST_PRI OR HPF_FIN_ACK) st in
      SendMessage e fin_msg st1)"

definition SendResetMsg :: "env \<Rightarrow> sk_op" where
  "SendResetMsg e st =
     (let (rst_msg, st1) = own_msg 0 (HTF_ORDERLY OR HPF_HIGHEST_PRI OR HPF_RST) st in
      SendMessage e rst_msg st1)"

definition Wait2MslClose :: "sk_state \<Rightarrow> sk_state" where
  "Wait2MslClose st =
     (if sk_status (fst st) \<noteq> SS_TIME_WAIT then st
      else (let (timer_msg, st1) = own_msg msg_wait_2_msl 0 st in sk_AddTimer two_msl_time timer_msg st1))"

definition CheckClose :: "env \<Rightarrow> u32 \<Rightarrow> sk_op" where
  "CheckClose e header_flag st =
     (if has_flag header_flag HPF_FIN then
        do {
          st \<leftarrow> SendFinAckMessage e st;
          (if sk_status (fst st) = SS_READY then SendFinMessage e (StatusChange SS_CLOSE_WIAT st)
           else if sk_status (fst st) = SS_FIN_WAIT_1 then Some (StatusChange SS_CLOSING st)
           else if sk_status (fst st) = SS_FIN_WAIT_2 then Some (Wait2MslClose (StatusChange SS_TIME_WAIT st))
           else Some st)
        }
      else if has_flag header_flag HPF_FIN_ACK then
        Some (if sk_status (fst st) = SS_LAST_ACK then StatusChange SS_CLOSE st
              else if sk_status (fst st) = SS_FIN_WAIT_1 then StatusChange SS_FIN_WAIT_2 st
              else if sk_status (fst st) = SS_CLOSING then Wait2MslClose (StatusChange SS_TIME_WAIT st)
              else st)
      else Some st)"

section \<open>Acknowledgements to send\<close>

definition SendAckNowCallBack :: sk_op where
  "SendAckNowCallBack st =
     (let (ack_msg, st1) = own_msg msg_is_only_ack 0 st;
          (add_ack, st2) = AddAckToMsg ack_msg st1 in
      if \<not> add_ack \<and> has_flag (msg_GetFlag (the_msg ack_msg st2)) msg_is_only_ack then Some st2
      else SendPacingMsg ack_msg True st2)"

definition AddToPendAck :: "wnd_index \<Rightarrow> msg_ref \<Rightarrow> sk_op" where
  "AddToPendAck index m st =
     (let p = (case sk_pend_ack (fst st) index of None \<Rightarrow> CPendAck | Some p \<Rightarrow> p);
          i = msg_GetId (the_msg m st);
          (now, p') = (if msg_with_time then AddAck_time i (msg_GetSendTime (the_msg m st)) p else AddAck i p);
          st1 = ((fst st)\<lparr>sk_pend_ack := (sk_pend_ack (fst st))(index := Some p')\<rparr>, snd st) in
      if now then SendAckNowCallBack st1 else Some st1)"

definition AddPendAck :: "msg_ref \<Rightarrow> sk_op" where
  "AddPendAck m st =
     (let header_flag = msg_GetHeaderFlag (the_msg m st) in
      do {
        st \<leftarrow> (if has_flag header_flag HTF_RELIABLE_ORDERLY then AddToPendAck WI_RELIABLE_ORDERLY m st
              else if has_flag header_flag HTF_RELIABLE then AddToPendAck WI_RELIABLE m st
              else Some st);
        (if sk_is_in_timer (fst st) then Some st
         else (let (timer_msg, st1) = own_msg msg_is_only_ack 0 st;
                   st2 = sk_AddTimer (ucast pend_ack_send) timer_msg st1 in
               Some ((fst st2)\<lparr>sk_is_in_timer := True\<rparr>, snd st2)))
      })"

definition AddQuicklyAck :: "msg_ref \<Rightarrow> sk_op" where
  "AddQuicklyAck m st =
     (let i = msg_GetId (the_msg m st);
          t = msg_GetSendTime (the_msg m st);
          (ack_msg, st1) = own_msg msg_is_only_ack 0 st;
          header_flag = msg_GetHeaderFlag (the_msg m st1);
          st2 = (if has_flag header_flag HTF_RELIABLE
                 then upd_msg ack_msg (msg_SetAck HPF_WITH_RELIABLE_ACK [i] [t] False) st1
                 else if has_flag header_flag HTF_RELIABLE_ORDERLY
                 then upd_msg ack_msg (msg_SetAck HPF_WITH_RELIABLE_ORDERLY_ACK [i] [t] False) st1
                 else st1) in
      SendMessageToNet ack_msg st2)"

section \<open>Acknowledgements received\<close>

text \<open>\<open>GetRtt\<close>: the time of the message minus now, with 64 bits.\<close>

definition GetRtt :: "u64 \<Rightarrow> sk_state \<Rightarrow> u64 \<times> sk_state" where
  "GetRtt time st = (let (now, st1) = sk_now st in (time - now, st1))"

definition set_rtt :: "u64 \<Rightarrow> sk_op" where
  "set_rtt rtt st =
     (case SetRttTime rtt (sk_rto (fst st)) of
        None \<Rightarrow> None | Some r \<Rightarrow> Some ((fst st)\<lparr>sk_rto := r\<rparr>, snd st))"

text \<open>
  Both expressions with \<open>?:\<close> test the pointer the wrong way round: with a window they are constants,
  without one they go through the null pointer.
\<close>

definition ControllerProcess :: "env \<Rightarrow> wnd_index \<Rightarrow> u32 \<Rightarrow> u32 \<Rightarrow> u32 \<Rightarrow> sk_op" where
  "ControllerProcess e index rtt acked delivered st =
     (let (now, st) = sk_now st in
      case sk_send_wnd (fst st) index of
        None \<Rightarrow> None
      | Some w \<Rightarrow>
          (let (wnd, rate, b) =
                 bbr_main now (sk_in_flight (fst st)) rtt acked now delivered (sk_lost_msg (fst st)) False 0
                   (GetPacingRate (sk_pacing (fst st))) (sk_bbr_controller (fst st));
               st1 = ((fst st)\<lparr>sk_bbr_controller := b, sk_lost_msg := 0\<rparr>, snd st) in
           case ChangeSendWndSize (env_begin e) (ucast wnd) (nt_store (snd st1)) w of
             None \<Rightarrow> None
           | Some (\<sigma>, w', calls) \<Rightarrow>
               do {
                 st \<leftarrow> run_calls calls (put_wnd index \<sigma> w' st1);
                 Some ((fst st)\<lparr>sk_pacing := SetPacingRate rate (sk_pacing (fst st))\<rparr>, snd st)
               }))"

text \<open>
  One turn of the loop over the acknowledged numbers: the window, the bytes in flight, then with
  time stamps the round-trip time of the same position. \<open>outer\<close> says whether the time is assigned
  to the variable of the function (the second loop declares its own).
\<close>

definition sk_AcceptAck :: "env \<Rightarrow> wnd_index \<Rightarrow> u16 \<Rightarrow> sk_op" where
  "sk_AcceptAck e index i st =
     (case sk_send_wnd (fst st) index of
        None \<Rightarrow> None
      | Some w \<Rightarrow>
          (case AcceptAck (env_begin e) i (nt_store (snd st)) w of
             None \<Rightarrow> None
           | Some (sz, \<sigma>, w', calls) \<Rightarrow>
               do {
                 st \<leftarrow> run_calls calls (put_wnd index \<sigma> w' st);
                 Some ((fst st)\<lparr>sk_in_flight := sk_in_flight (fst st) - sz\<rparr>, snd st)
               }))"

fun ack_loop :: "env \<Rightarrow> wnd_index \<Rightarrow> bool \<Rightarrow> u16 list \<Rightarrow> u64 list \<Rightarrow> u64 \<Rightarrow> sk_state \<Rightarrow> (u64 \<times> sk_state) option" where
  "ack_loop e index outer [] tvec rtt_time st = Some (rtt_time, st)"
| "ack_loop e index outer (i # ids) tvec rtt_time st =
     do {
       st \<leftarrow> sk_AcceptAck e index i st;
       (if msg_with_time then
          (case tvec of
             [] \<Rightarrow> None
           | t # ts \<Rightarrow>
               (let (r, st) = GetRtt t st in
                do {
                  st \<leftarrow> set_rtt r st;
                  ack_loop e index outer ids ts (if outer then r else rtt_time) st
                }))
        else ack_loop e index outer ids tvec rtt_time st)
     }"

text \<open>
  Inside the loop the size of an acknowledged message has a variable of its own, so \<open>ack_msg_size\<close> is
  0 at the call of the controller. \<open>GetAck\<close> of the message does not look at its first argument.
\<close>

definition ack_kind :: "env \<Rightarrow> msg_ref \<Rightarrow> u32 \<Rightarrow> wnd_index \<Rightarrow> bool \<Rightarrow> u64 \<Rightarrow> sk_state \<Rightarrow> (u64 \<times> sk_state) option" where
  "ack_kind e m flag index outer rtt_time st =
     (if has_flag (msg_GetHeaderFlag (the_msg m st)) flag then
        (let (vec, tvec) = msg_GetAck flag [] [] (the_msg m st) in
         do {
           (rtt_time, st) \<leftarrow> ack_loop e index outer vec tvec rtt_time st;
           st \<leftarrow> ControllerProcess e index (ucast rtt_time) (of_nat (length vec)) 0 st;
           (if msg_with_time then Some (rtt_time, st)
            else (let (r, st) = GetRtt (msg_GetSendTime (the_msg m st)) st in
                  do { st \<leftarrow> set_rtt r st; Some (rtt_time, st) }))
         })
      else Some (rtt_time, st))"

definition GetAckToSendWnd :: "env \<Rightarrow> msg_ref \<Rightarrow> sk_op" where
  "GetAckToSendWnd e m st =
     do {
       (rtt_time, st) \<leftarrow> ack_kind e m HPF_WITH_RELIABLE_ORDERLY_ACK WI_RELIABLE_ORDERLY True 0 st;
       (rtt_time, st) \<leftarrow> ack_kind e m HPF_WITH_RELIABLE_ACK WI_RELIABLE False rtt_time st;
       Some st
     }"

section \<open>Receiving\<close>

definition ToRecv :: "msg_ref \<Rightarrow> sk_state \<Rightarrow> sk_state" where
  "ToRecv m st =
     (if m_body (the_msg m st) \<noteq> []
      then call (CallRecvFilter (sk_handle (fst st)) (ucast (msg_GetHeaderFlag (the_msg m st))) (m_body (the_msg m st))) st
      else st)"

definition new_recv_list :: "wnd_index \<Rightarrow> u16 \<Rightarrow> recv_list" where
  "new_recv_list index i =
     (case index of
        WI_ORDERLY \<Rightarrow> RecvOrderly (COrderlyList i)
      | WI_RELIABLE \<Rightarrow> RecvReliable (CReliableList i)
      | WI_RELIABLE_ORDERLY \<Rightarrow> RecvReliableOrderly (CReliableOrderlyList i))"

fun recv_insert :: "store \<Rightarrow> msg_ref \<Rightarrow> recv_list \<Rightarrow> (u16 \<times> recv_list \<times> msg_ref list) option" where
  "recv_insert \<sigma> m (RecvOrderly l) =
     map_option (\<lambda>(r, l', ms). (r, RecvOrderly l', ms)) (ol_Insert \<sigma> m l)"
| "recv_insert \<sigma> m (RecvReliable l) =
     map_option (\<lambda>(r, l', ms). (r, RecvReliable l', ms)) (rl_Insert \<sigma> m l)"
| "recv_insert \<sigma> m (RecvReliableOrderly l) =
     map_option (\<lambda>(r, l', ms). (r, RecvReliableOrderly l', ms)) (ro_Insert \<sigma> m l)"

definition AddToRecvList :: "env \<Rightarrow> wnd_index \<Rightarrow> msg_ref \<Rightarrow> sk_op" where
  "AddToRecvList e index m st =
     (let l = (case sk_recv_list (fst st) index of
                 Some l \<Rightarrow> l | None \<Rightarrow> new_recv_list index (msg_GetId (the_msg m st))) in
      do {
        (r, l', ms) \<leftarrow> recv_insert (nt_store (snd st)) m l;
        (let st1 = fold ToRecv ms ((fst st)\<lparr>sk_recv_list := (sk_recv_list (fst st))(index := Some l')\<rparr>, snd st) in
         if r = 2 then SendResetMsg e (call (CallRecvUpper (sk_handle (fst st1)) [] HEC_BREAK) st1)
         else if index = WI_RELIABLE \<or> index = WI_RELIABLE_ORDERLY
         then (if r = 1 then AddQuicklyAck m st1 else AddPendAck m st1)
         else Some st1)
      })"

definition RecvMessage :: "env \<Rightarrow> msg_ref \<Rightarrow> sk_op" where
  "RecvMessage e m st =
     (let st0 = (if sk_status (fst st) = SS_CLOSE
                 then call (CallNewConnect (sk_handle (fst st)) HEC_SUCCESS) (StatusChange SS_READY st)
                 else st) in
      do {
        st \<leftarrow> GetAckToSendWnd e m st0;
        (if sk_status (fst st) = SS_TIME_WAIT then SendResetMsg e st
         else
           (let header_flag = msg_GetHeaderFlag (the_msg m st) in
            if has_flag header_flag HPF_RST then
              Some (call (CallRelease (sk_handle (fst st)))
                (set_status SS_CLOSE (call (CallNewConnect (sk_handle (fst st)) HEC_BREAK) st)))
            else
              do {
                (done, st) \<leftarrow>
                  (if has_flag header_flag HTF_RELIABLE_ORDERLY
                   then map_option (Pair True) (AddToRecvList e WI_RELIABLE_ORDERLY m st)
                   else if has_flag header_flag HTF_ORDERLY
                   then map_option (Pair True) (AddToRecvList e WI_ORDERLY m st)
                   else if has_flag header_flag HTF_RELIABLE
                   then map_option (Pair True) (AddToRecvList e WI_RELIABLE m st)
                   else Some (False, st));
                st \<leftarrow> CheckClose e header_flag st;
                Some (if \<not> done \<and> has_flag header_flag HPF_WITH_BODY
                      then call (CallRecvFilter (sk_handle (fst st))
                             (ucast (msg_GetHeaderFlag (the_msg m st))) (m_body (the_msg m st))) st
                      else st)
              }))
      })"

section \<open>The timer\<close>

text \<open>\<open>resend\<close> is the answer of the application to the call-back.\<close>

definition TimerOut :: "env \<Rightarrow> msg_ref \<Rightarrow> sk_op" where
  "TimerOut e m st =
     do {
       st \<leftarrow> (if has_flag (msg_GetFlag (the_msg m st)) msg_pacing_send then SendPacingMsg m False st else Some st);
       (let only_ack = has_flag (msg_GetFlag (the_msg m st)) msg_is_only_ack;
            up = m_upper_id (the_msg m st);
            st1 = (if only_ack then st else call (CallResendBack (sk_handle (fst st)) up) st) in
        if \<not> only_ack \<and> \<not> env_resend e (sk_handle (fst st)) up then Some st1
        else
          (let st2 = (if only_ack then ((fst st1)\<lparr>sk_is_in_timer := False\<rparr>, snd st1)
                      else (case upd_msg m (\<lambda>x. msg_SetFlag msg_resend (msg_AddSendDelay x)) st1 of
                              (k, n) \<Rightarrow> (k\<lparr>sk_lost_msg := sk_lost_msg k + 1\<rparr>, n))) in
           if has_flag (msg_GetFlag (the_msg m st2)) msg_wait_2_msl then Some (StatusChange SS_CLOSE st2)
           else
             (let (add_ack, st3) = AddAckToMsg m st2 in
              if \<not> add_ack \<and> has_flag (msg_GetFlag (the_msg m st3)) msg_is_only_ack then Some st3
              else SendPacingMsg m True st3)))
     }"

end
