(* ===== verification/Socket_Frame.thy ===== *)
theory Socket_Frame
  imports Socket_Impl
begin

text \<open>
  What the operations of a socket leave alone. \<open>calm\<close>: the status and the handle stay, an empty flow
  queue is empty again at the end, and no call is made about the life of the connection. \<open>frame\<close>: moreover no message gets another kind, that is its
  transmission class and its FIN, FIN-ACK and RST flags.
\<close>

named_theorems frame_intros \<open>frame lemmas of the socket's operations\<close>

definition ctl_flags :: u32 where
  "ctl_flags = HTF_ORDERLY OR HTF_RELIABLE OR HTF_RELIABLE_ORDERLY OR HPF_FIN OR HPF_FIN_ACK OR HPF_RST"

definition ctl :: "msg \<Rightarrow> u32" where
  "ctl m = msg_GetHeaderFlag m AND ctl_flags"

definition same_ctl :: "store \<Rightarrow> store \<Rightarrow> bool" where
  "same_ctl \<sigma> \<sigma>' \<longleftrightarrow> (\<forall>m. ctl (\<sigma>' m) = ctl (\<sigma> m))"

text \<open>Calls that are about the life of the connection.\<close>

fun life :: "out_call \<Rightarrow> bool" where
  "life (CallNewConnect h err) \<longleftrightarrow> True"
| "life (CallRelease h) \<longleftrightarrow> True"
| "life _ \<longleftrightarrow> False"

definition life_calls :: "sk_state \<Rightarrow> out_call list" where
  "life_calls st = filter life (nt_out (snd st))"

text \<open>
  What each part of a socket is for: the orderly window is the one without a limit, every receive
  list is of the kind of its index, only the two reliable kinds have pending acknowledgements; and
  every window has emptied its two queues.
\<close>

definition wnd_typed :: "bool \<Rightarrow> send_wnd \<Rightarrow> bool" where
  "wnd_typed a w \<longleftrightarrow> sw_always_send w = a \<and> pri_inv (sw_priority_queue w)"

definition wnd_flushed :: "send_wnd \<Rightarrow> bool" where
  "wnd_flushed w \<longleftrightarrow> sw_send_queue w = [] \<and> sw_ack_queue w = []"

fun list_index :: "recv_list \<Rightarrow> wnd_index" where
  "list_index (RecvOrderly l) = WI_ORDERLY"
| "list_index (RecvReliable l) = WI_RELIABLE"
| "list_index (RecvReliableOrderly l) = WI_RELIABLE_ORDERLY"

definition wnds_typed :: "(wnd_index \<Rightarrow> send_wnd option) \<Rightarrow> bool" where
  "wnds_typed f \<longleftrightarrow> (\<forall>i w. f i = Some w \<longrightarrow> wnd_typed (i = WI_ORDERLY) w \<and> wnd_flushed w)"

definition lists_typed :: "(wnd_index \<Rightarrow> recv_list option) \<Rightarrow> bool" where
  "lists_typed f \<longleftrightarrow> (\<forall>i l. f i = Some l \<longrightarrow> list_index l = i)"

definition pends_typed :: "(wnd_index \<Rightarrow> pend_ack option) \<Rightarrow> bool" where
  "pends_typed f \<longleftrightarrow> (\<forall>i p. f i = Some p \<longrightarrow> i \<noteq> WI_ORDERLY \<and> pend_ack_inv p)"

definition sock_typed :: "sock \<Rightarrow> bool" where
  "sock_typed k \<longleftrightarrow> wnds_typed (sk_send_wnd k) \<and> lists_typed (sk_recv_list k) \<and> pends_typed (sk_pend_ack k)"

definition calm :: "sk_state \<Rightarrow> sk_state \<Rightarrow> bool" where
  "calm st st' \<longleftrightarrow> sk_status (fst st') = sk_status (fst st) \<and> sk_handle (fst st') = sk_handle (fst st) \<and>
     life_calls st' = life_calls st \<and>
     (sock_typed (fst st) \<longrightarrow> sock_typed (fst st')) \<and>
     (fq_content (sk_flow_queue (fst st)) = [] \<longrightarrow> fq_content (sk_flow_queue (fst st')) = [])"

definition frame :: "sk_state \<Rightarrow> sk_state \<Rightarrow> bool" where
  "frame st st' \<longleftrightarrow> calm st st' \<and> same_ctl (nt_store (snd st)) (nt_store (snd st'))"

section \<open>Messages\<close>

lemma ctl_head_ops:
  "h_flag (SetId i h) AND ctl_flags = h_flag h AND ctl_flags"
  "h_flag (SetBodyLength n h) AND ctl_flags = h_flag h AND ctl_flags"
  "h_flag (Head_ClearAck h) AND ctl_flags = h_flag h AND ctl_flags"
  "h_flag (snd (AddReliableAck v c h)) AND ctl_flags = h_flag h AND ctl_flags"
  "h_flag (snd (AddReliableOrderlyAck v c h)) AND ctl_flags = h_flag h AND ctl_flags"
  "h_flag (snd (AddReliableAckTime t h)) AND ctl_flags = h_flag h AND ctl_flags"
  "h_flag (snd (AddReliableOrderlyAckTime t h)) AND ctl_flags = h_flag h AND ctl_flags"
  by (simp_all add: head_op_defs ctl_flags_def head_flag_defs Let_def bit.conj_disj_distrib2 and.assoc)

lemma ctl_msg_ops [simp]:
  "ctl (msg_SetId i m) = ctl m"
  "ctl (msg_ClearAck m) = ctl m"
  "ctl (msg_SetAck f v t c m) = ctl m"
  "ctl (msg_SetSendTime u m) = ctl m"
  "ctl (msg_SetFlag f m) = ctl m"
  "ctl (msg_SetTimerId u m) = ctl m"
  "ctl (msg_AddSendDelay m) = ctl m"
  by (simp_all add: ctl_def msg_GetHeaderFlag_def msg_SetId_def msg_ClearAck_def msg_SetAck_def msg_SetSendTime_def
      msg_SetFlag_def msg_SetTimerId_def msg_AddSendDelay_def ctl_head_ops Let_def)
    (simp add: SetFlag_def SetSendTime_def ctl_flags_def head_flag_defs bit.conj_disj_distrib2)

lemma ctl_GetSerializeBuffer:
  "msg_GetSerializeBuffer m = Some (buf, m') \<Longrightarrow> ctl m' = ctl m"
  by (auto simp: msg_GetSerializeBuffer_def Serializes_def Serializes_body_def ctl_def msg_GetHeaderFlag_def
      ctl_head_ops Let_def split: option.splits bool.splits if_splits)

lemma has_flag_ctl:
  assumes "ctl m' = ctl m" and "f AND ctl_flags = f"
  shows "has_flag (msg_GetHeaderFlag m') f \<longleftrightarrow> has_flag (msg_GetHeaderFlag m) f"
proof -
  have "g AND f = (g AND ctl_flags) AND f" for g
    using assms(2) by (metis and.commute and.left_commute)
  then show ?thesis using assms(1) unfolding has_flag_def ctl_def by metis
qed

lemma ctl_members:
  "HTF_ORDERLY AND ctl_flags = HTF_ORDERLY" "HTF_RELIABLE AND ctl_flags = HTF_RELIABLE"
  "HTF_RELIABLE_ORDERLY AND ctl_flags = HTF_RELIABLE_ORDERLY" "HPF_FIN AND ctl_flags = HPF_FIN"
  "HPF_FIN_ACK AND ctl_flags = HPF_FIN_ACK" "HPF_RST AND ctl_flags = HPF_RST"
  by (simp_all add: ctl_flags_def head_flag_defs)

lemma same_ctl_refl [simp]: "same_ctl \<sigma> \<sigma>"
  by (simp add: same_ctl_def)

lemma same_ctl_trans: "same_ctl \<sigma> \<sigma>1 \<Longrightarrow> same_ctl \<sigma>1 \<sigma>2 \<Longrightarrow> same_ctl \<sigma> \<sigma>2"
  by (simp add: same_ctl_def)

lemma same_ctl_upd: "ctl m' = ctl (\<sigma> m) \<Longrightarrow> same_ctl \<sigma> (\<sigma>(m := m'))"
  by (simp add: same_ctl_def)

lemma calm_refl [simp]: "calm st st" and frame_refl [simp]: "frame st st"
  by (simp_all add: calm_def frame_def)

lemma calm_trans: "calm st st1 \<Longrightarrow> calm st1 st2 \<Longrightarrow> calm st st2"
  by (simp add: calm_def life_calls_def sock_typed_def)

lemma frame_trans: "frame st st1 \<Longrightarrow> frame st1 st2 \<Longrightarrow> frame st st2"
  by (metis calm_trans frame_def same_ctl_trans)

lemma frame_calm: "frame st st' \<Longrightarrow> calm st st'"
  by (simp add: frame_def)

section \<open>The send window\<close>

lemma PushBackToSendWnd_ctl: "PushBackToSendWnd bg m \<sigma> w = Some (\<sigma>', w', calls) \<Longrightarrow> same_ctl \<sigma> \<sigma>'"
  by (auto simp: PushBackToSendWnd_def Let_def same_ctl_upd split: prod.splits option.splits)

text \<open>What \<open>PushBackToSendWnd\<close> and taking a message from the priority queue keep, \<open>SendNext\<close> keeps.\<close>

lemma SendNext_keeps:
  assumes push: "\<And>m \<sigma> w \<sigma>' w' calls. PushBackToSendWnd bg m \<sigma> w = Some (\<sigma>', w', calls) \<Longrightarrow> P \<sigma> w \<Longrightarrow> P \<sigma>' w'"
    and pop: "\<And>\<sigma> w m q. pq_Pop (sw_priority_queue w) = (m, q) \<Longrightarrow> P \<sigma> w \<Longrightarrow> P \<sigma> (w\<lparr>sw_priority_queue := q\<rparr>)"
  shows "SendNext bg \<sigma> w = Some (\<sigma>', w', calls) \<Longrightarrow> P \<sigma> w \<Longrightarrow> P \<sigma>' w'"
  using assms
proof (induction bg \<sigma> w arbitrary: \<sigma>' w' calls rule: SendNext.induct)
  case (1 bg \<sigma> w)
  show ?case
  proof (cases "sw_cur_send_size w < sw_send_wnd_size w")
    case room: True
    obtain msg q where popped: "pq_Pop (sw_priority_queue w) = (msg, q)" by (rule prod.exhaust)
    have q: "P \<sigma> (w\<lparr>sw_priority_queue := q\<rparr>)" using "1.prems"(4) [OF popped "1.prems"(2)] .
    show ?thesis
    proof (cases msg)
      case None
      then show ?thesis using "1.prems"(1) room popped q by (subst (asm) SendNext.simps) simp
    next
      case (Some temp)
      obtain \<sigma>1 w1 c1 c2 where pushed: "PushBackToSendWnd bg temp \<sigma> (w\<lparr>sw_priority_queue := q\<rparr>) = Some (\<sigma>1, w1, c1)"
        and rest: "SendNext bg \<sigma>1 w1 = Some (\<sigma>', w', c2)"
        using "1.prems"(1) room popped Some by (subst (asm) SendNext.simps) (auto split: option.splits)
      have "P \<sigma>1 w1" using "1.prems"(3) [OF pushed q] .
      show ?thesis
        by (rule "1.IH" [OF room popped [symmetric] Some pushed refl refl rest \<open>P \<sigma>1 w1\<close>]) (fact "1.prems"(3,4))+
    qed
  next
    case False
    then show ?thesis using "1.prems"(1,2) by (subst (asm) SendNext.simps) simp
  qed
qed

lemma SendNext_ctl: "SendNext bg \<sigma> w = Some (\<sigma>', w', calls) \<Longrightarrow> same_ctl \<sigma> \<sigma>'"
  by (rule SendNext_keeps [where P = "\<lambda>\<sigma>1 w1. same_ctl \<sigma> \<sigma>1"])
    (auto dest: PushBackToSendWnd_ctl intro: same_ctl_trans)

lemma sw_PushBack_ctl: "sw_PushBack bg m \<sigma> w = Some (\<sigma>', w', calls) \<Longrightarrow> same_ctl \<sigma> \<sigma>'"
  by (auto simp: sw_PushBack_def split: option.splits if_splits dest: PushBackToSendWnd_ctl)

lemma AcceptAck_ctl: "AcceptAck bg i \<sigma> w = Some (sz, \<sigma>', w', calls) \<Longrightarrow> same_ctl \<sigma> \<sigma>'"
  by (auto simp: AcceptAck_def Let_def split: option.splits dest: SendNext_ctl)

lemma ChangeSendWndSize_ctl: "ChangeSendWndSize bg sz \<sigma> w = Some (\<sigma>', w', calls) \<Longrightarrow> same_ctl \<sigma> \<sigma>'"
  by (auto simp: ChangeSendWndSize_def split: option.splits if_splits dest: SendNext_ctl)

lemma pq_Pop_inv: "pri_inv q \<Longrightarrow> pq_Pop q = (m, q') \<Longrightarrow> pri_inv q'"
  using pq_Pop_serves [of q] reset_counts_inv(1) [of q] by auto

lemma SendAndAck_typed:
  "SendAndAck \<sigma> w = Some (w', calls) \<Longrightarrow> wnd_flushed w' \<and> sw_always_send w' = sw_always_send w \<and>
   sw_priority_queue w' = sw_priority_queue w"
  by (auto simp: SendAndAck_def wnd_flushed_def split: if_splits)

lemma PushBackToSendWnd_typed:
  "PushBackToSendWnd bg m \<sigma> w = Some (\<sigma>', w', calls) \<Longrightarrow>
   wnd_flushed w' \<and> sw_always_send w' = sw_always_send w \<and> sw_priority_queue w' = sw_priority_queue w"
  by (auto simp: PushBackToSendWnd_def AddToEnd_def Let_def split: prod.splits option.splits if_splits
      dest!: SendAndAck_typed)

lemma SendNext_typed: "SendNext bg \<sigma> w = Some (\<sigma>', w', calls) \<Longrightarrow> wnd_typed a w \<Longrightarrow> wnd_typed a w'"
  by (rule SendNext_keeps [where P = "\<lambda>\<sigma>1 w1. wnd_typed a w1"])
    (auto simp: wnd_typed_def dest: PushBackToSendWnd_typed pq_Pop_inv)

lemma sw_PushBack_typed:
  "sw_PushBack bg m \<sigma> w = Some (\<sigma>', w', calls) \<Longrightarrow> wnd_typed a w \<and> wnd_flushed w \<Longrightarrow> wnd_typed a w' \<and> wnd_flushed w'"
  by (auto simp: sw_PushBack_def wnd_typed_def wnd_flushed_def pri_inv_steps split: option.splits if_splits
      dest: PushBackToSendWnd_typed)

lemma AcceptAck_typed:
  assumes "AcceptAck bg i \<sigma> w = Some (sz, \<sigma>', w', calls)" and "wnd_typed a w \<and> wnd_flushed w"
  shows "wnd_typed a w' \<and> wnd_flushed w'"
proof (cases "map_of (sw_id_msg_map w) i")
  case None
  then show ?thesis using assms by (simp add: AcceptAck_def)
next
  case (Some msg)
  obtain \<sigma>1 w1 c1 c2 where next1: "SendNext bg \<sigma> (quick_resend (take_ack bg i msg w)) = Some (\<sigma>1, w1, c1)"
    and fin: "SendAndAck \<sigma>1 w1 = Some (w', c2)"
    using assms(1) Some by (auto simp: AcceptAck_def Let_def split: option.splits)
  have "wnd_typed a (quick_resend (take_ack bg i msg w))"
    using assms(2) by (auto simp: wnd_typed_def quick_resend_def take_ack_def Let_def split: option.splits)
  then show ?thesis
    using SendNext_typed [OF next1] SendAndAck_typed [OF fin] by (simp add: wnd_typed_def)
qed

lemma ChangeSendWndSize_typed:
  assumes "ChangeSendWndSize bg sz \<sigma> w = Some (\<sigma>', w', calls)" and "wnd_typed a w \<and> wnd_flushed w"
  shows "wnd_typed a w' \<and> wnd_flushed w'"
proof (cases "sw_send_wnd_size w = sz")
  case True
  then show ?thesis using assms by (simp add: ChangeSendWndSize_def)
next
  case False
  obtain \<sigma>1 w1 c1 c2 where next1: "SendNext bg \<sigma> (w\<lparr>sw_send_wnd_size := sz\<rparr>) = Some (\<sigma>1, w1, c1)"
    and fin: "SendAndAck \<sigma>1 w1 = Some (w', c2)"
    using assms(1) False by (auto simp: ChangeSendWndSize_def split: option.splits)
  have "wnd_typed a (w\<lparr>sw_send_wnd_size := sz\<rparr>)" using assms(2) by (simp add: wnd_typed_def)
  then show ?thesis
    using SendNext_typed [OF next1] SendAndAck_typed [OF fin] by (simp add: wnd_typed_def)
qed

lemma GetAck_loop_drop: "\<exists>k. snd (snd (snd (snd (GetAck_loop lim xs av tv prev cur c)))) = drop k xs"
proof (induction lim xs av tv prev cur c rule: GetAck_loop.induct)
  case (2 lim i t xs av tv prev cur c)
  have "\<exists>k. ys = drop k ((i, t) # xs)" if "ys = (i, t) # xs \<or> (\<exists>k. ys = drop k xs)" for ys
    using that by (metis drop_0 drop_Suc_Cons)
  then show ?case using "2.IH" by (auto simp: Let_def)
qed simp

lemma GetAck_inv: "pend_ack_inv p \<Longrightarrow> pend_ack_inv (snd (snd (snd (snd (GetAck av tv c lim p)))))"
proof -
  assume inv: "pend_ack_inv p"
  obtain a t cur c' rest where loop: "GetAck_loop lim (pa_map p) av tv 0 0 c = (a, t, cur, c', rest)"
    by (metis prod.collapse)
  then obtain k where "rest = drop k (pa_map p)" using GetAck_loop_drop [of lim "pa_map p" av tv 0 0 c] by auto
  then have "omap_ok rest"
    using inv by (auto simp: pend_ack_inv_def omap_ok_def drop_map [symmetric] intro: sorted_wrt_drop)
  then show ?thesis using inv loop by (simp add: GetAck_def pend_ack_inv_def Let_def)
qed

section \<open>Access to the shared state\<close>

lemma frame_call [frame_intros]: "\<not> life c \<Longrightarrow> frame st (call c st)"
  by (simp add: frame_def calm_def call_def life_calls_def sock_typed_def)

lemma frame_upd_msg: "ctl (f (the_msg m st)) = ctl (the_msg m st) \<Longrightarrow> frame st (upd_msg m f st)"
  by (simp add: frame_def calm_def life_calls_def sock_typed_def upd_msg_def same_ctl_upd the_msg_def)

lemma frame_put_wnd:
  "same_ctl (nt_store (snd st)) \<sigma> \<Longrightarrow>
   (wnds_typed (sk_send_wnd (fst st)) \<Longrightarrow> wnd_typed (index = WI_ORDERLY) w \<and> wnd_flushed w) \<Longrightarrow>
   frame st (put_wnd index \<sigma> w st)"
  by (simp add: frame_def calm_def life_calls_def sock_typed_def put_wnd_def wnds_typed_def)

lemma frame_sk_now [frame_intros]: "sk_now st = (now, st') \<Longrightarrow> frame st st'"
  by (auto simp: sk_now_def frame_def calm_def life_calls_def sock_typed_def split: prod.splits)

lemma frame_sk_AddTimer [frame_intros]: "frame st (sk_AddTimer ms m st)"
  by (auto simp: sk_AddTimer_def AddTimer_def Let_def frame_def calm_def life_calls_def sock_typed_def same_ctl_upd)

lemma frame_sk_RemoveTimer [frame_intros]: "frame st (sk_RemoveTimer m st)"
  by (auto simp: sk_RemoveTimer_def RemoveTimer_def frame_def calm_def life_calls_def sock_typed_def same_ctl_upd)

lemma frame_SendMessageToNet [frame_intros]: "SendMessageToNet m st = Some st' \<Longrightarrow> frame st st'"
  by (auto simp: SendMessageToNet_def the_msg_def split: option.splits
      intro!: frame_trans [OF frame_upd_msg frame_call] dest: ctl_GetSerializeBuffer)

lemma frame_GetRandom: "GetRandomInitialValue st = (r, st') \<Longrightarrow> frame st st'"
  by (auto simp: GetRandomInitialValue_def frame_def calm_def life_calls_def sock_typed_def)

section \<open>Sending\<close>

lemma frame_set_pend:
  "(pends_typed (sk_pend_ack (fst st)) \<Longrightarrow> index \<noteq> WI_ORDERLY \<and> pend_ack_inv p) \<Longrightarrow>
   frame st ((fst st)\<lparr>sk_pend_ack := (sk_pend_ack (fst st))(index := Some p)\<rparr>, snd st)"
  by (simp add: frame_def calm_def life_calls_def sock_typed_def pends_typed_def)

lemma frame_add_pend_ack:
  assumes "add_pend_ack index flag m st = (r, st')" shows "frame st st'"
proof (cases "\<exists>p. sk_pend_ack (fst st) index = Some p \<and> HasAck p")
  case True
  then obtain p where p: "sk_pend_ack (fst st) index = Some p" "HasAck p" by blast
  obtain r1 av tv c p' where get: "GetAck [] [] False (ack_limit (the_msg m st)) p = (r1, av, tv, c, p')"
    by (metis prod.collapse)
  let ?st1 = "((fst st)\<lparr>sk_pend_ack := (sk_pend_ack (fst st))(index := Some p')\<rparr>, snd st)"
  have "index \<noteq> WI_ORDERLY \<and> pend_ack_inv p'" if "pends_typed (sk_pend_ack (fst st))"
    using GetAck_inv [of p "[]" "[]" False "ack_limit (the_msg m st)"] get p that by (auto simp: pends_typed_def)
  then have "frame st ?st1" by (rule frame_set_pend)
  moreover have "frame ?st1 (upd_msg m (msg_SetAck flag av tv c) ?st1)" by (rule frame_upd_msg) simp
  ultimately show ?thesis
    using assms p get by (auto simp: add_pend_ack_def intro: frame_trans)
next
  case False
  then show ?thesis using assms by (auto simp: add_pend_ack_def split: option.splits)
qed

lemma frame_AddAckToMsg [frame_intros]:
  assumes "AddAckToMsg m st = (r, st')" shows "frame st st'"
proof -
  obtain r1 st1 where 1: "add_pend_ack WI_RELIABLE_ORDERLY HPF_WITH_RELIABLE_ORDERLY_ACK m (upd_msg m msg_ClearAck st) = (r1, st1)"
    by (rule prod.exhaust)
  obtain r2 st2 where 2: "add_pend_ack WI_RELIABLE HPF_WITH_RELIABLE_ACK m st1 = (r2, st2)" by (rule prod.exhaust)
  have "frame st (upd_msg m msg_ClearAck st)" by (simp add: frame_upd_msg)
  then show ?thesis
    using assms 1 2 frame_add_pend_ack [OF 1] frame_add_pend_ack [OF 2]
    by (simp add: AddAckToMsg_def) (meson frame_trans)
qed

lemma frame_AddAckToMsg_snd [frame_intros]: "frame st (snd (AddAckToMsg m st))"
  by (metis frame_AddAckToMsg prod.collapse)

lemma frame_set_in_flight: "frame st ((fst st)\<lparr>sk_in_flight := n\<rparr>, snd st)"
  by (simp add: frame_def calm_def life_calls_def sock_typed_def)

lemma frame_PacingCallBack: "PacingCallBack m st = Some st' \<Longrightarrow> frame st st'"
  by (auto simp: PacingCallBack_def Let_def split: if_splits dest!: frame_SendMessageToNet
      intro: frame_trans [OF frame_set_in_flight])

lemma frame_pacing: "same_ctl (nt_store (snd st)) \<sigma> \<Longrightarrow>
    frame st ((fst st)\<lparr>sk_pacing := p\<rparr>, (snd st)\<lparr>nt_store := \<sigma>\<rparr>)"
  by (simp add: frame_def calm_def life_calls_def sock_typed_def)

lemma frame_pacing_timer: "same_ctl (nt_store (snd st)) \<sigma> \<Longrightarrow>
    frame st (fst st, (snd st)\<lparr>nt_store := \<sigma>, nt_pacing_timer := t\<rparr>)"
  by (simp add: frame_def calm_def life_calls_def sock_typed_def)

lemma pc_SendMessage_ctl: "pc_SendMessage now m \<sigma> p = (c, \<sigma>', p') \<Longrightarrow> same_ctl \<sigma> \<sigma>'"
  by (auto simp: pc_SendMessage_def same_ctl_upd split: if_splits)

lemma AddTimer_ctl: "AddTimer clock ms m \<sigma> t = (k, b, \<sigma>', t') \<Longrightarrow> same_ctl \<sigma> \<sigma>'"
  by (auto simp: AddTimer_def Let_def same_ctl_upd)

lemma frame_pacing_send: 
  assumes "pacing_send m st = Some st'" shows "frame st st'"
proof -
  obtain now st1 where now: "(if m_body (the_msg m st) = [] then (0, st) else sk_now st) = (now, st1)"
    by (rule prod.exhaust)
  obtain c \<sigma> p where send: "pc_SendMessage now m (nt_store (snd st1)) (sk_pacing (fst st1)) = (c, \<sigma>, p)"
    by (rule prod_cases3)
  let ?st2 = "((fst st1)\<lparr>sk_pacing := p\<rparr>, (snd st1)\<lparr>nt_store := \<sigma>\<rparr>)"
  have "frame st st1" using now by (auto split: if_splits intro: frame_intros)
  moreover have "frame st1 ?st2" using pc_SendMessage_ctl [OF send] by (rule frame_pacing)
  moreover have "frame ?st2 st'"
    using assms now send
    by (cases c) (auto simp: pacing_send_def Let_def split: prod.splits
        intro: frame_SendMessageToNet frame_PacingCallBack
          frame_pacing_timer [of "((fst st1)\<lparr>sk_pacing := p\<rparr>, (snd st1)\<lparr>nt_store := \<sigma>\<rparr>)", simplified]
        dest: AddTimer_ctl)
  ultimately show ?thesis by (meson frame_trans)
qed

lemma fq_drained:
  assumes "fq_content q = []"
  shows "fq_content (snd (fq_Get q)) = []" "fq_content (snd (fq_Get (fq_Add \<sigma> m q))) = []"
    "fst (fq_Get q) = None" "fst (fq_Get (fq_Add \<sigma> m q)) = Some m" "fq_content (fq_Remove r q) = []"
  using assms by (auto simp: fq_content_def fq_Get_def fq_Add_def AddToResendTail_def AddToNormalTail_def
      fq_Remove_def split: list.splits option.splits)

lemma frame_flow_queue: "(fq_content (sk_flow_queue (fst st)) = [] \<longrightarrow> fq_content q = []) \<Longrightarrow>
    frame st ((fst st)\<lparr>sk_flow_queue := q\<rparr>, snd st)"
  by (simp add: frame_def calm_def life_calls_def sock_typed_def)

lemma frame_SendPacingMsg [frame_intros]:
  assumes "SendPacingMsg m add st = Some st'" shows "frame st st'"
proof (cases "use_fq_and_pacing \<and> \<not> has_flag (msg_GetFlag (the_msg m st)) msg_is_only_ack")
  case True
  let ?q = "if add then fq_Add (nt_store (snd st)) m (sk_flow_queue (fst st)) else sk_flow_queue (fst st)"
  obtain c q' where get: "fq_Get ?q = (c, q')" by (rule prod.exhaust)
  let ?st1 = "((fst st)\<lparr>sk_flow_queue := q'\<rparr>, snd st)"
  have "frame st ?st1"
    using get fq_drained by (intro frame_flow_queue) (metis snd_conv)
  moreover have "frame ?st1 st'"
    using assms True get by (auto simp: SendPacingMsg_def Let_def split: option.splits intro: frame_pacing_send)
  ultimately show ?thesis by (rule frame_trans)
next
  case False
  have "frame st (let (now, st1) = sk_now st in upd_msg m (msg_SetSendTime now) st1)"
    by (cases "sk_now st") (auto simp: Let_def intro!: frame_trans [OF frame_sk_now frame_upd_msg])
  then show ?thesis
    using assms False by (auto simp: SendPacingMsg_def simp del: split_paired_Ex split: if_splits
        dest!: frame_SendMessageToNet intro: frame_trans)
qed

lemma frame_ToSend: assumes "ToSend m st = Some st'" shows "frame st st'"
proof -
  let ?st1 = "if has_flag (msg_GetHeaderFlag (the_msg m st)) HTF_RELIABLE_ORDERLY \<or>
      has_flag (msg_GetHeaderFlag (the_msg m st)) HTF_RELIABLE
      then sk_AddTimer (ucast (msg_GetReSendTime (GetRto (sk_rto (fst st))) (the_msg m st))) m st else st"
  obtain now st2 where now: "sk_now ?st1 = (now, st2)" by (rule prod.exhaust)
  let ?st3 = "snd (AddAckToMsg m (upd_msg m (msg_SetSendTime now) st2))"
  have "frame st ?st1" by (simp add: frame_intros)
  moreover have "frame ?st1 st2" using now by (rule frame_sk_now)
  moreover have "frame st2 (upd_msg m (msg_SetSendTime now) st2)" by (simp add: frame_upd_msg)
  moreover have "frame (upd_msg m (msg_SetSendTime now) st2) ?st3" by (rule frame_AddAckToMsg_snd)
  moreover have "frame ?st3 st'"
    using assms now by (intro frame_SendPacingMsg [of m True]) (simp add: ToSend_def Let_def)
  ultimately show ?thesis by (meson frame_trans)
qed

lemma frame_AckDone: "frame st (AckDone m st)"
proof -
  let ?st1 = "if has_flag (msg_GetHeaderFlag (the_msg m st)) HPF_UPPER
    then call (CallSendBack (sk_handle (fst st)) (m_upper_id (the_msg m st)) HEC_SUCCESS) st else st"
  have "frame st (sk_RemoveTimer m ?st1)"
    by (intro frame_trans [OF _ frame_sk_RemoveTimer]) (simp add: frame_intros)
  then show ?thesis
    by (auto simp: AckDone_def Let_def fq_drained intro!: frame_trans [OF _ frame_flow_queue])
qed

lemma frame_run_calls [frame_intros]: "run_calls cs st = Some st' \<Longrightarrow> frame st st'"
  by (induction cs st rule: run_calls.induct)
    (auto simp: bind_eq_Some_conv dest: frame_ToSend intro: frame_trans frame_AckDone)

lemma frame_AddToSendWnd:
  assumes "AddToSendWnd e index m st = Some st'" shows "frame st st'"
proof -
  obtain w st1 where w: "(case sk_send_wnd (fst st) index of
      Some w \<Rightarrow> (w, st)
    | None \<Rightarrow> (let (r, st1) = GetRandomInitialValue st in
        (CSendWndImpl r init_send_wnd_size CPriorityQueueImpl (index = WI_ORDERLY), st1))) = (w, st1)"
    by (rule prod.exhaust)
  then have 1: "frame st st1" by (auto split: option.splits prod.splits dest: frame_GetRandom)
  obtain \<sigma> w' calls where push: "sw_PushBack (env_begin e) (Some m) (nt_store (snd st1)) w = Some (\<sigma>, w', calls)"
    and run: "run_calls calls (put_wnd index \<sigma> w' st1) = Some st'"
    using assms w by (auto simp: AddToSendWnd_def split: option.splits)
  have "wnd_typed (index = WI_ORDERLY) w \<and> wnd_flushed w" if "wnds_typed (sk_send_wnd (fst st1))"
    using w that by (auto simp: wnds_typed_def wnd_typed_def wnd_flushed_def CSendWndImpl_def pri_inv_steps
        split: option.splits prod.splits)
  then have "frame st1 (put_wnd index \<sigma> w' st1)"
    using sw_PushBack_ctl [OF push] sw_PushBack_typed [OF push] by (intro frame_put_wnd) auto
  then show ?thesis using 1 frame_run_calls [OF run] by (meson frame_trans)
qed

lemma frame_SendMessage [frame_intros]: "SendMessage e m st = Some st' \<Longrightarrow> frame st st'"
  by (auto simp: SendMessage_def Let_def split: if_splits dest: frame_AddToSendWnd frame_SendPacingMsg
      intro: frame_trans frame_AddAckToMsg_snd)

section \<open>Status changes and messages of the socket's own\<close>

lemma calm_own_msg: "own_msg f hf st = (m, st') \<Longrightarrow> calm st st'"
  by (auto simp: own_msg_def CreateSharedMsg_def calm_def life_calls_def sock_typed_def upd_msg_def Let_def split: prod.splits)

lemma calm_SendFinAckMessage: "SendFinAckMessage e st = Some st' \<Longrightarrow> calm st st'"
  by (auto simp: SendFinAckMessage_def Let_def split: prod.splits
      dest!: calm_own_msg frame_SendMessage intro: calm_trans frame_calm)

lemma calm_SendResetMsg: "SendResetMsg e st = Some st' \<Longrightarrow> calm st st'"
  by (auto simp: SendResetMsg_def Let_def split: prod.splits
      dest!: calm_own_msg frame_SendMessage intro: calm_trans frame_calm)

lemma calm_Wait2MslClose: "calm st (Wait2MslClose st)"
  by (auto simp: Wait2MslClose_def Let_def split: prod.splits
      dest!: calm_own_msg intro: calm_trans frame_calm frame_sk_AddTimer)

definition fin_status :: "socket_status \<Rightarrow> socket_status" where
  "fin_status s = (case s of SS_READY \<Rightarrow> SS_FIN_WAIT_1 | SS_CLOSE_WIAT \<Rightarrow> SS_LAST_ACK | _ \<Rightarrow> s)"

definition can_fin :: "socket_status \<Rightarrow> bool" where
  "can_fin s \<longleftrightarrow> s = SS_READY \<or> s = SS_CLOSE_WIAT"

text \<open>\<open>moves s cs st st'\<close>: like \<open>calm\<close>, but the status becomes \<open>s\<close> and the calls \<open>cs\<close> are made.\<close>

definition moves :: "socket_status \<Rightarrow> out_call list \<Rightarrow> sk_state \<Rightarrow> sk_state \<Rightarrow> bool" where
  "moves s cs st st' \<longleftrightarrow> sk_status (fst st') = s \<and> sk_handle (fst st') = sk_handle (fst st) \<and>
     life_calls st' = life_calls st @ cs \<and>
     (sock_typed (fst st) \<longrightarrow> sock_typed (fst st')) \<and>
     (fq_content (sk_flow_queue (fst st)) = [] \<longrightarrow> fq_content (sk_flow_queue (fst st')) = [])"

lemma moves_calm: "calm st st' \<longleftrightarrow> moves (sk_status (fst st)) [] st st'"
  by (simp add: calm_def moves_def)

lemma moves_trans: "moves s cs st st1 \<Longrightarrow> moves s' cs' st1 st2 \<Longrightarrow> moves s' (cs @ cs') st st2"
  by (simp add: moves_def)

lemma moves_calm_trans: "moves s cs st st1 \<Longrightarrow> calm st1 st2 \<Longrightarrow> moves s cs st st2"
  "calm st st1 \<Longrightarrow> moves s cs st1 st2 \<Longrightarrow> moves s cs st st2"
  by (simp_all add: moves_def calm_def)

lemma calm_status: "calm st st' \<Longrightarrow> sk_status (fst st') = sk_status (fst st)"
  "calm st st' \<Longrightarrow> sk_handle (fst st') = sk_handle (fst st)"
  by (simp_all add: calm_def)

lemma moves_StatusChange:
  "s \<noteq> SS_CLOSE \<Longrightarrow> moves (if status_edge (sk_status (fst st)) s then s else sk_status (fst st)) [] st (StatusChange s st)"
  "moves (sk_status (fst st)) [CallRelease (sk_handle (fst st))] st (StatusChange SS_CLOSE st)"
  by (simp_all add: moves_def StatusChange_def set_status_def call_def life_calls_def sock_typed_def)

lemma moves_NewConnect: "moves (sk_status (fst st)) [CallNewConnect h err] st (call (CallNewConnect h err) st)"
  by (simp add: moves_def call_def life_calls_def sock_typed_def)

lemma SendFinMessage_moves:
  assumes "SendFinMessage e st = Some st'"
  shows "moves (fin_status (sk_status (fst st)))
    (if can_fin (sk_status (fst st)) then [CallNewConnect (sk_handle (fst st)) HEC_CLOSED] else []) st st'"
proof (cases "sk_status (fst st) \<noteq> SS_READY \<and> sk_status (fst st) \<noteq> SS_CLOSE_WIAT")
  case True
  then show ?thesis
    using assms by (auto simp: SendFinMessage_def fin_status_def can_fin_def moves_def split: socket_status.splits)
next
  case False
  let ?hf = "HTF_RELIABLE_ORDERLY OR (if send_all_msg_when_close then HPF_LOW_PRI else HPF_HIGHEST_PRI) OR HPF_FIN"
  obtain m st1 where own: "own_msg 0 ?hf st = (m, st1)" by (rule prod.exhaust)
  note 1 = calm_own_msg [OF own]
  let ?st2 = "call (CallNewConnect (sk_handle (fst st1)) HEC_CLOSED) st1"
  let ?s = "if sk_status (fst ?st2) = SS_READY then SS_FIN_WAIT_1 else SS_LAST_ACK"
  have 2: "moves (sk_status (fst st)) [CallNewConnect (sk_handle (fst st)) HEC_CLOSED] st ?st2"
    using moves_calm_trans(2) [OF 1 moves_NewConnect] calm_status [OF 1] by simp
  have "SendMessage e m (StatusChange ?s ?st2) = Some st'"
    using assms by (simp only: SendFinMessage_def if_not_P [OF False] own prod.case Let_def)
  then have 3: "calm (StatusChange ?s ?st2) st'" by (intro frame_calm frame_SendMessage)
  have "moves (fin_status (sk_status (fst st))) [] ?st2 (StatusChange ?s ?st2)"
    using moves_StatusChange(1) [of ?s ?st2] False 2
    by (auto simp: moves_def status_edge_def fin_status_def split: socket_status.splits if_splits)
  from moves_trans [OF 2 moves_calm_trans(1) [OF this 3]] show ?thesis
    using False by (simp add: can_fin_def)
qed

section \<open>Receiving\<close>

lemma calm_SendAckNowCallBack:
  assumes "SendAckNowCallBack st = Some st'" shows "calm st st'"
proof -
  obtain m st1 where own: "own_msg msg_is_only_ack 0 st = (m, st1)" by (rule prod.exhaust)
  obtain r st2 where add: "AddAckToMsg m st1 = (r, st2)" by (rule prod.exhaust)
  have "calm st2 st'"
    using assms own add by (auto simp: SendAckNowCallBack_def split: if_splits intro: frame_calm frame_SendPacingMsg)
  then show ?thesis
    using calm_own_msg [OF own] frame_calm [OF frame_AddAckToMsg [OF add]] by (meson calm_trans)
qed

lemma calm_AddToPendAck:
  assumes "AddToPendAck index m st = Some st'" and index: "index \<noteq> WI_ORDERLY" shows "calm st st'"
proof -
  let ?p = "case sk_pend_ack (fst st) index of None \<Rightarrow> CPendAck | Some p \<Rightarrow> p"
  let ?i = "msg_GetId (the_msg m st)" and ?t = "msg_GetSendTime (the_msg m st)"
  obtain now p' where add: "(if msg_with_time then AddAck_time ?i ?t ?p else AddAck ?i ?p) = (now, p')"
    by (rule prod.exhaust)
  let ?st1 = "((fst st)\<lparr>sk_pend_ack := (sk_pend_ack (fst st))(index := Some p')\<rparr>, snd st)"
  have "pend_ack_inv ?p" if "pends_typed (sk_pend_ack (fst st))"
    using that pend_ack_inv_steps(1) by (auto simp: pends_typed_def split: option.splits)
  then have "pend_ack_inv p'" if "pends_typed (sk_pend_ack (fst st))"
    using that add pend_ack_inv_steps(2) [of ?p ?i] pend_ack_inv_steps(3) [of ?p ?i ?t] by (auto split: if_splits)
  then have "calm st ?st1" using index by (intro frame_calm frame_set_pend) blast
  moreover have "calm ?st1 st'"
    using assms(1) add by (auto simp: AddToPendAck_def Let_def split: if_splits dest: calm_SendAckNowCallBack)
  ultimately show ?thesis by (rule calm_trans)
qed

lemma calm_AddPendAck:
  assumes "AddPendAck m st = Some st'" shows "calm st st'"
proof -
  obtain st1 where st1: "(if has_flag (msg_GetHeaderFlag (the_msg m st)) HTF_RELIABLE_ORDERLY then AddToPendAck WI_RELIABLE_ORDERLY m st
      else if has_flag (msg_GetHeaderFlag (the_msg m st)) HTF_RELIABLE then AddToPendAck WI_RELIABLE m st
      else Some st) = Some st1"
    and rest: "(if sk_is_in_timer (fst st1) then Some st1
         else (let (timer_msg, st1) = own_msg msg_is_only_ack 0 st1;
                   st2 = sk_AddTimer (ucast pend_ack_send) timer_msg st1 in
               Some ((fst st2)\<lparr>sk_is_in_timer := True\<rparr>, snd st2))) = Some st'"
    using assms unfolding AddPendAck_def Let_def by (auto simp only: bind_eq_Some_conv)
  have 1: "calm st st1" using st1 by (auto split: if_splits dest: calm_AddToPendAck)
  have "calm st1 st'"
  proof (cases "sk_is_in_timer (fst st1)")
    case True
    then show ?thesis using rest by simp
  next
    case False
    obtain tm st2 where own: "own_msg msg_is_only_ack 0 st1 = (tm, st2)" by (rule prod.exhaust)
    have "calm st2 (sk_AddTimer (ucast pend_ack_send) tm st2)" by (intro frame_calm frame_sk_AddTimer)
    then show ?thesis using rest False own calm_own_msg [OF own] by (auto simp: Let_def calm_def life_calls_def sock_typed_def)
  qed
  with 1 show ?thesis by (rule calm_trans)
qed

lemma calm_upd_msg: "calm st (upd_msg m f st)"
  by (simp add: calm_def upd_msg_def life_calls_def sock_typed_def)

lemma calm_AddQuicklyAck:
  assumes "AddQuicklyAck m st = Some st'" shows "calm st st'"
proof -
  obtain a st1 where own: "own_msg msg_is_only_ack 0 st = (a, st1)" by (rule prod.exhaust)
  have "\<exists>st2. calm st1 st2 \<and> SendMessageToNet a st2 = Some st'"
    using assms own calm_upd_msg [of st1 a] calm_refl [of st1]
    by (simp only: AddQuicklyAck_def Let_def prod.case split: if_splits) blast+
  then obtain st2 where "calm st1 st2" "SendMessageToNet a st2 = Some st'" by blast
  then show ?thesis
    using calm_own_msg [OF own] by (blast intro: calm_trans frame_calm frame_SendMessageToNet)
qed

lemma frame_ToRecv: "frame st (ToRecv m st)"
  by (simp add: ToRecv_def frame_call)

lemma frame_fold_ToRecv: "frame st (fold ToRecv ms st)"
proof (induction ms arbitrary: st)
  case (Cons m ms)
  show ?case using frame_trans [OF frame_ToRecv Cons.IH] by simp
qed simp

lemma recv_insert_index: "recv_insert \<sigma> m l = Some (r, l', ms) \<Longrightarrow> list_index l' = list_index l"
  by (cases l) auto

lemma calm_set_recv_list:
  "(lists_typed (sk_recv_list (fst st)) \<Longrightarrow> list_index l = index) \<Longrightarrow>
   calm st ((fst st)\<lparr>sk_recv_list := (sk_recv_list (fst st))(index := Some l)\<rparr>, snd st)"
  by (simp add: calm_def life_calls_def sock_typed_def lists_typed_def)

lemma calm_RecvUpper: "calm st (call (CallRecvUpper h body err) st)"
  by (rule frame_calm [OF frame_call]) simp

lemma calm_AddToRecvList:
  assumes "AddToRecvList e index m st = Some st'" shows "calm st st'"
proof -
  obtain r l' ms where ins: "recv_insert (nt_store (snd st)) m (case sk_recv_list (fst st) index of
      Some l \<Rightarrow> l | None \<Rightarrow> new_recv_list index (msg_GetId (the_msg m st))) = Some (r, l', ms)"
    and rest: "(let st1 = fold ToRecv ms ((fst st)\<lparr>sk_recv_list := (sk_recv_list (fst st))(index := Some l')\<rparr>, snd st) in
         if r = 2 then SendResetMsg e (call (CallRecvUpper (sk_handle (fst st1)) [] HEC_BREAK) st1)
         else if index = WI_RELIABLE \<or> index = WI_RELIABLE_ORDERLY
         then (if r = 1 then AddQuicklyAck m st1 else AddPendAck m st1)
         else Some st1) = Some st'"
    using assms unfolding AddToRecvList_def Let_def by (auto simp only: bind_eq_Some_conv prod.case)
  let ?st1 = "fold ToRecv ms ((fst st)\<lparr>sk_recv_list := (sk_recv_list (fst st))(index := Some l')\<rparr>, snd st)"
  have "list_index l' = index" if "lists_typed (sk_recv_list (fst st))"
    using recv_insert_index [OF ins] that
    by (cases index) (auto simp: lists_typed_def new_recv_list_def split: option.splits)
  then have "calm st ?st1"
    by (intro calm_trans [OF calm_set_recv_list frame_calm [OF frame_fold_ToRecv]])
  moreover have "calm ?st1 st'"
    using rest by (auto simp: Let_def split: if_splits dest: calm_SendResetMsg calm_AddQuicklyAck calm_AddPendAck
        intro: calm_trans [OF calm_RecvUpper])
  ultimately show ?thesis by (rule calm_trans)
qed

section \<open>Acknowledgements\<close>

lemma frame_set_rtt: "set_rtt rtt st = Some st' \<Longrightarrow> frame st st'"
  by (auto simp: set_rtt_def frame_def calm_def life_calls_def sock_typed_def split: option.splits)

lemma frame_GetRtt: "GetRtt t st = (r, st') \<Longrightarrow> frame st st'"
  by (auto simp: GetRtt_def Let_def split: prod.splits dest: frame_sk_now)

lemma frame_sk_AcceptAck:
  assumes "sk_AcceptAck e index i st = Some st'" shows "frame st st'"
proof -
  obtain w sz \<sigma> w' calls st1 where w: "sk_send_wnd (fst st) index = Some w"
    and acc: "AcceptAck (env_begin e) i (nt_store (snd st)) w = Some (sz, \<sigma>, w', calls)"
    and run: "run_calls calls (put_wnd index \<sigma> w' st) = Some st1"
    and st': "st' = ((fst st1)\<lparr>sk_in_flight := sk_in_flight (fst st1) - sz\<rparr>, snd st1)"
    using assms by (auto simp: sk_AcceptAck_def bind_eq_Some_conv split: option.splits)
  have "frame st (put_wnd index \<sigma> w' st)"
    using AcceptAck_ctl [OF acc] AcceptAck_typed [OF acc] w by (intro frame_put_wnd) (auto simp: wnds_typed_def)
  from frame_trans [OF this frame_trans [OF frame_run_calls [OF run] frame_set_in_flight]]
  show ?thesis by (simp add: st')
qed

lemma frame_ack_loop: "ack_loop e index outer ids ts rtt st = Some (rtt', st') \<Longrightarrow> frame st st'"
proof (induction e index outer ids ts rtt st arbitrary: rtt' st' rule: ack_loop.induct)
  case (2 e index outer i ids ts rtt st)
  obtain st1 where acc: "sk_AcceptAck e index i st = Some st1"
    using "2.prems" by (auto simp: bind_eq_Some_conv)
  have "frame st1 st'"
  proof (cases msg_with_time)
    case True
    obtain t ts' where ts: "ts = t # ts'" using "2.prems" acc True by (cases ts) auto
    obtain r st2 where rtt: "GetRtt t st1 = (r, st2)" by (rule prod.exhaust)
    obtain st3 where set: "set_rtt r st2 = Some st3" and
      rest: "ack_loop e index outer ids ts' (if outer then r else rtt) st3 = Some (rtt', st')"
      using "2.prems" acc True ts rtt by (auto simp: bind_eq_Some_conv)
    from "2.IH"(1) [OF acc True ts rtt [symmetric] refl set rest]
    show ?thesis using frame_GetRtt [OF rtt] frame_set_rtt [OF set] by (meson frame_trans)
  next
    case False
    then show ?thesis using "2.prems" acc by (intro "2.IH"(2)) auto
  qed
  then show ?case using frame_sk_AcceptAck [OF acc] by (meson frame_trans)
qed auto

lemma frame_set_bbr: "frame st ((fst st)\<lparr>sk_bbr_controller := b, sk_lost_msg := n\<rparr>, snd st)"
  by (simp add: frame_def calm_def life_calls_def sock_typed_def)

lemma frame_set_pacing: "frame st ((fst st)\<lparr>sk_pacing := p\<rparr>, snd st)"
  by (simp add: frame_def calm_def life_calls_def sock_typed_def)

lemma frame_ControllerProcess:
  assumes "ControllerProcess e index rtt acked d st = Some st'" shows "frame st st'"
proof -
  obtain now st1 where now: "sk_now st = (now, st1)" by (rule prod.exhaust)
  obtain w wnd rate b \<sigma> w' calls st2 where w: "sk_send_wnd (fst st1) index = Some w"
    and size: "ChangeSendWndSize (env_begin e) (ucast (wnd :: u32)) (nt_store (snd st1)) w = Some (\<sigma>, w', calls)"
    and run: "run_calls calls (put_wnd index \<sigma> w' ((fst st1)\<lparr>sk_bbr_controller := b, sk_lost_msg := 0\<rparr>, snd st1)) = Some st2"
    and st': "st' = ((fst st2)\<lparr>sk_pacing := SetPacingRate rate (sk_pacing (fst st2))\<rparr>, snd st2)"
    using assms now by (auto simp: ControllerProcess_def Let_def bind_eq_Some_conv split: option.splits prod.splits)
  let ?st1 = "((fst st1)\<lparr>sk_bbr_controller := b, sk_lost_msg := 0\<rparr>, snd st1)"
  have "frame ?st1 (put_wnd index \<sigma> w' ?st1)"
    using ChangeSendWndSize_ctl [OF size] ChangeSendWndSize_typed [OF size] w
    by (intro frame_put_wnd) (auto simp: wnds_typed_def)
  from frame_trans [OF frame_sk_now [OF now] frame_trans [OF frame_set_bbr frame_trans [OF this
        frame_trans [OF frame_run_calls [OF run] frame_set_pacing]]]]
  show ?thesis by (simp add: st')
qed

lemma frame_ack_kind:
  assumes "ack_kind e m flag index outer rtt st = Some (rtt', st')" shows "frame st st'"
proof (cases "has_flag (msg_GetHeaderFlag (the_msg m st)) flag")
  case True
  obtain vec tvec where get: "msg_GetAck flag [] [] (the_msg m st) = (vec, tvec)" by (rule prod.exhaust)
  obtain rtt1 st1 st2 where loop: "ack_loop e index outer vec tvec rtt st = Some (rtt1, st1)"
    and ctl: "ControllerProcess e index (ucast rtt1) (of_nat (length vec)) 0 st1 = Some st2"
    and rest: "(if msg_with_time then Some (rtt1, st2)
       else (let (r, st) = GetRtt (msg_GetSendTime (the_msg m st2)) st2 in
             do { st \<leftarrow> set_rtt r st; Some (rtt1, st) })) = Some (rtt', st')"
    using assms True get by (auto simp: ack_kind_def bind_eq_Some_conv)
  have "frame st2 st'"
    using rest by (auto simp: Let_def bind_eq_Some_conv split: if_splits prod.splits
        dest!: frame_GetRtt frame_set_rtt intro: frame_trans)
  then show ?thesis
    using frame_ack_loop [OF loop] frame_ControllerProcess [OF ctl] by (meson frame_trans)
next
  case False
  then show ?thesis using assms by (simp add: ack_kind_def)
qed

lemma frame_GetAckToSendWnd: "GetAckToSendWnd e m st = Some st' \<Longrightarrow> frame st st'"
  by (auto simp: GetAckToSendWnd_def bind_eq_Some_conv dest!: frame_ack_kind intro: frame_trans)

end
