(* ===== verification/Socket_Correct.thy ===== *)
theory Socket_Correct
  imports Socket_Frame
begin

text \<open>
  The life of a connection: what a received message, a close and a timer do to the status of a
  socket and which calls about the connection they make (\<open>recv_status\<close>, \<open>recv_life\<close>), as tables
  that the operations of the socket implement on every branch.
\<close>

section \<open>The status tables\<close>

definition recv_status :: "socket_status \<Rightarrow> u32 \<Rightarrow> socket_status" where
  "recv_status s f =
     (let s1 = (if s = SS_CLOSE then SS_READY else s) in
      if s1 = SS_TIME_WAIT then SS_TIME_WAIT
      else if has_flag f HPF_RST then SS_CLOSE
      else if has_flag f HPF_FIN then
        (case s1 of SS_READY \<Rightarrow> SS_LAST_ACK | SS_FIN_WAIT_1 \<Rightarrow> SS_CLOSING | SS_FIN_WAIT_2 \<Rightarrow> SS_TIME_WAIT | _ \<Rightarrow> s1)
      else if has_flag f HPF_FIN_ACK then
        (case s1 of SS_FIN_WAIT_1 \<Rightarrow> SS_FIN_WAIT_2 | SS_CLOSING \<Rightarrow> SS_TIME_WAIT | _ \<Rightarrow> s1)
      else s1)"

definition recv_life :: "handle \<Rightarrow> socket_status \<Rightarrow> u32 \<Rightarrow> out_call list" where
  "recv_life h s f =
     (if s = SS_CLOSE then [CallNewConnect h HEC_SUCCESS] else []) @
     (if s = SS_TIME_WAIT then []
      else if has_flag f HPF_RST then [CallNewConnect h HEC_BREAK, CallRelease h]
      else if has_flag f HPF_FIN then (if s = SS_CLOSE \<or> s = SS_READY then [CallNewConnect h HEC_CLOSED] else [])
      else if has_flag f HPF_FIN_ACK then (if s = SS_LAST_ACK then [CallRelease h] else [])
      else [])"

lemma CheckClose_moves:
  assumes "CheckClose e f st = Some st'" and "\<not> has_flag f HPF_RST"
    and "sk_status (fst st) \<notin> {SS_CLOSE, SS_TIME_WAIT}"
  shows "moves (recv_status (sk_status (fst st)) f) (recv_life (sk_handle (fst st)) (sk_status (fst st)) f) st st'"
proof (cases "has_flag f HPF_FIN")
  case True
  obtain st1 where ack: "SendFinAckMessage e st = Some st1"
    and rest: "(if sk_status (fst st1) = SS_READY then SendFinMessage e (StatusChange SS_CLOSE_WIAT st1)
           else if sk_status (fst st1) = SS_FIN_WAIT_1 then Some (StatusChange SS_CLOSING st1)
           else if sk_status (fst st1) = SS_FIN_WAIT_2 then Some (Wait2MslClose (StatusChange SS_TIME_WAIT st1))
           else Some st1) = Some st'"
    using assms(1) True by (auto simp: CheckClose_def bind_eq_Some_conv)
  have 1: "calm st st1" by (rule calm_SendFinAckMessage [OF ack])
  note same = calm_status [OF 1]
  have "moves (recv_status (sk_status (fst st)) f) (recv_life (sk_handle (fst st)) (sk_status (fst st)) f) st1 st'"
  proof (cases "sk_status (fst st)")
    case SS_READY
    have "moves SS_CLOSE_WIAT [] st1 (StatusChange SS_CLOSE_WIAT st1)"
      using moves_StatusChange(1) [of SS_CLOSE_WIAT st1] SS_READY same by (simp add: status_edge_def)
    moreover from this have "moves SS_LAST_ACK [CallNewConnect (sk_handle (fst st)) HEC_CLOSED] (StatusChange SS_CLOSE_WIAT st1) st'"
      using SendFinMessage_moves [of e "StatusChange SS_CLOSE_WIAT st1" st'] rest SS_READY same
      by (simp add: moves_def fin_status_def can_fin_def)
    ultimately show ?thesis
      using moves_trans SS_READY True assms(2) by (fastforce simp: recv_status_def recv_life_def)
  next
    case SS_FIN_WAIT_1
    then show ?thesis
      using moves_StatusChange(1) [of SS_CLOSING st1] rest same True assms(2)
      by (simp add: status_edge_def recv_status_def recv_life_def)
  next
    case SS_FIN_WAIT_2
    then have "moves SS_TIME_WAIT [] st1 (StatusChange SS_TIME_WAIT st1)"
      using moves_StatusChange(1) [of SS_TIME_WAIT st1] same by (simp add: status_edge_def)
    from moves_calm_trans(1) [OF this calm_Wait2MslClose] show ?thesis
      using SS_FIN_WAIT_2 rest same True assms(2) by (simp add: recv_status_def recv_life_def)
  qed (use assms(2,3) rest same True 1 in \<open>auto simp: recv_status_def recv_life_def moves_def calm_def\<close>)
  with 1 show ?thesis by (rule moves_calm_trans(2))
next
  case fin: False
  show ?thesis
  proof (cases "has_flag f HPF_FIN_ACK")
    case True
    then have st': "st' = (if sk_status (fst st) = SS_LAST_ACK then StatusChange SS_CLOSE st
              else if sk_status (fst st) = SS_FIN_WAIT_1 then StatusChange SS_FIN_WAIT_2 st
              else if sk_status (fst st) = SS_CLOSING then Wait2MslClose (StatusChange SS_TIME_WAIT st)
              else st)"
      using assms(1) fin by (simp add: CheckClose_def)
    show ?thesis
    proof (cases "sk_status (fst st)")
      case SS_CLOSING
      then have "moves SS_TIME_WAIT [] st (StatusChange SS_TIME_WAIT st)"
        using moves_StatusChange(1) [of SS_TIME_WAIT st] by (simp add: status_edge_def)
      from moves_calm_trans(1) [OF this calm_Wait2MslClose] show ?thesis
        using SS_CLOSING st' True fin assms(2) by (simp add: recv_status_def recv_life_def)
    next
      case SS_FIN_WAIT_1
      then show ?thesis
        using moves_StatusChange(1) [of SS_FIN_WAIT_2 st] st' True fin assms(2)
        by (simp add: status_edge_def recv_status_def recv_life_def)
    next
      case SS_LAST_ACK
      then show ?thesis
        using moves_StatusChange(2) [of st] st' True fin assms(2) by (simp add: recv_status_def recv_life_def)
    qed (use assms(2,3) st' True fin in \<open>auto simp: recv_status_def recv_life_def moves_def\<close>)
  next
    case False
    then show ?thesis
      using assms fin by (auto simp: CheckClose_def recv_status_def recv_life_def moves_def Let_def)
  qed
qed

lemma RecvMessage_moves:
  assumes "RecvMessage e m st = Some st'"
  shows "moves (recv_status (sk_status (fst st)) (msg_GetHeaderFlag (the_msg m st)))
    (recv_life (sk_handle (fst st)) (sk_status (fst st)) (msg_GetHeaderFlag (the_msg m st))) st st'"
proof -
  let ?s = "sk_status (fst st)" and ?f = "msg_GetHeaderFlag (the_msg m st)" and ?h = "sk_handle (fst st)"
  let ?s1 = "if ?s = SS_CLOSE then SS_READY else ?s"
  let ?st0 = "if ?s = SS_CLOSE then call (CallNewConnect ?h HEC_SUCCESS) (StatusChange SS_READY st) else st"
  have 0: "moves ?s1 (if ?s = SS_CLOSE then [CallNewConnect ?h HEC_SUCCESS] else []) st ?st0"
    by (simp add: moves_def StatusChange_def status_edge_def set_status_def call_def life_calls_def sock_typed_def)
  obtain st1 where ack: "GetAckToSendWnd e m ?st0 = Some st1"
    and rest: "(if sk_status (fst st1) = SS_TIME_WAIT then SendResetMsg e st1
         else
           (let header_flag = msg_GetHeaderFlag (the_msg m st1) in
            if has_flag header_flag HPF_RST then
              Some (call (CallRelease (sk_handle (fst st1)))
                (set_status SS_CLOSE (call (CallNewConnect (sk_handle (fst st1)) HEC_BREAK) st1)))
            else
              do {
                (done, st) \<leftarrow>
                  (if has_flag header_flag HTF_RELIABLE_ORDERLY
                   then map_option (Pair True) (AddToRecvList e WI_RELIABLE_ORDERLY m st1)
                   else if has_flag header_flag HTF_ORDERLY
                   then map_option (Pair True) (AddToRecvList e WI_ORDERLY m st1)
                   else if has_flag header_flag HTF_RELIABLE
                   then map_option (Pair True) (AddToRecvList e WI_RELIABLE m st1)
                   else Some (False, st1));
                st \<leftarrow> CheckClose e header_flag st;
                Some (if \<not> done \<and> has_flag header_flag HPF_WITH_BODY
                      then call (CallRecvFilter (sk_handle (fst st))
                             (ucast (msg_GetHeaderFlag (the_msg m st))) (m_body (the_msg m st))) st
                      else st)
              })) = Some st'"
    using assms unfolding RecvMessage_def by (auto simp only: Let_def bind_eq_Some_conv)
  have frame1: "frame ?st0 st1" by (rule frame_GetAckToSendWnd [OF ack])
  have 1: "moves ?s1 (if ?s = SS_CLOSE then [CallNewConnect ?h HEC_SUCCESS] else []) st st1"
    by (rule moves_calm_trans(1) [OF 0 frame_calm [OF frame1]])
  then have s1: "sk_status (fst st1) = ?s1" and h1: "sk_handle (fst st1) = ?h" by (simp_all add: moves_def)
  let ?f1 = "msg_GetHeaderFlag (the_msg m st1)"
  have "ctl (the_msg m st1) = ctl (the_msg m st)"
    using frame1 by (auto simp: frame_def same_ctl_def the_msg_def StatusChange_def call_def set_status_def split: if_splits)
  note same_flag = has_flag_ctl [OF this]
  have f: "has_flag ?f1 HPF_RST = has_flag ?f HPF_RST" "has_flag ?f1 HPF_FIN = has_flag ?f HPF_FIN"
    "has_flag ?f1 HPF_FIN_ACK = has_flag ?f HPF_FIN_ACK"
    by (rule same_flag, rule ctl_members)+
  show ?thesis
  proof (cases "?s1 = SS_TIME_WAIT \<or> has_flag ?f1 HPF_RST")
    case True
    show ?thesis
    proof (cases "?s1 = SS_TIME_WAIT")
      case True
      then have "calm st1 st'" using rest s1 by (simp add: calm_SendResetMsg)
      from moves_calm_trans(1) [OF 1 this] show ?thesis
        using True by (auto simp: recv_status_def recv_life_def Let_def split: if_splits)
    next
      case False
      then have rst: "has_flag ?f1 HPF_RST" and no: "sk_status (fst st1) \<noteq> SS_TIME_WAIT" using True s1 by simp_all
      let ?st2 = "call (CallNewConnect ?h HEC_BREAK) st1"
      have "st' = call (CallRelease ?h) (set_status SS_CLOSE ?st2)"
        using rest unfolding Let_def if_not_P [OF no] if_P [OF rst] h1 by simp
      then have "moves SS_CLOSE [CallNewConnect ?h HEC_BREAK, CallRelease ?h] st1 st'"
        using h1 by (simp add: moves_def call_def set_status_def life_calls_def sock_typed_def)
      from moves_trans [OF 1 this] show ?thesis
        using False rst f by (simp add: recv_status_def recv_life_def Let_def split: if_splits)
    qed
  next
    case False
    let ?rl = "if has_flag ?f1 HTF_RELIABLE_ORDERLY then map_option (Pair True) (AddToRecvList e WI_RELIABLE_ORDERLY m st1)
       else if has_flag ?f1 HTF_ORDERLY then map_option (Pair True) (AddToRecvList e WI_ORDERLY m st1)
       else if has_flag ?f1 HTF_RELIABLE then map_option (Pair True) (AddToRecvList e WI_RELIABLE m st1)
       else Some (False, st1)"
    obtain d st2 st3 where rl: "?rl = Some (d, st2)" and cl: "CheckClose e ?f1 st2 = Some st3"
      and st': "st' = (if \<not> d \<and> has_flag ?f1 HPF_WITH_BODY
                      then call (CallRecvFilter (sk_handle (fst st3))
                             (ucast (msg_GetHeaderFlag (the_msg m st3))) (m_body (the_msg m st3))) st3
                      else st3)"
      using rest False s1 unfolding Let_def
      by (auto simp only: bind_eq_Some_conv if_False prod.case simp_thms option.inject de_Morgan_disj)
    have 2: "calm st1 st2" using rl by (auto split: if_splits dest: calm_AddToRecvList)
    note same = calm_status [OF 2]
    have "moves (recv_status ?s1 ?f1) (recv_life ?h ?s1 ?f1) st2 st3"
      using CheckClose_moves [OF cl] False same s1 h1 by simp
    moreover have "calm st3 st'" using frame_calm [OF frame_call] by (simp add: st')
    ultimately have "moves (recv_status ?s1 ?f1) (recv_life ?h ?s1 ?f1) st1 st'"
      by (rule moves_calm_trans(2) [OF 2 moves_calm_trans(1)])
    from moves_trans [OF 1 this]
    have "moves (recv_status ?s1 ?f1) ((if ?s = SS_CLOSE then [CallNewConnect ?h HEC_SUCCESS] else []) @ recv_life ?h ?s1 ?f1) st st'" .
    moreover have "recv_status ?s1 ?f1 = recv_status ?s ?f"
      using f by (simp add: recv_status_def Let_def)
    moreover have "(if ?s = SS_CLOSE then [CallNewConnect ?h HEC_SUCCESS] else []) @ recv_life ?h ?s1 ?f1 = recv_life ?h ?s ?f"
      using f by (simp add: recv_life_def)
    ultimately show ?thesis by simp
  qed
qed

lemma calm_set_timer_flag: "calm st ((fst st)\<lparr>sk_is_in_timer := b\<rparr>, snd st)"
  and calm_set_lost: "calm st ((fst st)\<lparr>sk_lost_msg := n\<rparr>, snd st)"
  by (simp_all add: calm_def life_calls_def sock_typed_def)

lemma TimerOut_moves:
  assumes "TimerOut e m st = Some st'"
  shows "moves (sk_status (fst st)) [] st st' \<or> moves (sk_status (fst st)) [CallRelease (sk_handle (fst st))] st st'"
proof -
  obtain st0 where st0: "(if has_flag (msg_GetFlag (the_msg m st)) msg_pacing_send then SendPacingMsg m False st
      else Some st) = Some st0"
    using assms by (auto simp: TimerOut_def bind_eq_Some_conv)
  then have 0: "calm st st0" by (auto split: if_splits intro: frame_calm frame_SendPacingMsg)
  let ?only = "has_flag (msg_GetFlag (the_msg m st0)) msg_is_only_ack" and ?up = "m_upper_id (the_msg m st0)"
  let ?st1 = "if ?only then st0 else call (CallResendBack (sk_handle (fst st0)) ?up) st0"
  let ?st2 = "if ?only then ((fst ?st1)\<lparr>sk_is_in_timer := False\<rparr>, snd ?st1)
     else (case upd_msg m (\<lambda>x. msg_SetFlag msg_resend (msg_AddSendDelay x)) ?st1 of
             (k, n) \<Rightarrow> (k\<lparr>sk_lost_msg := sk_lost_msg k + 1\<rparr>, n))"
  have 1: "calm st0 ?st1" using frame_calm [OF frame_call] by simp
  have "calm s (case upd_msg m f s of (k, n) \<Rightarrow> (k\<lparr>sk_lost_msg := sk_lost_msg k + 1\<rparr>, n))" for f s
    using calm_trans [OF calm_upd_msg calm_set_lost] by (auto simp: case_prod_unfold)
  then have 2: "calm ?st1 ?st2" using calm_set_timer_flag by simp
  have rest: "(if \<not> ?only \<and> \<not> env_resend e (sk_handle (fst st0)) ?up then Some ?st1
      else if has_flag (msg_GetFlag (the_msg m ?st2)) msg_wait_2_msl then Some (StatusChange SS_CLOSE ?st2)
      else (let (add_ack, st3) = AddAckToMsg m ?st2 in
              if \<not> add_ack \<and> has_flag (msg_GetFlag (the_msg m st3)) msg_is_only_ack then Some st3
              else SendPacingMsg m True st3)) = Some st'"
    using assms st0 unfolding TimerOut_def Let_def by (simp only: bind.bind_lunit)
  have 3: "calm st ?st2" by (rule calm_trans [OF 0 calm_trans [OF 1 2]])
  show ?thesis
  proof (cases "\<not> ?only \<and> \<not> env_resend e (sk_handle (fst st0)) ?up")
    case True
    then have "st' = ?st1" using rest by simp
    then show ?thesis using calm_trans [OF 0 1] by (simp add: moves_calm)
  next
    case resend: False
    show ?thesis
    proof (cases "has_flag (msg_GetFlag (the_msg m ?st2)) msg_wait_2_msl")
      case True
      then have "st' = StatusChange SS_CLOSE ?st2" using rest unfolding if_not_P [OF resend] if_P [OF True] by simp
      with moves_calm_trans(2) [OF 3 moves_StatusChange(2) [of ?st2]] show ?thesis
        using calm_status [OF 3] by simp
    next
      case False
      obtain r st3 where add: "AddAckToMsg m ?st2 = (r, st3)" by (rule prod.exhaust)
      have "calm st3 st'"
        using rest unfolding if_not_P [OF resend] if_not_P [OF False] add
        by (auto split: if_splits intro: frame_calm frame_SendPacingMsg)
      from calm_trans [OF 3 calm_trans [OF frame_calm [OF frame_AddAckToMsg [OF add]] this]]
      show ?thesis by (simp add: moves_calm)
    qed
  qed
qed

section \<open>Reachable sockets\<close>

text \<open>
  Operations in any order, with any environment; the shared state may change between them in any
  way (other sockets and threads work on it).
\<close>

inductive sock_run :: "handle \<Rightarrow> sk_state \<Rightarrow> bool" for h where
  run_start: "sock_run h (CSocketImpl h now rate mem, n)"
| run_send: "sock_run h st \<Longrightarrow> SendMessage e m st = Some st' \<Longrightarrow> sock_run h st'"
| run_recv: "sock_run h st \<Longrightarrow> RecvMessage e m st = Some st' \<Longrightarrow> sock_run h st'"
| run_timer: "sock_run h st \<Longrightarrow> TimerOut e m st = Some st' \<Longrightarrow> sock_run h st'"
| run_close: "sock_run h st \<Longrightarrow> SendFinMessage e st = Some st' \<Longrightarrow> sock_run h st'"
| run_others: "sock_run h (k, n) \<Longrightarrow> sock_run h (k, n')"

definition sock_inv :: "handle \<Rightarrow> sock \<Rightarrow> bool" where
  "sock_inv h k \<longleftrightarrow> sk_handle k = h \<and> sk_status k \<noteq> SS_CLOSE_WIAT \<and> sock_typed k \<and>
     fq_content (sk_flow_queue k) = []"

lemma moves_inv: "moves s cs st st' \<Longrightarrow> sock_inv h (fst st) \<Longrightarrow> s \<noteq> SS_CLOSE_WIAT \<Longrightarrow> sock_inv h (fst st')"
  by (simp add: moves_def sock_inv_def)

lemma calm_inv: "calm st st' \<Longrightarrow> sock_inv h (fst st) \<Longrightarrow> sock_inv h (fst st')"
  by (simp add: calm_def sock_inv_def)

lemma recv_status_no_wait: "s \<noteq> SS_CLOSE_WIAT \<Longrightarrow> recv_status s f \<noteq> SS_CLOSE_WIAT"
  by (cases s) (simp_all add: recv_status_def)

lemma sock_run_inv: "sock_run h st \<Longrightarrow> sock_inv h (fst st)"
proof (induction rule: sock_run.induct)
  case (run_start now rate mem n)
  show ?case
    by (simp add: sock_inv_def CSocketImpl_def sock_typed_def wnds_typed_def lists_typed_def pends_typed_def
        CFlowQueue_def fq_content_def)
next
  case (run_send st e m st')
  then show ?case using calm_inv frame_calm frame_SendMessage by blast
next
  case (run_recv st e m st')
  have "sk_status (fst st) \<noteq> SS_CLOSE_WIAT" using run_recv.IH by (simp add: sock_inv_def)
  then show ?case using moves_inv [OF RecvMessage_moves run_recv.IH recv_status_no_wait] run_recv.hyps(2) by blast
next
  case (run_timer st e m st')
  then show ?case using TimerOut_moves moves_inv by (metis sock_inv_def)
next
  case (run_close st e st')
  then have "fin_status (sk_status (fst st)) \<noteq> SS_CLOSE_WIAT"
    by (auto simp: sock_inv_def fin_status_def split: socket_status.splits)
  then show ?case using SendFinMessage_moves run_close moves_inv by blast
next
  case (run_others k n n')
  then show ?case by simp
qed

section \<open>Properties\<close>

text \<open>
  C4. The life of a connection on every received message: the new status and the calls about the
  connection (new connection, closed, broken, release) are exactly those of the tables, for every
  status and every header, whatever else the message carries.
\<close>

theorem RecvMessage_life:
  assumes "RecvMessage e m st = Some st'"
  shows "sk_status (fst st') = recv_status (sk_status (fst st)) (msg_GetHeaderFlag (the_msg m st)) \<and>
    filter life (nt_out (snd st')) =
      filter life (nt_out (snd st)) @
      recv_life (sk_handle (fst st)) (sk_status (fst st)) (msg_GetHeaderFlag (the_msg m st))"
  using RecvMessage_moves [OF assms] by (simp add: moves_def life_calls_def)

definition sample_bbr :: bbr where
  "sample_bbr = CBbr 0 sample_memory"

definition sample_sock :: sock where
  "sample_sock = CSocketImpl ''10.0.0.1:9'' 0 1 sample_bbr"

definition sample_net :: "msg \<Rightarrow> net" where
  "sample_net x = \<lparr>nt_store = (\<lambda>_. CMsgImpl)(7 := x), nt_pool = \<lparr>mp_free_net_msg_queue = [], mp_next = 8\<rparr>,
     nt_timer = CTimer 1000, nt_pacing_timer = CTimer 1000, nt_clock = 1000, nt_time_stamp = None,
     nt_random = (\<lambda>_. 100), nt_random_pos = 0, nt_out = []\<rparr>"

definition sample_env :: env where
  "sample_env = \<lparr>env_begin = hd, env_resend = (\<lambda>h u. False)\<rparr>"

lemma sample_sock_simps:
  "sk_handle sample_sock = ''10.0.0.1:9''" "sk_status sample_sock = SS_CLOSE"
  "sk_send_wnd sample_sock = (\<lambda>_. None)" "sk_recv_list sample_sock = (\<lambda>_. None)"
  "sk_flow_queue sample_sock = CFlowQueue"
  by (simp_all add: sample_sock_def CSocketImpl_def)

lemma sample_net_simps: "nt_store (sample_net x) 7 = x" "nt_out (sample_net x) = []"
  by (simp_all add: sample_net_def)

lemma RecvMessage_reset:
  assumes "h_flag (m_head x) = HPF_RST"
  shows "\<exists>st'. RecvMessage sample_env 7 (sample_sock, sample_net x) = Some st'"
  using assms
  by (simp add: RecvMessage_def GetAckToSendWnd_def ack_kind_def StatusChange_def status_edge_def set_status_def
      call_def the_msg_def msg_GetHeaderFlag_def sample_sock_simps sample_net_simps has_flag_def head_flag_defs Let_def)

theorem RecvMessage_life_witness:
  "\<exists>st'. RecvMessage sample_env 7 (sample_sock, sample_net (msg_SetHeaderFlag HPF_RST CMsgImpl)) = Some st' \<and>
     sk_status (fst st') = SS_CLOSE \<and>
     filter life (nt_out (snd st')) = [CallNewConnect ''10.0.0.1:9'' HEC_SUCCESS,
       CallNewConnect ''10.0.0.1:9'' HEC_BREAK, CallRelease ''10.0.0.1:9'']"
proof -
  let ?x = "msg_SetHeaderFlag HPF_RST CMsgImpl"
  have flag: "h_flag (m_head ?x) = HPF_RST"
    by (simp add: msg_SetHeaderFlag_def SetFlag_def CMsgImpl_def Head_def)
  then obtain st' where recv: "RecvMessage sample_env 7 (sample_sock, sample_net ?x) = Some st'"
    using RecvMessage_reset by blast
  show ?thesis
    using RecvMessage_life [OF recv] recv flag
    by (simp add: recv_status_def recv_life_def sample_sock_simps sample_net_simps the_msg_def msg_GetHeaderFlag_def
        has_flag_def head_flag_defs)
qed

text \<open>
  C13. The invariant of a socket: after any sequence of operations it keeps its handle, is never seen
  in the status CLOSE_WIAT, has an empty flow queue, receive lists of the kind of their index,
  pending acknowledgements (sorted) for the two reliable kinds only, and send windows that have
  passed on all they had to send, of which exactly the orderly one is without limit.
\<close>

theorem socket_invariant:
  assumes "sock_run h st"
  shows "sk_handle (fst st) = h \<and> sk_status (fst st) \<noteq> SS_CLOSE_WIAT \<and>
    fq_content (sk_flow_queue (fst st)) = [] \<and> sock_typed (fst st)"
  using sock_run_inv [OF assms] by (simp add: sock_inv_def)

theorem socket_invariant_witness:
  "\<exists>st'. RecvMessage sample_env 7 (sample_sock, sample_net (msg_SetHeaderFlag HPF_RST CMsgImpl)) = Some st' \<and>
     sk_handle (fst st') = ''10.0.0.1:9'' \<and> sock_typed (fst st')"
proof -
  let ?x = "msg_SetHeaderFlag HPF_RST CMsgImpl"
  have "h_flag (m_head ?x) = HPF_RST"
    by (simp add: msg_SetHeaderFlag_def SetFlag_def CMsgImpl_def Head_def)
  then obtain st' where recv: "RecvMessage sample_env 7 (sample_sock, sample_net ?x) = Some st'"
    using RecvMessage_reset by blast
  have "sock_run ''10.0.0.1:9'' (sample_sock, sample_net ?x)"
    unfolding sample_sock_def by (rule run_start)
  from socket_invariant [OF run_recv [OF this recv]] recv show ?thesis by simp
qed

text \<open>
  C36. A message that pacing has delayed is not sent when its time comes: the flow queue it was taken
  from is empty, so \<open>SendPacingMsg\<close> sends nothing at all and calls nobody. The timer goes on to ask the
  application whether to resend the message, and if it refuses, that is all that happens.
\<close>

theorem paced_message_dropped:
  assumes "sock_run h st" and "has_flag (msg_GetFlag (the_msg m st)) msg_pacing_send"
    and "\<not> has_flag (msg_GetFlag (the_msg m st)) msg_is_only_ack"
  shows "\<exists>k. SendPacingMsg m False st = Some (k, snd st) \<and>
    k = (fst st)\<lparr>sk_flow_queue := sk_flow_queue k\<rparr> \<and> fq_content (sk_flow_queue k) = [] \<and>
    (\<not> env_resend e h (m_upper_id (the_msg m st)) \<longrightarrow>
      TimerOut e m st = Some (k, (snd st)\<lparr>nt_out := nt_out (snd st) @ [CallResendBack h (m_upper_id (the_msg m st))]\<rparr>))"
proof -
  have empty: "fq_content (sk_flow_queue (fst st)) = []" and h: "sk_handle (fst st) = h"
    using sock_run_inv [OF assms(1)] by (simp_all add: sock_inv_def)
  obtain q where get: "fq_Get (sk_flow_queue (fst st)) = (None, q)" "fq_content q = []"
    using fq_drained(1,3) [OF empty] by (metis prod.collapse)
  have "SendPacingMsg m False st = Some ((fst st)\<lparr>sk_flow_queue := q\<rparr>, snd st)"
    using assms(3) get by (simp add: SendPacingMsg_def use_fq_and_pacing_def)
  then show ?thesis
    using assms h get(2) by (simp add: TimerOut_def the_msg_def call_def Let_def)
qed

theorem paced_message_dropped_witness:
  "\<exists>k. TimerOut sample_env 7 (sample_sock, sample_net (msg_SetFlag msg_pacing_send CMsgImpl)) =
     Some (k, (sample_net (msg_SetFlag msg_pacing_send CMsgImpl))\<lparr>nt_out := [CallResendBack ''10.0.0.1:9'' 0]\<rparr>)"
proof -
  let ?x = "msg_SetFlag msg_pacing_send CMsgImpl" and ?h = "''10.0.0.1:9''"
  have run: "sock_run ?h (sample_sock, sample_net ?x)"
    unfolding sample_sock_def by (rule run_start)
  have "has_flag (msg_GetFlag ?x) msg_pacing_send" "\<not> has_flag (msg_GetFlag ?x) msg_is_only_ack" "m_upper_id ?x = 0"
    by (simp_all add: msg_SetFlag_def msg_GetFlag_def CMsgImpl_def has_flag_def local_flag_defs)
  then show ?thesis
    using paced_message_dropped [OF run, of 7 sample_env] by (auto simp: the_msg_def sample_net_simps sample_env_def)
qed

text \<open>
  C35. An acknowledgement that nothing was sent for is undefined behaviour: a datagram with one of the
  two acknowledgement flags, received by a socket that has no send window yet, makes the program
  go through a null pointer, whatever else the datagram says.
\<close>

theorem ack_without_window_undefined:
  assumes "sk_send_wnd (fst st) = (\<lambda>_. None)"
    and "has_flag (msg_GetHeaderFlag (the_msg m st)) HPF_WITH_RELIABLE_ORDERLY_ACK \<or>
         has_flag (msg_GetHeaderFlag (the_msg m st)) HPF_WITH_RELIABLE_ACK"
  shows "RecvMessage e m st = None"
proof -
  have none: "ack_kind e m flag index outer rtt s = None"
    if "sk_send_wnd (fst s) = (\<lambda>_. None)" "has_flag (msg_GetHeaderFlag (the_msg m s)) flag" for flag index outer rtt s
  proof -
    obtain vec tvec where "msg_GetAck flag [] [] (the_msg m s) = (vec, tvec)" by (rule prod.exhaust)
    moreover have "sk_send_wnd (fst s') = (\<lambda>_. None)" if "sk_now s = (now, s')" for now s'
      using that \<open>sk_send_wnd (fst s) = (\<lambda>_. None)\<close> by (auto simp: sk_now_def split: prod.splits)
    then have "ControllerProcess e index r a d s = None" for r a d
      by (cases "sk_now s") (auto simp: ControllerProcess_def Let_def)
    moreover have "ack_loop e index outer vec tvec rtt s = None" if "vec \<noteq> []"
      using that \<open>sk_send_wnd (fst s) = (\<lambda>_. None)\<close> by (cases vec) (simp_all add: sk_AcceptAck_def)
    ultimately show ?thesis
      using that(2) by (cases "vec = []") (simp_all add: ack_kind_def)
  qed
  let ?st0 = "if sk_status (fst st) = SS_CLOSE
                 then call (CallNewConnect (sk_handle (fst st)) HEC_SUCCESS) (StatusChange SS_READY st)
                 else st"
  have st0: "sk_send_wnd (fst ?st0) = (\<lambda>_. None)" "the_msg m ?st0 = the_msg m st"
    using assms(1) by (simp_all add: StatusChange_def status_edge_def set_status_def call_def the_msg_def)
  have "GetAckToSendWnd e m ?st0 = None"
  proof (cases "has_flag (msg_GetHeaderFlag (the_msg m st)) HPF_WITH_RELIABLE_ORDERLY_ACK")
    case True
    then show ?thesis using none [OF st0(1), unfolded st0(2)] by (simp add: GetAckToSendWnd_def)
  next
    case False
    then have "ack_kind e m HPF_WITH_RELIABLE_ORDERLY_ACK WI_RELIABLE_ORDERLY True 0 ?st0 = Some (0, ?st0)"
      by (simp add: ack_kind_def st0(2))
    then show ?thesis using none [OF st0(1), unfolded st0(2)] assms(2) False by (simp add: GetAckToSendWnd_def)
  qed
  then show ?thesis unfolding RecvMessage_def Let_def by (simp only: bind.bind_lzero)
qed

theorem ack_without_window_undefined_witness:
  "RecvMessage sample_env 7 (sample_sock, sample_net sample_msg) = None"
  using ack_without_window_undefined [of "(sample_sock, sample_net sample_msg)" 7 sample_env]
  by (simp add: sample_sock_simps the_msg_def sample_net_simps msg_GetHeaderFlag_def sample_msg_head has_flag_def head_flag_defs)

end
