(* ===== verification/Socket_Traffic.thy ===== *)
theory Socket_Traffic
  imports Socket_Correct
begin

text \<open>
  What the operations of a socket send and deliver: the first message of a connection, messages of
  the socket's own, the size of the window after an acknowledgement.
\<close>

section \<open>Plain messages\<close>

definition ack_flags :: u32 where
  "ack_flags = HPF_RELIABLE_ACK_RANGE OR HPF_RELIABLE_ORDERLY_ACK_RANGE OR HPF_WITH_RELIABLE_ACK OR HPF_WITH_RELIABLE_ORDERLY_ACK"

text \<open>A message without acknowledgements whose flags fit its number and body.\<close>

definition plain :: "msg \<Rightarrow> bool" where
  "plain x \<longleftrightarrow> h_flag (m_head x) AND ack_flags = 0 \<and>
     h_ack_orderly (m_head x) = [] \<and> h_orderly_times (m_head x) = [] \<and>
     h_ack_reliable (m_head x) = [] \<and> h_reliable_times (m_head x) = [] \<and>
     (has_flag (h_flag (m_head x)) HPF_WITH_ID \<or> h_id (m_head x) = 0) \<and>
     (has_flag (h_flag (m_head x)) HPF_WITH_BODY \<or> m_body x = []) \<and>
     h_body_len (m_head x) = of_nat (length (m_body x)) \<and> length (m_body x) \<le> 400"

lemma plain_flags:
  assumes "f AND ack_flags = (0 :: u32)"
  shows "\<not> has_flag f HPF_WITH_RELIABLE_ORDERLY_ACK" "\<not> has_flag f HPF_WITH_RELIABLE_ACK"
    "\<not> has_flag f HPF_RELIABLE_ORDERLY_ACK_RANGE" "\<not> has_flag f HPF_RELIABLE_ACK_RANGE"
proof -
  have "\<not> has_flag f g" if "ack_flags AND g = g" for g
  proof -
    have "f AND g = (f AND ack_flags) AND g" using that by (simp add: and.assoc)
    then show ?thesis using assms by (simp add: has_flag_def)
  qed
  then show "\<not> has_flag f HPF_WITH_RELIABLE_ORDERLY_ACK" "\<not> has_flag f HPF_WITH_RELIABLE_ACK"
    "\<not> has_flag f HPF_RELIABLE_ORDERLY_ACK_RANGE" "\<not> has_flag f HPF_RELIABLE_ACK_RANGE"
    by (simp_all add: ack_flags_def head_flag_defs)
qed

lemma flag_consts:
  "HPF_WITH_ID AND ack_flags = 0" "HPF_WITH_BODY AND ack_flags = 0" "HPF_MSG_WITH_TIME_STAMP AND ack_flags = 0"
  "has_flag HPF_WITH_ID HPF_WITH_ID" "has_flag HPF_WITH_BODY HPF_WITH_BODY"
  "has_flag HPF_MSG_WITH_TIME_STAMP HPF_MSG_WITH_TIME_STAMP"
  by (simp_all add: has_flag_def ack_flags_def head_flag_defs)

lemma ack_bits: "(f OR g) AND ack_flags = 0 \<longleftrightarrow> f AND ack_flags = 0 \<and> g AND ack_flags = (0 :: u32)"
  by (simp add: bit.conj_disj_distrib2 or_eq_0_iff)

lemma ClearAck_bits:
  "h_flag (Head_ClearAck h) AND ack_flags = 0"
  "has_flag (h_flag (Head_ClearAck h)) HPF_WITH_ID = has_flag (h_flag h) HPF_WITH_ID"
  "has_flag (h_flag (Head_ClearAck h)) HPF_WITH_BODY = has_flag (h_flag h) HPF_WITH_BODY"
  by (simp_all add: Head_ClearAck_def has_flag_def ack_flags_def head_flag_defs and.assoc)

lemma plain_ops:
  "plain x \<Longrightarrow> plain (msg_SetId i x)"
  "plain x \<Longrightarrow> plain (msg_SetSendTime t x)"
  "plain x \<Longrightarrow> plain (msg_ClearAck x)"
  "plain x \<Longrightarrow> plain (msg_SetTimerId u x)"
  "plain x \<Longrightarrow> plain (msg_SetFlag f x)"
  "plain x \<Longrightarrow> plain (msg_SetSocket h x)"
  "plain x \<Longrightarrow> plain (msg_SetHandle h x)"
  "plain x \<Longrightarrow> plain (msg_SetUpperId v x)"
  "plain x \<Longrightarrow> length body \<le> 400 \<Longrightarrow> plain (msg_SetBody body x)"
  "plain x \<Longrightarrow> f AND ack_flags = 0 \<Longrightarrow> plain (msg_SetHeaderFlag f x)"
  by (auto simp: plain_def msg_SetId_def SetId_def msg_SetSendTime_def SetSendTime_def SetFlag_def msg_ClearAck_def
      msg_SetTimerId_def msg_SetFlag_def msg_SetSocket_def msg_SetHandle_def msg_SetUpperId_def msg_SetBody_def
      SetBodyLength_def msg_SetHeaderFlag_def flag_consts ack_bits ClearAck_bits has_flag_or Let_def)
    (simp_all add: Head_ClearAck_def)

lemma blank_plain: "blank x \<Longrightarrow> plain x"
  by (simp add: blank_def plain_def head_empty_def)

lemma plain_wire_ok:
  assumes "plain x" and time: "has_flag (h_flag (m_head x)) HPF_MSG_WITH_TIME_STAMP"
  shows "wire_ok x" "unat (msg_GetEstimateSize x) \<le> 440"
proof -
  let ?f = "h_flag (m_head x)"
  have "?f AND ack_flags = 0" using assms(1) by (simp add: plain_def)
  note no = plain_flags [OF this]
  show "wire_ok x"
    using assms no by (auto simp: wire_ok_def msg_ok_def head_ok_def ack_block_ok_def plain_def)
  then have "msg_ok (m_head x) (m_body x)" by (simp add: wire_ok_def)
  from EstimateSize_eq [OF this] show "unat (msg_GetEstimateSize x) \<le> 440"
    using assms no by (auto simp: msg_GetEstimateSize_def msg_bytes_def head_field_bytes_def plain_def Let_def)
qed

section \<open>A socket that has sent nothing\<close>

definition line_free :: "sock \<Rightarrow> bool" where
  "line_free k \<longleftrightarrow> sk_pend_ack k = (\<lambda>_. None) \<and> fq_content (sk_flow_queue k) = [] \<and> pc_next_time (sk_pacing k) = 0"

lemma AddAckToMsg_none:
  assumes "sk_pend_ack (fst st) = (\<lambda>_. None)"
  shows "AddAckToMsg m st = (False, upd_msg m msg_ClearAck st)"
  using assms by (simp add: AddAckToMsg_def add_pend_ack_def upd_msg_def)

lemma sk_now_effect:
  assumes "sk_now st = (now, st')"
  shows "fst st' = fst st" "nt_store (snd st') = nt_store (snd st)" "nt_out (snd st') = nt_out (snd st)"
  using assms by (auto simp: sk_now_def split: prod.splits)

lemma SendMessageToNet_ok:
  assumes "wire_ok (the_msg m st)" and "unat (msg_GetEstimateSize (the_msg m st)) \<le> 440"
  shows "SendMessageToNet m st =
    Some (call (CallNet (m_ip_port (the_msg m st)) (msg_bytes (m_head (the_msg m st)) (m_body (the_msg m st)))) st)"
proof -
  have "msg_GetSerializeBuffer (the_msg m st) = Some (msg_bytes (m_head (the_msg m st)) (m_body (the_msg m st)), the_msg m st)"
    using GetSerializeBuffer_wire_ok [OF assms(1)] assms(2) by simp
  moreover have "upd_msg m (\<lambda>_. the_msg m st) st = st" by (simp add: upd_msg_def the_msg_def)
  ultimately show ?thesis by (simp add: SendMessageToNet_def)
qed

text \<open>What goes to the net for a message: a plain message with a time stamp, its body and its control flags.\<close>

definition datagram_of :: "msg \<Rightarrow> msg \<Rightarrow> bool" where
  "datagram_of x y \<longleftrightarrow> plain y \<and> has_flag (h_flag (m_head y)) HPF_MSG_WITH_TIME_STAMP \<and> m_body y = m_body x \<and>
     ctl y = ctl x \<and> m_ip_port y = m_ip_port x \<and> msg_GetId y = msg_GetId x \<and>
     has_flag (h_flag (m_head y)) HPF_WITH_BODY = has_flag (h_flag (m_head x)) HPF_WITH_BODY"

definition sends_one :: "msg \<Rightarrow> sk_state \<Rightarrow> sk_state \<Rightarrow> bool" where
  "sends_one x st st' \<longleftrightarrow>
     (\<exists>y. datagram_of x y \<and> nt_out (snd st') = nt_out (snd st) @ [CallNet (m_ip_port x) (msg_bytes (m_head y) (m_body y))])"

lemma SetSendTime_datagram: "plain x \<Longrightarrow> datagram_of x (msg_SetSendTime now x)"
  by (simp add: datagram_of_def plain_ops)
    (simp add: msg_SetSendTime_def SetSendTime_def SetFlag_def msg_GetId_def msg_with_time_def has_flag_or flag_consts Let_def,
     simp add: has_flag_def head_flag_defs)

lemma datagram_of_wire: "datagram_of x y \<Longrightarrow> wire_ok y \<and> unat (msg_GetEstimateSize y) \<le> 440"
  using plain_wire_ok by (simp add: datagram_of_def)

lemma pacing_send_free:
  assumes "pc_next_time (sk_pacing (fst st)) = 0" and x: "plain (the_msg m st)"
    and time: "m_body (the_msg m st) = [] \<Longrightarrow> has_flag (h_flag (m_head (the_msg m st))) HPF_MSG_WITH_TIME_STAMP"
  shows "\<exists>st'. pacing_send m st = Some st' \<and> sends_one (the_msg m st) st st'"
proof (cases "m_body (the_msg m st) = []")
  case True
  have "datagram_of (the_msg m st) (the_msg m st)" using x time [OF True] by (simp add: datagram_of_def)
  then show ?thesis
    using True SendMessageToNet_ok [of m st] datagram_of_wire
    by (auto simp: pacing_send_def pc_SendMessage_def the_msg_def sends_one_def call_def Let_def)
next
  case False
  obtain now st1 where now: "sk_now st = (now, st1)" by (rule prod.exhaust)
  note eff = sk_now_effect [OF now]
  let ?y = "msg_SetSendTime now (the_msg m st)"
  have y: "datagram_of (the_msg m st) ?y" by (rule SetSendTime_datagram [OF x])
  let ?p = "(sk_pacing (fst st1))\<lparr>pc_next_time := ucast (pace_length (sk_pacing (fst st1)) (msg_GetEstimateSize (the_msg m st))) + now\<rparr>"
  let ?st2 = "((fst st1)\<lparr>sk_pacing := ?p\<rparr>, (snd st1)\<lparr>nt_store := (nt_store (snd st1))(m := ?y)\<rparr>)"
  have send: "pc_SendMessage now m (nt_store (snd st1)) (sk_pacing (fst st1)) =
      (PaceCallback m, (nt_store (snd st1))(m := ?y), ?p)"
    using False assms(1) eff by (simp add: pc_SendMessage_def the_msg_def)
  have run: "pacing_send m st = PacingCallBack m ?st2"
    using False now send by (simp add: pacing_send_def)
  have "the_msg m ?st2 = ?y" by (simp add: the_msg_def)
  then have net: "SendMessageToNet m (k, snd ?st2) = Some (call (CallNet (m_ip_port ?y) (msg_bytes (m_head ?y) (m_body ?y))) (k, snd ?st2))" for k
    using SendMessageToNet_ok [of m "(k, snd ?st2)"] datagram_of_wire [OF y] by (simp add: the_msg_def)
  have "\<exists>k. PacingCallBack m ?st2 = SendMessageToNet m (k, snd ?st2)"
    by (auto simp: PacingCallBack_def Let_def)
  then obtain k where "pacing_send m st = Some (call (CallNet (m_ip_port ?y) (msg_bytes (m_head ?y) (m_body ?y))) (k, snd ?st2))"
    using run net by metis
  moreover have "m_ip_port ?y = m_ip_port (the_msg m st)" using y by (simp add: datagram_of_def)
  ultimately show ?thesis
    using y eff by (auto simp: sends_one_def call_def)
qed

lemma SendPacingMsg_free:
  assumes free: "line_free (fst st)" and x: "plain (the_msg m st)"
    and only: "\<not> has_flag (msg_GetFlag (the_msg m st)) msg_is_only_ack"
    and time: "m_body (the_msg m st) = [] \<Longrightarrow> has_flag (h_flag (m_head (the_msg m st))) HPF_MSG_WITH_TIME_STAMP"
  shows "\<exists>st'. SendPacingMsg m True st = Some st' \<and> sends_one (the_msg m st) st st'"
proof -
  obtain q where get: "fq_Get (fq_Add (nt_store (snd st)) m (sk_flow_queue (fst st))) = (Some m, q)"
    using fq_drained(4) free unfolding line_free_def by (metis prod.collapse)
  let ?st1 = "((fst st)\<lparr>sk_flow_queue := q\<rparr>, snd st)"
  have "SendPacingMsg m True st = pacing_send m ?st1"
    using only get by (simp add: SendPacingMsg_def use_fq_and_pacing_def)
  moreover have "the_msg m ?st1 = the_msg m st" by (simp add: the_msg_def)
  ultimately show ?thesis
    using pacing_send_free [of ?st1 m] free x time by (simp add: line_free_def sends_one_def)
qed

text \<open>What the operations on the way out leave of a message.\<close>

definition same_load :: "msg \<Rightarrow> msg \<Rightarrow> bool" where
  "same_load x y \<longleftrightarrow> m_body y = m_body x \<and> ctl y = ctl x \<and> m_ip_port y = m_ip_port x \<and> msg_GetId y = msg_GetId x \<and>
     m_flag y AND NOT (ucast msg_with_out_id) = m_flag x AND NOT (ucast msg_with_out_id) \<and>
     has_flag (h_flag (m_head y)) HPF_WITH_BODY = has_flag (h_flag (m_head x)) HPF_WITH_BODY"

lemma same_load_ops:
  "same_load x (msg_ClearAck x)" "same_load x (msg_SetSendTime t x)" "same_load x (msg_SetTimerId u x)"
  by (simp_all add: same_load_def)
    (simp_all add: msg_GetId_def Head_ClearAck_def msg_ClearAck_def ClearAck_bits msg_SetSendTime_def SetSendTime_def SetFlag_def
      msg_SetTimerId_def has_flag_or Let_def, simp_all add: has_flag_def head_flag_defs and.assoc)

lemma same_load_trans: "same_load x y \<Longrightarrow> same_load y z \<Longrightarrow> same_load x z"
  by (simp add: same_load_def)

lemma same_load_datagram: "same_load x y \<Longrightarrow> datagram_of y z \<Longrightarrow> datagram_of x z"
  by (simp add: same_load_def datagram_of_def)

lemma sends_load:
  assumes load: "same_load x y" and out: "nt_out (snd st1) = nt_out (snd st)" and send: "sends_one y st1 st'"
  shows "sends_one x st st'"
proof -
  obtain z where z: "datagram_of y z" "nt_out (snd st') = nt_out (snd st1) @ [CallNet (m_ip_port y) (msg_bytes (m_head z) (m_body z))]"
    using send unfolding sends_one_def by blast
  have "m_ip_port y = m_ip_port x" using load unfolding same_load_def by blast
  with z out same_load_datagram [OF load z(1)] show ?thesis unfolding sends_one_def by metis
qed

lemma same_load_only_ack:
  assumes "m_flag y AND NOT (ucast msg_with_out_id) = m_flag x AND NOT (ucast msg_with_out_id)"
  shows "has_flag (msg_GetFlag y) msg_is_only_ack = has_flag (msg_GetFlag x) msg_is_only_ack"
proof -
  have bit: "has_flag (msg_GetFlag z) msg_is_only_ack = bit (m_flag z AND NOT (ucast msg_with_out_id)) 2" for z
  proof -
    have "has_flag (scast f :: u32) (2 ^ 2) = bit f 2" for f :: u16
      unfolding has_flag_exp by (simp add: bit_simps)
    from this [of "m_flag z"] show ?thesis
      by (simp add: msg_GetFlag_def local_flag_defs bit_simps)
  qed
  show ?thesis using assms unfolding bit by simp
qed

lemma same_load_flag: "same_load x y \<Longrightarrow> m_flag y AND NOT (ucast msg_with_out_id) = m_flag x AND NOT (ucast msg_with_out_id)"
  by (simp add: same_load_def)

lemma upd_msg_effect [simp]:
  "the_msg m (upd_msg m f st) = f (the_msg m st)" "fst (upd_msg m f st) = fst st"
  "nt_out (snd (upd_msg m f st)) = nt_out (snd st)"
  by (simp_all add: upd_msg_def the_msg_def)

lemma sk_AddTimer_effect:
  "\<exists>u. the_msg m (sk_AddTimer ms m st) = msg_SetTimerId u (the_msg m st)"
  "fst (sk_AddTimer ms m st) = fst st" "nt_out (snd (sk_AddTimer ms m st)) = nt_out (snd st)"
  by (auto simp: sk_AddTimer_def AddTimer_def the_msg_def Let_def)

lemma ToSend_free:
  assumes free: "line_free (fst st)" and x: "plain (the_msg m st)"
    and only: "\<not> has_flag (msg_GetFlag (the_msg m st)) msg_is_only_ack"
  shows "\<exists>st'. ToSend m st = Some st' \<and> sends_one (the_msg m st) st st'"
proof -
  let ?x = "the_msg m st"
  define st1 where "st1 = (if has_flag (msg_GetHeaderFlag ?x) HTF_RELIABLE_ORDERLY \<or> has_flag (msg_GetHeaderFlag ?x) HTF_RELIABLE
      then sk_AddTimer (ucast (msg_GetReSendTime (GetRto (sk_rto (fst st))) ?x)) m st else st)"
  have "\<exists>u. the_msg m st1 = ?x \<or> the_msg m st1 = msg_SetTimerId u ?x"
    using sk_AddTimer_effect(1) by (auto simp: st1_def split: if_splits)
  then obtain u where x1: "the_msg m st1 = ?x \<or> the_msg m st1 = msg_SetTimerId u ?x" by blast
  have st1: "fst st1 = fst st" "nt_out (snd st1) = nt_out (snd st)"
    by (simp_all add: st1_def sk_AddTimer_effect)
  obtain now st2 where now: "sk_now st1 = (now, st2)" by (rule prod.exhaust)
  note eff = sk_now_effect [OF now]
  then have st2: "the_msg m st2 = the_msg m st1" by (simp add: the_msg_def)
  let ?y = "msg_ClearAck (msg_SetSendTime now (the_msg m st1))"
  let ?st3 = "snd (AddAckToMsg m (upd_msg m (msg_SetSendTime now) st2))"
  have "AddAckToMsg m (upd_msg m (msg_SetSendTime now) st2) =
      (False, upd_msg m msg_ClearAck (upd_msg m (msg_SetSendTime now) st2))"
    using free st1 eff by (intro AddAckToMsg_none) (simp add: line_free_def)
  then have y: "the_msg m ?st3 = ?y" "fst ?st3 = fst st" "nt_out (snd ?st3) = nt_out (snd st)"
    using st1 eff st2 by simp_all
  have "same_load ?x (the_msg m st1)" using x1 same_load_ops(3) by (auto simp: same_load_def)
  then have load: "same_load ?x ?y" using same_load_ops(1,2) same_load_trans by blast
  have "plain (the_msg m st1)" using x1 x plain_ops(4) by auto
  then have "plain ?y" by (intro plain_ops)
  moreover have "has_flag (h_flag (m_head ?y)) HPF_MSG_WITH_TIME_STAMP"
    by (simp add: msg_ClearAck_def Head_ClearAck_def msg_SetSendTime_def SetFlag_def SetSendTime_def msg_with_time_def
        has_flag_def head_flag_defs and.assoc Let_def)
  moreover have "\<not> has_flag (msg_GetFlag ?y) msg_is_only_ack" using only same_load_only_ack [OF same_load_flag [OF load]] by simp
  ultimately obtain st' where "SendPacingMsg m True ?st3 = Some st'" "sends_one ?y ?st3 st'"
    using SendPacingMsg_free [of ?st3 m] free y by auto
  moreover have "ToSend m st = SendPacingMsg m True ?st3" using now by (simp add: ToSend_def st1_def Let_def)
  moreover have "sends_one ?x st st'" using sends_load [OF load y(3) \<open>sends_one ?y ?st3 st'\<close>] .
  ultimately show ?thesis by metis
qed

text \<open>The first message of a window leaves at once.\<close>

lemma PushBack_fresh:
  assumes "has_flag (msg_GetFlag (\<sigma> m)) msg_with_out_id" and "m_socket (\<sigma> m) \<noteq> None"
  shows "\<exists>w'. sw_PushBack bg (Some m) \<sigma> (CSendWndImpl r init_send_wnd_size q a) =
    Some (\<sigma>(m := msg_SetId (fst (GetNextId (CIncrementalId r))) (\<sigma> m)), w', [CallToSend m])"
  using assms
  by (auto simp: sw_PushBack_def PushBackToSendWnd_def AddToEnd_def SendAndAck_def CSendWndImpl_def init_send_wnd_size_def
      msg_SetId_def Let_def split: prod.splits)

text \<open>The number the first message of a new window gets, and the message with it.\<close>

definition first_id :: "sk_state \<Rightarrow> u16" where
  "first_id st = fst (GetNextId (CIncrementalId (nt_random (snd st) (nt_random_pos (snd st)))))"

definition in_wnd :: "msg \<Rightarrow> bool" where
  "in_wnd x \<longleftrightarrow> has_flag (msg_GetHeaderFlag x) HTF_ORDERLY \<or> has_flag (msg_GetHeaderFlag x) HTF_RELIABLE \<or>
     has_flag (msg_GetHeaderFlag x) HTF_RELIABLE_ORDERLY"

definition first_msg :: "sk_state \<Rightarrow> msg \<Rightarrow> msg" where
  "first_msg st x = (if in_wnd x then msg_SetId (first_id st) x else x)"

lemma AddToSendWnd_fresh:
  assumes free: "line_free (fst st)" and x: "plain (the_msg m st)" and wnd: "sk_send_wnd (fst st) index = None"
    and flag: "has_flag (msg_GetFlag (the_msg m st)) msg_with_out_id" "\<not> has_flag (msg_GetFlag (the_msg m st)) msg_is_only_ack"
    and sock: "m_socket (the_msg m st) \<noteq> None"
  shows "\<exists>st' y. AddToSendWnd e index m st = Some st' \<and> datagram_of (msg_SetId (first_id st) (the_msg m st)) y \<and>
    nt_out (snd st') = nt_out (snd st) @ [CallNet (m_ip_port (the_msg m st)) (msg_bytes (m_head y) (m_body y))]"
proof -
  obtain r st1 where rand: "GetRandomInitialValue st = (r, st1)" by (rule prod.exhaust)
  then have st1: "fst st1 = fst st" "nt_store (snd st1) = nt_store (snd st)" "nt_out (snd st1) = nt_out (snd st)"
    and r: "fst (GetNextId (CIncrementalId r)) = first_id st"
    by (auto simp: GetRandomInitialValue_def first_id_def)
  let ?i = "first_id st"
  let ?x = "msg_SetId ?i (the_msg m st)"
  let ?\<sigma> = "(nt_store (snd st1))(m := msg_SetId ?i (nt_store (snd st1) m))"
  obtain w' where push: "sw_PushBack (env_begin e) (Some m) (nt_store (snd st1))
      (CSendWndImpl r init_send_wnd_size CPriorityQueueImpl (index = WI_ORDERLY)) = Some (?\<sigma>, w', [CallToSend m])"
    using PushBack_fresh [of "nt_store (snd st1)" m "env_begin e" r] flag(1) sock st1 r by (auto simp: the_msg_def)
  let ?st2 = "put_wnd index ?\<sigma> w' st1"
  have st2: "the_msg m ?st2 = ?x" "nt_out (snd ?st2) = nt_out (snd st)" "line_free (fst ?st2)"
    using st1 free by (simp_all add: put_wnd_def the_msg_def line_free_def)
  have "m_flag ?x AND NOT (ucast msg_with_out_id) = m_flag (the_msg m st) AND NOT (ucast msg_with_out_id)"
    by (simp add: msg_SetId_def and.assoc)
  from same_load_only_ack [OF this] flag(2) have only: "\<not> has_flag (msg_GetFlag (the_msg m ?st2)) msg_is_only_ack"
    by (simp add: st2(1))
  obtain st' where send: "ToSend m ?st2 = Some st'" "sends_one (the_msg m ?st2) ?st2 st'"
    using ToSend_free [OF st2(3), of m] plain_ops(1) [OF x] only st2(1) by auto
  have "AddToSendWnd e index m st = Some st'"
    using wnd rand push send(1) by (simp add: AddToSendWnd_def)
  moreover have "m_ip_port ?x = m_ip_port (the_msg m st)" by (simp add: msg_SetId_def)
  ultimately show ?thesis using send(2) st2(1,2) unfolding sends_one_def by auto
qed

lemma SendMessage_fresh:
  assumes free: "line_free (fst st)" and x: "plain (the_msg m st)" and wnd: "sk_send_wnd (fst st) = (\<lambda>_. None)"
    and flag: "has_flag (msg_GetFlag (the_msg m st)) msg_with_out_id" "\<not> has_flag (msg_GetFlag (the_msg m st)) msg_is_only_ack"
    and sock: "m_socket (the_msg m st) \<noteq> None" and body: "m_body (the_msg m st) \<noteq> []"
  shows "\<exists>st' y. SendMessage e m st = Some st' \<and> datagram_of (first_msg st (the_msg m st)) y \<and>
    nt_out (snd st') = nt_out (snd st) @ [CallNet (m_ip_port (the_msg m st)) (msg_bytes (m_head y) (m_body y))]"
proof -
  have wnd: "\<exists>st' y. AddToSendWnd e index m st = Some st' \<and> datagram_of (msg_SetId (first_id st) (the_msg m st)) y \<and>
      nt_out (snd st') = nt_out (snd st) @ [CallNet (m_ip_port (the_msg m st)) (msg_bytes (m_head y) (m_body y))]" for index
    using AddToSendWnd_fresh [OF free x _ flag sock] wnd by simp
  let ?st1 = "upd_msg m msg_ClearAck st"
  have load: "same_load (the_msg m st) (the_msg m ?st1)" using same_load_ops(1) by simp
  have "AddAckToMsg m st = (False, ?st1)" using free by (intro AddAckToMsg_none) (simp add: line_free_def)
  moreover have "m_body (the_msg m ?st1) \<noteq> []" using body load by (simp add: same_load_def)
  then obtain st' where send: "SendPacingMsg m True ?st1 = Some st'" "sends_one (the_msg m ?st1) ?st1 st'"
    using SendPacingMsg_free [of ?st1 m] free plain_ops(3) [OF x] flag(2) same_load_only_ack [OF same_load_flag [OF load]] by auto
  moreover have "sends_one (the_msg m st) st st'" using sends_load [OF load _ send(2)] by simp
  ultimately have "\<exists>st' y. SendPacingMsg m True (snd (AddAckToMsg m st)) = Some st' \<and> datagram_of (the_msg m st) y \<and>
      nt_out (snd st') = nt_out (snd st) @ [CallNet (m_ip_port (the_msg m st)) (msg_bytes (m_head y) (m_body y))]"
    unfolding sends_one_def by auto
  then show ?thesis using wnd by (simp add: SendMessage_def first_msg_def in_wnd_def Let_def)
qed

section \<open>A socket that has received nothing\<close>

lemma too_far_self: "\<not> too_far i i"
  by (auto simp: too_far_def max_compare_num_def max_id_def)

lemma new_list_insert:
  assumes "m_socket (\<sigma> m) \<noteq> None" and "index = WI_RELIABLE \<Longrightarrow> msg_GetId (\<sigma> m) \<noteq> 0"
  shows "\<exists>l'. recv_insert \<sigma> m (new_recv_list index (msg_GetId (\<sigma> m))) = Some (0, l', [m])"
proof (cases index)
  case WI_ORDERLY
  then show ?thesis
    using assms(1) too_far_self by (simp add: new_recv_list_def COrderlyList_def ol_Insert_def to_recv_def Let_def)
next
  case WI_RELIABLE
  then show ?thesis
    using assms by (simp add: new_recv_list_def CReliableList_def rl_Insert_def to_recv_def Let_def)
next
  case WI_RELIABLE_ORDERLY
  have "ro_drain (\<lambda>_. None) j i ms = (\<lambda>_. None, i, ms)" for i j :: u16 and ms :: "msg_ref list"
    by (subst ro_drain.simps) simp
  then have "ro_drain ((\<lambda>_. None)(j := Some m)) j i [] = (\<lambda>_. None, i + 1, [m])" for i j :: u16
    by (subst ro_drain.simps) (simp add: Let_def)
  then show ?thesis
    using WI_RELIABLE_ORDERLY assms(1) too_far_self
    by (simp add: new_recv_list_def CReliableOrderlyList_def ro_Insert_def to_recv_def Let_def)
qed

lemma own_msg_out: "own_msg f hf st = (m, st') \<Longrightarrow> nt_out (snd st') = nt_out (snd st)"
  by (auto simp: own_msg_def CreateSharedMsg_def Let_def split: prod.splits)

lemma AddPendAck_first:
  assumes "sk_pend_ack (fst st) = (\<lambda>_. None)"
  shows "\<exists>st'. AddPendAck m st = Some st' \<and> nt_out (snd st') = nt_out (snd st)"
proof -
  have "AddToPendAck index m st = Some ((fst st)\<lparr>sk_pend_ack := (sk_pend_ack (fst st))(index := Some
      (snd (AddAck_time (msg_GetId (the_msg m st)) (msg_GetSendTime (the_msg m st)) CPendAck)))\<rparr>, snd st)" for index
    using assms by (simp add: AddToPendAck_def msg_with_time_def AddAck_time_def CPendAck_def id_length_def time_length_def
        ack_length_limit_def mtu_def Let_def)
  then have "\<exists>k. (if has_flag (msg_GetHeaderFlag (the_msg m st)) HTF_RELIABLE_ORDERLY then AddToPendAck WI_RELIABLE_ORDERLY m st
      else if has_flag (msg_GetHeaderFlag (the_msg m st)) HTF_RELIABLE then AddToPendAck WI_RELIABLE m st
      else Some st) = Some (k, snd st)"
    by (cases st) auto
  then obtain k where k: "(if has_flag (msg_GetHeaderFlag (the_msg m st)) HTF_RELIABLE_ORDERLY then AddToPendAck WI_RELIABLE_ORDERLY m st
      else if has_flag (msg_GetHeaderFlag (the_msg m st)) HTF_RELIABLE then AddToPendAck WI_RELIABLE m st
      else Some st) = Some (k, snd st)" by blast
  obtain t st1 where own: "own_msg msg_is_only_ack 0 (k, snd st) = (t, st1)" by (rule prod.exhaust)
  show ?thesis
    using own_msg_out [OF own] own k
    by (cases "sk_is_in_timer k") (auto simp: AddPendAck_def Let_def sk_AddTimer_effect)
qed

lemma AddToRecvList_first:
  assumes "sk_recv_list (fst st) = (\<lambda>_. None)" and "sk_pend_ack (fst st) = (\<lambda>_. None)"
    and "m_socket (the_msg m st) \<noteq> None" and "m_body (the_msg m st) \<noteq> []"
    and "index = WI_RELIABLE \<Longrightarrow> msg_GetId (the_msg m st) \<noteq> 0"
  shows "\<exists>st'. AddToRecvList e index m st = Some st' \<and> nt_out (snd st') = nt_out (snd st) @
    [CallRecvFilter (sk_handle (fst st)) (ucast (msg_GetHeaderFlag (the_msg m st))) (m_body (the_msg m st))]"
proof -
  obtain l' where ins: "recv_insert (nt_store (snd st)) m (new_recv_list index (msg_GetId (the_msg m st))) = Some (0, l', [m])"
    using new_list_insert [of "nt_store (snd st)" m index] assms(3,5) by (auto simp: the_msg_def)
  let ?st1 = "ToRecv m ((fst st)\<lparr>sk_recv_list := (sk_recv_list (fst st))(index := Some l')\<rparr>, snd st)"
  have out: "nt_out (snd ?st1) = nt_out (snd st) @
      [CallRecvFilter (sk_handle (fst st)) (ucast (msg_GetHeaderFlag (the_msg m st))) (m_body (the_msg m st))]"
    and pend: "sk_pend_ack (fst ?st1) = (\<lambda>_. None)"
    using assms by (simp_all add: ToRecv_def call_def the_msg_def)
  have "AddToRecvList e index m st = (if index = WI_RELIABLE \<or> index = WI_RELIABLE_ORDERLY then AddPendAck m ?st1 else Some ?st1)"
    using ins assms(1) by (simp add: AddToRecvList_def)
  then show ?thesis using AddPendAck_first [OF pend, of m] out by (metis (no_types, lifting))
qed

lemma RecvMessage_first:
  assumes k: "sk_status (fst st) = SS_CLOSE" "sk_recv_list (fst st) = (\<lambda>_. None)" "sk_pend_ack (fst st) = (\<lambda>_. None)"
    and m: "m_socket (the_msg m st) \<noteq> None" "m_body (the_msg m st) \<noteq> []" "plain (the_msg m st)"
    and flags: "has_flag f HPF_WITH_BODY" "\<not> has_flag f HPF_RST" "\<not> has_flag f HPF_FIN" "\<not> has_flag f HPF_FIN_ACK"
      "msg_GetHeaderFlag (the_msg m st) = f"
    and id: "has_flag f HTF_RELIABLE \<Longrightarrow> msg_GetId (the_msg m st) \<noteq> 0"
  shows "\<exists>st'. RecvMessage e m st = Some st' \<and> nt_out (snd st') = nt_out (snd st) @
    [CallNewConnect (sk_handle (fst st)) HEC_SUCCESS, CallRecvFilter (sk_handle (fst st)) (ucast f) (m_body (the_msg m st))]"
proof -
  let ?st0 = "call (CallNewConnect (sk_handle (fst st)) HEC_SUCCESS) (StatusChange SS_READY st)"
  have st0: "the_msg m ?st0 = the_msg m st" "sk_status (fst ?st0) = SS_READY" "sk_handle (fst ?st0) = sk_handle (fst st)"
    "sk_recv_list (fst ?st0) = (\<lambda>_. None)" "sk_pend_ack (fst ?st0) = (\<lambda>_. None)"
    "nt_out (snd ?st0) = nt_out (snd st) @ [CallNewConnect (sk_handle (fst st)) HEC_SUCCESS]"
    using k by (simp_all add: StatusChange_def status_edge_def set_status_def call_def the_msg_def)
  have "f AND ack_flags = 0" using m(3) flags(5) by (simp add: plain_def msg_GetHeaderFlag_def)
  from plain_flags [OF this] have ack: "GetAckToSendWnd e m ?st0 = Some ?st0"
    by (simp add: GetAckToSendWnd_def ack_kind_def st0(1) flags(5))
  have first: "\<exists>st'. AddToRecvList e index m ?st0 = Some st' \<and> nt_out (snd st') = nt_out (snd ?st0) @
      [CallRecvFilter (sk_handle (fst st)) (ucast f) (m_body (the_msg m st))]"
    if "index = WI_RELIABLE \<Longrightarrow> has_flag f HTF_RELIABLE" for index
    using AddToRecvList_first [of ?st0 m index e] st0 m(1,2) flags(5) id that by auto
  have close: "CheckClose e f s = Some s" for s using flags by (simp add: CheckClose_def)
  have run: "RecvMessage e m st =
      do {
        (d, s) \<leftarrow>
          (if has_flag f HTF_RELIABLE_ORDERLY then map_option (Pair True) (AddToRecvList e WI_RELIABLE_ORDERLY m ?st0)
           else if has_flag f HTF_ORDERLY then map_option (Pair True) (AddToRecvList e WI_ORDERLY m ?st0)
           else if has_flag f HTF_RELIABLE then map_option (Pair True) (AddToRecvList e WI_RELIABLE m ?st0)
           else Some (False, ?st0));
        Some (if \<not> d \<and> has_flag f HPF_WITH_BODY
              then call (CallRecvFilter (sk_handle (fst s)) (ucast (msg_GetHeaderFlag (the_msg m s))) (m_body (the_msg m s))) s
              else s)
      }"
    using k(1) ack st0(1,2) flags(2,5) close by (simp add: RecvMessage_def)
  show ?thesis
  proof (cases "has_flag f HTF_RELIABLE_ORDERLY \<or> has_flag f HTF_ORDERLY \<or> has_flag f HTF_RELIABLE")
    case True
    then show ?thesis
      using run first [of WI_RELIABLE_ORDERLY] first [of WI_ORDERLY] first [of WI_RELIABLE] st0(6) by auto
  next
    case False
    then have "RecvMessage e m st = Some (call (CallRecvFilter (sk_handle (fst ?st0)) (ucast f) (m_body (the_msg m st))) ?st0)"
      using run flags(1,5) st0(1) by simp
    then show ?thesis using st0(3,6) by (simp add: call_def)
  qed
qed

end
