(* ===== verification/Socket_Close.thy ===== *)
theory Socket_Close
  imports Socket_Traffic
begin

text \<open>
  Closing a connection: the messages a socket makes for it and how both sides get to the end.
\<close>

section \<open>Messages of the socket's own\<close>

definition pool_ok :: "sk_state \<Rightarrow> bool" where
  "pool_ok st \<longleftrightarrow> (\<exists>used. pool_run used (nt_store (snd st), nt_pool (snd st)))"

text \<open>A message with head flags and no local flags but that of a message without number.\<close>

lemma own_msg_ctl:
  assumes own: "own_msg 0 hf st = (m, st1)" and pool: "pool_ok st" and hf: "hf AND ack_flags = 0"
  shows "fst st1 = fst st" "nt_out (snd st1) = nt_out (snd st)" "plain (the_msg m st1)"
    "m_socket (the_msg m st1) = Some (sk_handle (fst st))" "m_ip_port (the_msg m st1) = sk_handle (fst st)"
    "msg_GetHeaderFlag (the_msg m st1) = hf" "m_flag (the_msg m st1) = ucast msg_with_out_id"
    "\<forall>m'. m' \<noteq> m \<longrightarrow> the_msg m' st1 = the_msg m' st"
proof -
  obtain used where run: "pool_run used (nt_store (snd st), nt_pool (snd st))" using pool by (auto simp: pool_ok_def)
  obtain \<sigma> p where create: "CreateMsg (nt_store (snd st), nt_pool (snd st)) = (m, \<sigma>, p)"
    and st1: "st1 = (fst st, (snd st)\<lparr>nt_store := \<sigma>(m := msg_SetHandle (sk_handle (fst st)) (msg_SetSocket (sk_handle (fst st))
        (msg_SetFlag 0 (if hf = 0 then \<sigma> m else msg_SetHeaderFlag hf (\<sigma> m))))), nt_pool := p\<rparr>)"
    using own by (auto simp: own_msg_def CreateSharedMsg_def upd_msg_def Let_def split: prod.splits)
  note new = CreateMsg_inv [OF pool_run_inv [OF run] create]
  have blank: "blank (\<sigma> m)" using new(3) by simp
  show "fst st1 = fst st" "nt_out (snd st1) = nt_out (snd st)" by (simp_all add: st1)
  show "plain (the_msg m st1)"
    using blank_plain [OF blank] hf by (auto simp: st1 the_msg_def intro!: plain_ops)
  show "m_socket (the_msg m st1) = Some (sk_handle (fst st))" "m_ip_port (the_msg m st1) = sk_handle (fst st)"
    "msg_GetHeaderFlag (the_msg m st1) = hf" "m_flag (the_msg m st1) = ucast msg_with_out_id"
    using blank by (simp_all add: st1 the_msg_def msg_SetHandle_def msg_SetSocket_def msg_SetFlag_def msg_SetHeaderFlag_def
        SetFlag_def msg_GetHeaderFlag_def blank_def local_flag_defs)
  show "\<forall>m'. m' \<noteq> m \<longrightarrow> the_msg m' st1 = the_msg m' st"
    using new(4) by (simp add: st1 the_msg_def)
qed

lemma fresh_flag:
  assumes "m_flag x = ucast msg_with_out_id"
  shows "has_flag (msg_GetFlag x) msg_with_out_id" "\<not> has_flag (msg_GetFlag x) msg_is_only_ack"
  using assms by (simp_all add: msg_GetFlag_def has_flag_def local_flag_defs)

text \<open>The first FIN-ACK of a connection that has nothing to acknowledge goes out at once.\<close>

lemma SendFinAckMessage_first:
  assumes free: "line_free (fst st)" and pool: "pool_ok st" and wnd: "sk_send_wnd (fst st) WI_ORDERLY = None"
  shows "\<exists>st'. SendFinAckMessage e st = Some st'"
proof -
  let ?hf = "HTF_ORDERLY OR HPF_HIGHEST_PRI OR HPF_FIN_ACK"
  obtain m st1 where own: "own_msg 0 ?hf st = (m, st1)" by (rule prod.exhaust)
  have hf: "?hf AND ack_flags = 0" by (simp add: ack_flags_def head_flag_defs)
  note st1 = own_msg_ctl [OF own pool hf]
  have "has_flag (msg_GetHeaderFlag (the_msg m st1)) HTF_ORDERLY" by (simp add: st1(6) has_flag_def head_flag_defs)
  then have "SendFinAckMessage e st = AddToSendWnd e WI_ORDERLY m st1"
    using own by (simp add: SendFinAckMessage_def SendMessage_def)
  then show ?thesis
    using AddToSendWnd_fresh [of st1 m WI_ORDERLY e] free wnd st1(1,3,4) fresh_flag [OF st1(7)] by auto
qed

section \<open>Properties\<close>

text \<open>
  C15. Closing ends in TIME_WAIT: the side that has sent its FIN gets there by the FIN and the FIN-ACK
  of the other side in either order, without a call about the connection; from there no message
  leads anywhere else.
\<close>

theorem close_in_either_order:
  assumes "sk_status (fst st) = SS_FIN_WAIT_1"
    and "RecvMessage e1 m1 st = Some st1" and "RecvMessage e2 m2 st1 = Some st2"
    and "\<not> has_flag (msg_GetHeaderFlag (the_msg m1 st)) HPF_RST" and "\<not> has_flag (msg_GetHeaderFlag (the_msg m2 st1)) HPF_RST"
    and "has_flag (msg_GetHeaderFlag (the_msg m1 st)) HPF_FIN_ACK \<and> \<not> has_flag (msg_GetHeaderFlag (the_msg m1 st)) HPF_FIN \<and>
           has_flag (msg_GetHeaderFlag (the_msg m2 st1)) HPF_FIN \<or>
         has_flag (msg_GetHeaderFlag (the_msg m1 st)) HPF_FIN \<and>
           has_flag (msg_GetHeaderFlag (the_msg m2 st1)) HPF_FIN_ACK \<and> \<not> has_flag (msg_GetHeaderFlag (the_msg m2 st1)) HPF_FIN"
  shows "sk_status (fst st2) = SS_TIME_WAIT \<and> life_calls st2 = life_calls st \<and>
    (RecvMessage e3 m3 st2 = Some st3 \<longrightarrow> sk_status (fst st3) = SS_TIME_WAIT \<and> life_calls st3 = life_calls st2)"
  using RecvMessage_moves [OF assms(2)] RecvMessage_moves [OF assms(3)] assms(1,4-6) RecvMessage_moves [of e3 m3 st2 st3]
  by (auto simp: moves_def recv_status_def recv_life_def)

lemma RecvMessage_fin_ack:
  assumes "h_flag (m_head (nt_store n m)) = HPF_FIN_ACK" and "sk_status k = SS_FIN_WAIT_1"
  shows "RecvMessage e m (k, n) = Some (k\<lparr>sk_status := SS_FIN_WAIT_2\<rparr>, n)"
  using assms
  by (simp add: RecvMessage_def GetAckToSendWnd_def ack_kind_def CheckClose_def StatusChange_def status_edge_def
      set_status_def the_msg_def msg_GetHeaderFlag_def has_flag_def head_flag_defs Let_def)

lemma RecvMessage_fin:
  assumes f: "h_flag (m_head (nt_store n m)) = HPF_FIN" and k: "sk_status k = SS_FIN_WAIT_2"
    and free: "line_free k" and pool: "pool_ok (k, n)" and wnd: "sk_send_wnd k WI_ORDERLY = None"
  shows "\<exists>st'. RecvMessage e m (k, n) = Some st'"
proof -
  obtain st' where "SendFinAckMessage e (k, n) = Some st'"
    using SendFinAckMessage_first [of "(k, n)" e] free pool wnd by auto
  moreover from calm_SendFinAckMessage [OF this] have "sk_status (fst st') = SS_FIN_WAIT_2"
    using k by (simp add: calm_def)
  ultimately show ?thesis
    using f k by (simp add: RecvMessage_def GetAckToSendWnd_def ack_kind_def CheckClose_def the_msg_def
        msg_GetHeaderFlag_def has_flag_def head_flag_defs Let_def)
qed

definition closing_net :: net where
  "closing_net = (sample_net (msg_SetHeaderFlag HPF_FIN CMsgImpl))\<lparr>nt_pool := CMsgPoolFactory,
     nt_store := (\<lambda>_. CMsgImpl)(7 := msg_SetHeaderFlag HPF_FIN CMsgImpl, 6 := msg_SetHeaderFlag HPF_FIN_ACK CMsgImpl)\<rparr>"

theorem close_in_either_order_witness:
  "\<exists>st1 st2. RecvMessage sample_env 6 (sample_sock\<lparr>sk_status := SS_FIN_WAIT_1\<rparr>, closing_net) = Some st1 \<and>
     RecvMessage sample_env 7 st1 = Some st2 \<and> sk_status (fst st2) = SS_TIME_WAIT"
proof -
  let ?k = "sample_sock\<lparr>sk_status := SS_FIN_WAIT_1\<rparr>"
  have flags: "h_flag (m_head (nt_store closing_net 6)) = HPF_FIN_ACK" "h_flag (m_head (nt_store closing_net 7)) = HPF_FIN"
    by (simp_all add: closing_net_def msg_SetHeaderFlag_def SetFlag_def CMsgImpl_def Head_def)
  have recv1: "RecvMessage sample_env 6 (?k, closing_net) = Some (?k\<lparr>sk_status := SS_FIN_WAIT_2\<rparr>, closing_net)"
    using flags(1) by (intro RecvMessage_fin_ack) simp_all
  have "pool_ok (?k\<lparr>sk_status := SS_FIN_WAIT_2\<rparr>, closing_net)"
    using pool_start by (auto simp: pool_ok_def closing_net_def)
  moreover have "line_free sample_sock" unfolding sample_sock_def
    by (simp add: line_free_def CSocketImpl_def CFlowQueue_def fq_content_def CPacing_def)
  then have "line_free (?k\<lparr>sk_status := SS_FIN_WAIT_2\<rparr>)" by (simp add: line_free_def)
  ultimately obtain st2 where recv2: "RecvMessage sample_env 7 (?k\<lparr>sk_status := SS_FIN_WAIT_2\<rparr>, closing_net) = Some st2"
    using RecvMessage_fin flags(2) by (fastforce simp: sample_sock_simps)
  have "sk_status (fst st2) = SS_TIME_WAIT"
    using close_in_either_order [OF _ recv1 recv2, of sample_env 7] flags
    by (simp add: the_msg_def msg_GetHeaderFlag_def has_flag_def head_flag_defs)
  then show ?thesis using recv1 recv2 by blast
qed

text \<open>
  C34. A FIN can get lost before it is sent: if the reliable-orderly window is full when the connection
  is closed, the FIN goes to the priority queue, which drops it because its local flags name no
  class. The application is told that the connection is closed, the status is FIN_WAIT_1 (or
  LAST_ACK), but nothing is sent, nothing waits and nothing is in flight for it.
\<close>

theorem fin_lost:
  assumes "pool_ok st" and "sk_status (fst st) = SS_READY"
    and "sk_send_wnd (fst st) WI_RELIABLE_ORDERLY = Some w" and "sw_send_wnd_size w \<le> sw_cur_send_size w"
  shows "\<exists>st'. SendFinMessage e st = Some st' \<and> sk_status (fst st') = SS_FIN_WAIT_1 \<and>
    sk_send_wnd (fst st') = sk_send_wnd (fst st) \<and> sk_flow_queue (fst st') = sk_flow_queue (fst st) \<and>
    nt_timer (snd st') = nt_timer (snd st) \<and> nt_pacing_timer (snd st') = nt_pacing_timer (snd st) \<and>
    nt_out (snd st') = nt_out (snd st) @ [CallNewConnect (sk_handle (fst st)) HEC_CLOSED]"
proof -
  let ?hf = "HTF_RELIABLE_ORDERLY OR HPF_LOW_PRI OR HPF_FIN"
  obtain m st1 where own: "own_msg 0 ?hf st = (m, st1)" by (rule prod.exhaust)
  have hf: "?hf AND ack_flags = 0" by (simp add: ack_flags_def head_flag_defs)
  note st1 = own_msg_ctl [OF own assms(1) hf]
  have timers: "nt_timer (snd st1) = nt_timer (snd st)" "nt_pacing_timer (snd st1) = nt_pacing_timer (snd st)"
    using own by (auto simp: own_msg_def CreateSharedMsg_def upd_msg_def Let_def split: prod.splits)
  define st2 where "st2 = set_status SS_FIN_WAIT_1 (call (CallNewConnect (sk_handle (fst st1)) HEC_CLOSED) st1)"
  have run: "SendFinMessage e st = SendMessage e m st2"
    using own assms(2) st1(1) by (simp add: SendFinMessage_def send_all_msg_when_close_def StatusChange_def status_edge_def
        call_def st2_def)
  have m: "the_msg m st2 = the_msg m st1" by (simp add: st2_def set_status_def call_def the_msg_def)
  have kind: "\<not> has_flag ?hf HTF_ORDERLY" "\<not> has_flag ?hf HTF_RELIABLE" "has_flag ?hf HTF_RELIABLE_ORDERLY"
    by (simp_all add: has_flag_def head_flag_defs)
  have drop: "pq_PushBack (nt_store (snd st2)) m q = q" for q
    using m st1(7) by (simp add: pq_PushBack_def the_msg_def msg_GetFlag_def has_flag_def head_flag_defs local_flag_defs)
  have "sw_PushBack (env_begin e) (Some m) (nt_store (snd st2)) w = Some (nt_store (snd st2), w, [])"
    using drop assms(4) m fresh_flag(1) [OF st1(7)] by (simp add: sw_PushBack_def the_msg_def)
  then have "SendMessage e m st2 = Some (put_wnd WI_RELIABLE_ORDERLY (nt_store (snd st2)) w st2)"
    using kind m st1(1,6) assms(3)
    by (simp add: SendMessage_def AddToSendWnd_def st2_def set_status_def call_def)
  then show ?thesis
    using run st1(1,2) timers assms(3) by (simp add: put_wnd_def st2_def set_status_def call_def fun_upd_idem)
qed

definition full_wnd :: send_wnd where
  "full_wnd = (CSendWndImpl 0 init_send_wnd_size CPriorityQueueImpl False)\<lparr>sw_cur_send_size := init_send_wnd_size\<rparr>"

theorem fin_lost_witness:
  "\<exists>st'. SendFinMessage sample_env
       (sample_sock\<lparr>sk_status := SS_READY, sk_send_wnd := (\<lambda>_. None)(WI_RELIABLE_ORDERLY := Some full_wnd)\<rparr>, closing_net) = Some st' \<and>
     sk_status (fst st') = SS_FIN_WAIT_1 \<and> nt_out (snd st') = [CallNewConnect ''10.0.0.1:9'' HEC_CLOSED]"
proof -
  let ?st = "(sample_sock\<lparr>sk_status := SS_READY, sk_send_wnd := (\<lambda>_. None)(WI_RELIABLE_ORDERLY := Some full_wnd)\<rparr>, closing_net)"
  have "pool_ok ?st" using pool_start by (auto simp: pool_ok_def closing_net_def)
  moreover have "nt_out closing_net = []" by (simp add: closing_net_def sample_net_def)
  ultimately show ?thesis
    using fin_lost [of ?st full_wnd sample_env] by (auto simp: sample_sock_simps full_wnd_def CSendWndImpl_def)
qed

end
