(* ===== verification/Socket_Control.thy ===== *)
theory Socket_Control
  imports Socket_Traffic
begin

text \<open>
  Acknowledgements, the controller and the send windows together: what a message with
  acknowledgements does to the size of the window it is for.
\<close>

section \<open>Operations that leave the windows and the controller alone\<close>

definition steady :: "sk_state \<Rightarrow> sk_state \<Rightarrow> bool" where
  "steady st st' \<longleftrightarrow> sk_send_wnd (fst st') = sk_send_wnd (fst st) \<and>
     sk_bbr_controller (fst st') = sk_bbr_controller (fst st)"

lemma steady_refl [simp]: "steady st st"
  by (simp add: steady_def)

lemma steady_trans: "steady st st1 \<Longrightarrow> steady st1 st2 \<Longrightarrow> steady st st2"
  by (simp add: steady_def)

lemma steady_same: "fst st' = fst st \<Longrightarrow> steady st st'"
  by (simp add: steady_def)

lemma steady_basic:
  "steady st (upd_msg m f st)" "steady st (call c st)" "steady st (sk_AddTimer ms m st)" "steady st (sk_RemoveTimer m st)"
  "sk_now st = (now, st') \<Longrightarrow> steady st st'" "SendMessageToNet m st = Some st' \<Longrightarrow> steady st st'"
  "set_rtt r st = Some st' \<Longrightarrow> steady st st'"
  by (auto simp: steady_def upd_msg_def call_def sk_AddTimer_def sk_RemoveTimer_def sk_now_def SendMessageToNet_def
      set_rtt_def split: prod.splits option.splits)

lemma steady_add_pend_ack: "add_pend_ack index f m st = (r, st') \<Longrightarrow> steady st st'"
  by (auto simp: add_pend_ack_def steady_def upd_msg_def split: option.splits if_splits prod.splits)

lemma steady_AddAckToMsg: "steady st (snd (AddAckToMsg m st))"
  by (auto simp: AddAckToMsg_def Let_def split: prod.splits
      dest!: steady_add_pend_ack intro: steady_trans steady_basic(1))

lemma steady_PacingCallBack: "PacingCallBack m st = Some st' \<Longrightarrow> steady st st'"
  by (auto simp: PacingCallBack_def Let_def steady_def split: if_splits dest!: steady_basic(6))

lemma steady_pacing_send: "pacing_send m st = Some st' \<Longrightarrow> steady st st'"
  by (auto simp: pacing_send_def Let_def steady_def split: prod.splits if_splits pacing_call.splits
      dest!: steady_basic(5,6) steady_PacingCallBack)

lemma steady_SendPacingMsg: "SendPacingMsg m add st = Some st' \<Longrightarrow> steady st st'"
  by (auto simp: SendPacingMsg_def Let_def steady_def upd_msg_def split: prod.splits if_splits option.splits
      dest!: steady_basic(5,6) steady_pacing_send)

lemma steady_ToSend:
  assumes "ToSend m st = Some st'" shows "steady st st'"
proof -
  let ?st1 = "if has_flag (msg_GetHeaderFlag (the_msg m st)) HTF_RELIABLE_ORDERLY \<or>
      has_flag (msg_GetHeaderFlag (the_msg m st)) HTF_RELIABLE
      then sk_AddTimer (ucast (msg_GetReSendTime (GetRto (sk_rto (fst st))) (the_msg m st))) m st else st"
  obtain now st2 where now: "sk_now ?st1 = (now, st2)" by (rule prod.exhaust)
  have "steady st ?st1" by (simp add: steady_basic)
  moreover note steady_basic(5) [OF now]
  moreover have "steady st2 (upd_msg m (msg_SetSendTime now) st2)" by (rule steady_basic)
  moreover have "SendPacingMsg m True (snd (AddAckToMsg m (upd_msg m (msg_SetSendTime now) st2))) = Some st'"
    using assms now by (simp add: ToSend_def Let_def)
  note steady_SendPacingMsg [OF this]
  ultimately show ?thesis using steady_AddAckToMsg by (meson steady_trans)
qed

lemma steady_AckDone: "steady st (AckDone m st)"
  by (simp add: AckDone_def Let_def steady_def sk_RemoveTimer_def call_def split: prod.splits)

lemma steady_run_calls: "run_calls cs st = Some st' \<Longrightarrow> steady st st'"
  by (induction cs st rule: run_calls.induct)
    (auto simp: bind_eq_Some_conv intro: steady_trans steady_ToSend steady_AckDone)

section \<open>The loop over the acknowledged numbers leaves the controller alone\<close>

lemma sk_AcceptAck_bbr:
  "sk_AcceptAck e index i st = Some st' \<Longrightarrow> sk_bbr_controller (fst st') = sk_bbr_controller (fst st)"
  by (auto simp: sk_AcceptAck_def bind_eq_Some_conv put_wnd_def steady_def split: option.splits dest!: steady_run_calls)

lemma ack_loop_bbr:
  "ack_loop e index outer ids ts rtt st = Some (rtt', st') \<Longrightarrow> sk_bbr_controller (fst st') = sk_bbr_controller (fst st)"
proof (induction e index outer ids ts rtt st arbitrary: rtt' st' rule: ack_loop.induct)
  case (2 e index outer i ids ts rtt st)
  have yes: msg_with_time by (simp add: msg_with_time_def)
  obtain st1 where acc: "sk_AcceptAck e index i st = Some st1"
    using "2.prems" by (auto simp: bind_eq_Some_conv)
  obtain t ts' where ts: "ts = t # ts'" using "2.prems" acc yes by (cases ts) auto
  obtain r st2 where rtt: "GetRtt t st1 = (r, st2)" by (rule prod.exhaust)
  obtain st3 where set: "set_rtt r st2 = Some st3" and
    rest: "ack_loop e index outer ids ts' (if outer then r else rtt) st3 = Some (rtt', st')"
    using "2.prems" acc yes ts rtt by (auto simp: bind_eq_Some_conv)
  from "2.IH"(1) [OF acc yes ts rtt [symmetric] refl set rest] sk_AcceptAck_bbr [OF acc] steady_basic(7) [OF set] rtt
  show ?case by (auto simp: steady_def GetRtt_def Let_def split: prod.splits dest!: steady_basic(5))
qed auto

section \<open>The controller sets the window\<close>

lemma PushBackToSendWnd_limit:
  "PushBackToSendWnd bg msg \<sigma> w = Some (\<sigma>', w', calls) \<Longrightarrow> sw_send_wnd_size w' = sw_send_wnd_size w"
  by (auto simp: PushBackToSendWnd_def AddToEnd_def SendAndAck_def Let_def split: prod.splits option.splits if_splits)

lemma SendNext_limit: "SendNext bg \<sigma> w = Some (\<sigma>', w', calls) \<Longrightarrow> sw_send_wnd_size w' = sw_send_wnd_size w"
  by (rule SendNext_keeps [where P = "\<lambda>\<sigma>1 w1. sw_send_wnd_size w1 = sw_send_wnd_size w"])
    (auto dest: PushBackToSendWnd_limit)

lemma ChangeSendWndSize_limit:
  "ChangeSendWndSize bg sz \<sigma> w = Some (\<sigma>', w', calls) \<Longrightarrow> GetWndSize w' = sz"
  by (auto simp: ChangeSendWndSize_def GetWndSize_def SendAndAck_def split: if_splits option.splits dest!: SendNext_limit)

definition window_for :: "u32 \<Rightarrow> u16" where
  "window_for acked = ucast (max 4 (min acked 65535))"

definition wnd_set :: "wnd_index \<Rightarrow> u16 \<Rightarrow> sk_state \<Rightarrow> bool" where
  "wnd_set index n st \<longleftrightarrow> (\<exists>w. sk_send_wnd (fst st) index = Some w \<and> GetWndSize w = n)"

lemma steady_wnd_set: "steady st st' \<Longrightarrow> wnd_set index n st' = wnd_set index n st"
  by (simp add: steady_def wnd_set_def)

lemma ControllerProcess_wnd:
  assumes idle: "bbr_idle (sk_bbr_controller (fst st))"
    and run: "ControllerProcess e index rtt acked 0 st = Some st'"
  shows "acked \<noteq> 0 \<Longrightarrow> wnd_set index (window_for acked) st'" "bbr_idle (sk_bbr_controller (fst st'))"
    "index' \<noteq> index \<Longrightarrow> wnd_set index' n st' = wnd_set index' n st"
proof -
  obtain now st1 where now: "sk_now st = (now, st1)" by (rule prod.exhaust)
  let ?rate = "GetPacingRate (sk_pacing (fst st1))"
  obtain wnd rate b where bbr: "bbr_main now (sk_in_flight (fst st1)) rtt acked now 0 (sk_lost_msg (fst st1)) False 0
      ?rate (sk_bbr_controller (fst st1)) = (wnd, rate, b)" by (rule prod_cases3)
  let ?i = "\<lparr>bi_now = now, bi_inflight = sk_in_flight (fst st1), bi_rtt = rtt, bi_acked = acked, bi_delivered_mstamp = now,
     bi_delivered = 0, bi_lost = sk_lost_msg (fst st1), bi_app_limit = False, bi_send_wnd = 0, bi_pacing_rate = ?rate\<rparr>"
  have "bbr_idle (sk_bbr_controller (fst st1))" using idle steady_basic(5) [OF now] by (simp add: steady_def)
  then have wnd: "acked \<noteq> 0 \<Longrightarrow> wnd = max 4 (min acked 65535)" "bbr_idle b"
    using bbr_idle_step [of _ ?i wnd rate b] bbr by (simp_all add: bbr_step_def)
  obtain w \<sigma> w' calls st2 where size: "ChangeSendWndSize (env_begin e) (ucast wnd) (nt_store (snd st1)) w = Some (\<sigma>, w', calls)"
    and calls: "run_calls calls (put_wnd index \<sigma> w' ((fst st1)\<lparr>sk_bbr_controller := b, sk_lost_msg := 0\<rparr>, snd st1)) = Some st2"
    and st': "st' = ((fst st2)\<lparr>sk_pacing := SetPacingRate rate (sk_pacing (fst st2))\<rparr>, snd st2)"
    using run now bbr by (auto simp: ControllerProcess_def Let_def bind_eq_Some_conv split: option.splits prod.splits)
  show "acked \<noteq> 0 \<Longrightarrow> wnd_set index (window_for acked) st'" "bbr_idle (sk_bbr_controller (fst st'))"
    "index' \<noteq> index \<Longrightarrow> wnd_set index' n st' = wnd_set index' n st"
    using steady_run_calls [OF calls] steady_basic(5) [OF now] ChangeSendWndSize_limit [OF size] wnd
    by (simp_all add: st' steady_def put_wnd_def wnd_set_def window_for_def)
qed

lemma ack_loop_wnd:
  "ack_loop e index outer ids ts rtt st = Some (rtt', st') \<Longrightarrow> index' \<noteq> index \<Longrightarrow> wnd_set index' n st' = wnd_set index' n st"
proof (induction e index outer ids ts rtt st arbitrary: rtt' st' rule: ack_loop.induct)
  case (2 e index outer i ids ts rtt st)
  have yes: msg_with_time by (simp add: msg_with_time_def)
  obtain st1 where acc: "sk_AcceptAck e index i st = Some st1"
    using "2.prems" by (auto simp: bind_eq_Some_conv)
  have "wnd_set index' n st1 = wnd_set index' n st"
    using acc "2.prems"(2) by (auto simp: sk_AcceptAck_def bind_eq_Some_conv put_wnd_def steady_def wnd_set_def
        split: option.splits dest!: steady_run_calls)
  moreover obtain t ts' where ts: "ts = t # ts'" using "2.prems" acc yes by (cases ts) auto
  moreover obtain r st2 where rtt: "GetRtt t st1 = (r, st2)" by (rule prod.exhaust)
  moreover obtain st3 where set: "set_rtt r st2 = Some st3" and
    rest: "ack_loop e index outer ids ts' (if outer then r else rtt) st3 = Some (rtt', st')"
    using "2.prems" acc yes ts rtt by (auto simp: bind_eq_Some_conv)
  moreover have "steady st1 st2" using rtt by (auto simp: GetRtt_def Let_def split: prod.splits dest: steady_basic(5))
  ultimately show ?case
    using "2.IH"(1) [OF acc yes ts rtt [symmetric] refl set rest "2.prems"(2)] steady_basic(7) [OF set]
    by (simp add: steady_wnd_set)
qed auto

lemma ack_kind_wnd:
  assumes idle: "bbr_idle (sk_bbr_controller (fst st))"
    and run: "ack_kind e m flag index outer rtt st = Some (rtt', st')"
  shows "bbr_idle (sk_bbr_controller (fst st'))" "index' \<noteq> index \<Longrightarrow> wnd_set index' n st' = wnd_set index' n st"
    "has_flag (msg_GetHeaderFlag (the_msg m st)) flag \<Longrightarrow> msg_GetAck flag [] [] (the_msg m st) = (vec, tvec) \<Longrightarrow>
      of_nat (length vec) \<noteq> (0 :: u32) \<Longrightarrow> wnd_set index (window_for (of_nat (length vec))) st'"
proof -
  have "bbr_idle (sk_bbr_controller (fst st')) \<and> (index' \<noteq> index \<longrightarrow> wnd_set index' n st' = wnd_set index' n st) \<and>
    (has_flag (msg_GetHeaderFlag (the_msg m st)) flag \<longrightarrow> msg_GetAck flag [] [] (the_msg m st) = (vec, tvec) \<longrightarrow>
      of_nat (length vec) \<noteq> (0 :: u32) \<longrightarrow> wnd_set index (window_for (of_nat (length vec))) st')"
  proof (cases "has_flag (msg_GetHeaderFlag (the_msg m st)) flag")
    case False
    then show ?thesis using run idle by (simp add: ack_kind_def)
  next
    case True
    obtain v tv where get: "msg_GetAck flag [] [] (the_msg m st) = (v, tv)" by (rule prod.exhaust)
    obtain rtt1 st1 where loop: "ack_loop e index outer v tv rtt st = Some (rtt1, st1)"
      and ctl: "ControllerProcess e index (ucast rtt1) (of_nat (length v)) 0 st1 = Some st'"
      using run True get by (auto simp: ack_kind_def bind_eq_Some_conv msg_with_time_def)
    have "bbr_idle (sk_bbr_controller (fst st1))" using idle ack_loop_bbr [OF loop] by simp
    from ControllerProcess_wnd [OF this ctl] ack_loop_wnd [OF loop] get show ?thesis by auto
  qed
  then show "bbr_idle (sk_bbr_controller (fst st'))" "index' \<noteq> index \<Longrightarrow> wnd_set index' n st' = wnd_set index' n st"
    "has_flag (msg_GetHeaderFlag (the_msg m st)) flag \<Longrightarrow> msg_GetAck flag [] [] (the_msg m st) = (vec, tvec) \<Longrightarrow>
      of_nat (length vec) \<noteq> (0 :: u32) \<Longrightarrow> wnd_set index (window_for (of_nat (length vec))) st'"
    by blast+
qed

section \<open>Properties\<close>

text \<open>
  C16. The window after acknowledgements: as long as the controller is in STARTUP and has never measured
  a bandwidth, and its members that the constructor leaves open do not claim a long-term rate
  (\<open>bbr_idle\<close>), a message that acknowledges n messages of the reliable-orderly kind, fewer than 65536,
  sets the size of that window to n, but at least 4, whatever the size was before, how many messages
  are in flight, lost or waiting, what the round-trip times are and what else the message
  acknowledges. The controller stays in such a state.
\<close>

theorem ack_sets_window:
  assumes "bbr_idle (sk_bbr_controller (fst st))"
    and "has_flag (msg_GetHeaderFlag (the_msg m st)) HPF_WITH_RELIABLE_ORDERLY_ACK"
    and "msg_GetAck HPF_WITH_RELIABLE_ORDERLY_ACK [] [] (the_msg m st) = (vec, tvec)"
    and "vec \<noteq> []" and "length vec < 65536"
    and "GetAckToSendWnd e m st = Some st'"
  shows "\<exists>w. sk_send_wnd (fst st') WI_RELIABLE_ORDERLY = Some w \<and>
    unat (GetWndSize w) = max 4 (length vec) \<and> bbr_idle (sk_bbr_controller (fst st'))"
proof -
  have n: "unat (of_nat (length vec) :: u32) = length vec"
    using assms(5) by (simp add: unat_of_nat)
  then have nz: "of_nat (length vec) \<noteq> (0 :: u32)" using assms(4) by (metis length_0_conv unat_0)
  obtain rtt rtt2 st1 where kind: "ack_kind e m HPF_WITH_RELIABLE_ORDERLY_ACK WI_RELIABLE_ORDERLY True 0 st = Some (rtt, st1)"
    and rest: "ack_kind e m HPF_WITH_RELIABLE_ACK WI_RELIABLE False rtt st1 = Some (rtt2, st')"
    using assms(6) by (auto simp: GetAckToSendWnd_def bind_eq_Some_conv)
  have set: "wnd_set WI_RELIABLE_ORDERLY (window_for (of_nat (length vec))) st'" "bbr_idle (sk_bbr_controller (fst st'))"
    using ack_kind_wnd(1,3) [OF assms(1) kind] ack_kind_wnd(1,2) [OF _ rest] assms(2,3) nz by auto
  have "unat (max 4 (min (of_nat (length vec)) 65535) :: u32) = max 4 (length vec)"
    using n assms(5) by (auto simp: max_def min_def word_le_nat_alt)
  then have "unat (window_for (of_nat (length vec))) = max 4 (length vec)"
    using assms(5) by (simp add: window_for_def unsigned_ucast_eq take_bit_nat_eq_self)
  then show ?thesis using set by (auto simp: wnd_set_def)
qed

definition empty_wnd :: send_wnd where
  "empty_wnd = CSendWndImpl 100 init_send_wnd_size CPriorityQueueImpl False"

definition acked_sock :: sock where
  "acked_sock = sample_sock\<lparr>sk_send_wnd := (\<lambda>_. None)(WI_RELIABLE_ORDERLY := Some empty_wnd)\<rparr>"

lemma ChangeSendWndSize_empty: "\<exists>w'. ChangeSendWndSize bg sz \<sigma> empty_wnd = Some (\<sigma>, w', [])"
proof -
  have pop: "pq_Pop CPriorityQueueImpl = (None, CPriorityQueueImpl)"
    by (simp add: pq_Pop_def pop_upper_def CPriorityQueueImpl_def Let_def)
  have "SendNext bg \<sigma> (empty_wnd\<lparr>sw_send_wnd_size := sz\<rparr>) = Some (\<sigma>, empty_wnd\<lparr>sw_send_wnd_size := sz\<rparr>, [])"
    using pop by (simp add: SendNext.simps [of bg \<sigma>] empty_wnd_def CSendWndImpl_def)
  then show ?thesis by (simp add: ChangeSendWndSize_def SendAndAck_def empty_wnd_def CSendWndImpl_def)
qed

lemma SetRttTime_sample:
  "\<exists>r. SetRttTime (- 989) CRtoImpl = Some r \<and> rto_srtt r = 4294966307"
  "rto_srtt r = 4294966307 \<Longrightarrow> t \<in> {- 988, - 987} \<Longrightarrow>
    \<exists>r'. SetRttTime t r = Some r' \<and> rto_srtt r' = 4294966307"
  by (auto simp: SetRttTime_def CRtoImpl_def rto_G_def int_abs_def Let_def word_sless_alt)

text \<open>A turn of the loop for a number that is not in flight.\<close>

definition acked_state :: "u32 \<Rightarrow> sk_state \<Rightarrow> bool" where
  "acked_state srtt st \<longleftrightarrow> sk_send_wnd (fst st) WI_RELIABLE_ORDERLY = Some empty_wnd \<and> rto_srtt (sk_rto (fst st)) = srtt \<and>
     (srtt = 0 \<longrightarrow> sk_rto (fst st) = CRtoImpl) \<and> fst (GetCurTimeStamp (nt_clock (snd st)) (nt_time_stamp (snd st))) = 1000 \<and>
     nt_store (snd st) 7 = sample_msg"

lemma ack_turn:
  assumes st: "acked_state srtt st" and t: "srtt = 0 \<and> t = 11 \<or> srtt = 4294966307 \<and> (t = 12 \<or> t = 13)"
  shows "\<exists>st' r. ack_loop e WI_RELIABLE_ORDERLY True (i # ids) (t # ts) rtt st =
    ack_loop e WI_RELIABLE_ORDERLY True ids ts r st' \<and> acked_state 4294966307 st'"
proof -
  obtain k n where kn: "st = (k, n)" by (rule prod.exhaust)
  have acc: "sk_AcceptAck e WI_RELIABLE_ORDERLY i st = Some st"
    using st by (simp add: kn acked_state_def sk_AcceptAck_def AcceptAck_def empty_wnd_def CSendWndImpl_def put_wnd_def fun_upd_idem)
  obtain tool where now: "sk_now st = (1000, k, n\<lparr>nt_time_stamp := tool\<rparr>)"
    and tool: "fst (GetCurTimeStamp (nt_clock n) tool) = 1000"
    using st by (cases "nt_time_stamp n") (auto simp: kn acked_state_def sk_now_def GetCurTimeStamp_def Let_def)
  obtain r where r: "SetRttTime (t - 1000) (sk_rto k) = Some r" "rto_srtt r = 4294966307"
    using t st SetRttTime_sample(1) SetRttTime_sample(2) [of "sk_rto k" "t - 1000"] by (auto simp: kn acked_state_def)
  have "acked_state 4294966307 (k\<lparr>sk_rto := r\<rparr>, n\<lparr>nt_time_stamp := tool\<rparr>)"
    using st tool r(2) by (simp add: kn acked_state_def)
  moreover have "ack_loop e WI_RELIABLE_ORDERLY True (i # ids) (t # ts) rtt st =
      ack_loop e WI_RELIABLE_ORDERLY True ids ts (t - 1000) (k\<lparr>sk_rto := r\<rparr>, n\<lparr>nt_time_stamp := tool\<rparr>)"
    using acc now r(1) by (simp add: msg_with_time_def GetRtt_def set_rtt_def Let_def)
  ultimately show ?thesis by blast
qed

lemma ControllerProcess_sample:
  assumes "acked_state srtt st"
  shows "\<exists>st'. ControllerProcess e WI_RELIABLE_ORDERLY rtt n 0 st = Some st' \<and> the_msg 7 st' = sample_msg"
proof -
  obtain now st1 where now: "sk_now st = (now, st1)" by (rule prod.exhaust)
  obtain wnd rate b where "bbr_main now (sk_in_flight (fst st1)) rtt n now 0 (sk_lost_msg (fst st1)) False 0
      (GetPacingRate (sk_pacing (fst st1))) (sk_bbr_controller (fst st1)) = (wnd, rate, b)" by (rule prod_cases3)
  moreover have "sk_send_wnd (fst st1) WI_RELIABLE_ORDERLY = Some empty_wnd"
    using assms steady_basic(5) [OF now] by (simp add: acked_state_def steady_def)
  moreover obtain w' where "ChangeSendWndSize (env_begin e) (ucast wnd) (nt_store (snd st1)) empty_wnd = Some (nt_store (snd st1), w', [])"
    using ChangeSendWndSize_empty by blast
  moreover have "nt_store (snd st1) 7 = sample_msg"
    using assms sk_now_effect(2) [OF now] by (simp add: acked_state_def)
  ultimately show ?thesis using now by (simp add: ControllerProcess_def put_wnd_def the_msg_def)
qed

theorem ack_sets_window_witness:
  "\<exists>st' w. GetAckToSendWnd sample_env 7 (acked_sock, sample_net sample_msg) = Some st' \<and>
     sk_send_wnd (fst st') WI_RELIABLE_ORDERLY = Some w \<and> GetWndSize w = 4"
proof -
  let ?st = "(acked_sock, sample_net sample_msg)" and ?e = sample_env
  have m: "the_msg 7 ?st = sample_msg" by (simp add: the_msg_def sample_net_simps)
  have flags: "has_flag (msg_GetHeaderFlag sample_msg) HPF_WITH_RELIABLE_ORDERLY_ACK"
    "\<not> has_flag (msg_GetHeaderFlag sample_msg) HPF_WITH_RELIABLE_ACK"
    by (simp_all add: msg_GetHeaderFlag_def sample_msg_head has_flag_def head_flag_defs)
  have get: "msg_GetAck HPF_WITH_RELIABLE_ORDERLY_ACK [] [] sample_msg = ([7, 8, 65535], [11, 12, 13])"
    by (simp add: msg_GetAck_def sample_msg_head head_op_defs has_flag_def head_flag_defs assign_vec_def)
  have "bbr_idle sample_bbr"
    unfolding sample_bbr_def by (rule CBbr_idle) (simp_all add: sample_memory_def bbr_lt_intvl_min_rtts_def)
  then have idle: "bbr_idle (sk_bbr_controller (fst ?st))"
    unfolding acked_sock_def sample_sock_def CSocketImpl_def
    by (simp add: bbr_idle_def [of sample_bbr] CBbr_idle)
  have "acked_state 0 ?st"
    by (simp add: acked_state_def acked_sock_def sample_sock_def CSocketImpl_def CRtoImpl_def sample_net_def GetCurTimeStamp_def
        CTimeTool_def GetMsec_def tt_Now_def)
  then obtain st1 rtt1 where l1: "ack_loop ?e WI_RELIABLE_ORDERLY True [7, 8, 65535] [11, 12, 13] 0 ?st =
      ack_loop ?e WI_RELIABLE_ORDERLY True [8, 65535] [12, 13] rtt1 st1" "acked_state 4294966307 st1"
    using ack_turn [of 0 ?st 11] by blast
  then obtain st2 rtt2 where l2: "ack_loop ?e WI_RELIABLE_ORDERLY True [8, 65535] [12, 13] rtt1 st1 =
      ack_loop ?e WI_RELIABLE_ORDERLY True [65535] [13] rtt2 st2" "acked_state 4294966307 st2"
    using ack_turn [of 4294966307 st1 12] by blast
  then obtain st3 rtt3 where l3: "ack_loop ?e WI_RELIABLE_ORDERLY True [65535] [13] rtt2 st2 = Some (rtt3, st3)"
    "acked_state 4294966307 st3"
    using ack_turn [of 4294966307 st2 13 ?e 65535 "[]" "[]" rtt2] unfolding ack_loop.simps(1) by blast
  obtain st4 where ctl: "ControllerProcess ?e WI_RELIABLE_ORDERLY (ucast rtt3) 3 0 st3 = Some st4" "the_msg 7 st4 = sample_msg"
    using ControllerProcess_sample [OF l3(2)] by blast
  have "ack_kind ?e 7 HPF_WITH_RELIABLE_ORDERLY_ACK WI_RELIABLE_ORDERLY True 0 ?st = Some (rtt3, st4)"
    using flags(1) get l1(1) l2(1) l3(1) ctl(1) by (simp add: ack_kind_def m msg_with_time_def del: ack_loop.simps)
  then have run: "GetAckToSendWnd ?e 7 ?st = Some st4"
    using flags(2) ctl(2) by (simp add: GetAckToSendWnd_def) (simp add: ack_kind_def)
  from ack_sets_window [OF idle _ _ _ _ run] flags(1) get
  obtain w where "sk_send_wnd (fst st4) WI_RELIABLE_ORDERLY = Some w" "unat (GetWndSize w) = 4"
    by (auto simp: m)
  then show ?thesis using run by (auto simp: word_unat_eq_iff)
qed

end
