(* ===== verification/Hudp_Impl.thy ===== *)
theory Hudp_Impl
  imports Socket_Correct Filter_Process
begin

text \<open>
  \<^verbatim>\<open>net/SocketManager.cpp\<close>, \<^verbatim>\<open>hudp/HudpImpl.cpp\<close>, \<^verbatim>\<open>hudp/Hudp.cpp\<close> and the threads
  \<^verbatim>\<open>hudp/ProcessThread.cpp\<close>, \<^verbatim>\<open>hudp/RecvThread.cpp\<close> and the end of a turn of \<^verbatim>\<open>common/Timer.cpp\<close>:
  the whole program as operations on one state. A socket operation records its calls of \<open>CHudpImpl\<close>;
  they are carried out after it, in their order. Messages hold weak pointers to their socket: they
  are null once the socket is released. \<open>None\<close> is undefined behaviour or a wait for room in a queue.
\<close>

section \<open>State\<close>

text \<open>What the application gets through its call-backs.\<close>

datatype app_call =
  AppRecv handle "byte list" hudp_error_code
| AppConnect handle hudp_error_code
| AppResend handle u32
| AppSend handle u32 hudp_error_code

record hudp =
  hd_socket_map :: "handle \<Rightarrow> sock option"
  hd_net :: net
  hd_process :: "msg_ref option task_queue"
  hd_filter_task :: "filter_param task_queue"
  hd_filters :: filter_list
  hd_filter_chain :: "(nat \<times> filter_kind) list"
  hd_recv_back :: bool
  hd_send_back :: bool
  hd_resend_back :: bool
  hd_connect_back :: bool
  hd_running :: bool
  hd_sent :: "(handle \<times> byte list) list"
  hd_app :: "app_call list"

text \<open>What the members of a new socket hold that its constructor does not set.\<close>

record memory =
  mem_rate :: u32
  mem_bbr :: bbr

section \<open>The socket manager\<close>

definition IsSocketExist :: "handle \<Rightarrow> hudp \<Rightarrow> bool" where
  "IsSocketExist h s \<longleftrightarrow> hd_socket_map s h \<noteq> None"

definition GetSocket :: "memory \<Rightarrow> handle \<Rightarrow> hudp \<Rightarrow> sock \<times> hudp" where
  "GetSocket mem h s =
     (case hd_socket_map s h of
        Some k \<Rightarrow> (k, s)
      | None \<Rightarrow>
          (let (now, tool) = GetCurTimeStamp (nt_clock (hd_net s)) (nt_time_stamp (hd_net s));
               k = CSocketImpl h now (mem_rate mem) (mem_bbr mem) in
           (k, s\<lparr>hd_socket_map := (hd_socket_map s)(h \<mapsto> k), hd_net := (hd_net s)\<lparr>nt_time_stamp := tool\<rparr>\<rparr>)))"

text \<open>The weak pointers to the socket expire.\<close>

definition expire :: "handle \<Rightarrow> store \<Rightarrow> store" where
  "expire h \<sigma> = (\<lambda>m. if m_socket (\<sigma> m) = Some h then (\<sigma> m)\<lparr>m_socket := None\<rparr> else \<sigma> m)"

definition DeleteSocket :: "handle \<Rightarrow> hudp \<Rightarrow> bool \<times> hudp" where
  "DeleteSocket h s =
     (case hd_socket_map s h of
        None \<Rightarrow> (False, s)
      | Some k \<Rightarrow> (True, s\<lparr>hd_socket_map := (hd_socket_map s)(h := None),
                          hd_net := (hd_net s)\<lparr>nt_store := expire h (nt_store (hd_net s))\<rparr>\<rparr>))"

section \<open>The calls a socket makes\<close>

definition do_call :: "out_call \<Rightarrow> hudp \<Rightarrow> hudp option" where
  "do_call c s =
     (case c of
        CallNet h bytes \<Rightarrow> Some (s\<lparr>hd_sent := hd_sent s @ [(h, bytes)]\<rparr>)
      | CallRecvFilter h flag body \<Rightarrow>
          map_option (\<lambda>q. s\<lparr>hd_filter_task := q\<rparr>) (PushRecvMsg_thread h flag body (hd_filter_task s))
      | CallRecvUpper h body err \<Rightarrow>
          Some (s\<lparr>hd_app := hd_app s @ [AppRecv h (take (unat (of_nat (length body) :: u16)) body) err]\<rparr>)
      | CallNewConnect h err \<Rightarrow>
          Some (if hd_connect_back s then s\<lparr>hd_app := hd_app s @ [AppConnect h err]\<rparr> else s)
      | CallSendBack h upper_id err \<Rightarrow> Some (s\<lparr>hd_app := hd_app s @ [AppSend h upper_id err]\<rparr>)
      | CallResendBack h upper_id \<Rightarrow>
          Some (if hd_resend_back s then s\<lparr>hd_app := hd_app s @ [AppResend h upper_id]\<rparr> else s)
      | CallRelease h \<Rightarrow> Some (snd (DeleteSocket h s)))"

fun do_calls :: "out_call list \<Rightarrow> hudp \<Rightarrow> hudp option" where
  "do_calls [] s = Some s"
| "do_calls (c # cs) s = do { s \<leftarrow> do_call c s; do_calls cs s }"

text \<open>An operation on the socket of a handle; nothing happens if there is none.\<close>

definition on_socket :: "handle \<Rightarrow> sk_op \<Rightarrow> hudp \<Rightarrow> hudp option" where
  "on_socket h f s =
     (case hd_socket_map s h of
        None \<Rightarrow> Some s
      | Some k \<Rightarrow>
          do {
            (k', n') \<leftarrow> f (k, (hd_net s)\<lparr>nt_out := []\<rparr>);
            do_calls (nt_out n') (s\<lparr>hd_socket_map := (hd_socket_map s)(h \<mapsto> k'), hd_net := n'\<lparr>nt_out := []\<rparr>\<rparr>)
          })"

text \<open>Without a resend call-back the message is sent again.\<close>

definition call_env :: "env \<Rightarrow> hudp \<Rightarrow> env" where
  "call_env e s = (if hd_resend_back s then e else e\<lparr>env_resend := (\<lambda>_ _. True)\<rparr>)"

definition CloseSocket :: "env \<Rightarrow> handle \<Rightarrow> hudp \<Rightarrow> (bool \<times> hudp) option" where
  "CloseSocket e h s =
     (if hd_socket_map s h = None then Some (False, s)
      else map_option (Pair True) (on_socket h (SendFinMessage (call_env e s)) s))"

section \<open>\<open>CHudpImpl\<close>\<close>

definition CHudpImpl :: "net \<Rightarrow> hudp" where
  "CHudpImpl n = \<lparr>hd_socket_map = (\<lambda>_. None), hd_net = n, hd_process = CTaskQueue (- 1), hd_filter_task = CTaskQueue (- 1),
     hd_filters = CFilterProcess, hd_filter_chain = [], hd_recv_back = False, hd_send_back = False,
     hd_resend_back = False, hd_connect_back = False, hd_running = False, hd_sent = [], hd_app = []\<rparr>"

text \<open>\<open>Init\<close> adds new filters at every call; a filter is a number and its kind.\<close>

definition hd_Init :: "hudp \<Rightarrow> hudp_error_code \<times> hudp" where
  "hd_Init s =
     (let n = length (hd_filter_chain s); fs = [n..<n + length init_filters] in
      (HEC_SUCCESS, s\<lparr>hd_filters := fold AddFilter fs (hd_filters s),
                     hd_filter_chain := hd_filter_chain s @ zip fs init_filters\<rparr>))"

text \<open>
  \<open>Start\<close>: whether the two call-backs are set, and the results of the calls of the operating
  system, the socket number and whether it could be bound.
\<close>

definition hd_Start :: "bool \<Rightarrow> bool \<Rightarrow> u64 \<Rightarrow> bool \<Rightarrow> hudp \<Rightarrow> hudp_error_code \<times> hudp" where
  "hd_Start recv_func write_func listen_socket bound s =
     (if \<not> recv_func \<or> \<not> write_func then (HEC_INVALID_PARAM, s)
      else
        (let s1 = s\<lparr>hd_recv_back := recv_func, hd_send_back := write_func\<rparr> in
         if listen_socket = 0 then (HEC_FAILED, s1)
         else if \<not> bound then (HEC_FAILED, s1)
         else (HEC_SUCCESS, s1\<lparr>hd_running := True\<rparr>)))"

definition push_process :: "msg_ref option \<Rightarrow> hudp \<Rightarrow> hudp option" where
  "push_process m s = map_option (\<lambda>q. s\<lparr>hd_process := q\<rparr>) (tq_Push m (hd_process s))"

definition new_msg :: "hudp \<Rightarrow> msg_ref \<times> hudp" where
  "new_msg s =
     (case CreateMsg (nt_store (hd_net s), nt_pool (hd_net s)) of
        (m, \<sigma>, p) \<Rightarrow> (m, s\<lparr>hd_net := (hd_net s)\<lparr>nt_store := \<sigma>, nt_pool := p\<rparr>\<rparr>))"

definition put_msg :: "msg_ref \<Rightarrow> msg \<Rightarrow> hudp \<Rightarrow> hudp" where
  "put_msg m x s = s\<lparr>hd_net := (hd_net s)\<lparr>nt_store := (nt_store (hd_net s))(m := x)\<rparr>\<rparr>"

definition hd_SendTo :: "memory \<Rightarrow> handle \<Rightarrow> u16 \<Rightarrow> byte list \<Rightarrow> u32 \<Rightarrow> hudp \<Rightarrow> (hudp_error_code \<times> hudp) option" where
  "hd_SendTo mem h flag body upper_id s =
     (if length body > unat msg_body_size then Some (HEC_INVALID_PARAM, s)
      else
        (let (k, s1) = GetSocket mem h s in
         if \<not> CanSendMessage (k, hd_net s1) then Some (HEC_FAILED, s1)
         else
           (let (m, s2) = new_msg s1;
                x = msg_SetSocket h (msg_SetBody body (msg_SetHandle h (msg_SetHeaderFlag (ucast flag OR HPF_UPPER)
                      (msg_SetFlag msg_send (msg_SetUpperId upper_id (nt_store (hd_net s2) m)))))) in
            map_option (Pair HEC_SUCCESS) (push_process (Some m) (put_msg m x s2)))))"

definition hd_Close :: "env \<Rightarrow> handle \<Rightarrow> hudp \<Rightarrow> (hudp_error_code \<times> hudp) option" where
  "hd_Close e h s = map_option (\<lambda>(r, s'). (if r then HEC_SUCCESS else HEC_FAILED, s')) (CloseSocket e h s)"

text \<open>The result of \<open>InitWithBuffer\<close> is only logged.\<close>

definition RecvMsgFromNet :: "memory \<Rightarrow> handle \<Rightarrow> byte list \<Rightarrow> hudp \<Rightarrow> hudp option" where
  "RecvMsgFromNet mem h buf s =
     (let (m, s1) = new_msg s in
      do {
        (r, x) \<leftarrow> msg_InitWithBuffer buf (nt_store (hd_net s1) m);
        (let (k, s2) = GetSocket mem h (put_msg m (msg_SetHandle h (msg_SetFlag msg_recv x)) s1) in
         push_process (Some m) (put_msg m (msg_SetSocket h (nt_store (hd_net s2) m)) s2))
      })"

definition CheckCanSend :: "memory \<Rightarrow> handle \<Rightarrow> hudp \<Rightarrow> hudp_error_code \<times> hudp" where
  "CheckCanSend mem h s =
     (let (k, s1) = GetSocket mem h s in
      (if CanSendMessage (k, hd_net s1) then HEC_SUCCESS else HEC_FAILED, s1))"

definition SetConnectCallBack :: "hudp \<Rightarrow> hudp" where
  "SetConnectCallBack s = s\<lparr>hd_connect_back := True\<rparr>"

definition SetResendCallBack :: "hudp \<Rightarrow> hudp" where
  "SetResendCallBack s = s\<lparr>hd_resend_back := True\<rparr>"

section \<open>The interface of the library\<close>

text \<open>An error code as a condition: it is 0 exactly for \<open>HEC_SUCCESS\<close>.\<close>

definition hudp_Start :: "bool \<Rightarrow> bool \<Rightarrow> u64 \<Rightarrow> bool \<Rightarrow> hudp \<Rightarrow> hudp_error_code \<times> hudp" where
  "hudp_Start recv_func write_func listen_socket bound s =
     (let (r, s') = hd_Start recv_func write_func listen_socket bound s in
      (if r \<noteq> HEC_SUCCESS then HEC_SUCCESS else HEC_FAILED, s'))"

definition hudp_SendTo :: "memory \<Rightarrow> handle \<Rightarrow> u16 \<Rightarrow> byte list \<Rightarrow> u32 \<Rightarrow> hudp \<Rightarrow> (hudp_error_code \<times> hudp) option" where
  "hudp_SendTo mem h flag body upper_id s =
     (let (ret, s1) = CheckCanSend mem h s in
      if ret \<noteq> HEC_SUCCESS then Some (ret, s1)
      else map_option (\<lambda>q. (HEC_SUCCESS, s1\<lparr>hd_filter_task := q\<rparr>))
             (PushSendMsg_thread h flag body upper_id (hd_filter_task s1)))"

definition hudp_Close :: "env \<Rightarrow> handle \<Rightarrow> hudp \<Rightarrow> (hudp_error_code \<times> hudp) option" where
  "hudp_Close e h s = hd_Close e h s"

section \<open>Turns of the threads\<close>

text \<open>A turn of the process thread; \<open>None\<close> also while it waits for a message.\<close>

definition process_Run :: "env \<Rightarrow> hudp \<Rightarrow> hudp option" where
  "process_Run e s =
     (case tq_Pop (hd_process s) of
        None \<Rightarrow> None
      | Some (msg, q) \<Rightarrow>
          (let s1 = s\<lparr>hd_process := q\<rparr> in
           case msg of
             None \<Rightarrow> Some s1
           | Some m \<Rightarrow>
               (let x = nt_store (hd_net s1) m in
                case m_socket x of
                  None \<Rightarrow> Some s1
                | Some h \<Rightarrow>
                    (if has_flag (msg_GetFlag x) msg_recv then on_socket h (RecvMessage (call_env e s1) m) s1
                     else on_socket h (SendMessage (call_env e s1) m) s1))))"

text \<open>A turn of the receive thread with the result of \<open>RecvFrom\<close>.\<close>

definition recv_Run :: "memory \<Rightarrow> int \<Rightarrow> byte list \<Rightarrow> string \<Rightarrow> u16 \<Rightarrow> hudp \<Rightarrow> hudp option" where
  "recv_Run mem ret buf ip port s =
     (if ret > 0 then RecvMsgFromNet mem (ip @ '':'' @ decimal (unat port)) (take (nat ret) buf) s else Some s)"

text \<open>The messages a turn of a timer thread has taken.\<close>

fun timer_out :: "env \<Rightarrow> msg_ref list \<Rightarrow> hudp \<Rightarrow> hudp option" where
  "timer_out e [] s = Some s"
| "timer_out e (m # ms) s =
     do {
       s \<leftarrow> (case m_socket (nt_store (hd_net s) m) of
              None \<Rightarrow> Some s | Some h \<Rightarrow> on_socket h (TimerOut (call_env e s) m) s);
       timer_out e ms s
     }"

text \<open>The second half of a turn of the common timer or, with \<open>pacing\<close>, of that of the pacing.\<close>

definition timer_Run :: "env \<Rightarrow> bool \<Rightarrow> bool \<Rightarrow> timer_turn \<Rightarrow> hudp \<Rightarrow> hudp option" where
  "timer_Run e pacing timed_out u s =
     (let n = hd_net s in
      case timer_fire (nt_clock n) timed_out u (if pacing then nt_pacing_timer n else nt_timer n) of
        None \<Rightarrow> None
      | Some (ms, t) \<Rightarrow>
          timer_out e ms (s\<lparr>hd_net := (if pacing then n\<lparr>nt_pacing_timer := t\<rparr> else n\<lparr>nt_timer := t\<rparr>)\<rparr>))"

text \<open>A turn of the filter thread: its tasks are those of the program, the end filter calls \<open>SendTo\<close>.\<close>

definition filter_turn :: "(slice_bag list \<Rightarrow> slice_bag list) \<Rightarrow> snappy \<Rightarrow> memory \<Rightarrow> hudp filters \<Rightarrow> hudp filters option" where
  "filter_turn srt sn mem s =
     (case filter_Run srt sn (hd_SendTo mem) (map snd (hd_filter_chain (fi_env s))) (hd_filter_task (fi_env s), s) of
        None \<Rightarrow> None
      | Some (q, s') \<Rightarrow> Some (s'\<lparr>fi_env := (fi_env s')\<lparr>hd_filter_task := q\<rparr>\<rparr>))"

end
