(* ===== verification/Hudp_Correct.thy ===== *)
theory Hudp_Correct
  imports Hudp_Impl
begin

text \<open>
  Properties of the program as a whole: the invariant of its sockets over all operations of the
  application and all turns of the threads, what the interface functions return and queue.
\<close>

section \<open>Reachable states\<close>

inductive hudp_run :: "hudp \<Rightarrow> bool" where
  hr_start: "hudp_run (CHudpImpl n)"
| hr_Init: "hudp_run s \<Longrightarrow> hudp_run (snd (hd_Init s))"
| hr_Start: "hudp_run s \<Longrightarrow> hudp_run (snd (hudp_Start recv snd_back listen bound s))"
| hr_connect: "hudp_run s \<Longrightarrow> hudp_run (SetConnectCallBack s)"
| hr_resend: "hudp_run s \<Longrightarrow> hudp_run (SetResendCallBack s)"
| hr_api_send: "hudp_run s \<Longrightarrow> hudp_SendTo mem h flag body upper_id s = Some (r, s') \<Longrightarrow> hudp_run s'"
| hr_send: "hudp_run s \<Longrightarrow> hd_SendTo mem h flag body upper_id s = Some (r, s') \<Longrightarrow> hudp_run s'"
| hr_close: "hudp_run s \<Longrightarrow> hudp_Close e h s = Some (r, s') \<Longrightarrow> hudp_run s'"
| hr_recv: "hudp_run s \<Longrightarrow> recv_Run mem ret buf ip port s = Some s' \<Longrightarrow> hudp_run s'"
| hr_process: "hudp_run s \<Longrightarrow> process_Run e s = Some s' \<Longrightarrow> hudp_run s'"
| hr_timer: "hudp_run s \<Longrightarrow> timer_Run e pacing timed_out u s = Some s' \<Longrightarrow> hudp_run s'"
| hr_tasks: "hudp_run s \<Longrightarrow> hudp_run (s\<lparr>hd_filter_task := q\<rparr>)"
| hr_clock: "hudp_run s \<Longrightarrow> hudp_run (s\<lparr>hd_net := (hd_net s)\<lparr>nt_clock := now\<rparr>\<rparr>)"

definition hudp_inv :: "hudp \<Rightarrow> bool" where
  "hudp_inv s \<longleftrightarrow> (\<forall>h k. hd_socket_map s h = Some k \<longrightarrow> sock_inv h k)"

lemma hudp_inv_map: "hd_socket_map s' = hd_socket_map s \<Longrightarrow> hudp_inv s' \<longleftrightarrow> hudp_inv s"
  by (simp add: hudp_inv_def)

lemma hudp_invD: "hudp_inv s \<Longrightarrow> hd_socket_map s h = Some k \<Longrightarrow> sock_inv h k"
  by (simp add: hudp_inv_def)

lemma new_sock_inv: "sock_inv h (CSocketImpl h now rate mem)"
  using sock_run_inv [OF run_start] by simp

lemma GetSocket_inv:
  assumes "GetSocket mem h s = (k, s')" and "hudp_inv s"
  shows "hudp_inv s'" "sock_inv h k" "hd_socket_map s' h = Some k"
  using assms new_sock_inv by (auto simp: GetSocket_def hudp_inv_def Let_def split: option.splits prod.splits if_splits)

lemma do_call_inv: "do_call c s = Some s' \<Longrightarrow> hudp_inv s \<Longrightarrow> hudp_inv s'"
  by (cases c) (auto simp: do_call_def DeleteSocket_def hudp_inv_def split: if_splits option.splits)

lemma do_calls_inv: "do_calls cs s = Some s' \<Longrightarrow> hudp_inv s \<Longrightarrow> hudp_inv s'"
  by (induction cs s rule: do_calls.induct) (auto simp: bind_eq_Some_conv dest: do_call_inv)

text \<open>Operations that keep the invariant of a socket.\<close>

definition keeps_sock :: "sk_op \<Rightarrow> bool" where
  "keeps_sock f \<longleftrightarrow> (\<forall>h st st'. f st = Some st' \<longrightarrow> sock_inv h (fst st) \<longrightarrow> sock_inv h (fst st'))"

lemma keeps_sock_ops:
  "keeps_sock (SendMessage e m)" "keeps_sock (RecvMessage e m)" "keeps_sock (TimerOut e m)" "keeps_sock (SendFinMessage e)"
proof -
  show "keeps_sock (SendMessage e m)"
    unfolding keeps_sock_def using calm_inv frame_calm frame_SendMessage by blast
  show "keeps_sock (RecvMessage e m)"
    unfolding keeps_sock_def
  proof (intro allI impI)
    fix h st st' assume recv: "RecvMessage e m st = Some st'" and inv: "sock_inv h (fst st)"
    from inv have "sk_status (fst st) \<noteq> SS_CLOSE_WIAT" by (simp add: sock_inv_def)
    from moves_inv [OF RecvMessage_moves [OF recv] inv recv_status_no_wait [OF this]]
    show "sock_inv h (fst st')" .
  qed
  show "keeps_sock (TimerOut e m)"
    unfolding keeps_sock_def using TimerOut_moves moves_inv by (metis sock_inv_def)
  have "fin_status (sk_status k) \<noteq> SS_CLOSE_WIAT" if "sock_inv h k" for h k
    using that by (auto simp: sock_inv_def fin_status_def split: socket_status.splits)
  then show "keeps_sock (SendFinMessage e)"
    unfolding keeps_sock_def using SendFinMessage_moves moves_inv by blast
qed

lemma on_socket_inv:
  assumes "on_socket h f s = Some s'" and "keeps_sock f" and "hudp_inv s"
  shows "hudp_inv s'"
proof (cases "hd_socket_map s h")
  case None
  then show ?thesis using assms by (simp add: on_socket_def)
next
  case (Some k)
  then obtain k' n' where op: "f (k, (hd_net s)\<lparr>nt_out := []\<rparr>) = Some (k', n')"
    and calls: "do_calls (nt_out n') (s\<lparr>hd_socket_map := (hd_socket_map s)(h \<mapsto> k'), hd_net := n'\<lparr>nt_out := []\<rparr>\<rparr>) = Some s'"
    using assms(1) by (auto simp: on_socket_def bind_eq_Some_conv)
  have "sock_inv h k'"
    using assms(2) [unfolded keeps_sock_def] op hudp_invD [OF assms(3) Some] by fastforce
  then have "hudp_inv (s\<lparr>hd_socket_map := (hd_socket_map s)(h \<mapsto> k'), hd_net := n'\<lparr>nt_out := []\<rparr>\<rparr>)"
    using assms(3) by (auto simp: hudp_inv_def)
  from do_calls_inv [OF calls this] show ?thesis .
qed

lemma new_msg_map: "new_msg s = (m, s') \<Longrightarrow> hd_socket_map s' = hd_socket_map s"
  by (auto simp: new_msg_def split: prod.splits)

lemma push_process_map: "push_process m s = Some s' \<Longrightarrow> hd_socket_map s' = hd_socket_map s"
  by (auto simp: push_process_def)

lemma put_msg_map [simp]: "hd_socket_map (put_msg m x s) = hd_socket_map s"
  by (simp add: put_msg_def)

lemma hd_SendTo_inv:
  assumes send: "hd_SendTo mem h flag body upper_id s = Some (r, s')" and inv: "hudp_inv s"
  shows "hudp_inv s'"
proof -
  obtain k s1 where get: "GetSocket mem h s = (k, s1)" by (rule prod.exhaust)
  note inv1 = GetSocket_inv(1) [OF get inv]
  obtain m s2 where new: "new_msg s1 = (m, s2)" by (rule prod.exhaust)
  have "hudp_inv s'" if "push_process (Some m) (put_msg m x s2) = Some s'" for x
    using inv1 hudp_inv_map [of s' s1] new_msg_map [OF new] push_process_map [OF that] by simp
  then show ?thesis
    using send get new inv inv1 by (auto simp: hd_SendTo_def Let_def split: if_splits)
qed

lemma RecvMsgFromNet_inv:
  assumes recv: "RecvMsgFromNet mem h buf s = Some s'" and inv: "hudp_inv s"
  shows "hudp_inv s'"
proof -
  obtain m s1 where new: "new_msg s = (m, s1)" by (rule prod.exhaust)
  obtain r x where init: "msg_InitWithBuffer buf (nt_store (hd_net s1) m) = Some (r, x)"
    using recv new by (auto simp: RecvMsgFromNet_def bind_eq_Some_conv)
  let ?s1 = "put_msg m (msg_SetHandle h (msg_SetFlag msg_recv x)) s1"
  obtain k s2 where get: "GetSocket mem h ?s1 = (k, s2)" by (rule prod.exhaust)
  have "hudp_inv ?s1" using inv hudp_inv_map [of ?s1 s] new_msg_map [OF new] by simp
  from GetSocket_inv(1) [OF get this] have "hudp_inv s2" .
  moreover have "push_process (Some m) (put_msg m (msg_SetSocket h (nt_store (hd_net s2) m)) s2) = Some s'"
    using recv new init get by (simp add: RecvMsgFromNet_def)
  ultimately show ?thesis
    using hudp_inv_map push_process_map put_msg_map by metis
qed

lemma process_Run_inv:
  assumes "process_Run e s = Some s'" and inv: "hudp_inv s"
  shows "hudp_inv s'"
proof -
  have popped: "hudp_inv (s\<lparr>hd_process := q\<rparr>)" for q using inv by (simp add: hudp_inv_def)
  show ?thesis
    using assms(1) popped on_socket_inv [OF _ keeps_sock_ops(1)] on_socket_inv [OF _ keeps_sock_ops(2)]
    by (simp only: process_Run_def Let_def split: option.splits prod.splits if_splits) fastforce+
qed

lemma timer_out_inv: "timer_out e ms s = Some s' \<Longrightarrow> hudp_inv s \<Longrightarrow> hudp_inv s'"
  by (induction e ms s rule: timer_out.induct)
    (auto simp: bind_eq_Some_conv split: option.splits dest: on_socket_inv [OF _ keeps_sock_ops(3)])

lemma timer_Run_inv:
  assumes "timer_Run e pacing timed_out u s = Some s'" and inv: "hudp_inv s"
  shows "hudp_inv s'"
proof -
  have "hudp_inv (s\<lparr>hd_net := n\<rparr>)" for n using inv by (simp add: hudp_inv_def)
  then show ?thesis
    using assms(1) timer_out_inv by (auto simp: timer_Run_def Let_def split: option.splits)
qed

lemma hudp_run_inv: "hudp_run s \<Longrightarrow> hudp_inv s"
proof (induction rule: hudp_run.induct)
  case (hr_start n)
  show ?case by (simp add: hudp_inv_def CHudpImpl_def)
next
  case (hr_Init s)
  then show ?case by (simp add: hudp_inv_def hd_Init_def Let_def)
next
  case (hr_Start s recv snd_back listen bound)
  then show ?case by (auto simp: hudp_inv_def hudp_Start_def hd_Start_def Let_def)
next
  case (hr_api_send s mem h flag body upper_id r s')
  obtain ret s1 where check: "CheckCanSend mem h s = (ret, s1)" by (rule prod.exhaust)
  obtain k where "GetSocket mem h s = (k, s1)"
    using check by (cases "GetSocket mem h s") (auto simp: CheckCanSend_def)
  from GetSocket_inv(1) [OF this hr_api_send.IH] have "hudp_inv s1" .
  then show ?case
    using hr_api_send.hyps(2) check by (auto simp: hudp_SendTo_def hudp_inv_def split: if_splits)
next
  case (hr_send s mem h flag body upper_id r s')
  then show ?case by (blast intro: hd_SendTo_inv)
next
  case (hr_close s e h r s')
  then have "\<exists>s1. hudp_inv s1 \<and> s1 = s'"
    using on_socket_inv [OF _ keeps_sock_ops(4)]
    by (auto simp: hudp_Close_def hd_Close_def CloseSocket_def split: if_splits)
  then show ?case by blast
next
  case (hr_recv s mem ret buf ip port s')
  then show ?case by (auto simp: recv_Run_def split: if_splits dest: RecvMsgFromNet_inv)
next
  case (hr_process s e s')
  then show ?case by (blast intro: process_Run_inv)
next
  case (hr_timer s e pacing timed_out u s')
  then show ?case by (blast intro: timer_Run_inv)
qed (simp_all add: hudp_inv_def SetConnectCallBack_def SetResendCallBack_def)

section \<open>Properties\<close>

text \<open>
  C6. The invariant of the program: after any operations of the application and turns of the threads,
  every socket of the manager is stored under its own handle and satisfies the socket invariant.
\<close>

theorem program_invariant:
  assumes "hudp_run s" and "hd_socket_map s h = Some k"
  shows "sk_handle k = h \<and> sk_status k \<noteq> SS_CLOSE_WIAT \<and> fq_content (sk_flow_queue k) = [] \<and> sock_typed k"
  using hudp_invD [OF hudp_run_inv [OF assms(1)] assms(2)] by (simp add: sock_inv_def)

definition sample_memory_of :: memory where
  "sample_memory_of = \<lparr>mem_rate = 1, mem_bbr = sample_bbr\<rparr>"

definition sample_hudp :: hudp where
  "sample_hudp = CHudpImpl ((sample_net CMsgImpl)\<lparr>nt_pool := CMsgPoolFactory\<rparr>)"

lemma sample_hudp_simps:
  "hd_socket_map sample_hudp = (\<lambda>_. None)" "hd_net sample_hudp = (sample_net CMsgImpl)\<lparr>nt_pool := CMsgPoolFactory\<rparr>"
  "hd_process sample_hudp = CTaskQueue (- 1)"
  by (simp_all add: sample_hudp_def CHudpImpl_def)

lemma sample_SendTo:
  "\<exists>s'. hd_SendTo sample_memory_of ''10.0.0.1:9'' 4 [1, 2] 3 sample_hudp = Some (HEC_SUCCESS, s')"
  by (simp add: hd_SendTo_def msg_body_size_def mtu_def hudp_header_size_def GetSocket_def sample_hudp_simps
      new_msg_def push_process_def tq_Push_def put_msg_def CTaskQueue_def CanSendMessage_def CSocketImpl_def Let_def
      case_prod_unfold)

theorem program_invariant_witness:
  "\<exists>s' k. hd_SendTo sample_memory_of ''10.0.0.1:9'' 4 [1, 2] 3 sample_hudp = Some (HEC_SUCCESS, s') \<and>
     hd_socket_map s' ''10.0.0.1:9'' = Some k \<and> sk_handle k = ''10.0.0.1:9''"
proof -
  let ?h = "''10.0.0.1:9''"
  obtain s' where send: "hd_SendTo sample_memory_of ?h 4 [1, 2] 3 sample_hudp = Some (HEC_SUCCESS, s')"
    using sample_SendTo by blast
  have run: "hudp_run s'" using hr_send [OF hr_start send [unfolded sample_hudp_def]] .
  obtain k where k: "hd_socket_map s' ?h = Some k"
    using send by (auto simp: hd_SendTo_def GetSocket_def sample_hudp_simps new_msg_def push_process_def put_msg_def
        Let_def split: prod.splits if_splits)
  show ?thesis using program_invariant [OF run k] send k by blast
qed

text \<open>
  C11. \<open>SendTo\<close> on every branch: a body over 400 bytes and a socket that is closing are refused and
  nothing changes; otherwise a fresh message with the body, the handle and the number of the
  application is the last in the queue of the process thread. Whatever priority the application
  asked for, the priority queue will put the message into the lowest class.
\<close>

theorem hd_SendTo_spec:
  assumes send: "hd_SendTo mem h flag body upper_id s = Some (r, s')"
    and pool: "pool_run used (nt_store (hd_net s), nt_pool (hd_net s))"
  shows "(r = HEC_INVALID_PARAM \<longleftrightarrow> 400 < length body) \<and>
    (r = HEC_FAILED \<longleftrightarrow> length body \<le> 400 \<and>
       (\<exists>k. hd_socket_map s h = Some k \<and> sk_status k \<noteq> SS_CLOSE \<and> sk_status k \<noteq> SS_READY)) \<and>
    (r \<noteq> HEC_SUCCESS \<longrightarrow> s' = s) \<and>
    (r = HEC_SUCCESS \<longrightarrow> (\<exists>m. m \<notin> used \<and>
       tq_block_queue (hd_process s') = tq_block_queue (hd_process s) @ [Some m] \<and>
       m_body (nt_store (hd_net s') m) = body \<and> m_ip_port (nt_store (hd_net s') m) = h \<and>
       m_socket (nt_store (hd_net s') m) = Some h \<and> m_upper_id (nt_store (hd_net s') m) = upper_id \<and>
       msg_class (nt_store (hd_net s')) m = Some Low))"
proof (cases "length body > unat msg_body_size")
  case True
  then show ?thesis using send by (auto simp: hd_SendTo_def msg_body_size_def mtu_def hudp_header_size_def)
next
  case size: False
  then have len: "length body \<le> 400" by (simp add: msg_body_size_def mtu_def hudp_header_size_def)
  obtain k s1 where get: "GetSocket mem h s = (k, s1)" by (rule prod.exhaust)
  have get': "nt_store (hd_net s1) = nt_store (hd_net s)" "nt_pool (hd_net s1) = nt_pool (hd_net s)"
    "hd_process s1 = hd_process s" "hd_socket_map s h = Some k \<and> s1 = s \<or> hd_socket_map s h = None \<and> sk_status k = SS_CLOSE"
    using get by (auto simp: GetSocket_def CSocketImpl_def Let_def split: option.splits prod.splits)
  show ?thesis
  proof (cases "CanSendMessage (k, hd_net s1)")
    case False
    then have "r = HEC_FAILED" "s' = s1" using send size get by (simp_all add: hd_SendTo_def)
    then show ?thesis using False get'(4) len by (auto simp: CanSendMessage_def)
  next
    case can: True
    obtain m \<sigma> p where create: "CreateMsg (nt_store (hd_net s), nt_pool (hd_net s)) = (m, \<sigma>, p)"
      by (rule prod_cases3)
    note inv = CreateMsg_inv [OF pool_run_inv [OF pool] create]
    let ?x = "msg_SetSocket h (msg_SetBody body (msg_SetHandle h (msg_SetHeaderFlag (ucast flag OR HPF_UPPER)
      (msg_SetFlag msg_send (msg_SetUpperId upper_id (\<sigma> m))))))"
    let ?s2 = "s1\<lparr>hd_net := (hd_net s1)\<lparr>nt_store := \<sigma>, nt_pool := p\<rparr>\<rparr>"
    have "map_option (Pair HEC_SUCCESS) (push_process (Some m) (put_msg m ?x ?s2)) = Some (r, s')"
      using send size get can create get'(1,2) by (simp add: hd_SendTo_def new_msg_def)
    then have r: "r = HEC_SUCCESS" and s': "tq_block_queue (hd_process s') = tq_block_queue (hd_process s) @ [Some m]"
      "nt_store (hd_net s') m = ?x"
      using get'(3) by (auto simp: push_process_def tq_Push_def put_msg_def split: if_splits)
    have "m_flag (\<sigma> m) = ucast msg_with_out_id" using inv(3) by (simp add: blank_def)
    then have "msg_class (nt_store (hd_net s')) m = Some Low"
      unfolding msg_class_def class_of_flag_def s'(2)
      by (simp add: msg_GetFlag_def msg_SetFlag_def msg_SetBody_def msg_SetSocket_def msg_SetHandle_def msg_SetHeaderFlag_def
          msg_SetUpperId_def local_flag_defs)
    then show ?thesis
      using r s' len can get'(4) inv(2)
      by (auto simp: CanSendMessage_def msg_SetBody_def msg_SetSocket_def msg_SetHandle_def msg_SetHeaderFlag_def
          msg_SetUpperId_def msg_SetFlag_def)
  qed
qed

theorem hd_SendTo_spec_witness:
  "\<exists>s' m. hd_SendTo sample_memory_of ''10.0.0.1:9'' 4 [1, 2] 3 sample_hudp = Some (HEC_SUCCESS, s') \<and>
     tq_block_queue (hd_process s') = [Some m] \<and> msg_class (nt_store (hd_net s')) m = Some Low"
proof -
  obtain s' where send: "hd_SendTo sample_memory_of ''10.0.0.1:9'' 4 [1, 2] 3 sample_hudp = Some (HEC_SUCCESS, s')"
    using sample_SendTo by blast
  have "pool_run {} (nt_store (hd_net sample_hudp), nt_pool (hd_net sample_hudp))"
    using pool_start by (simp add: sample_hudp_simps)
  from hd_SendTo_spec [OF send this] show ?thesis
    using send by (auto simp: sample_hudp_simps CTaskQueue_def)
qed

text \<open>
  \<open>hudp::Start\<close> reports the opposite of what happened: it returns the failure code exactly when
  the call-backs were set, the socket was created and bound and the threads were started, and
  success in every case of failure.
\<close>

theorem hudp_Start_inverted:
  "fst (hudp_Start recv_func write_func listen_socket bound s) =
     (if recv_func \<and> write_func \<and> listen_socket \<noteq> 0 \<and> bound then HEC_FAILED else HEC_SUCCESS) \<and>
   hd_running (snd (hudp_Start recv_func write_func listen_socket bound s)) =
     (hd_running s \<or> recv_func \<and> write_func \<and> listen_socket \<noteq> 0 \<and> bound)"
  by (auto simp: hudp_Start_def hd_Start_def Let_def)

text \<open>
  \<open>Init\<close> links the filters in the order of their chain: after the first call, from the first filter
  along the links to the next, the upper thread, the head, the compression, the slicing and the end
  filter are met, and backwards from the last filter the same in the other direction. A second
  call appends all of them again.
\<close>

theorem hd_Init_links:
  "(let s = snd (hd_Init (CHudpImpl n)); l = hd_filters s; fs = map fst (hd_filter_chain s) in
      walk (fl_next_filter l) 5 (fl_filter_head l) = fs \<and> walk (fl_prev_filter l) 5 (fl_filter_end l) = rev fs \<and>
      map snd (hd_filter_chain s) = [UpperThreadFilter, HeadFilter, SnappyFilter, SlicingFilter, EndFilter] \<and>
      map snd (hd_filter_chain (snd (hd_Init s))) =
        map snd (hd_filter_chain s) @ map snd (hd_filter_chain s))"
proof -
  define s where "s = snd (hd_Init (CHudpImpl n))"
  have len: "length init_filters = 5" by (simp add: init_filters_def upper_with_thread_def)
  have five: "[0..<5] = [0, 1, 2, 3, 4]" by (simp add: upt_rec)
  have s: "hd_filters s = fold AddFilter [0..<5] CFilterProcess" "hd_filter_chain s = zip [0..<5] init_filters"
    by (simp_all add: s_def hd_Init_def CHudpImpl_def len Let_def)
  have l: "list_of (hd_filters s) [0..<5]"
    using foldl_AddFilter [OF list_of_empty, of "[0..<5]"] by (simp add: s)
  have "walk (fl_next_filter (hd_filters s)) 5 (fl_filter_head (hd_filters s)) = [0..<5]"
    using walk_next [OF l, of 0] l by (simp add: list_of_def five eval_nat_numeral)
  moreover have "walk (fl_prev_filter (hd_filters s)) 5 (fl_filter_end (hd_filters s)) = rev [0..<5]"
    using walk_prev [OF l, of 4] l by (simp add: list_of_def five numeral_eq_Suc)
  moreover have "map fst (hd_filter_chain s) = [0..<5]" "map snd (hd_filter_chain s) = init_filters"
    using len by (simp_all add: s)
  moreover have "map snd (hd_filter_chain (snd (hd_Init s))) = map snd (hd_filter_chain s) @ init_filters"
    by (simp add: hd_Init_def len Let_def)
  ultimately show ?thesis
    by (simp add: s_def [symmetric] Let_def) (simp add: init_filters_def upper_with_thread_def)
qed

text \<open>
  C14. The socket manager is a map from handles: \<open>GetSocket\<close> returns the socket of the handle and changes
  nothing if there is one, and otherwise makes one and stores it, so that the next call returns it;
  \<open>DeleteSocket\<close> says whether there was one, removes it, and exactly the messages of that socket lose
  their socket; no operation touches another handle.
\<close>

theorem socket_manager_map:
  "hd_socket_map (snd (GetSocket mem h s)) = (hd_socket_map s)(h \<mapsto> fst (GetSocket mem h s)) \<and>
   GetSocket mem' h (snd (GetSocket mem h s)) = GetSocket mem h s \<and>
   (if IsSocketExist h s then GetSocket mem h s = (the (hd_socket_map s h), s)
    else sk_status (fst (GetSocket mem h s)) = SS_CLOSE \<and> sk_handle (fst (GetSocket mem h s)) = h) \<and>
   fst (DeleteSocket h s) = IsSocketExist h s \<and>
   hd_socket_map (snd (DeleteSocket h s)) = (hd_socket_map s)(h := None) \<and>
   m_socket (nt_store (hd_net (snd (DeleteSocket h s))) m) =
     (if IsSocketExist h s \<and> m_socket (nt_store (hd_net s) m) = Some h then None
      else m_socket (nt_store (hd_net s) m))"
proof (cases "hd_socket_map s h")
  case None
  then show ?thesis
    by (auto simp: GetSocket_def DeleteSocket_def IsSocketExist_def CSocketImpl_def Let_def fun_upd_idem split: prod.splits)
next
  case (Some k)
  then show ?thesis
    by (auto simp: GetSocket_def DeleteSocket_def IsSocketExist_def expire_def fun_upd_idem)
qed

text \<open>
  Any datagram gets in: whatever its bytes are, whether they parse or not, it becomes the last
  message of the process queue, marked as received, with a socket for the address it came from,
  which is created if there is none. No other socket changes.
\<close>

theorem datagram_queued:
  assumes "length (tq_block_queue (hd_process s)) < tq_list_size (hd_process s)"
  shows "\<exists>s' m. RecvMsgFromNet mem h buf s = Some s' \<and>
    tq_block_queue (hd_process s') = tq_block_queue (hd_process s) @ [Some m] \<and>
    m_socket (nt_store (hd_net s') m) = Some h \<and> m_ip_port (nt_store (hd_net s') m) = h \<and>
    has_flag (msg_GetFlag (nt_store (hd_net s') m)) msg_recv \<and>
    IsSocketExist h s' \<and> (\<forall>h'. h' \<noteq> h \<longrightarrow> hd_socket_map s' h' = hd_socket_map s h')"
proof -
  obtain m s1 where new: "new_msg s = (m, s1)" by (rule prod.exhaust)
  then have s1: "hd_process s1 = hd_process s" "hd_socket_map s1 = hd_socket_map s"
    by (auto simp: new_msg_def split: prod.splits)
  obtain r x where init: "msg_InitWithBuffer buf (nt_store (hd_net s1) m) = Some (r, x)"
    using InitWithBuffer_defined by blast
  let ?x = "msg_SetHandle h (msg_SetFlag msg_recv x)"
  obtain k s2 where get: "GetSocket mem h (put_msg m ?x s1) = (k, s2)" by (rule prod.exhaust)
  then have s2: "hd_process s2 = hd_process s" "hd_socket_map s2 = (hd_socket_map s)(h \<mapsto> k)" "nt_store (hd_net s2) m = ?x"
    using s1 by (auto simp: GetSocket_def put_msg_def fun_upd_idem Let_def split: option.splits prod.splits)
  have flag: "has_flag (msg_GetFlag (msg_SetFlag msg_recv y)) msg_recv" for y
  proof -
    have "has_flag (scast f :: u32) (2 ^ 5) = bit f 5" for f :: u16
      unfolding has_flag_exp by (simp add: bit_simps)
    then show ?thesis by (simp add: msg_GetFlag_def msg_SetFlag_def msg_recv_def bit_simps)
  qed
  let ?s3 = "put_msg m (msg_SetSocket h (nt_store (hd_net s2) m)) s2"
  have "RecvMsgFromNet mem h buf s = Some (?s3\<lparr>hd_process := (hd_process s)\<lparr>tq_block_queue := tq_block_queue (hd_process s) @ [Some m]\<rparr>\<rparr>)"
    using assms new init get s2(1) by (simp add: RecvMsgFromNet_def push_process_def tq_Push_def put_msg_def)
  then show ?thesis
    using s2 flag by (simp add: put_msg_def IsSocketExist_def msg_SetSocket_def msg_SetHandle_def msg_GetFlag_def msg_SetFlag_def)
qed

theorem datagram_queued_witness:
  "\<exists>s' m. RecvMsgFromNet sample_memory_of ''10.0.0.1:9'' [7] sample_hudp = Some s' \<and>
    tq_block_queue (hd_process s') = [Some m] \<and> IsSocketExist ''10.0.0.1:9'' s'"
  using datagram_queued [of sample_hudp sample_memory_of "''10.0.0.1:9''" "[7]"]
  by (auto simp: sample_hudp_simps CTaskQueue_def)

end
