(* ===== verification/End_To_End.thy ===== *)
theory End_To_End
  imports Hudp_Correct Socket_Traffic
begin

text \<open>
  The two sides of a connection together: what a first call of \<open>SendTo\<close> on one side becomes on
  the other.
\<close>

section \<open>The message of \<open>SendTo\<close>\<close>

definition upper_msg :: "handle \<Rightarrow> u16 \<Rightarrow> byte list \<Rightarrow> u32 \<Rightarrow> msg \<Rightarrow> msg" where
  "upper_msg h flag body upper_id x =
     msg_SetSocket h (msg_SetBody body (msg_SetHandle h (msg_SetHeaderFlag (ucast flag OR HPF_UPPER)
       (msg_SetFlag msg_send (msg_SetUpperId upper_id x)))))"

text \<open>Flags an application may pass: the four classes and the four priorities.\<close>

definition app_flags :: u32 where "app_flags = 0xFF"

definition app_flag_ok :: "u16 \<Rightarrow> bool" where
  "app_flag_ok flag \<longleftrightarrow> ucast flag AND app_flags = (ucast flag :: u32)"

lemma app_flag_bits:
  assumes "app_flag_ok flag"
  shows "ucast flag AND ack_flags = (0 :: u32)" "\<not> has_flag (ucast flag) HPF_RST" "\<not> has_flag (ucast flag) HPF_FIN"
    "\<not> has_flag (ucast flag) HPF_FIN_ACK"
proof -
  have zero: "ucast flag AND g = (0 :: u32)" if "app_flags AND g = 0" for g
  proof -
    have "ucast flag AND g = (ucast flag AND app_flags) AND g" using assms by (simp add: app_flag_ok_def)
    then show ?thesis using that by (simp add: and.assoc)
  qed
  show "ucast flag AND ack_flags = (0 :: u32)" by (rule zero) (simp add: app_flags_def ack_flags_def head_flag_defs)
  show "\<not> has_flag (ucast flag) HPF_RST" "\<not> has_flag (ucast flag) HPF_FIN" "\<not> has_flag (ucast flag) HPF_FIN_ACK"
    unfolding has_flag_def by (subst zero, simp_all add: app_flags_def head_flag_defs)+
qed

lemma upper_msg_parts [simp]:
  "m_body (upper_msg h flag body u x) = body" "m_ip_port (upper_msg h flag body u x) = h"
  "m_socket (upper_msg h flag body u x) = Some h"
  "m_flag (upper_msg h flag body u x) = ucast (scast (m_flag x) OR msg_send)"
  "msg_GetHeaderFlag (upper_msg h flag body u x) = msg_GetHeaderFlag x OR (ucast flag OR HPF_UPPER) OR HPF_WITH_BODY"
  by (simp_all add: upper_msg_def msg_SetBody_def msg_SetSocket_def msg_SetHandle_def msg_SetHeaderFlag_def
      msg_SetUpperId_def msg_SetFlag_def msg_GetHeaderFlag_def SetBodyLength_def SetFlag_def or.assoc)

lemma upper_msg_plain:
  assumes "blank x" and "app_flag_ok flag" and "length body \<le> 400"
  shows "plain (upper_msg h flag body u x)"
proof -
  have "(ucast flag OR HPF_UPPER) AND ack_flags = 0"
    using app_flag_bits(1) [OF assms(2)] by (simp add: ack_bits) (simp add: ack_flags_def head_flag_defs)
  then show ?thesis
    unfolding upper_msg_def using assms(3) by (intro plain_ops blank_plain assms(1))
qed

lemma upper_msg_local:
  assumes "blank x"
  shows "has_flag (msg_GetFlag (upper_msg h flag body u x)) msg_with_out_id"
    "\<not> has_flag (msg_GetFlag (upper_msg h flag body u x)) msg_is_only_ack"
    "\<not> has_flag (msg_GetFlag (upper_msg h flag body u x)) msg_recv"
  using assms by (simp_all add: msg_GetFlag_def blank_def has_flag_def local_flag_defs)

lemma upper_msg_flags:
  assumes "blank x" and "app_flag_ok flag"
  shows "has_flag (msg_GetHeaderFlag (upper_msg h flag body u x)) HPF_WITH_BODY"
    "\<not> has_flag (msg_GetHeaderFlag (upper_msg h flag body u x)) HPF_RST"
    "\<not> has_flag (msg_GetHeaderFlag (upper_msg h flag body u x)) HPF_FIN"
    "\<not> has_flag (msg_GetHeaderFlag (upper_msg h flag body u x)) HPF_FIN_ACK"
    "has_flag (msg_GetHeaderFlag (upper_msg h flag body u x)) HTF_RELIABLE = has_flag (ucast flag) HTF_RELIABLE"
proof -
  have zero: "msg_GetHeaderFlag x = 0" using assms(1) by (simp add: blank_def msg_GetHeaderFlag_def)
  have bits: "\<not> has_flag HPF_UPPER f \<and> \<not> has_flag HPF_WITH_BODY f" if "f \<in> {HPF_RST, HPF_FIN, HPF_FIN_ACK, HTF_RELIABLE}" for f
    using that by (auto simp: has_flag_def head_flag_defs)
  show "has_flag (msg_GetHeaderFlag (upper_msg h flag body u x)) HPF_WITH_BODY"
    by (simp add: has_flag_or flag_consts)
  show "\<not> has_flag (msg_GetHeaderFlag (upper_msg h flag body u x)) HPF_RST"
    "\<not> has_flag (msg_GetHeaderFlag (upper_msg h flag body u x)) HPF_FIN"
    "\<not> has_flag (msg_GetHeaderFlag (upper_msg h flag body u x)) HPF_FIN_ACK"
    "has_flag (msg_GetHeaderFlag (upper_msg h flag body u x)) HTF_RELIABLE = has_flag (ucast flag) HTF_RELIABLE"
    using app_flag_bits(2-4) [OF assms(2)] bits by (simp_all add: zero has_flag_or)
qed

section \<open>The sending side\<close>

text \<open>A program that does not know the peer yet and has nothing to do.\<close>

definition idle :: "handle \<Rightarrow> hudp \<Rightarrow> bool" where
  "idle h s \<longleftrightarrow> hd_socket_map s h = None \<and> tq_block_queue (hd_process s) = [] \<and> 0 < tq_list_size (hd_process s) \<and>
     (\<exists>used. pool_run used (nt_store (hd_net s), nt_pool (hd_net s)))"

lemma new_socket:
  "line_free (CSocketImpl h now rate mem)" "sk_send_wnd (CSocketImpl h now rate mem) = (\<lambda>_. None)"
  "sk_recv_list (CSocketImpl h now rate mem) = (\<lambda>_. None)" "sk_pend_ack (CSocketImpl h now rate mem) = (\<lambda>_. None)"
  "sk_status (CSocketImpl h now rate mem) = SS_CLOSE" "sk_handle (CSocketImpl h now rate mem) = h"
  by (simp_all add: line_free_def CSocketImpl_def CFlowQueue_def fq_content_def CPacing_def)

definition new_sock :: "handle \<Rightarrow> sock \<Rightarrow> bool" where
  "new_sock h k \<longleftrightarrow> (\<exists>now rate mem. k = CSocketImpl h now rate mem)"

lemma new_sockI [simp]: "new_sock h (CSocketImpl h now rate mem)"
  by (auto simp: new_sock_def)

lemma GetSocket_new:
  assumes "hd_socket_map s h = None"
  shows "\<exists>now tool. GetSocket mem h s = (CSocketImpl h now (mem_rate mem) (mem_bbr mem),
    s\<lparr>hd_socket_map := (hd_socket_map s)(h \<mapsto> CSocketImpl h now (mem_rate mem) (mem_bbr mem)),
      hd_net := (hd_net s)\<lparr>nt_time_stamp := tool\<rparr>\<rparr>)"
  using assms by (auto simp: GetSocket_def Let_def split: prod.splits)

text \<open>A message in the queue of the process thread whose socket is new.\<close>

definition queued :: "handle \<Rightarrow> msg \<Rightarrow> msg_ref \<Rightarrow> hudp \<Rightarrow> hudp \<Rightarrow> bool" where
  "queued h x m s s' \<longleftrightarrow> tq_block_queue (hd_process s') = [Some m] \<and> nt_store (hd_net s') m = x \<and>
     (\<exists>k. hd_socket_map s' h = Some k \<and> new_sock h k) \<and>
     nt_random (hd_net s') = nt_random (hd_net s) \<and> nt_random_pos (hd_net s') = nt_random_pos (hd_net s) \<and>
     hd_sent s' = hd_sent s \<and> hd_app s' = hd_app s \<and> hd_filter_task s' = hd_filter_task s \<and>
     hd_connect_back s' = hd_connect_back s"

lemma new_msg_blank:
  assumes run: "pool_run used (nt_store (hd_net s), nt_pool (hd_net s))" and new: "new_msg s = (m, s')"
  shows "blank (nt_store (hd_net s') m)"
    "\<exists>\<sigma> p. s' = s\<lparr>hd_net := (hd_net s)\<lparr>nt_store := \<sigma>, nt_pool := p\<rparr>\<rparr>"
proof -
  obtain \<sigma> p where create: "CreateMsg (nt_store (hd_net s), nt_pool (hd_net s)) = (m, \<sigma>, p)"
    and s': "s' = s\<lparr>hd_net := (hd_net s)\<lparr>nt_store := \<sigma>, nt_pool := p\<rparr>\<rparr>"
    using new by (auto simp: new_msg_def split: prod.splits)
  show "blank (nt_store (hd_net s') m)" using CreateMsg_inv(3) [OF pool_run_inv [OF run] create] s' by simp
  show "\<exists>\<sigma> p. s' = s\<lparr>hd_net := (hd_net s)\<lparr>nt_store := \<sigma>, nt_pool := p\<rparr>\<rparr>" using s' by blast
qed

lemma SendTo_first:
  assumes idle: "idle h s" and body: "length body \<le> 400"
  shows "\<exists>m x s'. hd_SendTo mem h flag body u s = Some (HEC_SUCCESS, s') \<and> blank x \<and>
    queued h (upper_msg h flag body u x) m s s'"
proof -
  have map: "hd_socket_map s h = None" and q: "tq_block_queue (hd_process s) = []" "0 < tq_list_size (hd_process s)"
    using idle by (simp_all add: idle_def)
  obtain now tool where get: "GetSocket mem h s = (CSocketImpl h now (mem_rate mem) (mem_bbr mem),
      s\<lparr>hd_socket_map := (hd_socket_map s)(h \<mapsto> CSocketImpl h now (mem_rate mem) (mem_bbr mem)),
        hd_net := (hd_net s)\<lparr>nt_time_stamp := tool\<rparr>\<rparr>)" (is "_ = (?k, ?s1)")
    using GetSocket_new [OF map] by blast
  obtain m s2 where new: "new_msg ?s1 = (m, s2)" by (rule prod.exhaust)
  obtain used where "pool_run used (nt_store (hd_net ?s1), nt_pool (hd_net ?s1))"
    using idle by (auto simp: idle_def)
  note s2 = new_msg_blank [OF this new]
  let ?x = "nt_store (hd_net s2) m"
  have "CanSendMessage (?k, hd_net ?s1)" by (simp add: CanSendMessage_def new_socket)
  then have "hd_SendTo mem h flag body u s =
      map_option (Pair HEC_SUCCESS) (push_process (Some m) (put_msg m (upper_msg h flag body u ?x) s2))"
    using body get new by (simp add: hd_SendTo_def msg_body_size_def mtu_def hudp_header_size_def upper_msg_def)
  then have "\<exists>s'. hd_SendTo mem h flag body u s = Some (HEC_SUCCESS, s') \<and> queued h (upper_msg h flag body u ?x) m s s'"
    using s2(2) q by (auto simp: push_process_def put_msg_def tq_Push_def queued_def)
  then show ?thesis using s2(1) by blast
qed

lemma process_send_first:
  assumes q: "queued h x m s s1"
    and x: "plain x" "m_socket x = Some h" "m_ip_port x = h" "m_body x \<noteq> []"
    and flag: "has_flag (msg_GetFlag x) msg_with_out_id" "\<not> has_flag (msg_GetFlag x) msg_is_only_ack"
      "\<not> has_flag (msg_GetFlag x) msg_recv"
  shows "\<exists>s2 y. process_Run e s1 = Some s2 \<and> hd_sent s2 = hd_sent s @ [(h, msg_bytes (m_head y) (m_body y))] \<and>
    datagram_of (if in_wnd x then msg_SetId (nt_random (hd_net s) (nt_random_pos (hd_net s)) + 1) x else x) y"
proof -
  obtain now rate mem where k: "hd_socket_map s1 h = Some (CSocketImpl h now rate mem)"
    using q by (auto simp: queued_def new_sock_def)
  let ?s1 = "s1\<lparr>hd_process := (hd_process s1)\<lparr>tq_block_queue := []\<rparr>\<rparr>"
  let ?st = "(CSocketImpl h now rate mem, (hd_net s1)\<lparr>nt_out := []\<rparr>)"
  have m: "the_msg m ?st = x" using q by (simp add: queued_def the_msg_def)
  obtain st' y where send: "SendMessage (call_env e ?s1) m ?st = Some st'" "datagram_of (first_msg ?st x) y"
    "nt_out (snd st') = [CallNet h (msg_bytes (m_head y) (m_body y))]"
    using SendMessage_fresh [of ?st m "call_env e ?s1"] x flag by (auto simp: m new_socket)
  have "process_Run e s1 = on_socket h (SendMessage (call_env e ?s1) m) ?s1"
    using q x(2) flag(3) by (simp add: process_Run_def queued_def tq_Pop_def Let_def)
  also have "\<dots> = Some (?s1\<lparr>hd_socket_map := (hd_socket_map s1)(h \<mapsto> fst st'), hd_net := (snd st')\<lparr>nt_out := []\<rparr>,
      hd_sent := hd_sent s1 @ [(h, msg_bytes (m_head y) (m_body y))]\<rparr>)"
    using k send(1,3) by (cases st') (simp add: on_socket_def do_call_def)
  finally have run: "\<exists>s2. process_Run e s1 = Some s2 \<and> hd_sent s2 = hd_sent s1 @ [(h, msg_bytes (m_head y) (m_body y))]"
    by simp
  moreover have "first_msg ?st x = (if in_wnd x then msg_SetId (nt_random (hd_net s) (nt_random_pos (hd_net s)) + 1) x else x)"
    using q by (simp add: first_msg_def first_id_def GetNextId_def CIncrementalId_def queued_def Let_def)
  moreover have "hd_sent s1 = hd_sent s" using q by (simp add: queued_def)
  ultimately show ?thesis using send(2) by auto
qed

section \<open>The receiving side\<close>

lemma datagram_flags:
  assumes y: "datagram_of x y"
  shows "has_flag (msg_GetHeaderFlag y) HPF_WITH_BODY = has_flag (msg_GetHeaderFlag x) HPF_WITH_BODY"
    "has_flag (msg_GetHeaderFlag y) HPF_RST = has_flag (msg_GetHeaderFlag x) HPF_RST"
    "has_flag (msg_GetHeaderFlag y) HPF_FIN = has_flag (msg_GetHeaderFlag x) HPF_FIN"
    "has_flag (msg_GetHeaderFlag y) HPF_FIN_ACK = has_flag (msg_GetHeaderFlag x) HPF_FIN_ACK"
    "has_flag (msg_GetHeaderFlag y) HTF_RELIABLE = has_flag (msg_GetHeaderFlag x) HTF_RELIABLE"
proof -
  have "ctl y = ctl x" using y by (simp add: datagram_of_def)
  note same = has_flag_ctl [OF this]
  show "has_flag (msg_GetHeaderFlag y) HPF_RST = has_flag (msg_GetHeaderFlag x) HPF_RST"
    "has_flag (msg_GetHeaderFlag y) HPF_FIN = has_flag (msg_GetHeaderFlag x) HPF_FIN"
    "has_flag (msg_GetHeaderFlag y) HPF_FIN_ACK = has_flag (msg_GetHeaderFlag x) HPF_FIN_ACK"
    "has_flag (msg_GetHeaderFlag y) HTF_RELIABLE = has_flag (msg_GetHeaderFlag x) HTF_RELIABLE"
    by (rule same, simp add: ctl_flags_def head_flag_defs)+
  show "has_flag (msg_GetHeaderFlag y) HPF_WITH_BODY = has_flag (msg_GetHeaderFlag x) HPF_WITH_BODY"
    using y by (simp add: datagram_of_def msg_GetHeaderFlag_def)
qed

lemma RecvMsgFromNet_first:
  assumes idle: "idle h s" and y: "datagram_of x y"
  shows "\<exists>m z s'. RecvMsgFromNet mem h (msg_bytes (m_head y) (m_body y)) s = Some s' \<and> queued h z m s s' \<and>
    m_head z = m_head y \<and> m_body z = m_body y \<and> m_socket z = Some h \<and> has_flag (msg_GetFlag z) msg_recv"
proof -
  obtain used where run: "pool_run used (nt_store (hd_net s), nt_pool (hd_net s))"
    and map: "hd_socket_map s h = None" and q: "tq_block_queue (hd_process s) = []" "0 < tq_list_size (hd_process s)"
    using idle by (auto simp: idle_def)
  obtain m s1 where new: "new_msg s = (m, s1)" by (rule prod.exhaust)
  note s1 = new_msg_blank [OF run new]
  let ?b = "nt_store (hd_net s1) m"
  have "head_empty (m_head ?b)" using s1(1) by (simp add: blank_def)
  moreover have "parsed_head (m_head y) (m_head ?b) = m_head y"
    using y by (simp add: parsed_head_def datagram_of_def)
  ultimately have parse: "msg_InitWithBuffer (msg_bytes (m_head y) (m_body y)) ?b = Some (True, ?b\<lparr>m_head := m_head y, m_body := m_body y\<rparr>)"
    using wire_round_trip_bytes(2) [of y ?b] datagram_of_wire [OF y] by simp
  let ?x = "msg_SetHandle h (msg_SetFlag msg_recv (?b\<lparr>m_head := m_head y, m_body := m_body y\<rparr>))"
  let ?z = "msg_SetSocket h ?x"
  have "hd_socket_map (put_msg m ?x s1) h = None" using s1(2) map by (auto simp: put_msg_def)
  from GetSocket_new [OF this, of mem] obtain now tool where
    get: "GetSocket mem h (put_msg m ?x s1) = (CSocketImpl h now (mem_rate mem) (mem_bbr mem),
      (put_msg m ?x s1)\<lparr>hd_socket_map := (hd_socket_map (put_msg m ?x s1))(h \<mapsto> CSocketImpl h now (mem_rate mem) (mem_bbr mem)),
        hd_net := (hd_net (put_msg m ?x s1))\<lparr>nt_time_stamp := tool\<rparr>\<rparr>)" by blast
  have "\<exists>s'. RecvMsgFromNet mem h (msg_bytes (m_head y) (m_body y)) s = Some s' \<and> queued h ?z m s s'"
    using new parse get s1(2) q by (auto simp: RecvMsgFromNet_def put_msg_def push_process_def tq_Push_def queued_def)
  moreover have "has_flag (msg_GetFlag ?z) msg_recv"
    using s1(1) by (simp add: blank_def msg_GetFlag_def msg_SetFlag_def msg_SetHandle_def msg_SetSocket_def has_flag_def local_flag_defs)
  moreover have "m_head ?z = m_head y" "m_body ?z = m_body y" "m_socket ?z = Some h"
    by (simp_all add: msg_SetFlag_def msg_SetHandle_def msg_SetSocket_def)
  ultimately show ?thesis by blast
qed

lemma process_recv_first:
  assumes q: "queued h z m s s1"
    and z: "plain z" "m_socket z = Some h" "m_body z \<noteq> []" "has_flag (msg_GetFlag z) msg_recv"
    and flags: "has_flag (msg_GetHeaderFlag z) HPF_WITH_BODY" "\<not> has_flag (msg_GetHeaderFlag z) HPF_RST"
      "\<not> has_flag (msg_GetHeaderFlag z) HPF_FIN" "\<not> has_flag (msg_GetHeaderFlag z) HPF_FIN_ACK"
      "has_flag (msg_GetHeaderFlag z) HTF_RELIABLE \<Longrightarrow> msg_GetId z \<noteq> 0"
    and room: "length (tq_block_queue (hd_filter_task s)) < tq_list_size (hd_filter_task s)"
  shows "\<exists>s2. process_Run e s1 = Some s2 \<and>
    tq_block_queue (hd_filter_task s2) = tq_block_queue (hd_filter_task s) @
      [\<lparr>fp_filter_type = FILTER_RECV, fp_handle = h, fp_flag = ucast (msg_GetHeaderFlag z), fp_body = m_body z, fp_upper_id = 0\<rparr>] \<and>
    hd_app s2 = hd_app s @ (if hd_connect_back s then [AppConnect h HEC_SUCCESS] else [])"
proof -
  obtain now rate mem where k: "hd_socket_map s1 h = Some (CSocketImpl h now rate mem)"
    using q by (auto simp: queued_def new_sock_def)
  let ?s1 = "s1\<lparr>hd_process := (hd_process s1)\<lparr>tq_block_queue := []\<rparr>\<rparr>"
  let ?st = "(CSocketImpl h now rate mem, (hd_net s1)\<lparr>nt_out := []\<rparr>)"
  have m: "the_msg m ?st = z" using q by (simp add: queued_def the_msg_def)
  obtain st' where recv: "RecvMessage (call_env e ?s1) m ?st = Some st'"
    "nt_out (snd st') = [CallNewConnect h HEC_SUCCESS, CallRecvFilter h (ucast (msg_GetHeaderFlag z)) (m_body z)]"
    using RecvMessage_first [of ?st m "msg_GetHeaderFlag z" "call_env e ?s1"] z flags by (auto simp: m new_socket)
  have "process_Run e s1 = on_socket h (RecvMessage (call_env e ?s1) m) ?s1"
    using q z(2,4) by (simp add: process_Run_def queued_def tq_Pop_def Let_def)
  also have "\<dots> = do_calls (nt_out (snd st')) (?s1\<lparr>hd_socket_map := (hd_socket_map s1)(h \<mapsto> fst st'), hd_net := (snd st')\<lparr>nt_out := []\<rparr>\<rparr>)"
    using k recv(1) by (cases st') (simp add: on_socket_def)
  finally show ?thesis
    using q room by (simp add: recv(2) do_call_def queued_def PushRecvMsg_thread_def tq_Push_def)
qed

section \<open>Properties\<close>

text \<open>
  C5. From end to end: between two programs that do not know each other yet, \<open>SendTo\<close> with a body of
  1 to 400 bytes in any class and priority and a turn of the process thread put one datagram on
  the net; if it arrives, the receive thread and a turn of the process thread of the other side
  hand exactly this body to its filters and announce the connection to the application once. The
  exception is a message that is only reliable and happens to get the number 0.
\<close>

theorem first_message_delivered:
  assumes A: "idle hB sA" and B: "idle hA sB"
    and room: "length (tq_block_queue (hd_filter_task sB)) < tq_list_size (hd_filter_task sB)"
    and body: "body \<noteq> []" "length body \<le> 400" and flag: "app_flag_ok flag"
    and number: "has_flag (ucast flag) HTF_RELIABLE \<Longrightarrow> nt_random (hd_net sA) (nt_random_pos (hd_net sA)) + 1 \<noteq> 0"
  shows "\<exists>sA1 sA2 bytes sB1 sB2 f. hd_SendTo memA hB flag body u sA = Some (HEC_SUCCESS, sA1) \<and>
    process_Run eA sA1 = Some sA2 \<and> hd_sent sA2 = hd_sent sA @ [(hB, bytes)] \<and>
    RecvMsgFromNet memB hA bytes sB = Some sB1 \<and> process_Run eB sB1 = Some sB2 \<and>
    tq_block_queue (hd_filter_task sB2) = tq_block_queue (hd_filter_task sB) @
      [\<lparr>fp_filter_type = FILTER_RECV, fp_handle = hA, fp_flag = f, fp_body = body, fp_upper_id = 0\<rparr>] \<and>
    hd_app sB2 = hd_app sB @ (if hd_connect_back sB then [AppConnect hA HEC_SUCCESS] else [])"
proof -
  obtain m x sA1 where send: "hd_SendTo memA hB flag body u sA = Some (HEC_SUCCESS, sA1)" and blank: "blank x"
    and qA: "queued hB (upper_msg hB flag body u x) m sA sA1"
    using SendTo_first [OF A body(2)] by blast
  let ?x = "upper_msg hB flag body u x" and ?i = "nt_random (hd_net sA) (nt_random_pos (hd_net sA)) + 1"
  note plain = upper_msg_plain [OF blank flag body(2)] and flags = upper_msg_flags [OF blank flag]
  define x1 where "x1 = (if in_wnd ?x then msg_SetId ?i ?x else ?x)"
  obtain sA2 y where out: "process_Run eA sA1 = Some sA2" "hd_sent sA2 = hd_sent sA @ [(hB, msg_bytes (m_head y) (m_body y))]"
    and y: "datagram_of x1 y"
    using process_send_first [OF qA plain _ _ _ upper_msg_local [OF blank], of eA] body(1) unfolding x1_def upper_msg_parts by blast
  obtain m' z sB1 where inn: "RecvMsgFromNet memB hA (msg_bytes (m_head y) (m_body y)) sB = Some sB1"
    and qB: "queued hA z m' sB sB1" and z: "m_head z = m_head y" "m_body z = m_body y" "m_socket z = Some hA"
      "has_flag (msg_GetFlag z) msg_recv"
    using RecvMsgFromNet_first [OF B y] by blast
  have x1: "m_body x1 = body" by (simp add: x1_def msg_SetId_def)
  have "has_flag (msg_GetHeaderFlag x1) g = has_flag (msg_GetHeaderFlag ?x) g" if "\<not> has_flag HPF_WITH_ID g" for g
    using that by (cases "in_wnd ?x") (simp_all add: x1_def msg_SetId_def SetId_def msg_GetHeaderFlag_def has_flag_or)
  then have f1: "has_flag (msg_GetHeaderFlag x1) g = has_flag (msg_GetHeaderFlag ?x) g"
    if "g \<in> {HPF_WITH_BODY, HPF_RST, HPF_FIN, HPF_FIN_ACK, HTF_RELIABLE}" for g
    using that by (auto simp: has_flag_def head_flag_defs)
  note fz = datagram_flags [OF y]
  have zf: "msg_GetHeaderFlag z = msg_GetHeaderFlag y" "msg_GetId z = msg_GetId y"
    by (simp_all add: msg_GetHeaderFlag_def msg_GetId_def z(1))
  have "plain y" using y by (simp add: datagram_of_def)
  then have "plain z" unfolding plain_def z(1,2) .
  moreover have "m_body z = body" using y z(2) x1 by (simp add: datagram_of_def)
  moreover have "msg_GetId z \<noteq> 0" if "has_flag (msg_GetHeaderFlag z) HTF_RELIABLE"
  proof -
    have rel: "has_flag (msg_GetHeaderFlag ?x) HTF_RELIABLE"
      using that f1 [of HTF_RELIABLE] by (simp add: zf fz)
    then have "msg_GetId x1 = ?i" by (simp add: x1_def in_wnd_def msg_GetId_def msg_SetId_def SetId_def)
    then show ?thesis using y number rel flags(5) by (simp add: zf datagram_of_def)
  qed
  ultimately obtain sB2 where "process_Run eB sB1 = Some sB2"
    "tq_block_queue (hd_filter_task sB2) = tq_block_queue (hd_filter_task sB) @
      [\<lparr>fp_filter_type = FILTER_RECV, fp_handle = hA, fp_flag = ucast (msg_GetHeaderFlag z), fp_body = body, fp_upper_id = 0\<rparr>]"
    "hd_app sB2 = hd_app sB @ (if hd_connect_back sB then [AppConnect hA HEC_SUCCESS] else [])"
    using process_recv_first [OF qB, of eB] z(3,4) body(1) room flags f1 by (simp add: zf fz) blast
  then show ?thesis using send out inn by blast
qed

theorem first_message_delivered_witness:
  "\<exists>sA1 sA2 bytes sB1 sB2 f. hd_SendTo sample_memory_of ''10.0.0.1:9'' 0x84 [1, 2] 3 sample_hudp = Some (HEC_SUCCESS, sA1) \<and>
    process_Run sample_env sA1 = Some sA2 \<and> hd_sent sA2 = [(''10.0.0.1:9'', bytes)] \<and>
    RecvMsgFromNet sample_memory_of ''10.0.0.2:9'' bytes sample_hudp = Some sB1 \<and> process_Run sample_env sB1 = Some sB2 \<and>
    map fp_body (tq_block_queue (hd_filter_task sB2)) = [[1, 2]]"
proof -
  have idle: "idle h sample_hudp" for h
    using pool_start by (auto simp: idle_def sample_hudp_simps CTaskQueue_def)
  have rest: "hd_sent sample_hudp = []" "tq_block_queue (hd_filter_task sample_hudp) = []"
    "0 < tq_list_size (hd_filter_task sample_hudp)"
    by (simp_all add: sample_hudp_def CHudpImpl_def CTaskQueue_def)
  have "app_flag_ok 0x84" "\<not> has_flag (ucast (0x84 :: u16)) HTF_RELIABLE"
    by (simp_all add: app_flag_ok_def app_flags_def has_flag_def head_flag_defs)
  with first_message_delivered [OF idle [of "''10.0.0.1:9''"] idle [of "''10.0.0.2:9''"], of "[1, 2]" "0x84"
      sample_memory_of 3 sample_env sample_memory_of sample_env]
  show ?thesis using rest by fastforce
qed

end
