(* ===== verification/Spec2Isabelle.thy ===== *)
theory Spec2Isabelle
  imports Calendar Log Buffer Pool_Shared_Ptr Config_File Any_Value Pend_Ack Send_Wnd Order_List Task_Queue Flow_Queue Rto Pacing
    Flow_Slicing Filter_Process Minmax Bbr Msg_Pool Socket_Impl Socket_Frame Socket_Correct
    Socket_Traffic Socket_Close Socket_Control Hudp_Impl Hudp_Correct End_To_End
begin

text \<open>
  Hudp: reliable and ordered messages over UDP. This library models the program under
  \<^verbatim>\<open>src/\<close> (C++) and proves what its parts and the whole of it do. It models the code as it is
  written, with its faults; a theorem about a fault states what really happens.

  \<^bold>\<open>The program.\<close> The application hands a body to \<^verbatim>\<open>hudp::SendTo\<close>. The filter thread passes it
  through the chain of filters (head, compression, slicing into bodies of at most 400 bytes); the
  last filter calls \<^verbatim>\<open>CHudpImpl::SendTo\<close>, which queues a message for the process thread. That
  thread calls \<^verbatim>\<open>CSocketImpl::SendMessage\<close>: one of three send windows numbers and keeps the message,
  as far as the window set by the BBR controller has room, else the priority queue keeps it; the
  flow queue and the pacing hand it to the net with the pending acknowledgements attached. A
  datagram that arrives is parsed by the receive thread and queued for the process thread, which
  calls \<^verbatim>\<open>CSocketImpl::RecvMessage\<close>: acknowledgements go to the send windows, the round-trip time
  and the controller, the message goes to one of the three receive lists, which deliver its body
  to the filter thread and, through the chain in the other direction, to the application. FIN,
  FIN-ACK and RST flags drive the status of the connection; two timer threads hand messages back
  to the socket for resending, delayed acknowledgements, pacing and the final wait.

  \<^bold>\<open>Theories\<close> (each below those it uses).
  \<^item> \<open>Hudp_Prelude\<close>, \<open>Std_Map\<close>, \<open>Hudp_Config\<close>: bytes of integers (locale \<open>byte_codec\<close>), flags as bits;
    the ordered map of the standard library (locale \<open>ordered_map\<close>); the constants of
    \<^verbatim>\<open>HudpConfig.h\<close>, \<^verbatim>\<open>HudpFlag.h\<close>, \<^verbatim>\<open>CommonFlag.h\<close>, \<^verbatim>\<open>IMsg.h\<close>.
  \<^item> \<open>Bit_Stream\<close>, \<open>Msg_Head\<close>, \<open>Serializes\<close>, \<open>Serializes_Correct\<close>, \<open>Deserialize_Correct\<close>, \<open>Msg_Impl\<close>: the
    wire format. \<open>msg_bytes\<close> is what a message looks like on the wire; the serialiser writes it,
    the parser reads it back, rejects what is cut off and never leaves its buffer.
  \<^item> \<open>Incremental_Id\<close>, \<open>Priority_Queue\<close> (locale \<open>message_queue\<close>), \<open>Send_Wnd\<close>: message numbers, the four
    classes, the window as a step relation with its invariant and the conservation of messages.
  \<^item> \<open>Order_List\<close> (locale \<open>recv_list\<close>): the receive lists; \<open>Pend_Ack\<close>: acknowledgements to send.
  \<^item> \<open>Task_Queue\<close> (locale \<open>fifo\<close>), \<open>Time_Tool\<close>, \<open>Timer\<close>, \<open>Rto\<close>, \<open>Flow_Queue\<close>, \<open>Pacing\<close>: queues between
    threads, time, the timer, the time-out, what is sent next and when; \<open>Calendar\<close>: the dates of the
    time tool, against a reference calendar that counts the days.
  \<^item> \<open>Memory_Pool\<close> (locale \<open>allocator\<close>), \<open>Loop_Buffer\<close> (locale \<open>byte_stream\<close>), \<open>Log\<close>: of \<^verbatim>\<open>base/\<close>, the
    pools of nodes and of blocks with the bytes in use as a multiset of addresses, the ring buffer as a
    queue of bytes, \<open>Buffer\<close>: a chain of such buffers on a heap of nodes, and the log that uses the pool, the calendar and the queue between threads;
    \<open>Pool_Shared_Ptr\<close>: shared and weak pointers to objects of the pool; \<open>Config_File\<close>: the reader of
    configuration files; \<open>Any_Value\<close>: objects that hold a value of any type, as values.
  \<^item> \<open>Minmax\<close>, \<open>Bbr\<close>: the controller with its windowed maximum.
  \<^item> \<open>Msg_Pool\<close>: free messages. A message is a number (\<open>msg_ref\<close>) into a store that all components
    share, as they share the pointers in the program.
  \<^item> \<open>Socket_Impl\<close>: a connection. \<open>Socket_Frame\<close> shows what its operations leave alone, \<open>Socket_Correct\<close>
    its life and its invariant, \<open>Socket_Traffic\<close> what the first message of a connection does on
    both sides, \<open>Socket_Close\<close> how a connection ends, \<open>Socket_Control\<close> how acknowledgements set the
    window.
  \<^item> \<open>Flow_Slicing\<close>, \<open>Filter_Process\<close>: the filters, their chain and their thread.
  \<^item> \<open>Hudp_Impl\<close>: socket manager, \<^verbatim>\<open>CHudpImpl\<close>, the functions of the library, the turns of the
    threads, on one state of the program; \<open>Hudp_Correct\<close>: its invariant over all of them;
    \<open>End_To_End\<close>: two programs and the message between them.

  \<^bold>\<open>How the code is rendered.\<close> A class is a record with the names of its members (a prefix per
  class), a method a function from the state to the result and the new state; \<open>None\<close> is undefined
  behaviour, or for the queues between threads a call that has to wait. Integers are words of
  their width with the conversions of the code, but for the lengths, positions, sizes and counters of
  the buffers, pools, pointers, the log and the calendar of \<^verbatim>\<open>base/\<close>: they are unbounded, and what the
  code does when its \<open>int\<close> overflows there is not modelled. A \<open>std::map\<close> is a sorted association list
  where its order matters. Where
  one class calls back into another, the call is part of the result (\<open>wnd_call\<close>, \<open>pacing_call\<close>,
  \<open>out_call\<close>) and is carried out by the caller after the operation, in the same order; the
  operations do not look at what these calls change. Parameters of the model: the clock, the
  random start numbers, the order in which \<open>begin()\<close> of an \<open>unordered_map\<close> looks (any choice of an
  element), \<open>std::sort\<close> (any sorting function), the compression library (assumed to invert itself
  where a theorem says so), the answers of the operating system and of the application, and the
  content of memory that the constructors leave uninitialised.

  \<^bold>\<open>Loops and bounds.\<close> No definition uses fuel. The loops of the window, of the lists, of the
  parser and of the timer are recursive functions with a termination proof: the size of the
  priority queue, the number of filled slots, the length of the lists. The queues between threads
  hold at most \<open>INT_MAX\<close> elements, the default of their constructor.

  \<^bold>\<open>Properties\<close> are theorems with their number in the text in front of them. Below the program as a
  whole they say: for the wire format, that it round-trips, rejects what is cut off, stays within its
  buffer and is as long as estimated; for the windows, queues and lists, what is kept, delivered,
  in which order and how often; for a socket, its invariant, its life and what acknowledgements do
  to its window; for the filters, that slices are put together again and the chain gives back the
  bodies it got; for the controller, its bounds and which of its modes are ever reached. For the whole
  program: the invariant over every operation and turn, what \<^verbatim>\<open>SendTo\<close>, \<^verbatim>\<open>Init\<close> and \<^verbatim>\<open>Start\<close>
  return and do, and the way of a message from one side to the other.

  \<^bold>\<open>Not modelled.\<close> Starting and joining of threads and the task lists of \<^verbatim>\<open>base/\<close> that post to them, the system
  calls of \<^verbatim>\<open>net/unix\<close> and \<^verbatim>\<open>net/win\<close>, the destructors of the bit streams (which give their block back the
  wrong way). The calls that
  write log lines are left out of the models of their callers. A turn of a
  thread and a call of the application are atomic: races between threads inside an operation are
  outside of the model, as is the moment at which the last shared pointer to a message goes
  (\<open>SharedPtrDeleter\<close> is modelled by itself; within an operation nothing is given back).
\<close>

end
